(* ===== verification/Prelude.thy ===== *)
theory Prelude
  imports Main "HOL-Library.Word" "HOL-Library.List_Lexorder"
    "HOL-Library.Product_Lexorder" "HOL-Library.Monad_Syntax"
begin

unbundle bit_operations_syntax

text \<open>
  Shared vocabulary of the development: the machine types of the C++ sources, the
  checked access to fixed-size arrays (\<^verbatim>\<open>std::array::at\<close>), insertion into and deletion
  from lists by position, and the nibble view of 64-bit words that the permutation of a
  border node is packed into.
\<close>

section \<open>Types and collections\<close>

type_synonym byte = "8 word"
type_synonym addr = "64 word"

abbreviation (input) nullptr :: addr where
  "nullptr \<equiv> 0"

named_theorems version_simps \<open>field equations of the version word operations\<close>
named_theorems perm_simps \<open>list view of the permutation operations\<close>
named_theorems node_simps \<open>field equations of the node operations\<close>

section \<open>Checked arrays\<close>

text \<open>\<^verbatim>\<open>a.at(i)\<close> throws \<^verbatim>\<open>std::out_of_range\<close> past the end: the value \<open>None\<close>.\<close>

definition at :: "'a list \<Rightarrow> nat \<Rightarrow> 'a option" where
  "at xs i = (if i < length xs then Some (xs ! i) else None)"

definition put_at :: "'a list \<Rightarrow> nat \<Rightarrow> 'a \<Rightarrow> 'a list option" where
  "put_at xs i v = (if i < length xs then Some (xs[i := v]) else None)"

lemma at_Some [simp]: "i < length xs \<Longrightarrow> at xs i = Some (xs ! i)"
  by (simp add: at_def)

lemma put_at_Some [simp]: "i < length xs \<Longrightarrow> put_at xs i v = Some (xs[i := v])"
  by (simp add: put_at_def)

lemma at_eq_Some: "at xs i = Some v \<longleftrightarrow> i < length xs \<and> xs ! i = v"
  by (simp add: at_def)

lemma put_at_eq_Some: "put_at xs i v = Some ys \<longleftrightarrow> i < length xs \<and> ys = xs[i := v]"
  by (auto simp: put_at_def)

section \<open>Insertion and deletion by position\<close>

definition ins_at :: "nat \<Rightarrow> 'a \<Rightarrow> 'a list \<Rightarrow> 'a list" where
  "ins_at i x xs = take i xs @ x # drop i xs"

definition del_at :: "nat \<Rightarrow> 'a list \<Rightarrow> 'a list" where
  "del_at i xs = take i xs @ drop (Suc i) xs"

lemma length_ins_at [simp]: "i \<le> length xs \<Longrightarrow> length (ins_at i x xs) = Suc (length xs)"
  by (simp add: ins_at_def)

lemma length_del_at [simp]: "i < length xs \<Longrightarrow> length (del_at i xs) = length xs - 1"
  by (simp add: del_at_def)

lemma set_ins_at [simp]: "set (ins_at i x xs) = insert x (set xs)"
proof -
  have "set xs = set (take i xs) \<union> set (drop i xs)"
    by (metis append_take_drop_id set_append)
  then show ?thesis by (auto simp: ins_at_def)
qed

lemma take_drop_split: obtains ys zs where "xs = ys @ zs" "take i xs = ys" "drop i xs = zs"
  by (metis append_take_drop_id)

lemma distinct_ins_at: "distinct (ins_at i x xs) \<longleftrightarrow> x \<notin> set xs \<and> distinct xs"
proof (rule take_drop_split [of xs i])
  fix ys zs assume "xs = ys @ zs" "take i xs = ys" "drop i xs = zs"
  then show ?thesis by (auto simp: ins_at_def)
qed

lemma set_del_at_subset: "set (del_at i xs) \<subseteq> set xs"
  by (auto simp: del_at_def dest: in_set_takeD in_set_dropD)

lemma distinct_del_at: "distinct xs \<Longrightarrow> distinct (del_at i xs)"
  by (simp add: del_at_def set_take_disj_set_drop_if_distinct)

lemma set_del_at:
  assumes "distinct xs" and "i < length xs"
  shows "set (del_at i xs) = set xs - {xs ! i}"
proof -
  have e: "xs = take i xs @ xs ! i # drop (Suc i) xs"
    using assms(2) by (rule id_take_nth_drop)
  then have "distinct (take i xs @ xs ! i # drop (Suc i) xs)" using assms(1) by simp
  moreover have "set xs = set (take i xs) \<union> {xs ! i} \<union> set (drop (Suc i) xs)"
    using e by (metis Un_insert_right list.simps(15) set_append sup_bot_right Un_assoc insert_is_Un)
  ultimately show ?thesis by (auto simp: del_at_def)
qed

lemma nth_ins_at:
  "i \<le> length xs \<Longrightarrow> j \<le> length xs \<Longrightarrow>
   ins_at i x xs ! j = (if j < i then xs ! j else if j = i then x else xs ! (j - 1))"
  by (cases "j - i") (auto simp: ins_at_def nth_append nth_Cons min_def split: nat.splits
      intro: arg_cong [where f = "nth xs"])

lemma nth_del_at:
  "i < length xs \<Longrightarrow> j < length xs - 1 \<Longrightarrow>
   del_at i xs ! j = (if j < i then xs ! j else xs ! Suc j)"
  by (auto simp: del_at_def nth_append min_def)

lemma del_at_ins_at [simp]: "i \<le> length xs \<Longrightarrow> del_at i (ins_at i x xs) = xs"
  by (simp add: del_at_def ins_at_def)

lemma ins_at_map: "ins_at i (f x) (map f xs) = map f (ins_at i x xs)"
  by (simp add: ins_at_def take_map drop_map)

lemma del_at_map: "del_at i (map f xs) = map f (del_at i xs)"
  by (simp add: del_at_def take_map drop_map)

lemma mset_free_nth_ins_at_self [simp]: "i \<le> length xs \<Longrightarrow> ins_at i x xs ! i = x"
  by (simp add: ins_at_def nth_append)

lemma drop_prev: "0 < j \<Longrightarrow> j \<le> length xs \<Longrightarrow> drop (j - 1) xs = xs ! (j - 1) # drop j xs"
  using Cons_nth_drop_Suc [of "j - 1" xs] by simp

lemma const_fun_upd [simp]: "(\<lambda>_. a)(x := a) = (\<lambda>_. a)"
  by auto

section \<open>Loops that may fail\<close>

text \<open>
  \<open>foldM f xs s\<close> runs the loop body \<open>f\<close> for the elements of \<open>xs\<close> in turn; the first
  failing iteration ends the loop with \<open>None\<close>.
\<close>

fun foldM :: "('a \<Rightarrow> 's \<Rightarrow> 's option) \<Rightarrow> 'a list \<Rightarrow> 's \<Rightarrow> 's option" where
  "foldM f [] s = Some s"
| "foldM f (x # xs) s = f x s \<bind> foldM f xs"

lemma foldM_append: "foldM f (xs @ ys) s = foldM f xs s \<bind> foldM f ys"
  by (induction xs arbitrary: s) (auto split: bind_splits)

lemma foldM_Some:
  assumes "P s" and "\<And>x s. x \<in> set xs \<Longrightarrow> P s \<Longrightarrow> f x s = Some (g x s) \<and> P (g x s)"
  shows "foldM f xs s = Some (fold g xs s) \<and> P (fold g xs s)"
  using assms by (induction xs arbitrary: s) auto

lemma bind_eq_Some: "(m \<bind> f) = Some y \<longleftrightarrow> (\<exists>x. m = Some x \<and> f x = Some y)"
  by (cases m) auto

section \<open>Nibbles of a 64-bit word\<close>

definition nibble :: "64 word \<Rightarrow> nat \<Rightarrow> nat" where
  "nibble w i = unat (take_bit 4 (drop_bit (4 * i) w))"

lemma nibble_less [simp]: "nibble w i < 16"
proof -
  have "take_bit 4 (unat (drop_bit (4 * i) w)) < 2 ^ 4"
    by (rule take_bit_nat_less_exp)
  then show ?thesis by (simp add: nibble_def unsigned_take_bit_eq)
qed

lemma nibble_eqI:
  assumes "\<And>j. j < 4 \<Longrightarrow> bit v (4 * i + j) \<longleftrightarrow> bit w (4 * k + j)"
  shows "nibble v i = nibble w k"
proof -
  have "take_bit 4 (drop_bit (4 * i) v) = take_bit 4 (drop_bit (4 * k) w)"
    using assms by (intro bit_word_eqI) (auto simp: bit_simps)
  then show ?thesis by (simp add: nibble_def)
qed

lemma nibble_of_nat:
  assumes "p < 16" and "\<And>j. j < 4 \<Longrightarrow> bit v (4 * i + j) \<longleftrightarrow> bit p j"
  shows "nibble v i = p"
proof -
  have "take_bit 4 (drop_bit (4 * i) v) = (word_of_nat p :: 64 word)"
  proof (rule bit_word_eqI)
    fix n assume n: "n < LENGTH(64)"
    have "\<not> bit p n" if "4 \<le> n"
    proof -
      have "p < 2 ^ n"
        using assms(1) power_increasing [OF that, of "2::nat"] by simp
      then show ?thesis
        by (metis bit_take_bit_iff less_irrefl take_bit_nat_eq_self_iff)
    qed
    with n assms(2) show "bit (take_bit 4 (drop_bit (4 * i) v)) n = bit (word_of_nat p :: 64 word) n"
      by (cases "n < 4") (auto simp: bit_simps)
  qed
  then show ?thesis
    using assms(1) by (simp add: nibble_def unat_of_nat)
qed

lemma bit_nibble: "j < 4 \<Longrightarrow> bit (nibble w i) j \<longleftrightarrow> bit w (4 * i + j)"
  by (simp add: nibble_def bit_simps unsigned_take_bit_eq)

lemma nibble_word_eqI:
  assumes "\<And>i. i < 16 \<Longrightarrow> nibble v i = nibble w i"
  shows "v = w"
proof (rule bit_word_eqI)
  fix n assume "n < LENGTH(64)"
  then have i: "n div 4 < 16" and n: "n = 4 * (n div 4) + n mod 4" by auto
  have "bit (nibble v (n div 4)) (n mod 4) = bit (nibble w (n div 4)) (n mod 4)"
    using assms [OF i] by simp
  then show "bit v n = bit w n"
    using n by (simp add: bit_nibble)
qed

lemma nibble_zero [simp]: "nibble 0 i = 0"
  by (simp add: nibble_def)

end
