(* ===== verification/Scheme.thy ===== *)
theory Scheme
  imports Prelude
begin

text \<open>
  The types and constants of \<^verbatim>\<open>include/scheme.h\<close>: the status codes every operation
  returns, the kinds of scan endpoints, the number of keys of a node and the width of a
  key slice, and the test which value types are stored inline in a slot.
\<close>

type_synonym key_slice_type = "64 word"
type_synonym key_length_type = "8 word"

abbreviation (input) key_slice_length :: nat where
  "key_slice_length \<equiv> 15"

text \<open>\<^verbatim>\<open>sizeof(key_slice_type)\<close>.\<close>

abbreviation (input) slice_size :: nat where
  "slice_size \<equiv> 8"

datatype status =
    WARN_BAD_USAGE
  | WARN_CONCURRENT_OPERATIONS
  | WARN_EXIST
  | WARN_NOT_EXIST
  | WARN_INVALID_TOKEN
  | WARN_RETRY_FROM_ROOT_OF_ALL
  | WARN_STORAGE_NOT_EXIST
  | WARN_MAX_SESSIONS
  | WARN_UNIQUE_RESTRICTION
  | OK
  | OK_DESTROY_ALL
  | OK_DESTROY_BORDER
  | OK_DESTROY_INTERIOR
  | OK_NOT_FOUND
  | OK_RETRY_FETCH_LV
  | OK_RETRY_AFTER_FB
  | OK_RETRY_FROM_ROOT
  | OK_ROOT_IS_DELETED
  | OK_ROOT_IS_NULL
  | OK_SCAN_CONTINUE
  | OK_SCAN_END
  | ERR_ARGUMENT
  | ERR_BAD_USAGE
  | ERR_BOUNDARY
  | ERR_FATAL
  | ERR_UNKNOWN_ROOT

fun to_string_view :: "status \<Rightarrow> string" where
  "to_string_view WARN_BAD_USAGE = ''WARN_BAD_USAGE''"
| "to_string_view WARN_CONCURRENT_OPERATIONS = ''WARN_CONCURRENT_OPERATIONS''"
| "to_string_view WARN_EXIST = ''WARN_EXIST''"
| "to_string_view WARN_NOT_EXIST = ''WARN_NOT_EXIST''"
| "to_string_view WARN_INVALID_TOKEN = ''WARN_INVALID_TOKEN''"
| "to_string_view WARN_RETRY_FROM_ROOT_OF_ALL = ''WARN_RETRY_FROM_ROOT_OF_ALL''"
| "to_string_view WARN_STORAGE_NOT_EXIST = ''WARN_STORAGE_NOT_EXIST''"
| "to_string_view WARN_MAX_SESSIONS = ''WARN_MAX_SESSIONS''"
| "to_string_view WARN_UNIQUE_RESTRICTION = ''WARN_UNIQUE_RESTRICTION''"
| "to_string_view OK = ''OK''"
| "to_string_view OK_DESTROY_ALL = ''OK_DESTROY_ALL''"
| "to_string_view OK_DESTROY_BORDER = ''OK_DESTROY_BORDER''"
| "to_string_view OK_DESTROY_INTERIOR = ''OK_DESTROY_INTERIOR''"
| "to_string_view OK_NOT_FOUND = ''OK_NOT_FOUND''"
| "to_string_view OK_RETRY_FETCH_LV = ''OK_RETRY_FETCH_LV''"
| "to_string_view OK_RETRY_AFTER_FB = ''OK_RETRY_AFTER_FB''"
| "to_string_view OK_RETRY_FROM_ROOT = ''OK_RETRY_FROM_ROOT''"
| "to_string_view OK_ROOT_IS_DELETED = ''OK_ROOT_IS_DELETED''"
| "to_string_view OK_ROOT_IS_NULL = ''OK_ROOT_IS_NULL''"
| "to_string_view OK_SCAN_CONTINUE = ''OK_SCAN_CONTINUE''"
| "to_string_view OK_SCAN_END = ''OK_SCAN_END''"
| "to_string_view ERR_ARGUMENT = ''ERR_ARGUMENT''"
| "to_string_view ERR_BAD_USAGE = ''ERR_BAD_USAGE''"
| "to_string_view ERR_BOUNDARY = ''ERR_BOUNDARY''"
| "to_string_view ERR_FATAL = ''ERR_FATAL''"
| "to_string_view ERR_UNKNOWN_ROOT = ''ERR_UNKNOWN_ROOT''"

text \<open>\<^verbatim>\<open>scan_endpoint::INF\<close> is \<open>INFINITE\<close>: the name \<^verbatim>\<open>INF\<close> is taken in HOL.\<close>

datatype scan_endpoint = EXCLUSIVE | INCLUSIVE | INFINITE

text \<open>
  The C++ types a value may have, as far as \<^verbatim>\<open>is_inlinable\<close> distinguishes them: a pointer
  type, \<^verbatim>\<open>uintptr_t\<close>, or any other type.
\<close>

datatype value_type = Pointer_Type | Uintptr_Type | Other_Type

definition is_inlinable :: "value_type \<Rightarrow> bool" where
  "is_inlinable t = (if t = Pointer_Type \<or> t = Uintptr_Type then True else False)"

text \<open>The printed name identifies the status.\<close>

lemma to_string_view_inj: "to_string_view a = to_string_view b \<Longrightarrow> a = b"
  by (cases a; cases b) simp_all

end
