(* ===== verification/Key_Slice.thy ===== *)
theory Key_Slice
  imports Scheme
begin

text \<open>
  Key slices and their order. A key is a byte string; a node stores the first eight bytes
  of what is left of it as a 64-bit integer (filled by \<^verbatim>\<open>memcpy\<close>, compared by \<^verbatim>\<open>memcmp\<close>
  on its object representation, little-endian on the x86-64 target of the sources) and
  a length that is 9 when the key goes on in the next layer. The theory models
  \<^verbatim>\<open>base_node::key_tuple\<close> and shows that the several ways in which the sources compare
  keys agree with the lexicographic order of the byte strings.
\<close>

section \<open>Bytes of a slice\<close>

definition slice_bytes :: "key_slice_type \<Rightarrow> byte list" where
  "slice_bytes w = map (\<lambda>i. ucast (drop_bit (8 * i) w)) [0..<slice_size]"

fun slice_of_bytes :: "byte list \<Rightarrow> key_slice_type" where
  "slice_of_bytes [] = 0"
| "slice_of_bytes (b # bs) = push_bit 8 (slice_of_bytes bs) OR ucast b"

text \<open>\<^verbatim>\<open>memcpy(&slice, data, n)\<close>: the first \<open>n\<close> bytes of the slice are overwritten.\<close>

definition memcpy_slice :: "key_slice_type \<Rightarrow> byte list \<Rightarrow> nat \<Rightarrow> key_slice_type" where
  "memcpy_slice w bs n = slice_of_bytes (take n bs @ drop n (slice_bytes w))"

text \<open>\<^verbatim>\<open>memcmp\<close>: only the sign of the result is ever used.\<close>

fun cmp_bytes :: "byte list \<Rightarrow> byte list \<Rightarrow> int" where
  "cmp_bytes (a # as) (b # bs) =
     (if a < b then - 1 else if b < a then 1 else cmp_bytes as bs)"
| "cmp_bytes _ _ = 0"

definition memcmp :: "byte list \<Rightarrow> byte list \<Rightarrow> nat \<Rightarrow> int" where
  "memcmp as bs n = cmp_bytes (take n as) (take n bs)"

section \<open>Key tuples\<close>

record key_tuple =
  key_slice :: key_slice_type
  key_length :: key_length_type

text \<open>
  The object representation of a \<^verbatim>\<open>key_tuple\<close>: the length byte follows the slice. The
  comparison below reads up to \<open>key_length\<close> bytes from the start of the slice, so
  with two lengths of 9 it reads the length byte as well.
\<close>

definition key_tuple_bytes :: "key_tuple \<Rightarrow> byte list" where
  "key_tuple_bytes k = slice_bytes (key_slice k) @ [key_length k]"

definition key_tuple_less :: "key_tuple \<Rightarrow> key_tuple \<Rightarrow> bool" where
  "key_tuple_less l r =
     (if key_length l = 0 then True
      else if key_length r = 0 then False
      else let ret = memcmp (key_tuple_bytes l) (key_tuple_bytes r)
                       (unat (if key_length l < key_length r then key_length l
                              else key_length r))
           in if ret < 0 then True
              else if ret = 0 then key_length l < key_length r
              else False)"

definition key_tuple_eq :: "key_tuple \<Rightarrow> key_tuple \<Rightarrow> bool" where
  "key_tuple_eq l r = (key_slice l = key_slice r \<and> key_length l = key_length r)"

text \<open>
  Preparing the slice and the length of what is left of a key, as \<^verbatim>\<open>get\<close>, \<^verbatim>\<open>put\<close> and
  \<^verbatim>\<open>remove\<close> do at \<^verbatim>\<open>retry_find_border\<close>.
\<close>

definition prepare_key_slice :: "byte list \<Rightarrow> key_slice_type \<times> key_length_type" where
  "prepare_key_slice key =
     (if length key > slice_size
      then (memcpy_slice 0 key slice_size, of_nat (slice_size + 1))
      else ((if key \<noteq> [] then memcpy_slice 0 key (length key) else 0),
            of_nat (length key)))"

section \<open>Order\<close>

text \<open>
  The order the tree keeps its keys in: the eight bytes first, the length second. A slice
  is canonical when the bytes past its length are zero and the length is at most 9.
\<close>

definition key_ord :: "key_slice_type \<times> key_length_type \<Rightarrow> byte list \<times> nat" where
  "key_ord k = (slice_bytes (fst k), unat (snd k))"

definition canonical :: "key_slice_type \<times> key_length_type \<Rightarrow> bool" where
  "canonical k = (unat (snd k) \<le> 9 \<and>
     drop (min (unat (snd k)) 8) (slice_bytes (fst k)) = replicate (8 - min (unat (snd k)) 8) 0)"

lemma length_slice_bytes [simp]: "length (slice_bytes w) = 8"
  by (simp add: slice_bytes_def)

lemma slice_bytes_zero [simp]: "slice_bytes 0 = replicate 8 0"
  by (simp add: slice_bytes_def map_replicate_const)

lemma bit_slice_of_bytes:
  "length bs \<le> 8 \<Longrightarrow> bit (slice_of_bytes bs) n
     \<longleftrightarrow> n div 8 < length bs \<and> bit (bs ! (n div 8)) (n mod 8)"
proof (induction bs arbitrary: n)
  case Nil
  then show ?case by simp
next
  case (Cons b bs)
  show ?case
  proof (cases "n < 8")
    case True
    then show ?thesis by (simp add: bit_simps)
  next
    case False
    then obtain k where k: "n = k + 8" by (metis add.commute le_add_diff_inverse not_less)
    then have "n div 8 = Suc (k div 8)" and "n mod 8 = k mod 8" by simp_all
    moreover have "\<not> bit b n" using False bit_imp_le_length by fastforce
    moreover have "n < 64" if "k div 8 < length bs"
      using that Cons.prems k by simp
    ultimately show ?thesis
      using k Cons by (auto simp: bit_simps)
  qed
qed

lemma slice_bytes_of_bytes [simp]:
  assumes "length bs = 8"
  shows "slice_bytes (slice_of_bytes bs) = bs"
proof (rule nth_equalityI)
  show "length (slice_bytes (slice_of_bytes bs)) = length bs" using assms by simp
next
  fix i assume "i < length (slice_bytes (slice_of_bytes bs))"
  then have i: "i < 8" by simp
  have "ucast (drop_bit (8 * i) (slice_of_bytes bs)) = bs ! i"
  proof (rule bit_word_eqI)
    fix n assume n: "n < LENGTH(8)"
    then have "(8 * i + n) div 8 = i" and "(8 * i + n) mod 8 = n" by simp_all
    then show "bit (ucast (drop_bit (8 * i) (slice_of_bytes bs)) :: byte) n = bit (bs ! i) n"
      using n i assms by (simp add: bit_simps bit_slice_of_bytes)
  qed
  then show "slice_bytes (slice_of_bytes bs) ! i = bs ! i"
    using i by (simp add: slice_bytes_def)
qed

lemma slice_bytes_inj: "slice_bytes v = slice_bytes w \<Longrightarrow> v = w"
proof (rule bit_word_eqI)
  fix n assume eq: "slice_bytes v = slice_bytes w" and n: "n < LENGTH(64)"
  then have "n div 8 < 8" by simp
  then have "slice_bytes v ! (n div 8) = slice_bytes w ! (n div 8)" using eq by simp
  then have "bit (ucast (drop_bit (8 * (n div 8)) v) :: byte) (n mod 8)
      = bit (ucast (drop_bit (8 * (n div 8)) w) :: byte) (n mod 8)"
    using \<open>n div 8 < 8\<close> by (simp add: slice_bytes_def)
  then show "bit v n = bit w n" by (simp add: bit_simps)
qed

lemma slice_bytes_memcpy:
  "n \<le> length bs \<Longrightarrow> n \<le> 8 \<Longrightarrow>
   slice_bytes (memcpy_slice w bs n) = take n bs @ drop n (slice_bytes w)"
  by (simp add: memcpy_slice_def)

lemma key_ord_inj: "key_ord a = key_ord b \<Longrightarrow> a = b"
  by (cases a; cases b) (auto simp: key_ord_def word_unat_eq_iff dest: slice_bytes_inj)

subsection \<open>\<^verbatim>\<open>memcmp\<close> is the lexicographic order\<close>

lemma cmp_bytes_sign:
  assumes "length as = length bs"
  shows "cmp_bytes as bs < 0 \<longleftrightarrow> as < bs" and "cmp_bytes as bs = 0 \<longleftrightarrow> as = bs"
    and "cmp_bytes as bs > 0 \<longleftrightarrow> bs < as"
  using assms by (induction as bs rule: list_induct2) auto

lemma memcmp_sign:
  assumes "length as = length bs"
  shows "memcmp as bs n < 0 \<longleftrightarrow> take n as < take n bs"
    and "memcmp as bs n = 0 \<longleftrightarrow> take n as = take n bs"
    and "memcmp as bs n > 0 \<longleftrightarrow> take n bs < take n as"
  using assms by (simp_all add: memcmp_def cmp_bytes_sign)

lemma less_append_same_length:
  fixes u v :: "'a :: linorder list"
  shows "length u = length v \<Longrightarrow> u < v \<Longrightarrow> u @ x < v @ y"
  by (induction u v rule: list_induct2) auto

lemma append_less_cancel [simp]:
  fixes u :: "'a :: linorder list"
  shows "u @ x < u @ y \<longleftrightarrow> x < y"
  by (induction u) auto

lemma snoc_less_iff:
  fixes u v :: "'a :: linorder list"
  shows "length u = length v \<Longrightarrow> u @ [x] < v @ [x] \<longleftrightarrow> u < v"
  by (induction u v rule: list_induct2) auto

lemma pair_less_iff:
  fixes a c :: "'a :: linorder" and b d :: "'b :: linorder"
  shows "(a, b) < (c, d) \<longleftrightarrow> a < c \<or> a = c \<and> b < d"
  by auto

lemma zeros_le: "replicate (length ys) (0 :: byte) \<le> ys"
proof (induction ys)
  case (Cons y ys)
  then show ?case by (cases "y = 0") (auto simp: word_neq_0_conv)
qed simp

lemma take_less_imp_less:
  fixes X Y :: "'a :: linorder list"
  assumes "length X = length Y" and "take k X < take k Y"
  shows "X < Y"
  using less_append_same_length [of "take k X" "take k Y" "drop k X" "drop k Y"] assms
  by simp

text \<open>
  Comparing zero-padded arrays on the shorter of two lengths and breaking ties by the
  length is comparing the whole arrays and breaking ties by the length.
\<close>

lemma padded_prefix_order:
  fixes X Y :: "byte list"
  assumes len: "length X = length Y"
    and X: "drop m X = replicate (length X - m) 0"
    and Y: "drop n Y = replicate (length Y - n) 0"
  shows "take (min m n) X < take (min m n) Y \<or> take (min m n) X = take (min m n) Y \<and> m < n
    \<longleftrightarrow> (X, m) < (Y, n)"
proof (cases "take (min m n) X = take (min m n) Y")
  case False
  then have "X \<noteq> Y" by auto
  then show ?thesis
    using False len take_less_imp_less [of X Y "min m n"] take_less_imp_less [of Y X "min m n"]
    by (auto simp: neq_iff)
next
  case True
  consider "m < n" | "m = n" | "n < m" by linarith
  then show ?thesis
  proof cases
    case 1
    then have eq: "take m X = take m Y" using True by simp
    have "drop m X \<le> drop m Y"
      using zeros_le [of "drop m Y"] X len by simp
    then have "take m X @ drop m X \<le> take m X @ drop m Y"
      by (auto simp: le_less simp del: append_take_drop_id)
    then have "X \<le> Y" by (metis append_take_drop_id eq)
    then show ?thesis using 1 True by auto
  next
    case 2
    then have "X = Y"
      using True X Y len by (metis append_take_drop_id min.idem)
    then show ?thesis using 2 by simp
  next
    case 3
    then have eq: "take n X = take n Y" using True by simp
    have "drop n Y \<le> drop n X"
      using zeros_le [of "drop n X"] Y len by simp
    then have "take n X @ drop n Y \<le> take n X @ drop n X"
      by (auto simp: le_less simp del: append_take_drop_id)
    then have "Y \<le> X" by (metis append_take_drop_id eq)
    then show ?thesis using 3 True by auto
  qed
qed

subsection \<open>Slices of byte strings\<close>

lemma slice_bytes_prepare:
  "slice_bytes (fst (prepare_key_slice key)) = take 8 key @ replicate (8 - length key) 0"
  by (simp add: prepare_key_slice_def slice_bytes_memcpy)

lemma unat_length_prepare:
  "unat (snd (prepare_key_slice key)) = min (length key) 9"
  by (auto simp: prepare_key_slice_def unat_of_nat min_def)

lemma canonical_prepare: "canonical (prepare_key_slice key)"
  by (auto simp: canonical_def slice_bytes_prepare unat_length_prepare min_def)

lemma padded_order_iff:
  fixes a b :: "byte list"
  shows "length a \<le> n \<Longrightarrow> length b \<le> n \<Longrightarrow>
    (a @ replicate (n - length a) 0, length a) < (b @ replicate (n - length b) 0, length b)
    \<longleftrightarrow> a < b"
proof (induction n arbitrary: a b)
  case 0
  then show ?case by simp
next
  case (Suc n)
  have z: "replicate (Suc n) 0 \<le> a @ replicate (Suc n - length a) 0"
      "replicate (Suc n) 0 \<le> b @ replicate (Suc n - length b) 0"
    using zeros_le [of "a @ replicate (Suc n - length a) 0"]
      zeros_le [of "b @ replicate (Suc n - length b) 0"] Suc.prems by simp_all
  show ?case
  proof (cases a; cases b)
    fix x a' y b' assume ab: "a = x # a'" "b = y # b'"
    then show ?thesis using Suc.IH [of a' b'] Suc.prems by auto
  next
    fix x a' assume "a = x # a'" "b = []"
    then show ?thesis using z(1) by (auto simp: not_less)
  next
    fix y b' assume "a = []" "b = y # b'"
    then show ?thesis using z(2) by (auto simp: le_less)
  qed simp
qed

lemma less_take_drop:
  fixes K L :: "'a :: linorder list"
  shows "K < L \<longleftrightarrow> take n K < take n L \<or> take n K = take n L \<and> drop n K < drop n L"
proof (induction n arbitrary: K L)
  case (Suc n)
  show ?case
  proof (cases K; cases L)
    fix x K' y L' assume "K = x # K'" "L = y # L'"
    then show ?thesis using Suc.IH [of K' L'] by auto
  qed auto
qed simp

text \<open>
  The order of the tree is the order of the byte strings: first the slices with their
  lengths, then, for keys that share a slice and go on, what is left of them.
\<close>

lemma key_string_order:
  "K < L \<longleftrightarrow> key_ord (prepare_key_slice K) < key_ord (prepare_key_slice L)
     \<or> prepare_key_slice K = prepare_key_slice L \<and> drop 8 K < drop 8 L"
proof -
  define A where "A = take 8 K @ replicate (8 - length (take 8 K)) 0"
  define B where "B = take 8 L @ replicate (8 - length (take 8 L)) 0"
  define i where "i = min (length K) 9"
  define j where "j = min (length L) 9"
  have "key_ord (prepare_key_slice X)
      = (take 8 X @ replicate (8 - length (take 8 X)) 0, min (length X) 9)" for X
    by (auto simp: key_ord_def slice_bytes_prepare unat_length_prepare min_def)
  then have ord: "key_ord (prepare_key_slice K) = (A, i)" "key_ord (prepare_key_slice L) = (B, j)"
    by (simp_all only: A_def B_def i_def j_def)
  then have eqv: "prepare_key_slice K = prepare_key_slice L \<longleftrightarrow> (A, i) = (B, j)"
    by (metis key_ord_inj)
  have pad: "take 8 K = take 8 L \<longleftrightarrow> A = B \<and> min i 8 = min j 8"
    unfolding A_def B_def i_def j_def
    by (auto simp: append_eq_append_conv min_def split: if_splits)
  have lt: "take 8 K < take 8 L \<longleftrightarrow> A < B \<or> A = B \<and> min i 8 < min j 8"
  proof -
    have "length (take 8 K) = min i 8" "length (take 8 L) = min j 8"
      by (simp_all add: i_def j_def)
    then show ?thesis
      using padded_order_iff [of "take 8 K" 8 "take 8 L"]
      unfolding A_def [symmetric] B_def [symmetric] pair_less_iff by simp
  qed
  have dK: "drop 8 K = [] \<longleftrightarrow> i \<le> 8" and dL: "drop 8 L = [] \<longleftrightarrow> j \<le> 8"
    and ij: "i \<le> 9" "j \<le> 9" by (auto simp: i_def j_def min_def)
  have d: "drop 8 K < drop 8 L \<Longrightarrow> \<not> j \<le> 8" "i \<le> 8 \<Longrightarrow> \<not> j \<le> 8 \<Longrightarrow> drop 8 K < drop 8 L"
    using dK dL by (cases "drop 8 K"; cases "drop 8 L"; simp)+
  have "K < L \<longleftrightarrow> A < B \<or> A = B \<and> min i 8 < min j 8
      \<or> A = B \<and> min i 8 = min j 8 \<and> drop 8 K < drop 8 L"
    using less_take_drop [of K L 8] by (simp only: pad lt) blast
  also have "\<dots> \<longleftrightarrow> A < B \<or> A = B \<and> i < j \<or> A = B \<and> i = j \<and> drop 8 K < drop 8 L"
    using d ij by (cases "i \<le> 8"; cases "j \<le> 8") auto
  finally show ?thesis by (simp only: ord eqv) auto
qed

lemma key_tuple_less_key_ord:
  assumes a: "canonical (key_slice a, key_length a)" and b: "canonical (key_slice b, key_length b)"
    and ne: "key_length a \<noteq> 0 \<or> key_length b \<noteq> 0"
  shows "key_tuple_less a b \<longleftrightarrow>
    key_ord (key_slice a, key_length a) < key_ord (key_slice b, key_length b)"
proof -
  let ?X = "slice_bytes (key_slice a)" and ?Y = "slice_bytes (key_slice b)"
  let ?m = "unat (key_length a)" and ?n = "unat (key_length b)"
  have le: "?m \<le> 9" "?n \<le> 9" using a b by (simp_all add: canonical_def)
  have X: "drop ?m ?X = replicate (length ?X - ?m) 0"
    and Y: "drop ?n ?Y = replicate (length ?Y - ?n) 0"
    using a b by (cases "?m \<le> 8"; cases "?n \<le> 8"; simp add: canonical_def min_def)+
  have ord: "take (min ?m ?n) ?X < take (min ?m ?n) ?Y
      \<or> take (min ?m ?n) ?X = take (min ?m ?n) ?Y \<and> ?m < ?n \<longleftrightarrow> (?X, ?m) < (?Y, ?n)"
    using X Y by (intro padded_prefix_order) simp_all
  have rep: "take (min ?m ?n) (key_tuple_bytes a) < take (min ?m ?n) (key_tuple_bytes b)
      \<longleftrightarrow> take (min ?m ?n) ?X < take (min ?m ?n) ?Y"
    "take (min ?m ?n) (key_tuple_bytes a) = take (min ?m ?n) (key_tuple_bytes b)
      \<longleftrightarrow> take (min ?m ?n) ?X = take (min ?m ?n) ?Y"
  proof (atomize (full), cases "min ?m ?n \<le> 8")
    case True
    then have "min ?m ?n - 8 = 0" by simp
    then show "(take (min ?m ?n) (key_tuple_bytes a) < take (min ?m ?n) (key_tuple_bytes b)
      \<longleftrightarrow> take (min ?m ?n) ?X < take (min ?m ?n) ?Y) \<and>
      (take (min ?m ?n) (key_tuple_bytes a) = take (min ?m ?n) (key_tuple_bytes b)
      \<longleftrightarrow> take (min ?m ?n) ?X = take (min ?m ?n) ?Y)"
      by (simp only: key_tuple_bytes_def take_append length_slice_bytes take_0 append_Nil2)
  next
    case False
    then have "?m = 9" "?n = 9" using le by linarith+
    then have "key_length a = key_length b" by (simp add: word_unat_eq_iff)
    with \<open>?m = 9\<close> \<open>?n = 9\<close>
    show "(take (min ?m ?n) (key_tuple_bytes a) < take (min ?m ?n) (key_tuple_bytes b)
      \<longleftrightarrow> take (min ?m ?n) ?X < take (min ?m ?n) ?Y) \<and>
      (take (min ?m ?n) (key_tuple_bytes a) = take (min ?m ?n) (key_tuple_bytes b)
      \<longleftrightarrow> take (min ?m ?n) ?X = take (min ?m ?n) ?Y)"
      by (simp add: key_tuple_bytes_def snoc_less_iff)
  qed
  show ?thesis
  proof (cases "key_length a = 0 \<or> key_length b = 0")
    case False
    have n: "unat (if key_length a < key_length b then key_length a else key_length b) = min ?m ?n"
      by (simp add: min_def word_less_nat_alt)
    have len: "length (key_tuple_bytes a) = length (key_tuple_bytes b)"
      by (simp add: key_tuple_bytes_def)
    have "key_tuple_less a b \<longleftrightarrow>
        take (min ?m ?n) (key_tuple_bytes a) < take (min ?m ?n) (key_tuple_bytes b)
        \<or> take (min ?m ?n) (key_tuple_bytes a) = take (min ?m ?n) (key_tuple_bytes b) \<and> ?m < ?n"
      using False unfolding key_tuple_less_def n Let_def memcmp_sign [OF len]
      by (simp add: word_less_nat_alt)
    also have "\<dots> \<longleftrightarrow> (?X, ?m) < (?Y, ?n)" unfolding rep by (rule ord)
    finally show ?thesis by (simp only: key_ord_def fst_conv snd_conv)
  next
    case True
    then show ?thesis
    proof (cases "key_length a = 0")
      case True
      then have "0 < ?n" using ne by (simp add: unat_gt_0)
      then have "(?X, ?m) < (?Y, ?n)" using ord True by simp
      then show ?thesis using True by (simp only: key_tuple_less_def key_ord_def fst_conv snd_conv if_True refl)
    next
      case False
      then have "key_length b = 0" using True by simp
      then have "\<not> (?X, ?m) < (?Y, ?n)" using ord by simp
      then show ?thesis
        using False \<open>key_length b = 0\<close>
        by (simp only: key_tuple_less_def key_ord_def fst_conv snd_conv if_True if_False refl)
    qed
  qed
qed

end
