(* ===== verification/Atomic.thy ===== *)
theory Atomic
  imports Prelude
begin

text \<open>
  Compare-and-exchange loops. The sources update shared words with loops around
  \<^verbatim>\<open>compare_exchange_weak\<close> (\<^verbatim>\<open>version.h\<close>, \<^verbatim>\<open>thread_info.h\<close>, \<^verbatim>\<open>destroy_manager.h\<close>): load
  the expected value, compute the desired one, exchange, and on failure start again from
  the value that was found. Here the loop runs against a schedule: before every exchange
  the other threads may change the word, and every exchange may fail spuriously.
\<close>

section \<open>One exchange\<close>

text \<open>
  \<open>compare_exchange_weak eq spurious shared expected desired\<close> gives the success flag,
  the word afterwards and the new \<open>expected\<close>; \<open>eq\<close> is the comparison of object
  representations.
\<close>

definition compare_exchange_weak ::
  "('b \<Rightarrow> 'b \<Rightarrow> bool) \<Rightarrow> bool \<Rightarrow> 'b \<Rightarrow> 'b \<Rightarrow> 'b \<Rightarrow> bool \<times> 'b \<times> 'b" where
  "compare_exchange_weak eq spurious shared expected desired =
     (if \<not> spurious \<and> eq shared expected then (True, desired, expected)
      else (False, shared, shared))"

section \<open>The loop\<close>

text \<open>
  One entry of the schedule per iteration: whether the exchange fails spuriously, and
  what the other threads do to the word since it was last read. The loop body \<open>f\<close> gives
  the desired value, or \<open>None\<close> where the source leaves the loop without an exchange.
  The result is \<open>None\<close> when the schedule ends before the loop does, \<open>Some (None, w)\<close>
  when the loop was left without an exchange, and \<open>Some (Some e, w)\<close> when the exchange
  replaced \<open>e\<close> by \<open>w\<close>.
\<close>

fun cas_loop :: "('b \<Rightarrow> 'b \<Rightarrow> bool) \<Rightarrow> ('b \<Rightarrow> 'b option) \<Rightarrow> (bool \<times> ('b \<Rightarrow> 'b)) list \<Rightarrow>
    'b \<Rightarrow> 'b \<Rightarrow> ('b option \<times> 'b) option" where
  "cas_loop eq f [] shared expected = None"
| "cas_loop eq f ((spurious, env) # sch) shared expected =
     (case f expected of
        None \<Rightarrow> Some (None, shared)
      | Some desired \<Rightarrow>
          (case compare_exchange_weak eq spurious (env shared) expected desired of
             (ok, shared', expected') \<Rightarrow>
               (if ok then Some (Some expected', shared')
                else cas_loop eq f sch shared' expected')))"

text \<open>The loop when no other thread interferes and no exchange fails spuriously.\<close>

definition cas_alone :: "('b \<Rightarrow> 'b \<Rightarrow> bool) \<Rightarrow> ('b \<Rightarrow> 'b) \<Rightarrow> 'b \<Rightarrow> 'b" where
  "cas_alone eq f w = (case cas_loop eq (\<lambda>e. Some (f e)) [(False, id)] w w of
     Some (_, w') \<Rightarrow> w' | None \<Rightarrow> w)"

section \<open>What the loop guarantees\<close>

text \<open>The word as the other threads alone would have left it after \<open>k\<close> iterations.\<close>

definition env_after :: "(bool \<times> ('b \<Rightarrow> 'b)) list \<Rightarrow> nat \<Rightarrow> 'b \<Rightarrow> 'b" where
  "env_after sch k w = foldl (\<lambda>w e. snd e w) w (take k sch)"

locale atomic_cell =
  fixes eq :: "'b \<Rightarrow> 'b \<Rightarrow> bool"
  assumes eq_iff: "eq a b \<longleftrightarrow> a = b"
begin

lemma exchange_eq:
  "compare_exchange_weak eq spurious shared expected desired =
     (if \<not> spurious \<and> shared = expected then (True, desired, expected)
      else (False, shared, shared))"
  unfolding compare_exchange_weak_def eq_iff by (rule refl)

lemma cas_alone_eq: "cas_alone eq f w = f w"
  by (simp add: cas_alone_def exchange_eq)

lemma cas_loop_linear:
  "cas_loop eq f sch shared expected = Some (Some e, w) \<Longrightarrow>
   \<exists>k < length sch. e = env_after sch (Suc k) shared \<and> f e = Some w"
proof (induction sch arbitrary: shared expected)
  case Nil
  then show ?case by simp
next
  case (Cons a sch)
  obtain sp env where a: "a = (sp, env)" by (cases a)
  obtain d where d: "f expected = Some d"
    using Cons.prems by (auto simp: a split: option.splits)
  show ?case
  proof (cases "\<not> sp \<and> env shared = expected")
    case True
    then have "e = env shared \<and> f e = Some w"
      using Cons.prems d by (simp add: a exchange_eq)
    then show ?thesis by (intro exI [of _ 0]) (auto simp: env_after_def a)
  next
    case False
    then have "cas_loop eq f sch (env shared) (env shared) = Some (Some e, w)"
      using Cons.prems d by (auto simp: a exchange_eq)
    from Cons.IH [OF this] obtain k where "k < length sch"
      "e = env_after sch (Suc k) (env shared)" "f e = Some w" by auto
    then show ?thesis by (intro exI [of _ "Suc k"]) (simp add: env_after_def a)
  qed
qed

lemma cas_loop_left:
  "cas_loop eq f sch shared expected = Some (None, w) \<Longrightarrow>
   \<exists>k < length sch. w = env_after sch k shared \<and>
     (if k = 0 then f expected = None else f (env_after sch k shared) = None)"
proof (induction sch arbitrary: shared expected)
  case Nil
  then show ?case by simp
next
  case (Cons a sch)
  obtain sp env where a: "a = (sp, env)" by (cases a)
  show ?case
  proof (cases "f expected")
    case None
    then show ?thesis using Cons.prems by (intro exI [of _ 0]) (simp add: a env_after_def)
  next
    case (Some d)
    then have "cas_loop eq f sch (env shared) (env shared) = Some (None, w)"
      using Cons.prems by (auto simp: a compare_exchange_weak_def split: if_splits)
    from Cons.IH [OF this] obtain k where "k < length sch" "w = env_after sch k (env shared)"
      "if k = 0 then f (env shared) = None else f (env_after sch k (env shared)) = None" by auto
    then show ?thesis
      by (intro exI [of _ "Suc k"]) (auto simp: a env_after_def split: if_splits)
  qed
qed

text \<open>One undisturbed iteration after the first ends the loop.\<close>

lemma cas_loop_ends:
  "(False, id) \<in> set (tl sch) \<Longrightarrow> cas_loop eq f sch shared expected \<noteq> None"
proof (induction sch arbitrary: shared expected)
  case (Cons a sch)
  obtain sp env where a: "a = (sp, env)" by (cases a)
  have "cas_loop eq f sch (env shared) (env shared) \<noteq> None"
  proof (cases "hd sch = (False, id)")
    case True
    then show ?thesis using Cons.prems
      by (cases sch) (auto simp: exchange_eq split: option.splits)
  next
    case False
    then show ?thesis using Cons by (cases sch) auto
  qed
  then show ?case by (auto simp: a compare_exchange_weak_def split: option.splits)
qed simp

end

interpretation plain_cell: atomic_cell "(=)"
  by unfold_locales simp

end
