(* ===== verification/Version.thy ===== *)
theory Version
  imports Key_Slice Atomic
begin

text \<open>
  \<^verbatim>\<open>include/version.h\<close>: the version word of a node. \<^verbatim>\<open>node_version64_body\<close> is a bit field of
  64 bits; \<^verbatim>\<open>node_version64\<close> wraps it in a \<^verbatim>\<open>std::atomic\<close> and updates it by
  compare-and-exchange loops. The theory holds the sequential meaning of every
  operation, the bit layout behind \<^verbatim>\<open>operator==\<close>, and a step relation in which any number
  of threads run the loops of \<^verbatim>\<open>lock\<close>, \<^verbatim>\<open>unlock\<close>, the \<^verbatim>\<open>atomic_set_*\<close> functions and
  the optimistic readers on one word.
\<close>

section \<open>The body\<close>

record node_version64_body =
  vinsert_delete :: "29 word"
  locked :: bool
  inserting_deleting :: bool
  splitting :: bool
  vsplit :: "29 word"
  deleted :: bool
  root :: bool
  border :: bool

definition get_vinsert_delete :: "node_version64_body \<Rightarrow> 32 word" where
  "get_vinsert_delete b = ucast (vinsert_delete b)"

definition get_vsplit :: "node_version64_body \<Rightarrow> 32 word" where
  "get_vsplit b = ucast (vsplit b)"

definition inc_vinsert_delete :: "node_version64_body \<Rightarrow> node_version64_body" where
  "inc_vinsert_delete b = b\<lparr>vinsert_delete := vinsert_delete b + 1\<rparr>"

definition inc_vsplit :: "node_version64_body \<Rightarrow> node_version64_body" where
  "inc_vsplit b = b\<lparr>vsplit := vsplit b + 1\<rparr>"

definition body_init :: node_version64_body where
  "body_init = \<lparr>vinsert_delete = 0, locked = False, inserting_deleting = False,
     splitting = False, vsplit = 0, deleted = False, root = False, border = False\<rparr>"

text \<open>
  The object representation: the fields from the least significant bit on, in the order
  of their declaration, as the x86-64 ABI allocates bit fields. The widths add up to 64,
  so there is no padding.
\<close>

definition body_bits :: "node_version64_body \<Rightarrow> 64 word" where
  "body_bits b =
     ucast (vinsert_delete b)
     OR push_bit 29 (of_bool (locked b))
     OR push_bit 30 (of_bool (inserting_deleting b))
     OR push_bit 31 (of_bool (splitting b))
     OR push_bit 32 (ucast (vsplit b))
     OR push_bit 61 (of_bool (deleted b))
     OR push_bit 62 (of_bool (root b))
     OR push_bit 63 (of_bool (border b))"

definition body_eq :: "node_version64_body \<Rightarrow> node_version64_body \<Rightarrow> bool" where
  "body_eq a b = (memcmp (slice_bytes (body_bits a)) (slice_bytes (body_bits b)) 8 = 0)"

lemma bit_body_bits:
  "bit (body_bits b) n \<longleftrightarrow>
     (if n < 29 then bit (vinsert_delete b) n
      else if n = 29 then locked b else if n = 30 then inserting_deleting b
      else if n = 31 then splitting b else if n < 61 then bit (vsplit b) (n - 32)
      else if n = 61 then deleted b else if n = 62 then root b else n = 63 \<and> border b)"
proof -
  have "\<not> bit (vinsert_delete b) m" if "29 \<le> m" for m
    using that bit_imp_le_length [of "vinsert_delete b" m] by auto
  moreover have "\<not> bit (vsplit b) m" if "29 \<le> m" for m
    using that bit_imp_le_length [of "vsplit b" m] by auto
  ultimately show ?thesis
    by (auto simp: body_bits_def bit_simps)
qed

lemma body_bits_inj: "body_bits a = body_bits b \<Longrightarrow> a = b"
proof -
  assume eq: "body_bits a = body_bits b"
  have b: "bit (body_bits a) n = bit (body_bits b) n" for n by (simp add: eq)
  have "vinsert_delete a = vinsert_delete b"
  proof (rule bit_word_eqI)
    fix n assume "n < LENGTH(29)"
    then show "bit (vinsert_delete a) n = bit (vinsert_delete b) n"
      using b [of n] by (simp add: bit_body_bits)
  qed
  moreover have "vsplit a = vsplit b"
  proof (rule bit_word_eqI)
    fix n assume "n < LENGTH(29)"
    then show "bit (vsplit a) n = bit (vsplit b) n" using b [of "n + 32"] by (simp add: bit_body_bits)
  qed
  moreover have "locked a = locked b" "inserting_deleting a = inserting_deleting b"
    "splitting a = splitting b" "deleted a = deleted b" "root a = root b" "border a = border b"
    using b [of 29] b [of 30] b [of 31] b [of 61] b [of 62] b [of 63]
    by (simp_all add: bit_body_bits)
  ultimately show ?thesis by simp
qed

lemma body_eq_iff [code]: "body_eq a b \<longleftrightarrow> a = b"
  by (auto simp: body_eq_def memcmp_sign dest: slice_bytes_inj body_bits_inj)

interpretation version_cell: atomic_cell body_eq
  by unfold_locales (rule body_eq_iff)

section \<open>The operations of \<^verbatim>\<open>node_version64\<close>\<close>

definition atomic_inc_vinsert :: "node_version64_body \<Rightarrow> node_version64_body" where
  "atomic_inc_vinsert = cas_alone body_eq inc_vinsert_delete"

definition atomic_set_border :: "bool \<Rightarrow> node_version64_body \<Rightarrow> node_version64_body" where
  "atomic_set_border tf = cas_alone body_eq (\<lambda>b. b\<lparr>border := tf\<rparr>)"

definition atomic_set_deleted :: "bool \<Rightarrow> node_version64_body \<Rightarrow> node_version64_body" where
  "atomic_set_deleted tf = cas_alone body_eq (\<lambda>b. b\<lparr>deleted := tf\<rparr>)"

definition atomic_set_inserting_deleting :: "bool \<Rightarrow> node_version64_body \<Rightarrow> node_version64_body" where
  "atomic_set_inserting_deleting tf = cas_alone body_eq (\<lambda>b. b\<lparr>inserting_deleting := tf\<rparr>)"

definition atomic_set_root :: "bool \<Rightarrow> node_version64_body \<Rightarrow> node_version64_body" where
  "atomic_set_root tf = cas_alone body_eq (\<lambda>b. b\<lparr>root := tf\<rparr>)"

definition atomic_set_splitting :: "bool \<Rightarrow> node_version64_body \<Rightarrow> node_version64_body" where
  "atomic_set_splitting tf = cas_alone body_eq (\<lambda>b. b\<lparr>splitting := tf\<rparr>)"

text \<open>The desired value computed in one iteration of \<^verbatim>\<open>unlock\<close>.\<close>

definition unlock_body :: "node_version64_body \<Rightarrow> node_version64_body" where
  "unlock_body desired =
     (let desired = (if inserting_deleting desired
            then (inc_vinsert_delete desired)\<lparr>inserting_deleting := False\<rparr> else desired);
          desired = (if splitting desired
            then (inc_vsplit desired)\<lparr>splitting := False\<rparr> else desired)
      in desired\<lparr>locked := False\<rparr>)"

definition unlock :: "node_version64_body \<Rightarrow> node_version64_body" where
  "unlock = cas_alone body_eq unlock_body"

text \<open>
  \<^verbatim>\<open>lock\<close> and \<^verbatim>\<open>get_stable_version\<close> wait. With no other thread running, a word that is not
  in the awaited state never gets there: the result \<open>None\<close>.
\<close>

definition lock :: "node_version64_body \<Rightarrow> node_version64_body option" where
  "lock b = (if locked b then None else Some (b\<lparr>locked := True\<rparr>))"

definition is_stable :: "node_version64_body \<Rightarrow> bool" where
  "is_stable sv = (\<not> inserting_deleting sv \<and> \<not> locked sv \<and> \<not> splitting sv)"

definition get_stable_version :: "node_version64_body \<Rightarrow> node_version64_body option" where
  "get_stable_version sv = (if is_stable sv then Some sv else None)"

lemmas atomic_version_defs =
  atomic_inc_vinsert_def atomic_set_border_def atomic_set_deleted_def
  atomic_set_inserting_deleting_def atomic_set_root_def atomic_set_splitting_def unlock_def

lemma atomic_version_simps [version_simps, code]:
  "atomic_inc_vinsert b = inc_vinsert_delete b"
  "atomic_set_border tf b = b\<lparr>border := tf\<rparr>"
  "atomic_set_deleted tf b = b\<lparr>deleted := tf\<rparr>"
  "atomic_set_inserting_deleting tf b = b\<lparr>inserting_deleting := tf\<rparr>"
  "atomic_set_root tf b = b\<lparr>root := tf\<rparr>"
  "atomic_set_splitting tf b = b\<lparr>splitting := tf\<rparr>"
  "unlock b = unlock_body b"
  by (simp_all add: atomic_version_defs version_cell.cas_alone_eq)

lemma unlock_body_simps [version_simps]:
  "locked (unlock_body b) = False"
  "inserting_deleting (unlock_body b) = False"
  "splitting (unlock_body b) = False"
  "deleted (unlock_body b) = deleted b"
  "root (unlock_body b) = root b"
  "border (unlock_body b) = border b"
  "vinsert_delete (unlock_body b) = vinsert_delete b + of_bool (inserting_deleting b)"
  "vsplit (unlock_body b) = vsplit b + of_bool (splitting b)"
  by (simp_all add: unlock_body_def Let_def inc_vinsert_delete_def inc_vsplit_def)

lemma is_stable_unlock [version_simps]: "is_stable (unlock_body b)"
  by (simp add: is_stable_def version_simps)

end
