(* ===== verification/Version_Protocol.thy ===== *)
theory Version_Protocol
  imports Version
begin

text \<open>
  Threads on one version word. Any number of threads run the loops of \<^verbatim>\<open>version.h\<close> on the
  word of one node: \<^verbatim>\<open>lock\<close>, \<^verbatim>\<open>unlock\<close>, \<^verbatim>\<open>atomic_inc_vinsert\<close> and the \<^verbatim>\<open>atomic_set_*\<close>
  functions, one load or one compare-and-exchange per step, in any interleaving. The only
  guard is the documented one: \<^verbatim>\<open>unlock\<close> is called by the thread that holds the lock.
  (\<^verbatim>\<open>init\<close> and \<^verbatim>\<open>set_body\<close> are for a node no other thread can see.)

  The members of the node that only the lock holder writes (keys, lengths, slots or
  children, counts) are one value \<open>contents\<close>. The holder may write them with or without a
  dirty bit: \<^verbatim>\<open>insert_lv\<close>, the splits and the operations of \<^verbatim>\<open>interior_node\<close> on the node
  itself raise one first, but \<^verbatim>\<open>border_node::delete_of\<close> does not (the call is commented out),
  nor does the overwriting of a value in \<^verbatim>\<open>interface_put.h\<close> or the replacement of a child in
  the parent in \<^verbatim>\<open>interior_node::delete_of\<close>. What is written without a dirty bit leaves no
  trace in the version word, so the snapshot theorem counts it separately.
\<close>

section \<open>States and steps\<close>

datatype rmw = Inc_vinsert | Set_border bool | Set_deleted bool | Set_root bool
  | Set_inserting_deleting bool | Set_splitting bool | Unlock

fun desired :: "rmw \<Rightarrow> node_version64_body \<Rightarrow> node_version64_body" where
  "desired Inc_vinsert e = inc_vinsert_delete e"
| "desired (Set_border tf) e = e\<lparr>border := tf\<rparr>"
| "desired (Set_deleted tf) e = e\<lparr>deleted := tf\<rparr>"
| "desired (Set_root tf) e = e\<lparr>root := tf\<rparr>"
| "desired (Set_inserting_deleting tf) e = e\<lparr>inserting_deleting := tf\<rparr>"
| "desired (Set_splitting tf) e = e\<lparr>splitting := tf\<rparr>"
| "desired Unlock e = unlock_body e"

datatype pc = Idle
  | Lock_load
  | Lock_cas node_version64_body
  | Rmw rmw node_version64_body

record 'c vstate =
  vword :: node_version64_body
  pcs :: "nat \<Rightarrow> pc"
  holds :: "nat \<Rightarrow> bool"
  contents :: 'c
  inserts :: nat
  splits :: nat
  unmarked :: nat

text \<open>
  The counters \<open>inserts\<close> and \<open>splits\<close> count, without wrap-around, the increments of
  \<^verbatim>\<open>vinsert_delete\<close> and \<^verbatim>\<open>vsplit\<close>; \<open>unmarked\<close> counts the writes to the contents while no
  dirty bit is up, and the times the last dirty bit is taken back by an
  \<^verbatim>\<open>atomic_set_*(false)\<close>, that is, without being counted by \<^verbatim>\<open>unlock\<close> (the sources never do
  that). No step reads the three counters.
\<close>

definition vinit :: "'c \<Rightarrow> 'c vstate" where
  "vinit c = \<lparr>vword = body_init, pcs = (\<lambda>_. Idle), holds = (\<lambda>_. False), contents = c,
     inserts = 0, splits = 0, unmarked = 0\<rparr>"

definition dirty_body :: "node_version64_body \<Rightarrow> bool" where
  "dirty_body e \<longleftrightarrow> inserting_deleting e \<or> splitting e"

inductive vstep :: "'c vstate \<Rightarrow> 'c vstate \<Rightarrow> bool" where
  lock_call: "pcs s t = Idle \<Longrightarrow> vstep s (s\<lparr>pcs := (pcs s)(t := Lock_load)\<rparr>)"
| lock_busy: "pcs s t = Lock_load \<Longrightarrow> locked (vword s) \<Longrightarrow> vstep s s"
| lock_load: "pcs s t = Lock_load \<Longrightarrow> \<not> locked (vword s) \<Longrightarrow>
    vstep s (s\<lparr>pcs := (pcs s)(t := Lock_cas (vword s))\<rparr>)"
| lock_cas_ok: "pcs s t = Lock_cas e \<Longrightarrow> body_eq (vword s) e \<Longrightarrow>
    vstep s (s\<lparr>vword := e\<lparr>locked := True\<rparr>, pcs := (pcs s)(t := Idle), holds := (holds s)(t := True)\<rparr>)"
| lock_cas_fail: "pcs s t = Lock_cas e \<Longrightarrow> vstep s (s\<lparr>pcs := (pcs s)(t := Lock_load)\<rparr>)"
| rmw_call: "pcs s t = Idle \<Longrightarrow> (r = Unlock \<Longrightarrow> holds s t) \<Longrightarrow>
    vstep s (s\<lparr>pcs := (pcs s)(t := Rmw r (vword s))\<rparr>)"
| rmw_cas_ok: "pcs s t = Rmw r e \<Longrightarrow> body_eq (vword s) e \<Longrightarrow>
    vstep s (s\<lparr>vword := desired r e, pcs := (pcs s)(t := Idle),
               holds := (if r = Unlock then (holds s)(t := False) else holds s),
               inserts := inserts s + of_bool (r = Inc_vinsert \<or> r = Unlock \<and> inserting_deleting e),
               splits := splits s + of_bool (r = Unlock \<and> splitting e),
               unmarked := unmarked s +
                 of_bool (r \<noteq> Unlock \<and> dirty_body e \<and> \<not> dirty_body (desired r e))\<rparr>)"
| rmw_cas_fail: "pcs s t = Rmw r e \<Longrightarrow>
    vstep s (s\<lparr>pcs := (pcs s)(t := Rmw r (vword s))\<rparr>)"
| node_write: "pcs s t = Idle \<Longrightarrow> holds s t \<Longrightarrow>
    vstep s (s\<lparr>contents := c, unmarked := unmarked s + of_bool (\<not> dirty_body (vword s))\<rparr>)"

section \<open>The invariant\<close>

definition lock_agrees :: "'c vstate \<Rightarrow> bool" where
  "lock_agrees s \<longleftrightarrow> (locked (vword s) \<longleftrightarrow> (\<exists>t. holds s t)) \<and>
     (\<forall>t u. holds s t \<and> holds s u \<longrightarrow> t = u)"

definition pcs_agree :: "'c vstate \<Rightarrow> bool" where
  "pcs_agree s \<longleftrightarrow> (\<forall>t. case pcs s t of
       Lock_cas e \<Rightarrow> \<not> locked e
     | Rmw r e \<Rightarrow> r = Unlock \<longrightarrow> holds s t
     | _ \<Rightarrow> True)"

abbreviation dirty :: "'c vstate \<Rightarrow> bool" where
  "dirty s \<equiv> dirty_body (vword s)"

definition counters_agree :: "'c vstate \<Rightarrow> bool" where
  "counters_agree s \<longleftrightarrow> vinsert_delete (vword s) = of_nat (inserts s) \<and>
     vsplit (vword s) = of_nat (splits s)"

definition vinv :: "'c vstate \<Rightarrow> bool" where
  "vinv s \<longleftrightarrow> lock_agrees s \<and> pcs_agree s \<and> counters_agree s"

lemma vinv_init: "vinv (vinit c)"
  by (simp add: vinv_def vinit_def lock_agrees_def pcs_agree_def counters_agree_def body_init_def)

lemma desired_locked [simp]: "r \<noteq> Unlock \<Longrightarrow> locked (desired r e) = locked e"
  by (cases r) (simp_all add: inc_vinsert_delete_def)

lemma desired_counters:
  "vinsert_delete (desired r e) =
     vinsert_delete e + of_bool (r = Inc_vinsert \<or> r = Unlock \<and> inserting_deleting e)"
  "vsplit (desired r e) = vsplit e + of_bool (r = Unlock \<and> splitting e)"
  by (cases r; simp add: version_simps inc_vinsert_delete_def)+

lemma desired_Unlock_clean: "\<not> locked (desired Unlock e)"
  by (simp add: version_simps)

lemma pcs_agree_Lock_cas:
  "pcs_agree s \<Longrightarrow> pcs s t = Lock_cas e \<Longrightarrow> \<not> locked e"
  unfolding pcs_agree_def by (drule spec [of _ t]) simp

lemma pcs_agree_Unlock:
  "pcs_agree s \<Longrightarrow> pcs s t = Rmw Unlock e \<Longrightarrow> holds s t"
  unfolding pcs_agree_def by (drule spec [of _ t]) simp

lemma pcs_agree_update:
  assumes "pcs_agree s" and "\<And>u. u \<noteq> t \<Longrightarrow> H u = holds s u"
    and "case p of Lock_cas e \<Rightarrow> \<not> locked e | Rmw r e \<Rightarrow> r = Unlock \<longrightarrow> H t | _ \<Rightarrow> True"
    and "pcs s' = (pcs s)(t := p)" and "holds s' = H"
  shows "pcs_agree s'"
  unfolding pcs_agree_def
proof
  fix u
  show "case pcs s' u of Lock_cas e \<Rightarrow> \<not> locked e | Rmw r e \<Rightarrow> r = Unlock \<longrightarrow> holds s' u | _ \<Rightarrow> True"
    using assms spec [OF assms(1) [unfolded pcs_agree_def], of u]
    by (cases "u = t") (simp_all split: pc.splits)
qed

lemma vstep_lock_agrees:
  assumes "vstep s s'" and "vinv s"
  shows "lock_agrees s'"
  using assms
proof (induction rule: vstep.induct)
  case (lock_cas_ok s t e)
  then have "vword s = e" "\<not> locked e"
    by (auto simp: body_eq_iff vinv_def dest: pcs_agree_Lock_cas)
  then show ?case using lock_cas_ok by (auto simp: vinv_def lock_agrees_def)
next
  case (rmw_cas_ok s t r e)
  then have e: "vword s = e" by (simp add: body_eq_iff)
  show ?case
  proof (cases "r = Unlock")
    case True
    then have "holds s t"
      using rmw_cas_ok by (auto simp: vinv_def dest: pcs_agree_Unlock)
    then have "\<not> ((holds s)(t := False)) u" for u
      using rmw_cas_ok by (auto simp: vinv_def lock_agrees_def)
    then show ?thesis using True by (simp add: lock_agrees_def desired_Unlock_clean del: desired.simps)
  next
    case False
    then show ?thesis using rmw_cas_ok e by (simp add: vinv_def lock_agrees_def)
  qed
qed (auto simp: vinv_def lock_agrees_def)

lemma pcs_agree_cong: "pcs s' = pcs s \<Longrightarrow> holds s' = holds s \<Longrightarrow> pcs_agree s' \<longleftrightarrow> pcs_agree s"
  unfolding pcs_agree_def by (simp only:)

lemma vstep_pcs_agree:
  assumes "vstep s s'" and "vinv s"
  shows "pcs_agree s'"
  using assms
proof (induction rule: vstep.induct)
  case (rmw_cas_ok s t r e)
  then have "pcs_agree s" by (simp add: vinv_def)
  then show ?case
    by (rule pcs_agree_update [where t = t and p = Idle and
          H = "if r = Unlock then (holds s)(t := False) else holds s"]) auto
next
  case (lock_cas_ok s t e)
  then have "pcs_agree s" by (simp add: vinv_def)
  then show ?case
    by (rule pcs_agree_update [where t = t and p = Idle and H = "(holds s)(t := True)"]) auto
next
  case (lock_load s t)
  then have "pcs_agree s" by (simp add: vinv_def)
  then show ?case
    by (rule pcs_agree_update [where t = t and p = "Lock_cas (vword s)" and H = "holds s"])
      (use lock_load \<open>pcs_agree s\<close> in \<open>auto dest: pcs_agree_Lock_cas\<close>)
next
  case (lock_cas_fail s t e)
  then have "pcs_agree s" by (simp add: vinv_def)
  then show ?case
    by (rule pcs_agree_update [where t = t and p = Lock_load and H = "holds s"])
      (use lock_cas_fail \<open>pcs_agree s\<close> in \<open>auto dest: pcs_agree_Lock_cas\<close>)
next
  case (rmw_cas_fail s t r e)
  then have "pcs_agree s" by (simp add: vinv_def)
  then show ?case
    by (rule pcs_agree_update [where t = t and p = "Rmw r (vword s)" and H = "holds s"])
      (use rmw_cas_fail \<open>pcs_agree s\<close> in \<open>auto dest: pcs_agree_Unlock\<close>)
next
  case (lock_call s t)
  then have "pcs_agree s" by (simp add: vinv_def)
  then show ?case
    by (rule pcs_agree_update [where t = t and p = Lock_load and H = "holds s"])
      (use lock_call in auto)
next
  case (rmw_call s t r)
  then have "pcs_agree s" by (simp add: vinv_def)
  then show ?case
    by (rule pcs_agree_update [where t = t and p = "Rmw r (vword s)" and H = "holds s"])
      (use rmw_call in auto)
next
  case (node_write s t c)
  let ?s = "s\<lparr>contents := c, unmarked := unmarked s + of_bool (\<not> dirty s)\<rparr>"
  show ?case
    using node_write pcs_agree_cong [of ?s s] by (simp add: vinv_def)
qed (simp add: vinv_def)

lemma vstep_vinv:
  assumes "vstep s s'" and "vinv s"
  shows "vinv s'"
proof -
  have "counters_agree s'"
    using assms
    by (induction rule: vstep.induct)
      (auto simp: vinv_def counters_agree_def body_eq_iff desired_counters)
  then show ?thesis
    using vstep_lock_agrees [OF assms] vstep_pcs_agree [OF assms] by (simp add: vinv_def)
qed

section \<open>Runs\<close>

abbreviation vsteps :: "'c vstate \<Rightarrow> 'c vstate \<Rightarrow> bool" where
  "vsteps \<equiv> vstep\<^sup>*\<^sup>*"

lemma vsteps_vinv: "vsteps s s' \<Longrightarrow> vinv s \<Longrightarrow> vinv s'"
  by (induction rule: rtranclp_induct) (auto intro: vstep_vinv)

lemma reachable_vinv: "vsteps (vinit c) s \<Longrightarrow> vinv s"
  by (rule vsteps_vinv [OF _ vinv_init])

lemma vstep_counters_mono:
  "vstep s s' \<Longrightarrow> inserts s \<le> inserts s' \<and> splits s \<le> splits s' \<and> unmarked s \<le> unmarked s'"
  by (induction rule: vstep.induct) simp_all

lemma vsteps_counters_mono:
  "vsteps s s' \<Longrightarrow> inserts s \<le> inserts s' \<and> splits s \<le> splits s' \<and> unmarked s \<le> unmarked s'"
proof (induction rule: rtranclp_induct)
  case (step u v)
  then show ?case using vstep_counters_mono [OF step.hyps(2)] by linarith
qed simp

text \<open>A dirty bit stays up until one of the counters grows.\<close>

definition vcount :: "'c vstate \<Rightarrow> nat" where
  "vcount s = inserts s + splits s + unmarked s"

lemma vsteps_vcount_mono: "vsteps s s' \<Longrightarrow> vcount s \<le> vcount s'"
  using vsteps_counters_mono [of s s'] by (simp add: vcount_def)

lemma vstep_vcount_mono: "vstep s s' \<Longrightarrow> vcount s \<le> vcount s'"
  using vstep_counters_mono [of s s'] by (simp add: vcount_def)

lemma vstep_dirty: "vstep s s' \<Longrightarrow> dirty s \<Longrightarrow> dirty s' \<or> vcount s < vcount s'"
proof (induction rule: vstep.induct)
  case (rmw_cas_ok s t r e)
  then show ?case
    by (cases "r = Unlock") (auto simp: dirty_body_def body_eq_iff vcount_def)
qed (auto simp: dirty_body_def body_eq_iff)

lemma vsteps_dirty: "vsteps s s' \<Longrightarrow> dirty s \<Longrightarrow> dirty s' \<or> vcount s < vcount s'"
proof (induction rule: rtranclp_induct)
  case (step u v)
  have "vcount u \<le> vcount v" by (rule vstep_vcount_mono [OF step.hyps(2)])
  moreover have "vcount s \<le> vcount u" by (rule vsteps_vcount_mono [OF step.hyps(1)])
  ultimately show ?case
    using step.IH [OF step.prems] vstep_dirty [OF step.hyps(2)] by (cases "dirty u") auto
qed simp

lemma vstep_clean_contents:
  "vstep s s' \<Longrightarrow> \<not> dirty s \<Longrightarrow> contents s' = contents s \<or> vcount s < vcount s'"
  by (induction rule: vstep.induct) (auto simp: vcount_def)

text \<open>With the counters where they were and no dirty bit up at the end, nothing was written.\<close>

lemma unchanged_counters_contents:
  assumes "vsteps u s'" and "\<not> dirty s'" and "vcount u = vcount s'"
  shows "contents u = contents s'"
  using assms
proof (induction rule: converse_rtranclp_induct)
  case (step u v)
  have m: "vcount u = vcount v" "vcount v = vcount s'"
    using vstep_vcount_mono [OF step.hyps(1)] vsteps_vcount_mono [OF step.hyps(2)]
      step.prems(2) by auto
  then have "contents v = contents s'" using step by auto
  moreover have "\<not> dirty u"
    using vsteps_dirty [of u s'] step by (auto intro: converse_rtranclp_into_rtranclp)
  ultimately show ?case using vstep_clean_contents [OF step.hyps(1)] m by auto
qed simp

lemma of_nat_29_eq:
  assumes "(of_nat m :: 29 word) = of_nat n" and "m \<le> n" and "n - m < 2 ^ 29"
  shows "m = n"
proof -
  have "unat (of_nat m :: 29 word) = unat (of_nat n :: 29 word)" by (simp only: assms(1))
  then have "m mod 2 ^ 29 = n mod 2 ^ 29" by (simp add: unat_of_nat take_bit_eq_mod)
  then have "2 ^ 29 dvd n - m" using assms(2) by (metis mod_eq_dvd_iff_nat)
  then show ?thesis using assms by (metis dvd_imp_le le_antisym diff_is_0_eq not_less zero_less_iff_neq_zero)
qed

section \<open>Undisturbed insertions\<close>

definition quiet :: "node_version64_body \<Rightarrow> 'c \<Rightarrow> nat \<Rightarrow> 'c vstate" where
  "quiet w c n = \<lparr>vword = w, pcs = (\<lambda>_. Idle), holds = (\<lambda>_. False), contents = c,
     inserts = n, splits = 0, unmarked = 0\<rparr>"

text \<open>Thread 0 locks, raises the dirty bit, writes and unlocks.\<close>

lemma insert_cycle:
  assumes "is_stable w"
  shows "vsteps (quiet w a n) (quiet (inc_vinsert_delete w) c (Suc n))"
proof -
  let ?l = "w\<lparr>locked := True\<rparr>" and ?d = "w\<lparr>locked := True, inserting_deleting := True\<rparr>"
  let ?h = "(\<lambda>_. False)(0 := True) :: nat \<Rightarrow> bool"
  have q: "\<not> locked w" "\<not> inserting_deleting w" "\<not> splitting w"
    using assms by (auto simp: is_stable_def)
  let ?s = "quiet w a n"
  let ?s1 = "?s\<lparr>pcs := (\<lambda>_. Idle)(0 := Lock_load)\<rparr>"
  let ?s2 = "?s\<lparr>pcs := (\<lambda>_. Idle)(0 := Lock_cas w)\<rparr>"
  let ?s3 = "?s\<lparr>vword := ?l, holds := ?h\<rparr>"
  let ?s4 = "?s\<lparr>vword := ?l, holds := ?h, pcs := (\<lambda>_. Idle)(0 := Rmw (Set_inserting_deleting True) ?l)\<rparr>"
  let ?s5 = "?s\<lparr>vword := ?d, holds := ?h\<rparr>"
  let ?s6 = "?s\<lparr>vword := ?d, holds := ?h, contents := c\<rparr>"
  let ?s7 = "?s\<lparr>vword := ?d, holds := ?h, contents := c, pcs := (\<lambda>_. Idle)(0 := Rmw Unlock ?d)\<rparr>"
  have "vstep ?s ?s1" using vstep.lock_call [of ?s 0] q by (simp add: quiet_def)
  moreover have "vstep ?s1 ?s2" using vstep.lock_load [of ?s1 0] q by (simp add: quiet_def)
  moreover have "vstep ?s2 ?s3"
    using vstep.lock_cas_ok [of ?s2 0 w] q by (simp add: body_eq_iff quiet_def dirty_body_def)
  moreover have "vstep ?s3 ?s4"
    using vstep.rmw_call [of ?s3 0 "Set_inserting_deleting True"] q by (simp add: quiet_def)
  moreover have "vstep ?s4 ?s5"
    using vstep.rmw_cas_ok [of ?s4 0 "Set_inserting_deleting True" ?l] q by (simp add: body_eq_iff quiet_def dirty_body_def)
  moreover have "vstep ?s5 ?s6" using vstep.node_write [of ?s5 0 c] q by (simp add: quiet_def dirty_body_def)
  moreover have "vstep ?s6 ?s7" using vstep.rmw_call [of ?s6 0 Unlock] q by (simp add: quiet_def)
  moreover have "unlock_body ?d = inc_vinsert_delete w"
    using q by (simp add: unlock_body_def inc_vinsert_delete_def inc_vsplit_def)
  then have "vstep ?s7 (quiet (inc_vinsert_delete w) c (Suc n))"
    using vstep.rmw_cas_ok [of ?s7 0 Unlock ?d] q by (simp add: body_eq_iff quiet_def dirty_body_def)
  ultimately show ?thesis by (meson converse_rtranclp_into_rtranclp rtranclp.rtrancl_refl)
qed

lemma insert_cycles:
  assumes "is_stable w"
  shows "vsteps (quiet w a m)
    (quiet (w\<lparr>vinsert_delete := vinsert_delete w + of_nat (Suc n)\<rparr>) c (m + Suc n))"
proof (induction n)
  case 0
  show ?case using insert_cycle [OF assms, of a m c] by (simp add: inc_vinsert_delete_def)
next
  case (Suc n)
  let ?w = "w\<lparr>vinsert_delete := vinsert_delete w + of_nat (Suc n)\<rparr>"
  have "is_stable ?w" using assms by (simp add: is_stable_def)
  from insert_cycle [OF this, of c "m + Suc n" c] Suc show ?case
    by (simp add: inc_vinsert_delete_def algebra_simps)
qed

section \<open>Properties\<close>

text \<open>
  C15. Mutual exclusion: in every interleaving of \<^verbatim>\<open>lock\<close>, \<^verbatim>\<open>unlock\<close> and the
  \<^verbatim>\<open>atomic_set_*\<close> loops, the last of which any thread may run without the lock, at most one
  thread holds the lock, and the lock bit is set exactly while a thread holds it.
\<close>

theorem lock_mutual_exclusion:
  assumes "vsteps (vinit c) s"
  shows "(\<forall>t u. holds s t \<and> holds s u \<longrightarrow> t = u) \<and> (locked (vword s) \<longleftrightarrow> (\<exists>t. holds s t))"
  using reachable_vinv [OF assms] by (simp add: vinv_def lock_agrees_def)

text \<open>
  Concrete runs: thread 1 sets the root bit and thread 0 takes the lock
  (\<open>vrun_locked\<close>), then thread 0 gives it back (\<open>vrun_unlocked\<close>).
\<close>

definition vrun_root :: "nat vstate" where
  "vrun_root = (vinit 7)\<lparr>vword := body_init\<lparr>root := True\<rparr>\<rparr>"

definition vrun_locked :: "nat vstate" where
  "vrun_locked = vrun_root\<lparr>vword := body_init\<lparr>root := True, locked := True\<rparr>,
     holds := (\<lambda>_. False)(0 := True)\<rparr>"

lemmas vrun_defs = vrun_root_def vrun_locked_def vinit_def body_init_def

lemma vrun_root_reachable: "vsteps (vinit 7) vrun_root"
proof -
  let ?s1 = "(vinit 7 :: nat vstate)\<lparr>pcs := (\<lambda>_. Idle)(1 := Rmw (Set_root True) body_init)\<rparr>"
  have "vstep (vinit 7) ?s1"
    using vstep.rmw_call [of "vinit 7 :: nat vstate" 1 "Set_root True"]
    by (simp add: vinit_def)
  moreover have "vstep ?s1 vrun_root"
    using vstep.rmw_cas_ok [of ?s1 1 "Set_root True" body_init]
    by (simp add: vrun_root_def vinit_def body_eq_iff dirty_body_def body_init_def)
  ultimately show ?thesis by (meson converse_rtranclp_into_rtranclp rtranclp.rtrancl_refl)
qed

lemma vrun_lock: "vsteps vrun_root vrun_locked"
proof -
  let ?s1 = "vrun_root\<lparr>pcs := (\<lambda>_. Idle)(0 := Lock_load)\<rparr>"
  let ?s2 = "vrun_root\<lparr>pcs := (\<lambda>_. Idle)(0 := Lock_cas (vword vrun_root))\<rparr>"
  have "vstep vrun_root ?s1"
    using vstep.lock_call [of vrun_root 0] by (simp add: vrun_defs)
  moreover have "vstep ?s1 ?s2"
    using vstep.lock_load [of ?s1 0] by (simp add: vrun_defs)
  moreover have "vstep ?s2 vrun_locked"
    using vstep.lock_cas_ok [of ?s2 0 "vword vrun_root"] by (simp add: vrun_defs body_eq_iff)
  ultimately show ?thesis by (meson converse_rtranclp_into_rtranclp rtranclp.rtrancl_refl)
qed

lemma vrun_unlock: "vsteps vrun_locked vrun_root"
proof -
  let ?s1 = "vrun_locked\<lparr>pcs := (\<lambda>_. Idle)(0 := Rmw Unlock (vword vrun_locked))\<rparr>"
  have "vstep vrun_locked ?s1"
    using vstep.rmw_call [of vrun_locked 0 Unlock] by (simp add: vrun_defs)
  moreover have "vstep ?s1 vrun_root"
    using vstep.rmw_cas_ok [of ?s1 0 Unlock "vword vrun_locked"]
    by (simp add: vrun_defs body_eq_iff unlock_body_def fun_upd_twist)
  ultimately show ?thesis by (meson converse_rtranclp_into_rtranclp rtranclp.rtrancl_refl)
qed

theorem lock_mutual_exclusion_witness:
  "locked (vword vrun_locked) \<and> holds vrun_locked 0 \<and> \<not> holds vrun_locked 1"
proof -
  have "vsteps (vinit 7) vrun_locked" by (rule rtranclp_trans [OF vrun_root_reachable vrun_lock])
  note ex = lock_mutual_exclusion [OF this]
  have "holds vrun_locked 0" by (simp add: vrun_locked_def)
  then show ?thesis using ex zero_neq_one by blast
qed

text \<open>
  C16. The optimistic reader: if \<^verbatim>\<open>get_stable_version\<close> returned the word of \<open>s\<close> and later
  an equal word of \<open>s'\<close>, fewer than \<open>2 ^ 29\<close> insertions and splits were completed in
  between, and the lock holders wrote nothing without a dirty bit in between, then the
  members had one and the same value in every state from \<open>s\<close> to \<open>s'\<close>: everything read in
  between is one consistent snapshot, whatever insertions and splits were attempted.
  Deletions from a border node, overwritten values and children replaced in a parent are
  writes without a dirty bit and are not detected by the version.
\<close>

theorem stable_version_snapshot:
  assumes "vsteps (vinit c) s" and "vsteps s u" and "vsteps u s'"
    and "get_stable_version (vword s) = Some v" and "get_stable_version (vword s') = Some v'"
    and "body_eq v v'"
    and "inserts s' - inserts s < 2 ^ 29" and "splits s' - splits s < 2 ^ 29"
    and "unmarked s' = unmarked s"
  shows "contents u = contents s \<and> contents s' = contents s"
proof -
  have "vinv s" "vinv s'"
    using assms(1-3) reachable_vinv by (meson rtranclp_trans)+
  moreover have w: "vword s = vword s'" "\<not> dirty s'"
    using assms(4-6) by (auto simp: get_stable_version_def body_eq_iff is_stable_def dirty_body_def
        split: if_splits)
  ultimately have eq: "(of_nat (inserts s) :: 29 word) = of_nat (inserts s')"
    "(of_nat (splits s) :: 29 word) = of_nat (splits s')"
    by (metis counters_agree_def vinv_def)+
  have m: "inserts s \<le> inserts s'" "splits s \<le> splits s'"
    using vsteps_counters_mono [OF rtranclp_trans [OF assms(2,3)]] by simp_all
  then have "vcount s = vcount s'"
    using of_nat_29_eq [OF eq(1)] of_nat_29_eq [OF eq(2)] assms(7-9) by (simp add: vcount_def)
  moreover from this have "vcount u = vcount s'"
    using vsteps_vcount_mono [OF assms(2)] vsteps_vcount_mono [OF assms(3)] by simp
  ultimately have "contents u = contents s'" "contents s = contents s'"
    using unchanged_counters_contents [of u s'] unchanged_counters_contents [of s s'] w(2) assms(2,3)
    by (auto intro: rtranclp_trans)
  then show ?thesis by simp
qed

theorem stable_version_snapshot_witness:
  "contents vrun_locked = contents vrun_root \<and> contents vrun_root = contents vrun_root"
  by (rule stable_version_snapshot [OF vrun_root_reachable vrun_lock vrun_unlock,
        where v = "vword vrun_root" and v' = "vword vrun_root"])
    (simp_all add: get_stable_version_def is_stable_def body_eq_iff vrun_defs)

text \<open>
  C36. The bound of the reader's guarantee is sharp: after exactly \<open>2 ^ 29\<close> insertions,
  each written under a dirty bit, the 29-bit counter is back at its old value and the two
  stable versions are equal although the members of the node have changed.
\<close>

theorem stable_version_wraps:
  "\<exists>(s :: nat vstate) s' v v'. vsteps (vinit 7) s \<and> vsteps s s' \<and>
     get_stable_version (vword s) = Some v \<and> get_stable_version (vword s') = Some v' \<and>
     body_eq v v' \<and> inserts s' - inserts s = 2 ^ 29 \<and> splits s' = splits s \<and>
     unmarked s' = unmarked s \<and> contents s' \<noteq> contents s"
proof -
  let ?s = "quiet body_init (7 :: nat) 0" and ?s' = "quiet body_init (8 :: nat) (2 ^ 29)"
  have z: "(of_nat (Suc (2 ^ 29 - 1)) :: 29 word) = 0" by simp
  have "is_stable body_init" by (simp add: is_stable_def body_init_def)
  from insert_cycles [OF this, of "7::nat" 0 "2 ^ 29 - 1" 8] have "vsteps ?s ?s'"
    unfolding z by (simp add: body_init_def)
  then show ?thesis
    by (intro exI [of _ ?s] exI [of _ ?s'] exI [of _ body_init])
      (simp add: vinit_def quiet_def get_stable_version_def is_stable_def body_init_def body_eq_iff)
qed

end
