(* ===== verification/Permutation.thy ===== *)
theory Permutation
  imports Key_Slice
begin

text \<open>
  \<^verbatim>\<open>include/permutation.h\<close>: the order of the keys of a border node, packed into one
  64-bit word. Bits 0-3 hold the number of keys, bits \<open>4 * (r + 1)\<close> to
  \<open>4 * (r + 1) + 3\<close> the slot of the key of rank \<open>r\<close>. The operations are translated on
  the word; the list view \<open>perm_list\<close> is the specification they are shown to refine.
\<close>

section \<open>Operations\<close>

type_synonym permutation = "64 word"

definition cnk_mask :: "64 word" where
  "cnk_mask = 0b1111"

abbreviation (input) cnk_bit_size :: nat where
  "cnk_bit_size \<equiv> 4"

abbreviation (input) pkey_bit_size :: nat where
  "pkey_bit_size \<equiv> 4"

definition get_cnk :: "permutation \<Rightarrow> 8 word" where
  "get_cnk per_body = ucast (per_body AND cnk_mask)"

definition dec_key_num :: "permutation \<Rightarrow> permutation" where
  "dec_key_num per_body =
     (let cnk = (per_body AND cnk_mask) - 1;
          per_body = per_body AND NOT cnk_mask
      in per_body OR cnk)"

definition delete_rank :: "permutation \<Rightarrow> nat \<Rightarrow> permutation" where
  "delete_rank body rank =
     (let cnk = ucast (get_cnk body);
          left = (if of_nat rank = cnk - 1 \<or> rank = key_slice_length - 1 then 0
                  else push_bit (pkey_bit_size * (rank + 1))
                         (drop_bit (pkey_bit_size * (rank + 2)) body));
          right = (if rank = 0 then 0
                   else drop_bit (pkey_bit_size * (key_slice_length - rank))
                          (push_bit (pkey_bit_size * (key_slice_length - rank)) body));
          final = left OR right;
          final = final AND NOT cnk_mask
      in final OR cnk)"

text \<open>
  The \<^verbatim>\<open>std::bitset<15>\<close> of used slots; \<^verbatim>\<open>set\<close> throws on position 15, which is the
  result \<open>None\<close>.
\<close>

fun mark_used :: "nat \<Rightarrow> permutation \<Rightarrow> bool list \<Rightarrow> bool list option" where
  "mark_used 0 per_body bs = Some bs"
| "mark_used (Suc n) per_body bs =
     (let per_body = drop_bit cnk_bit_size per_body
      in do { bs \<leftarrow> put_at bs (unat (per_body AND cnk_mask)) True;
              mark_used n per_body bs })"

fun first_clear :: "nat \<Rightarrow> bool list \<Rightarrow> nat option" where
  "first_clear i [] = None"
| "first_clear i (b # bs) = (if \<not> b then Some i else first_clear (Suc i) bs)"

definition get_empty_slot :: "permutation \<Rightarrow> nat option" where
  "get_empty_slot per_body =
     (let cnk = per_body AND cnk_mask
      in if cnk = 0 then Some 0
         else do {
           bs \<leftarrow> mark_used (unat cnk) per_body (replicate 15 False);
           case first_clear 0 bs of
             Some i \<Rightarrow> Some i
           | None \<Rightarrow> Some 0 \<comment> \<open>logged as a programming error\<close>
         })"

definition get_lowest_key_pos :: "permutation \<Rightarrow> nat" where
  "get_lowest_key_pos body =
     (let per = drop_bit cnk_bit_size body in unat (per AND cnk_mask))"

definition get_index_of_rank :: "permutation \<Rightarrow> nat \<Rightarrow> nat" where
  "get_index_of_rank body rank =
     (let per = drop_bit cnk_bit_size body;
          per = (if rank \<noteq> 0 then drop_bit (pkey_bit_size * rank) per else per)
      in unat (per AND cnk_mask))"

definition inc_key_num :: "permutation \<Rightarrow> permutation" where
  "inc_key_num per_body =
     (let cnk = (per_body AND cnk_mask) + 1;
          per_body = per_body AND NOT cnk_mask
      in per_body OR cnk)"

definition perm_init :: permutation where
  "perm_init = 0"

definition perm_insert :: "permutation \<Rightarrow> nat \<Rightarrow> nat \<Rightarrow> permutation" where
  "perm_insert body rank pos =
     (let cnk = ucast (get_cnk body);
          target = push_bit (pkey_bit_size * (rank + 1)) (of_nat pos);
          left = (if of_nat rank = cnk - 1 then 0
                  else push_bit (pkey_bit_size * (rank + 2))
                         (drop_bit (pkey_bit_size * (rank + 1)) body));
          right = (if rank = 0 then 0
                   else drop_bit (pkey_bit_size * (key_slice_length - rank))
                          (push_bit (pkey_bit_size * (key_slice_length - rank)) body));
          final = left OR target OR right;
          final = final AND NOT cnk_mask
      in final OR cnk)"

definition split_dest :: "nat \<Rightarrow> permutation" where
  "split_dest num =
     foldl (\<lambda>body i. body OR push_bit (pkey_bit_size * (i + 1)) (of_nat i)) 0 [1..<num]
       OR of_nat num"

definition set_cnk :: "permutation \<Rightarrow> 8 word \<Rightarrow> permutation" where
  "set_cnk body cnk = (body AND NOT cnk_mask) OR ucast cnk"

text \<open>
  \<^verbatim>\<open>std::sort\<close> on the array of (key tuple, index) pairs with the ordering of
  \<^verbatim>\<open>std::tuple\<close>: the key tuples first, the indices where neither is smaller.
\<close>

definition entry_less :: "key_tuple \<times> nat \<Rightarrow> key_tuple \<times> nat \<Rightarrow> bool" where
  "entry_less a b = (key_tuple_less (fst a) (fst b)
     \<or> \<not> key_tuple_less (fst b) (fst a) \<and> snd a < snd b)"

fun insort_entry :: "key_tuple \<times> nat \<Rightarrow> (key_tuple \<times> nat) list \<Rightarrow> (key_tuple \<times> nat) list" where
  "insort_entry x [] = [x]"
| "insort_entry x (y # ys) = (if entry_less y x then y # insort_entry x ys else x # y # ys)"

definition sort_entries :: "(key_tuple \<times> nat) list \<Rightarrow> (key_tuple \<times> nat) list" where
  "sort_entries xs = foldr insort_entry xs []"

definition rearrange ::
  "permutation \<Rightarrow> key_slice_type list \<Rightarrow> key_length_type list \<Rightarrow> permutation" where
  "rearrange per_body slices lens =
     (let cnk = unat (ucast (per_body AND cnk_mask) :: 8 word);
          ar = sort_entries (map (\<lambda>i. (\<lparr>key_slice = slices ! i, key_length = lens ! i\<rparr>, i))
                 [0..<cnk]);
          new_body = foldl (\<lambda>new_body e. push_bit pkey_bit_size (new_body OR of_nat (snd e))) 0 (rev ar)
      in new_body OR of_nat cnk)"

section \<open>The list view\<close>

definition perm_list :: "permutation \<Rightarrow> nat list" where
  "perm_list b = map (get_index_of_rank b) [0..<unat (get_cnk b)]"

definition perm_wf :: "permutation \<Rightarrow> bool" where
  "perm_wf b = (distinct (perm_list b) \<and> (\<forall>p \<in> set (perm_list b). p < key_slice_length))"

lemma cnk_mask_mask: "cnk_mask = mask 4"
  by (simp add: cnk_mask_def mask_eq_exp_minus_1)

lemma and_cnk_mask: "(w AND cnk_mask) = take_bit 4 w"
  by (simp only: cnk_mask_mask take_bit_eq_mask)

lemma bit_cnk_mask: "bit cnk_mask n \<longleftrightarrow> n < 4"
  by (auto simp only: cnk_mask_mask bit_mask_iff possible_bit_word) simp

lemma get_index_of_rank_nibble: "get_index_of_rank b r = nibble b (Suc r)"
  by (auto simp: get_index_of_rank_def nibble_def and_cnk_mask Let_def drop_bit_drop_bit
      add.commute)

lemma get_cnk_nibble: "unat (get_cnk b) = nibble b 0"
proof -
  have "unat (take_bit 4 b) < 2 ^ 8"
    using nibble_less [of b 0] by (simp add: nibble_def)
  then show ?thesis
    by (simp add: get_cnk_def nibble_def and_cnk_mask unsigned_ucast_eq take_bit_nat_eq_self)
qed

lemma length_perm_list: "length (perm_list b) = nibble b 0"
  by (simp add: perm_list_def get_cnk_nibble)

lemma nth_perm_list: "r < nibble b 0 \<Longrightarrow> perm_list b ! r = nibble b (Suc r)"
  by (simp add: perm_list_def get_cnk_nibble get_index_of_rank_nibble)

lemma perm_list_eqI:
  assumes "nibble b 0 = length xs" and "\<And>r. r < length xs \<Longrightarrow> nibble b (Suc r) = xs ! r"
  shows "perm_list b = xs"
  using assms by (intro nth_equalityI) (auto simp: length_perm_list nth_perm_list)

lemma word_less_16_bit: "unat (w :: 64 word) < 16 \<Longrightarrow> bit w n \<Longrightarrow> n < 4"
proof (rule ccontr)
  assume w: "unat w < 16" and b: "bit w n" and "\<not> n < 4"
  then have "(2::nat) ^ 4 \<le> 2 ^ n" by (intro power_increasing) auto
  then have "take_bit n (unat w) = unat w" using w by (simp add: take_bit_nat_eq_self)
  then have "\<not> bit (unat w) n" by (metis bit_take_bit_iff less_irrefl)
  then show False using b by (simp add: bit_unsigned_iff)
qed

lemma nibble_set_low:
  assumes "unat w < 16"
  shows "nibble ((x AND NOT cnk_mask) OR w) i = (if i = 0 then unat w else nibble x i)"
proof (cases "i = 0")
  case True
  have "nibble ((x AND NOT cnk_mask) OR w) 0 = unat w"
    using assms by (intro nibble_of_nat) (auto simp: bit_simps bit_cnk_mask)
  then show ?thesis using True by simp
next
  case False
  have "nibble ((x AND NOT cnk_mask) OR w) i = nibble x i"
  proof (rule nibble_eqI)
    fix j :: nat assume "j < 4"
    have "\<not> bit w (4 * i + j)" using False word_less_16_bit [OF assms, of "4 * i + j"] by auto
    then show "bit ((x AND NOT cnk_mask) OR w) (4 * i + j) = bit x (4 * i + j)"
      using False by (auto simp: bit_simps bit_cnk_mask dest: bit_imp_le_length)
  qed
  then show ?thesis using False by simp
qed

lemma ucast_get_cnk: "(ucast (get_cnk b) :: 64 word) = take_bit 4 b"
  by (rule bit_word_eqI) (auto simp: get_cnk_def and_cnk_mask bit_simps)

lemma unat_take_bit_nibble: "unat (take_bit 4 b :: 64 word) = nibble b 0"
  by (simp add: nibble_def)

lemma nibble_inc_key_num:
  assumes "nibble b 0 < 15"
  shows "nibble (inc_key_num b) i = (if i = 0 then Suc (nibble b 0) else nibble b i)"
proof -
  have u: "unat (take_bit 4 b + 1) = Suc (nibble b 0)"
    using assms by (simp add: unat_word_ariths unat_take_bit_nibble)
  then show ?thesis
    using assms nibble_set_low [of "take_bit 4 b + 1" b i]
    by (simp add: inc_key_num_def and_cnk_mask Let_def)
qed

lemma nibble_dec_key_num:
  assumes "0 < nibble b 0"
  shows "nibble (dec_key_num b) i = (if i = 0 then nibble b 0 - 1 else nibble b i)"
proof -
  have "take_bit 4 b \<noteq> 0" using assms by (metis less_irrefl unat_0 unat_take_bit_nibble)
  then have u: "unat (take_bit 4 b - 1) = nibble b 0 - 1"
    by (simp add: unat_minus_one unat_take_bit_nibble)
  have "nibble b 0 < 16" by simp
  then have "nibble b 0 - 1 < 16" by linarith
  with u show ?thesis
    using nibble_set_low [of "take_bit 4 b - 1" b i]
    by (simp add: dec_key_num_def and_cnk_mask Let_def)
qed

lemma rank_eq_last:
  assumes "rank < 16" and "0 < nibble b 0"
  shows "of_nat rank = (take_bit 4 b :: 64 word) - 1 \<longleftrightarrow> Suc rank = nibble b 0"
proof -
  have "take_bit 4 b \<noteq> 0" using assms by (metis less_irrefl unat_0 unat_take_bit_nibble)
  then have "unat (take_bit 4 b - 1) = nibble b 0 - 1"
    by (simp add: unat_minus_one unat_take_bit_nibble)
  moreover have "unat (of_nat rank :: 64 word) = rank" using assms by (simp add: unat_of_nat)
  ultimately show ?thesis using assms by (auto simp: word_unat_eq_iff)
qed

text \<open>The three fields an insertion or a deletion is put together from.\<close>

lemma nibble_right:
  assumes "0 < rank" "rank < 16"
  shows "nibble (drop_bit (4 * (15 - rank)) (push_bit (4 * (15 - rank)) b)) k
    = (if k \<le> rank then nibble b k else 0)"
proof (cases "k \<le> rank")
  case True
  have "nibble (drop_bit (4 * (15 - rank)) (push_bit (4 * (15 - rank)) b)) k = nibble b k"
    using True assms by (intro nibble_eqI) (auto simp: bit_simps)
  then show ?thesis using True by simp
next
  case False
  have "nibble (drop_bit (4 * (15 - rank)) (push_bit (4 * (15 - rank)) b)) k = 0"
    using False assms by (intro nibble_of_nat) (auto simp: bit_simps)
  then show ?thesis using False by simp
qed

lemma nibble_or_zero_right: "nibble y i = 0 \<Longrightarrow> nibble (x OR y) i = nibble x i"
  by (rule nibble_eqI) (metis bit_0_eq bit_nibble bit_or_iff bot_apply bot_bool_def)

lemma nibble_or_zero_left: "nibble x i = 0 \<Longrightarrow> nibble (x OR y) i = nibble y i"
  by (metis nibble_or_zero_right or.commute)

lemma nibble_push_drop:
  assumes "k < 16"
  shows "nibble (push_bit (4 * m) (drop_bit (4 * d) b)) k
    = (if k < m then 0 else nibble b (k - m + d))"
proof (cases "k < m")
  case True
  then show ?thesis using assms
    by (simp, intro nibble_of_nat) (auto simp: bit_simps)
next
  case False
  have "nibble (push_bit (4 * m) (drop_bit (4 * d) b)) k = nibble b (k - m + d)"
    using False assms by (intro nibble_eqI) (auto simp: bit_simps algebra_simps)
  then show ?thesis using False by simp
qed

lemma nibble_push_of_nat:
  assumes "k < 16" and "p < 16"
  shows "nibble (push_bit (4 * m) (of_nat p)) k = (if k = m then p else 0)"
proof -
  have p: "unat (of_nat p :: 64 word) < 16" using assms by (simp add: unat_of_nat)
  have "nibble (push_bit (4 * m) (of_nat p)) k = (if k < m then 0 else nibble (of_nat p) (k - m))"
    using nibble_push_drop [of k m 0 "of_nat p"] assms by simp
  also have "nibble (of_nat p) (k - m) = (if k - m = 0 then p else 0)"
    using nibble_set_low [OF p, of 0 "k - m"] assms by (simp add: unat_of_nat)
  finally show ?thesis by auto
qed

lemma nibble_perm_insert:
  assumes n: "0 < nibble b 0" and r: "rank < nibble b 0" and p: "pos < 16" and k: "k < nibble b 0"
  shows "nibble (perm_insert b rank pos) 0 = nibble b 0"
    and "nibble (perm_insert b rank pos) (Suc k) =
      (if k < rank then nibble b (Suc k) else if k = rank then pos else nibble b k)"
proof -
  let ?T = "push_bit (4 * (rank + 1)) (of_nat pos :: 64 word)"
  let ?L = "if of_nat rank = take_bit 4 b - 1 then 0
    else push_bit (4 * (rank + 2)) (drop_bit (4 * (rank + 1)) b)"
  let ?R = "if rank = 0 then 0 else drop_bit (4 * (15 - rank)) (push_bit (4 * (15 - rank)) b)"
  have eq: "perm_insert b rank pos = ((?L OR ?T OR ?R) AND NOT cnk_mask) OR take_bit 4 b"
    by (simp add: perm_insert_def ucast_get_cnk Let_def)
  have lt: "unat (take_bit 4 b) < 16" by (simp add: unat_take_bit_nibble)
  have b16: "nibble b 0 < 16" by simp
  then have k16: "Suc k < 16" and r16: "rank < 16" using k r by linarith+
  show "nibble (perm_insert b rank pos) 0 = nibble b 0"
    using nibble_set_low [OF lt] by (simp add: eq unat_take_bit_nibble)
  have L: "nibble ?L (Suc k) = (if k \<le> rank then 0 else nibble b k)"
    using rank_eq_last [OF r16 n] nibble_push_drop [OF k16, of "rank + 2" "rank + 1" b] k
    by (auto simp: Suc_diff_Suc)
  have T: "nibble ?T (Suc k) = (if k = rank then pos else 0)"
    using nibble_push_of_nat [OF k16 p, of "rank + 1"] by simp
  have R: "nibble ?R (Suc k) = (if Suc k \<le> rank then nibble b (Suc k) else 0)"
    using nibble_right [of rank b "Suc k"] r16 by simp
  have "nibble (perm_insert b rank pos) (Suc k) = nibble (?L OR ?T OR ?R) (Suc k)"
    using nibble_set_low [OF lt, of "?L OR ?T OR ?R" "Suc k"] by (simp only: eq) simp
  also have "\<dots> = (if k < rank then nibble b (Suc k) else if k = rank then pos else nibble b k)"
  proof (cases k rank rule: linorder_cases)
    case less
    then show ?thesis using L T R by (simp add: nibble_or_zero_left)
  next
    case equal
    then show ?thesis using L T R by (simp add: nibble_or_zero_left nibble_or_zero_right)
  next
    case greater
    then show ?thesis using L T R by (simp add: nibble_or_zero_right)
  qed
  finally show "nibble (perm_insert b rank pos) (Suc k) =
      (if k < rank then nibble b (Suc k) else if k = rank then pos else nibble b k)" .
qed

lemma perm_list_insert [perm_simps]:
  assumes n: "length (perm_list b) < 15" and r: "rank \<le> length (perm_list b)" and p: "pos < 16"
  shows "perm_list (perm_insert (inc_key_num b) rank pos) = ins_at rank pos (perm_list b)"
proof (rule perm_list_eqI)
  let ?c = "inc_key_num b"
  have c: "nibble ?c 0 = Suc (nibble b 0)" "\<And>k. nibble ?c (Suc k) = nibble b (Suc k)"
    using n by (simp_all add: nibble_inc_key_num length_perm_list)
  then show "nibble (perm_insert ?c rank pos) 0 = length (ins_at rank pos (perm_list b))"
    using nibble_perm_insert(1) [of ?c rank pos rank] r p by (simp add: length_perm_list)
  fix k assume "k < length (ins_at rank pos (perm_list b))"
  then have k: "k < nibble ?c 0" "k \<le> length (perm_list b)"
    using r c by (simp_all add: length_perm_list)
  have "nibble (perm_insert ?c rank pos) (Suc k) =
      (if k < rank then nibble ?c (Suc k) else if k = rank then pos else nibble ?c k)"
    using nibble_perm_insert(2) [of ?c rank pos k] r p k c by (simp add: length_perm_list)
  also have "\<dots> = ins_at rank pos (perm_list b) ! k"
    using r k c nth_perm_list by (cases k) (auto simp: nth_ins_at length_perm_list)
  finally show "nibble (perm_insert ?c rank pos) (Suc k) = ins_at rank pos (perm_list b) ! k" .
qed

lemma nibble_delete_rank_0: "nibble (delete_rank b rank) 0 = nibble b 0"
proof -
  have "unat (take_bit 4 b) < 16" by (simp add: unat_take_bit_nibble)
  then show ?thesis
    by (simp add: delete_rank_def ucast_get_cnk Let_def nibble_set_low unat_take_bit_nibble)
qed

lemma nibble_delete_rank:
  assumes r: "rank < nibble b 0" and k: "Suc k < nibble b 0"
  shows "nibble (delete_rank b rank) (Suc k) =
      (if k < rank then nibble b (Suc k) else nibble b (Suc (Suc k)))"
proof -
  let ?L = "if of_nat rank = take_bit 4 b - 1 \<or> rank = 14 then 0
    else push_bit (4 * (rank + 1)) (drop_bit (4 * (rank + 2)) b)"
  let ?R = "if rank = 0 then 0 else drop_bit (4 * (15 - rank)) (push_bit (4 * (15 - rank)) b)"
  have eq: "delete_rank b rank = ((?L OR ?R) AND NOT cnk_mask) OR take_bit 4 b"
    by (simp add: delete_rank_def ucast_get_cnk Let_def)
  have lt: "unat (take_bit 4 b) < 16" by (simp add: unat_take_bit_nibble)
  have b16: "nibble b 0 < 16" by simp
  then have k16: "Suc k < 16" and r16: "rank < 16" using k r by linarith+
  have L: "nibble ?L (Suc k) = (if k < rank then 0 else nibble b (Suc (Suc k)))"
    using rank_eq_last [OF r16, of b] nibble_push_drop [OF k16, of "rank + 1" "rank + 2" b] k r b16
    by auto
  have R: "nibble ?R (Suc k) = (if Suc k \<le> rank then nibble b (Suc k) else 0)"
    using nibble_right [of rank b "Suc k"] r16 by simp
  have "nibble (delete_rank b rank) (Suc k) = nibble (?L OR ?R) (Suc k)"
    using nibble_set_low [OF lt, of "?L OR ?R" "Suc k"] by (simp only: eq) simp
  also have "\<dots> = (if k < rank then nibble b (Suc k) else nibble b (Suc (Suc k)))"
    using L R by (cases "k < rank") (simp_all add: nibble_or_zero_left nibble_or_zero_right)
  finally show "nibble (delete_rank b rank) (Suc k) =
      (if k < rank then nibble b (Suc k) else nibble b (Suc (Suc k)))" .
qed

lemma perm_list_delete [perm_simps]:
  assumes r: "rank < length (perm_list b)"
  shows "perm_list (dec_key_num (delete_rank b rank)) = del_at rank (perm_list b)"
proof (rule perm_list_eqI)
  let ?d = "delete_rank b rank"
  have c: "nibble (dec_key_num ?d) i = (if i = 0 then nibble b 0 - 1 else nibble ?d i)" for i
    using r nibble_dec_key_num [of ?d i] by (simp add: length_perm_list nibble_delete_rank_0)
  then show "nibble (dec_key_num ?d) 0 = length (del_at rank (perm_list b))"
    using r by (simp add: length_perm_list)
  fix k assume "k < length (del_at rank (perm_list b))"
  then have k: "Suc k < nibble b 0" using r by (simp add: length_perm_list)
  then show "nibble (dec_key_num ?d) (Suc k) = del_at rank (perm_list b) ! k"
    using r nibble_delete_rank [of rank b k]
    by (simp add: c nth_del_at length_perm_list nth_perm_list)
qed

subsection \<open>The empty slot\<close>

lemma nibble_drop_bit: "nibble (drop_bit 4 b) k = nibble b (Suc k)"
  by (simp add: nibble_def drop_bit_drop_bit add.commute)

lemma mark_used_spec:
  assumes "\<And>r. r < n \<Longrightarrow> nibble b (Suc r) < length bs"
  shows "\<exists>bs'. mark_used n b bs = Some bs' \<and> length bs' = length bs \<and>
    (\<forall>i < length bs. bs' ! i \<longleftrightarrow> bs ! i \<or> (\<exists>r < n. nibble b (Suc r) = i))"
  using assms
proof (induction n arbitrary: b bs)
  case 0
  then show ?case by simp
next
  case (Suc n)
  let ?b = "drop_bit 4 b" and ?p = "nibble b (Suc 0)"
  let ?bs = "bs[?p := True]"
  have p: "?p < length bs" using Suc.prems [of 0] by simp
  have u: "unat (?b AND cnk_mask) = ?p"
    by (simp add: and_cnk_mask unat_take_bit_nibble nibble_drop_bit)
  have "\<And>r. r < n \<Longrightarrow> nibble ?b (Suc r) < length ?bs"
    using Suc.prems by (simp add: nibble_drop_bit)
  from Suc.IH [OF this] obtain bs' where bs':
    "mark_used n ?b ?bs = Some bs'" "length bs' = length bs"
    "\<forall>i < length bs. bs' ! i \<longleftrightarrow> ?bs ! i \<or> (\<exists>r < n. nibble ?b (Suc r) = i)"
    by auto
  have "mark_used (Suc n) b bs = Some bs'" using bs'(1) p u by (simp add: Let_def)
  moreover have "bs' ! i \<longleftrightarrow> bs ! i \<or> (\<exists>r < Suc n. nibble b (Suc r) = i)" if "i < length bs" for i
    using bs'(3) that p by (auto simp: nibble_drop_bit nth_list_update less_Suc_eq_0_disj)
  ultimately show ?case using bs'(2) by auto
qed

lemma first_clear_None: "first_clear i bs = None \<Longrightarrow> j < length bs \<Longrightarrow> bs ! j"
  by (induction bs arbitrary: i j) (auto simp: nth_Cons' split: if_splits)

lemma first_clear_Some:
  "first_clear i bs = Some s \<Longrightarrow> \<exists>k < length bs. s = i + k \<and> \<not> bs ! k \<and> (\<forall>j < k. bs ! j)"
proof (induction bs arbitrary: i)
  case (Cons b bs)
  show ?case
  proof (cases b)
    case True
    then obtain k where "k < length bs" "s = Suc i + k" "\<not> bs ! k" "\<forall>j < k. bs ! j"
      using Cons.IH [of "Suc i"] Cons.prems by auto
    then have "Suc k < length (b # bs) \<and> s = i + Suc k \<and> \<not> (b # bs) ! Suc k \<and>
        (\<forall>j < Suc k. (b # bs) ! j)"
      using True by (auto simp: less_Suc_eq_0_disj)
    then show ?thesis by blast
  next
    case False
    then have "0 < length (b # bs) \<and> s = i + 0 \<and> \<not> (b # bs) ! 0" using Cons.prems by simp
    then show ?thesis by blast
  qed
qed simp

lemma get_empty_slot_free [perm_simps]:
  assumes "perm_wf b" and "length (perm_list b) < 15"
  shows "\<exists>s < 15. get_empty_slot b = Some s \<and> s \<notin> set (perm_list b)
    \<and> (\<forall>j < s. j \<in> set (perm_list b))"
proof -
  have sub: "nibble b (Suc r) < 15" if "r < nibble b 0" for r
    using assms(1) that nth_perm_list [of r b]
    by (metis length_perm_list nth_mem perm_wf_def)
  have used: "(\<exists>r < nibble b 0. nibble b (Suc r) = i) \<longleftrightarrow> i \<in> set (perm_list b)" for i
    by (metis in_set_conv_nth length_perm_list nth_perm_list)
  show ?thesis
  proof (cases "nibble b 0 = 0")
    case True
    then have "b AND cnk_mask = 0"
      by (metis and_cnk_mask unat_eq_zero unat_take_bit_nibble)
    moreover have "perm_list b = []" using True length_perm_list [of b] by simp
    ultimately show ?thesis by (simp add: get_empty_slot_def)
  next
    case False
    have u: "unat (b AND cnk_mask) = nibble b 0" by (simp add: and_cnk_mask unat_take_bit_nibble)
    then have nz: "b AND cnk_mask \<noteq> 0" using False by (metis unat_0)
    obtain bs where bs: "mark_used (nibble b 0) b (replicate 15 False) = Some bs" "length bs = 15"
      "\<forall>i < 15. bs ! i \<longleftrightarrow> i \<in> set (perm_list b)"
      using mark_used_spec [of "nibble b 0" b "replicate 15 False"] sub used by auto
    have "\<not> {..<15} \<subseteq> set (perm_list b)"
    proof
      assume "{..<15} \<subseteq> set (perm_list b)"
      then have "card {..<15::nat} \<le> card (set (perm_list b))" by (intro card_mono) auto
      also have "\<dots> \<le> length (perm_list b)" by (rule card_length)
      finally show False using assms(2) by simp
    qed
    then have "\<not> (\<forall>j < length bs. bs ! j)" using bs by auto
    then obtain k where "first_clear 0 bs = Some k" "k < 15" "\<not> bs ! k" "\<forall>j < k. bs ! j"
      using first_clear_None [of 0 bs] first_clear_Some [of 0 bs] bs(2)
      by (cases "first_clear 0 bs") auto
    then show ?thesis
      using bs u nz by (auto simp: get_empty_slot_def Let_def)
  qed
qed

subsection \<open>The permutation of a freshly split node\<close>

lemma nibble_split_fold:
  assumes "m \<le> 15" and "k < 16"
  shows "nibble (foldl (\<lambda>body i. body OR push_bit (4 * (i + 1)) (of_nat i)) 0 [1..<m]) k
    = (if 2 \<le> k \<and> k \<le> m then k - 1 else 0)"
  using assms
proof (induction m)
  case (Suc m)
  show ?case
  proof (cases "m = 0")
    case False
    let ?f = "foldl (\<lambda>body i. body OR push_bit (4 * (i + 1)) (of_nat i)) (0 :: 64 word) [1..<m]"
    have T: "nibble (push_bit (4 * (m + 1)) (of_nat m :: 64 word)) k = (if k = m + 1 then m else 0)"
      using Suc.prems by (intro nibble_push_of_nat) auto
    have F: "nibble ?f k = (if 2 \<le> k \<and> k \<le> m then k - 1 else 0)" using Suc by simp
    have "nibble (?f OR push_bit (4 * (m + 1)) (of_nat m)) k = (if 2 \<le> k \<and> k \<le> Suc m then k - 1 else 0)"
      using T F False by (cases "k = m + 1") (auto simp: nibble_or_zero_left nibble_or_zero_right)
    then show ?thesis using False by simp
  qed simp
qed simp

lemma perm_list_split_dest [perm_simps]:
  assumes "1 \<le> num" and "num \<le> 15"
  shows "perm_list (split_dest num) = [0..<num]"
proof (rule perm_list_eqI)
  let ?f = "foldl (\<lambda>body i. body OR push_bit (4 * (i + 1)) (of_nat i)) (0 :: 64 word) [1..<num]"
  have N: "nibble (of_nat num :: 64 word) k = (if k = 0 then num else 0)" if "k < 16" for k
    using nibble_push_of_nat [OF that, of num 0] assms by simp
  have F: "nibble ?f k = (if 2 \<le> k \<and> k \<le> num then k - 1 else 0)" if "k < 16" for k
    using nibble_split_fold [OF assms(2) that] .
  show "nibble (split_dest num) 0 = length [0..<num]"
    using N [of 0] F [of 0] by (simp add: split_dest_def nibble_or_zero_left)
  fix r assume "r < length [0..<num]"
  then have "Suc r < 16" using assms by simp
  then show "nibble (split_dest num) (Suc r) = [0..<num] ! r"
    using N [of "Suc r"] F [of "Suc r"] \<open>r < length [0..<num]\<close>
    by (auto simp: split_dest_def nibble_or_zero_right)
qed

subsection \<open>Rearranging by key order\<close>

definition pack_indices :: "nat list \<Rightarrow> 64 word" where
  "pack_indices xs = foldl (\<lambda>w i. push_bit 4 (w OR of_nat i)) 0 (rev xs)"

lemma pack_indices_Cons: "pack_indices (x # xs) = push_bit 4 (pack_indices xs OR of_nat x)"
  by (simp add: pack_indices_def)

lemma nibble_pack_indices:
  assumes "length xs \<le> 15" and "\<forall>x \<in> set xs. x < 16" and "k < 16"
  shows "nibble (pack_indices xs) k = (if k = 0 \<or> length xs < k then 0 else xs ! (k - 1))"
  using assms
proof (induction xs arbitrary: k)
  case Nil
  then show ?case by (simp add: pack_indices_def)
next
  case (Cons x xs)
  let ?w = "pack_indices xs OR of_nat x"
  have x: "nibble (of_nat x :: 64 word) i = (if i = 0 then x else 0)" if "i < 16" for i
    using nibble_push_of_nat [OF that, of x 0] Cons.prems by simp
  have "nibble ?w i = (if i = 0 then x else if length xs < i then 0 else xs ! (i - 1))"
    if "i < 16" for i
    using Cons.IH [of i] Cons.prems that x [OF that]
    by (cases "i = 0") (auto simp: nibble_or_zero_left nibble_or_zero_right)
  then have w: "nibble ?w (k - 1) = (if k - 1 = 0 then x else if length xs < k - 1 then 0 else xs ! (k - 1 - 1))"
    using Cons.prems(3) by simp
  have "nibble (push_bit (4 * 1) (drop_bit (4 * 0) ?w)) k = (if k < 1 then 0 else nibble ?w (k - 1 + 0))"
    by (rule nibble_push_drop) (rule Cons.prems(3))
  then show ?case using w by (auto simp: pack_indices_Cons nth_Cons')
qed

lemma set_insort_entry [simp]: "set (insort_entry x xs) = insert x (set xs)"
  by (induction xs) auto

lemma length_insort_entry [simp]: "length (insort_entry x xs) = Suc (length xs)"
  by (induction xs) auto

lemma set_sort_entries [simp]: "set (sort_entries xs) = set xs"
  unfolding sort_entries_def by (induction xs) auto

lemma length_sort_entries [simp]: "length (sort_entries xs) = length xs"
  unfolding sort_entries_def by (induction xs) auto

lemma distinct_insort_entry: "distinct (map snd (insort_entry x xs)) \<longleftrightarrow> distinct (map snd (x # xs))"
  by (induction xs) auto

lemma distinct_sort_entries: "distinct (map snd xs) \<Longrightarrow> distinct (map snd (sort_entries xs))"
proof (induction xs)
  case (Cons x xs)
  then show ?case
    using set_sort_entries [of xs] by (auto simp: distinct_insort_entry sort_entries_def)
qed (simp add: sort_entries_def)

definition entry_ord :: "key_tuple \<times> nat \<Rightarrow> byte list \<times> nat" where
  "entry_ord e = key_ord (key_slice (fst e), key_length (fst e))"

lemma entry_less_ord:
  assumes "canonical (key_slice (fst a), key_length (fst a))"
    and "canonical (key_slice (fst b), key_length (fst b))"
    and "entry_ord a \<noteq> entry_ord b"
  shows "entry_less a b \<longleftrightarrow> entry_ord a < entry_ord b"
proof -
  have ne: "key_length (fst a) \<noteq> 0 \<or> key_length (fst b) \<noteq> 0"
  proof (rule ccontr)
    assume "\<not> ?thesis"
    then have "entry_ord a = entry_ord b"
      using assms(1,2) by (simp add: canonical_def entry_ord_def key_ord_def)
    then show False using assms(3) by simp
  qed
  then show ?thesis
    using assms key_tuple_less_key_ord [of "fst a" "fst b"] key_tuple_less_key_ord [of "fst b" "fst a"]
    by (auto simp: entry_less_def entry_ord_def)
qed

lemma sorted_insort_entry:
  assumes "\<forall>y \<in> set (x # xs). canonical (key_slice (fst y), key_length (fst y))"
    and "\<forall>y \<in> set xs. entry_ord y \<noteq> entry_ord x"
    and "sorted_wrt (\<lambda>a b. entry_ord a < entry_ord b) xs"
  shows "sorted_wrt (\<lambda>a b. entry_ord a < entry_ord b) (insort_entry x xs)"
  using assms
proof (induction xs)
  case (Cons y ys)
  have "entry_less y x \<longleftrightarrow> entry_ord y < entry_ord x"
    using Cons.prems by (intro entry_less_ord) auto
  then show ?case using Cons by (auto simp: not_less le_less dest: less_trans)
qed simp

lemma sorted_sort_entries:
  assumes "\<forall>y \<in> set xs. canonical (key_slice (fst y), key_length (fst y))"
    and "distinct (map entry_ord xs)"
  shows "sorted_wrt (\<lambda>a b. entry_ord a < entry_ord b) (sort_entries xs)"
  using assms
proof (induction xs)
  case (Cons x xs)
  have "sorted_wrt (\<lambda>a b. entry_ord a < entry_ord b) (insort_entry x (sort_entries xs))"
    using Cons by (intro sorted_insort_entry) (auto simp: image_iff)
  then show ?case by (simp add: sort_entries_def)
qed (simp add: sort_entries_def)

lemma perm_list_rearrange:
  "perm_list (rearrange b slices lens) =
     map snd (sort_entries (map (\<lambda>i. (\<lparr>key_slice = slices ! i, key_length = lens ! i\<rparr>, i))
       [0..<nibble b 0]))"
proof (rule perm_list_eqI)
  let ?es = "map (\<lambda>i. (\<lparr>key_slice = slices ! i, key_length = lens ! i\<rparr>, i)) [0..<nibble b 0]"
  let ?xs = "map snd (sort_entries ?es)"
  have n: "nibble b 0 < 16" by simp
  then have n15: "nibble b 0 \<le> 15" by linarith
  have cnk: "unat (ucast (b AND cnk_mask) :: 8 word) = nibble b 0"
    using get_cnk_nibble [of b] by (simp add: get_cnk_def)
  have eq: "rearrange b slices lens = pack_indices ?xs OR of_nat (nibble b 0)"
    by (simp add: rearrange_def cnk Let_def pack_indices_def rev_map foldl_map)
  have P: "nibble (pack_indices ?xs) k = (if k = 0 \<or> length ?xs < k then 0 else ?xs ! (k - 1))"
    if "k < 16" for k
    using that n15 by (intro nibble_pack_indices) auto
  have N: "nibble (of_nat (nibble b 0) :: 64 word) k = (if k = 0 then nibble b 0 else 0)"
    if "k < 16" for k
    using nibble_push_of_nat [OF that n, of 0] by simp
  show "nibble (rearrange b slices lens) 0 = length ?xs"
    using P [of 0] N [of 0] by (simp add: eq nibble_or_zero_left)
  fix r assume r: "r < length ?xs"
  then have "Suc r < 16" using n15 by simp
  then show "nibble (rearrange b slices lens) (Suc r) = ?xs ! r"
    using P [of "Suc r"] N [of "Suc r"] r by (simp add: eq nibble_or_zero_right)
qed

section \<open>The contract of the slot order\<close>

text \<open>
  What the border node relies on: the ranks are a list of distinct slots below the
  capacity, a free slot is found while there is room, and insertion and deletion by rank
  are insertion into and deletion from that list.
\<close>

locale slot_order =
  fixes order :: "'p \<Rightarrow> nat list"
    and count :: "'p \<Rightarrow> nat"
    and index_of :: "'p \<Rightarrow> nat \<Rightarrow> nat"
    and add_slot :: "'p \<Rightarrow> nat \<Rightarrow> nat \<Rightarrow> 'p"
    and drop_rank :: "'p \<Rightarrow> nat \<Rightarrow> 'p"
    and free_slot :: "'p \<Rightarrow> nat option"
    and capacity :: nat
    and invar :: "'p \<Rightarrow> bool"
  assumes count_order: "count p = length (order p)"
    and index_order: "r < length (order p) \<Longrightarrow> index_of p r = order p ! r"
    and invar_order: "invar p \<longleftrightarrow> distinct (order p) \<and> (\<forall>s \<in> set (order p). s < capacity)"
    and order_add: "length (order p) < capacity \<Longrightarrow> r \<le> length (order p) \<Longrightarrow> s < capacity \<Longrightarrow>
          order (add_slot p r s) = ins_at r s (order p)"
    and order_drop: "r < length (order p) \<Longrightarrow> order (drop_rank p r) = del_at r (order p)"
    and free: "invar p \<Longrightarrow> length (order p) < capacity \<Longrightarrow>
          \<exists>s < capacity. free_slot p = Some s \<and> s \<notin> set (order p)"
begin

lemma count_le_capacity: "invar p \<Longrightarrow> count p \<le> capacity"
proof -
  assume "invar p"
  then have "distinct (order p)" "set (order p) \<subseteq> {..<capacity}"
    by (auto simp: invar_order)
  then have "length (order p) \<le> card {..<capacity}"
    by (metis card_mono distinct_card finite_lessThan)
  then show ?thesis by (simp add: count_order)
qed

lemma free_slot_add:
  assumes "invar p" and "count p < capacity" and "r \<le> count p"
  obtains s where "free_slot p = Some s" and "s < capacity" and "s \<notin> set (order p)"
    and "order (add_slot p r s) = ins_at r s (order p)" and "invar (add_slot p r s)"
proof -
  obtain s where s: "s < capacity" "free_slot p = Some s" "s \<notin> set (order p)"
    using free assms by (auto simp: count_order)
  moreover have "order (add_slot p r s) = ins_at r s (order p)"
    using s assms by (intro order_add) (auto simp: count_order)
  moreover from this have "invar (add_slot p r s)"
    using s assms(1) by (auto simp: invar_order distinct_ins_at)
  ultimately show thesis using that by blast
qed

lemma invar_drop: "invar p \<Longrightarrow> r < count p \<Longrightarrow> invar (drop_rank p r)"
  using set_del_at_subset [of r "order p"]
  by (auto simp: count_order invar_order order_drop distinct_del_at)

lemma drop_add_same:
  "invar p \<Longrightarrow> count p < capacity \<Longrightarrow> r \<le> count p \<Longrightarrow> s < capacity \<Longrightarrow>
   order (drop_rank (add_slot p r s) r) = order p"
  by (simp add: order_drop order_add count_order)

end

interpretation perm: slot_order perm_list "\<lambda>b. unat (get_cnk b)" get_index_of_rank
  "\<lambda>b r s. perm_insert (inc_key_num b) r s" "\<lambda>b r. dec_key_num (delete_rank b r)"
  get_empty_slot key_slice_length perm_wf
proof
  show "unat (get_cnk p) = length (perm_list p)" for p by (simp add: perm_list_def)
  show "r < length (perm_list p) \<Longrightarrow> get_index_of_rank p r = perm_list p ! r" for r p
    by (simp add: perm_list_def)
  show "perm_wf p = (distinct (perm_list p) \<and> (\<forall>s \<in> set (perm_list p). s < 15))" for p
    by (simp add: perm_wf_def)
  show "\<lbrakk>length (perm_list p) < 15; r \<le> length (perm_list p); s < 15\<rbrakk>
      \<Longrightarrow> perm_list (perm_insert (inc_key_num p) r s) = ins_at r s (perm_list p)" for p r s
    by (rule perm_list_insert) auto
  show "r < length (perm_list p) \<Longrightarrow> perm_list (dec_key_num (delete_rank p r)) = del_at r (perm_list p)"
    for r p by (rule perm_list_delete)
  show "\<lbrakk>perm_wf p; length (perm_list p) < 15\<rbrakk>
      \<Longrightarrow> \<exists>s<15. get_empty_slot p = Some s \<and> s \<notin> set (perm_list p)" for p
    using get_empty_slot_free by blast
qed

section \<open>Properties\<close>

text \<open>
  C17. Inserting into a permutation that is not full: the slot found by
  \<^verbatim>\<open>get_empty_slot\<close> is unused, and \<^verbatim>\<open>inc_key_num\<close> followed by \<^verbatim>\<open>insert(rank, slot)\<close> on the
  64-bit word inserts it into the rank order at \<^verbatim>\<open>rank\<close>, keeping all slots distinct.
\<close>

theorem perm_insert_refines:
  assumes "perm_wf b" and "unat (get_cnk b) < 15" and "rank \<le> unat (get_cnk b)"
  shows "\<exists>s < 15. get_empty_slot b = Some s \<and> s \<notin> set (perm_list b) \<and>
    perm_list (perm_insert (inc_key_num b) rank s) = ins_at rank s (perm_list b) \<and>
    perm_wf (perm_insert (inc_key_num b) rank s)"
  using perm.free_slot_add [OF assms] by blast

theorem perm_insert_refines_witness:
  "\<exists>s < 15. get_empty_slot 0x2013 = Some s \<and> s \<notin> set (perm_list 0x2013) \<and>
    perm_list (perm_insert (inc_key_num 0x2013) 1 s) = ins_at 1 s (perm_list 0x2013) \<and>
    perm_wf (perm_insert (inc_key_num 0x2013) 1 s)"
proof -
  have "perm_wf 0x2013" "unat (get_cnk 0x2013) < 15" "1 \<le> unat (get_cnk 0x2013)"
    by code_simp+
  then show ?thesis by (rule perm_insert_refines)
qed

text \<open>
  C18. \<^verbatim>\<open>delete_rank\<close> followed by \<^verbatim>\<open>dec_key_num\<close> removes exactly the entry of the given rank
  from the rank order, for every rank below the key count, the last of a full node (where
  the shift distance would be the word size) included, and keeps the order well formed.
\<close>

theorem perm_delete_refines:
  assumes "perm_wf b" and "rank < unat (get_cnk b)"
  shows "perm_list (dec_key_num (delete_rank b rank)) = del_at rank (perm_list b) \<and>
    perm_wf (dec_key_num (delete_rank b rank))"
  using assms perm.invar_drop perm.order_drop by (simp add: perm.count_order)

theorem perm_delete_refines_witness:
  "perm_list (dec_key_num (delete_rank 0xE0123456789ABCDF 14)) =
     del_at 14 (perm_list 0xE0123456789ABCDF) \<and>
   perm_wf (dec_key_num (delete_rank 0xE0123456789ABCDF 14))"
proof -
  have "perm_wf 0xE0123456789ABCDF" "14 < unat (get_cnk 0xE0123456789ABCDF)" by code_simp+
  then show ?thesis by (rule perm_delete_refines)
qed

text \<open>
  C28. \<^verbatim>\<open>rearrange\<close> sorts: with canonical and pairwise different keys the new rank order is
  a permutation of the slots in use under which the keys are strictly increasing.
\<close>

theorem rearrange_sorts:
  assumes "\<forall>i < unat (get_cnk b). canonical (slices ! i, lens ! i)"
    and "distinct (map (\<lambda>i. (slices ! i, lens ! i)) [0..<unat (get_cnk b)])"
  shows "set (perm_list (rearrange b slices lens)) = {0..<unat (get_cnk b)} \<and>
    sorted_wrt (\<lambda>i j. key_ord (slices ! i, lens ! i) < key_ord (slices ! j, lens ! j))
      (perm_list (rearrange b slices lens))"
proof -
  let ?e = "\<lambda>i. (\<lparr>key_slice = slices ! i, key_length = lens ! i\<rparr>, i)"
  let ?es = "map ?e [0..<nibble b 0]"
  have "inj_on (\<lambda>i. (slices ! i, lens ! i)) {0..<nibble b 0}"
    using assms(2) by (simp add: get_cnk_nibble distinct_map)
  then have "distinct (map entry_ord ?es)"
    by (auto simp: distinct_map inj_on_def entry_ord_def dest: key_ord_inj)
  moreover have "\<forall>y \<in> set ?es. canonical (key_slice (fst y), key_length (fst y))"
    using assms(1) by (simp add: get_cnk_nibble)
  ultimately have "sorted_wrt (\<lambda>a b. entry_ord a < entry_ord b) (sort_entries ?es)"
    by (rule sorted_sort_entries [rotated])
  moreover have "entry_ord x = key_ord (slices ! snd x, lens ! snd x)" if "x \<in> set (sort_entries ?es)" for x
    using that by (auto simp: entry_ord_def)
  ultimately show ?thesis
    by (auto simp: perm_list_rearrange get_cnk_nibble sorted_wrt_map image_image
        intro: sorted_wrt_mono_rel [rotated])
qed

theorem rearrange_sorts_witness:
  "set (perm_list (rearrange 3 [0x62, 0, 0x61] [1, 0, 1])) = {0..<unat (get_cnk 3)} \<and>
   sorted_wrt (\<lambda>i j. key_ord ([0x62, 0, 0x61] ! i, [1, 0, 1] ! i)
       < key_ord ([0x62, 0, 0x61] ! j, [1, 0, 1] ! j))
     (perm_list (rearrange 3 [0x62, 0, 0x61] [1, 0, 1]))"
proof -
  have "\<forall>i < unat (get_cnk 3). canonical ([0x62, 0, 0x61] ! i, [1, 0, 1] ! i)"
    "distinct (map (\<lambda>i. ([0x62, 0, 0x61 :: 64 word] ! i, [1, 0, 1 :: 8 word] ! i)) [0..<unat (get_cnk 3)])"
    by code_simp+
  then show ?thesis by (rule rearrange_sorts)
qed

end
