(* ===== verification/Base_Node.thy ===== *)
theory Base_Node
  imports Version Permutation
begin

text \<open>
  \<^verbatim>\<open>include/base_node.h\<close>: the part border and interior nodes share. A node has fifteen key
  slices with their lengths, a pointer to its parent and a version word. The operations
  here are those on the members themselves; \<^verbatim>\<open>lock_parent\<close>, which follows a pointer, is in
  the theory of the heap. A member function that leaves the arrays (\<^verbatim>\<open>at\<close> throws) has the
  result \<open>None\<close>.
\<close>

record base_node =
  key_slice_arr :: "key_slice_type list"
  parent :: addr
  version :: node_version64_body
  key_length_arr :: "key_length_type list"

section \<open>Members\<close>

definition get_key_slice_at :: "base_node \<Rightarrow> nat \<Rightarrow> key_slice_type option" where
  "get_key_slice_at n i = at (key_slice_arr n) i"

definition get_key_length_at :: "base_node \<Rightarrow> nat \<Rightarrow> key_length_type option" where
  "get_key_length_at n i = at (key_length_arr n) i"

definition set_key_slice_at :: "nat \<Rightarrow> key_slice_type \<Rightarrow> base_node \<Rightarrow> base_node option" where
  "set_key_slice_at i s n = map_option (\<lambda>xs. n\<lparr>key_slice_arr := xs\<rparr>) (put_at (key_slice_arr n) i s)"

definition set_key_length_at :: "nat \<Rightarrow> key_length_type \<Rightarrow> base_node \<Rightarrow> base_node option" where
  "set_key_length_at i l n = map_option (\<lambda>xs. n\<lparr>key_length_arr := xs\<rparr>) (put_at (key_length_arr n) i l)"

definition set_key :: "nat \<Rightarrow> key_slice_type \<Rightarrow> key_length_type \<Rightarrow> base_node \<Rightarrow> base_node option" where
  "set_key i s l n = set_key_slice_at i s n \<bind> set_key_length_at i l"

definition set_parent :: "addr \<Rightarrow> base_node \<Rightarrow> base_node" where
  "set_parent p n = n\<lparr>parent := p\<rparr>"

definition set_version :: "node_version64_body \<Rightarrow> base_node \<Rightarrow> base_node" where
  "set_version v n = n\<lparr>version := v\<rparr>"

definition set_version_border :: "bool \<Rightarrow> base_node \<Rightarrow> base_node" where
  "set_version_border tf n = n\<lparr>version := atomic_set_border tf (version n)\<rparr>"

definition set_version_deleted :: "bool \<Rightarrow> base_node \<Rightarrow> base_node" where
  "set_version_deleted tf n = n\<lparr>version := atomic_set_deleted tf (version n)\<rparr>"

definition set_version_inserting_deleting :: "bool \<Rightarrow> base_node \<Rightarrow> base_node" where
  "set_version_inserting_deleting tf n =
     n\<lparr>version := atomic_set_inserting_deleting tf (version n)\<rparr>"

definition set_version_root :: "bool \<Rightarrow> base_node \<Rightarrow> base_node" where
  "set_version_root tf n = n\<lparr>version := atomic_set_root tf (version n)\<rparr>"

definition set_version_splitting :: "bool \<Rightarrow> base_node \<Rightarrow> base_node" where
  "set_version_splitting tf n = n\<lparr>version := atomic_set_splitting tf (version n)\<rparr>"

definition version_atomic_inc_vinsert :: "base_node \<Rightarrow> base_node" where
  "version_atomic_inc_vinsert n = n\<lparr>version := atomic_inc_vinsert (version n)\<rparr>"

definition lock_node :: "base_node \<Rightarrow> base_node option" where
  "lock_node n = map_option (\<lambda>v. n\<lparr>version := v\<rparr>) (lock (version n))"

definition version_unlock :: "base_node \<Rightarrow> base_node" where
  "version_unlock n = n\<lparr>version := unlock (version n)\<rparr>"

text \<open>The members as constructed, and \<^verbatim>\<open>init_base()\<close>.\<close>

definition new_base_node :: base_node where
  "new_base_node = \<lparr>key_slice_arr = replicate key_slice_length 0, parent = nullptr,
     version = body_init, key_length_arr = replicate key_slice_length 0\<rparr>"

definition init_base :: "base_node \<Rightarrow> base_node" where
  "init_base n = n\<lparr>version := body_init, parent := nullptr,
     key_slice_arr := replicate (length (key_slice_arr n)) 0,
     key_length_arr := replicate (length (key_length_arr n)) 0\<rparr>"

text \<open>\<^verbatim>\<open>init_base(pos)\<close>.\<close>

definition init_base_at :: "nat \<Rightarrow> base_node \<Rightarrow> base_node option" where
  "init_base_at pos n = set_key pos 0 0 n"

definition init_base_member_range :: "nat \<Rightarrow> base_node \<Rightarrow> base_node option" where
  "init_base_member_range start n = foldM (\<lambda>i. set_key i 0 0) [start..<key_slice_length] n"

text \<open>\<^verbatim>\<open>move_key_to_base_range\<close>: the result is the pair of this node and the right one.\<close>

definition move_key_to_base_range ::
  "nat \<Rightarrow> base_node \<Rightarrow> base_node \<Rightarrow> (base_node \<times> base_node) option" where
  "move_key_to_base_range start n right =
     foldM (\<lambda>i (n, right). do {
         s \<leftarrow> get_key_slice_at n i;
         l \<leftarrow> get_key_length_at n i;
         right \<leftarrow> set_key (i - start) s l right;
         n \<leftarrow> set_key i 0 0 n;
         Some (n, right)
       }) [start..<key_slice_length] (n, right)"

text \<open>
  The shifts are \<^verbatim>\<open>memmove\<close>s of the tail of each array; both ends of the move are computed
  with \<^verbatim>\<open>at\<close>, in \<^verbatim>\<open>size_t\<close>, so a shift beyond the first element throws.
\<close>

definition move_left :: "nat \<Rightarrow> nat \<Rightarrow> 'a list \<Rightarrow> 'a list" where
  "move_left start k xs = take (start - k) xs @ drop start xs @ drop (length xs - k) xs"

definition move_right :: "nat \<Rightarrow> nat \<Rightarrow> 'a list \<Rightarrow> 'a list" where
  "move_right start k xs = take (start + k) xs @ take (length xs - start - k) (drop start xs)"

definition shift_left_base_member :: "nat \<Rightarrow> nat \<Rightarrow> base_node \<Rightarrow> base_node option" where
  "shift_left_base_member start_pos shift_size n =
     (if shift_size \<le> start_pos \<and> start_pos < key_slice_length
      then Some (n\<lparr>key_slice_arr := move_left start_pos shift_size (key_slice_arr n),
        key_length_arr := move_left start_pos shift_size (key_length_arr n)\<rparr>)
      else None)"

definition shift_right_base_member :: "nat \<Rightarrow> nat \<Rightarrow> base_node \<Rightarrow> base_node option" where
  "shift_right_base_member start shift_size n =
     (if start + shift_size < key_slice_length
      then Some (n\<lparr>key_slice_arr := move_right start shift_size (key_slice_arr n),
        key_length_arr := move_right start shift_size (key_length_arr n)\<rparr>)
      else None)"

section \<open>Well-formedness and the key arrays as one list\<close>

definition base_wf :: "base_node \<Rightarrow> bool" where
  "base_wf n \<longleftrightarrow> length (key_slice_arr n) = key_slice_length \<and>
     length (key_length_arr n) = key_slice_length"

type_synonym key = "key_slice_type \<times> key_length_type"

definition base_keys :: "base_node \<Rightarrow> key list" where
  "base_keys n = zip (key_slice_arr n) (key_length_arr n)"

lemma length_base_keys [simp]: "base_wf n \<Longrightarrow> length (base_keys n) = 15"
  by (simp add: base_keys_def base_wf_def)

lemma nth_base_keys: "base_wf n \<Longrightarrow> i < 15 \<Longrightarrow>
  base_keys n ! i = (key_slice_arr n ! i, key_length_arr n ! i)"
  by (simp add: base_keys_def base_wf_def)

lemma get_key_at [node_simps]:
  "base_wf n \<Longrightarrow> i < 15 \<Longrightarrow> get_key_slice_at n i = Some (fst (base_keys n ! i))"
  "base_wf n \<Longrightarrow> i < 15 \<Longrightarrow> get_key_length_at n i = Some (snd (base_keys n ! i))"
  by (simp_all add: get_key_slice_at_def get_key_length_at_def nth_base_keys) (simp_all add: base_wf_def)

lemma set_key_eq:
  "base_wf n \<Longrightarrow> i < 15 \<Longrightarrow> set_key i s l n =
     Some (n\<lparr>key_slice_arr := (key_slice_arr n)[i := s], key_length_arr := (key_length_arr n)[i := l]\<rparr>)"
  by (simp add: set_key_def set_key_slice_at_def set_key_length_at_def base_wf_def)

lemma set_key_keys:
  assumes "base_wf n" and "i < 15"
  shows "\<exists>n'. set_key i s l n = Some n' \<and> base_wf n' \<and> base_keys n' = (base_keys n)[i := (s, l)] \<and>
    version n' = version n \<and> parent n' = parent n"
  using assms by (simp add: set_key_eq) (simp add: base_wf_def base_keys_def update_zip)

lemma length_move_left [simp]:
  "k \<le> start \<Longrightarrow> start \<le> length xs \<Longrightarrow> length (move_left start k xs) = length xs"
  by (simp add: move_left_def)

lemma length_move_right [simp]:
  "start + k \<le> length xs \<Longrightarrow> length (move_right start k xs) = length xs"
  by (simp add: move_right_def)

lemma zip_move_left:
  "length xs = length ys \<Longrightarrow> move_left s k (zip xs ys) = zip (move_left s k xs) (move_left s k ys)"
  by (simp add: move_left_def zip_append take_zip drop_zip)

lemma zip_move_right:
  "length xs = length ys \<Longrightarrow> move_right s k (zip xs ys) = zip (move_right s k xs) (move_right s k ys)"
  by (simp add: move_right_def zip_append take_zip drop_zip)

lemma shift_left_keys:
  assumes "base_wf n" and "k \<le> s" and "s < 15"
  shows "\<exists>n'. shift_left_base_member s k n = Some n' \<and> base_wf n' \<and>
    base_keys n' = move_left s k (base_keys n) \<and> version n' = version n \<and> parent n' = parent n"
  using assms
  by (simp add: shift_left_base_member_def) (simp add: base_wf_def base_keys_def zip_move_left)

lemma shift_right_keys:
  assumes "base_wf n" and "s + k < 15"
  shows "\<exists>n'. shift_right_base_member s k n = Some n' \<and> base_wf n' \<and>
    base_keys n' = move_right s k (base_keys n) \<and> version n' = version n \<and> parent n' = parent n"
  using assms
  by (simp add: shift_right_base_member_def) (simp add: base_wf_def base_keys_def zip_move_right)

lemma base_wf_init [simp]: "base_wf new_base_node" "base_wf (init_base n) = base_wf n"
  by (simp_all add: base_wf_def new_base_node_def init_base_def)

lemma base_wf_set [simp]:
  "base_wf (set_parent p n) = base_wf n"
  "base_wf (set_version v n) = base_wf n"
  "base_wf (set_version_border tf n) = base_wf n"
  "base_wf (set_version_deleted tf n) = base_wf n"
  "base_wf (set_version_inserting_deleting tf n) = base_wf n"
  "base_wf (set_version_root tf n) = base_wf n"
  "base_wf (set_version_splitting tf n) = base_wf n"
  "base_wf (version_unlock n) = base_wf n"
  "base_wf (version_atomic_inc_vinsert n) = base_wf n"
  by (simp_all add: base_wf_def set_parent_def set_version_def set_version_border_def
      set_version_deleted_def set_version_inserting_deleting_def set_version_root_def
      set_version_splitting_def version_unlock_def version_atomic_inc_vinsert_def)

lemma base_keys_set [simp]:
  "base_keys (set_parent p n) = base_keys n"
  "base_keys (set_version v n) = base_keys n"
  "base_keys (set_version_border tf n) = base_keys n"
  "base_keys (set_version_deleted tf n) = base_keys n"
  "base_keys (set_version_inserting_deleting tf n) = base_keys n"
  "base_keys (set_version_root tf n) = base_keys n"
  "base_keys (set_version_splitting tf n) = base_keys n"
  "base_keys (version_unlock n) = base_keys n"
  "base_keys (version_atomic_inc_vinsert n) = base_keys n"
  by (simp_all add: base_keys_def set_parent_def set_version_def set_version_border_def
      set_version_deleted_def set_version_inserting_deleting_def set_version_root_def
      set_version_splitting_def version_unlock_def version_atomic_inc_vinsert_def)

section \<open>Moving the upper keys to another node\<close>

lemma base_eqI:
  assumes "base_wf m" and "base_wf n" and "base_keys m = base_keys n"
    and "version m = version n" and "parent m = parent n"
  shows "m = n"
proof -
  have "map fst (base_keys k) = key_slice_arr k \<and> map snd (base_keys k) = key_length_arr k"
    if "base_wf k" for k
    using that by (simp add: base_keys_def base_wf_def)
  then show ?thesis using assms by (cases m; cases n) (metis base_node.simps)
qed

definition key_arrays :: "key list \<Rightarrow> base_node \<Rightarrow> base_node" where
  "key_arrays ks n = n\<lparr>key_slice_arr := map fst ks, key_length_arr := map snd ks\<rparr>"

lemma key_arrays_simps [simp]:
  "version (key_arrays ks n) = version n" "parent (key_arrays ks n) = parent n"
  "length ks = 15 \<Longrightarrow> base_wf (key_arrays ks n)"
  "base_keys (key_arrays ks n) = ks"
  by (simp_all add: key_arrays_def base_wf_def base_keys_def zip_map_fst_snd)

lemma key_arrays_base_keys: "base_wf n \<Longrightarrow> key_arrays (base_keys n) n = n"
  by (rule base_eqI) simp_all

lemma set_key_arrays:
  "length ks = 15 \<Longrightarrow> i < 15 \<Longrightarrow>
   set_key i s l (key_arrays ks n) = Some (key_arrays (ks[i := (s, l)]) n)"
  by (simp add: set_key_eq) (simp add: key_arrays_def map_update)

lemma move_range_step:
  assumes "length ks = 15" and "length rs = 15" and "start \<le> j" and "j < 15"
  shows "(replicate (j - start) z @ drop j ks)[j - start := z] = replicate (Suc j - start) z @ drop (Suc j) ks"
    and "(take (j - start) (drop start ks) @ drop (j - start) rs)[j - start := ks ! j] =
      take (Suc j - start) (drop start ks) @ drop (Suc j - start) rs"
proof -
  have d: "drop j ks = ks ! j # drop (Suc j) ks" using assms by (simp add: Cons_nth_drop_Suc)
  have s: "Suc j - start = Suc (j - start)" using assms by simp
  show "(replicate (j - start) z @ drop j ks)[j - start := z] = replicate (Suc j - start) z @ drop (Suc j) ks"
    unfolding s d by (simp add: list_update_append replicate_app_Cons_same)
  have r: "drop (j - start) rs = rs ! (j - start) # drop (Suc (j - start)) rs"
    using assms by (simp add: Cons_nth_drop_Suc)
  show "(take (j - start) (drop start ks) @ drop (j - start) rs)[j - start := ks ! j] =
      take (Suc j - start) (drop start ks) @ drop (Suc j - start) rs"
    unfolding s r using assms by (simp add: list_update_append take_Suc_conv_app_nth)
qed

lemma move_key_to_base_range_loop:
  assumes "length ks = 15" and "length rs = 15" and "start \<le> j" and "j \<le> 15"
  shows "foldM (\<lambda>i (n, right). do {
         s \<leftarrow> get_key_slice_at n i;
         l \<leftarrow> get_key_length_at n i;
         right \<leftarrow> set_key (i - start) s l right;
         n \<leftarrow> set_key i 0 0 n;
         Some (n, right)
       }) [start..<j] (key_arrays ks n, key_arrays rs right) =
    Some (key_arrays (take start ks @ replicate (j - start) (0, 0) @ drop j ks) n,
      key_arrays (take (j - start) (drop start ks) @ drop (j - start) rs) right)"
  using assms(3,4)
proof (induction j rule: dec_induct)
  case base
  then show ?case using assms by simp
next
  case (step j)
  let ?l = "take start ks @ replicate (j - start) (0, 0) @ drop j ks"
  have l: "length ?l = 15" using step assms by simp
  have nth: "?l ! j = ks ! j" using step assms by (simp add: nth_append)
  have "?l[j := (0, 0)] = take start ks @ (replicate (j - start) (0, 0) @ drop j ks)[j - start := (0, 0)]"
    using step assms by (simp add: list_update_append)
  also have "\<dots> = take start ks @ replicate (Suc j - start) (0, 0) @ drop (Suc j) ks"
    using step assms by (subst move_range_step(1)) simp_all
  finally have u: "?l[j := (0, 0)] = take start ks @ replicate (Suc j - start) (0, 0) @ drop (Suc j) ks" .
  have w: "base_wf (key_arrays ?l n)" using l by simp
  show ?case
    using step l w nth u assms move_range_step(2) [OF assms(1,2) \<open>start \<le> j\<close>]
    by (simp add: foldM_append get_key_at set_key_arrays)
qed

lemma move_key_to_base_range_eq:
  assumes "base_wf n" and "base_wf right" and "start \<le> 15"
  shows "move_key_to_base_range start n right =
    Some (key_arrays (take start (base_keys n) @ replicate (15 - start) (0, 0)) n,
      key_arrays (drop start (base_keys n) @ drop (15 - start) (base_keys right)) right)"
  using move_key_to_base_range_loop [of "base_keys n" "base_keys right" start 15 n right] assms
  by (simp add: move_key_to_base_range_def key_arrays_base_keys)

end
