(* ===== verification/Key_Search.thy ===== *)
theory Key_Search
  imports Base_Node
begin

text \<open>
  The key comparisons that the node operations write out inline, and what a linear search
  over sorted keys finds with them. Border nodes compare whole slices
  (\<^verbatim>\<open>border_node.h\<close>), interior nodes and the splits compare the shorter of the two lengths
  (\<^verbatim>\<open>interior_node.h\<close>, \<^verbatim>\<open>interior_helper.h\<close>, \<^verbatim>\<open>border_helper.h\<close>). All of them agree with
  the order of the tree on canonical keys; the locale states that contract, and the
  searches are analysed once, inside it.
\<close>

section \<open>The comparisons\<close>

text \<open>\<^verbatim>\<open>memcmp\<close> on the whole slices, then the lengths.\<close>

definition slice_before :: "key \<Rightarrow> key \<Rightarrow> bool" where
  "slice_before k t =
     (let ret = memcmp (slice_bytes (fst k)) (slice_bytes (fst t)) slice_size
      in if ret = 0 then snd k < snd t else ret < 0)"

text \<open>The test whether two keys share a slot: two long keys with one slice do.\<close>

definition slice_match :: "key \<Rightarrow> key \<Rightarrow> bool" where
  "slice_match k t =
     (if snd k = 0 \<and> snd t = 0 then True
      else memcmp (slice_bytes (fst k)) (slice_bytes (fst t)) slice_size = 0 \<and>
        (8 < snd k \<and> 8 < snd t \<or> snd k = snd t))"

text \<open>The comparison of \<^verbatim>\<open>interior_node::get_child_of\<close>.\<close>

definition child_before :: "key \<Rightarrow> key \<Rightarrow> bool" where
  "child_before k t =
     (let comp_length = (if snd k < snd t then snd k else snd t);
          ret_memcmp = memcmp (slice_bytes (fst k)) (slice_bytes (fst t))
            (if 8 < comp_length then slice_size else unat comp_length)
      in ret_memcmp < 0 \<or> ret_memcmp = 0 \<and> snd k < snd t)"

text \<open>The comparison of \<^verbatim>\<open>interior_node::insert\<close> and of \<^verbatim>\<open>interior_split\<close>.\<close>

definition pivot_before :: "key \<Rightarrow> key \<Rightarrow> bool" where
  "pivot_before k t =
     (let comp_length = (if 8 < snd k \<and> 8 < snd t then slice_size
            else if snd k < snd t then unat (snd k) else unat (snd t));
          ret_memcmp = memcmp (slice_bytes (fst k)) (slice_bytes (fst t)) comp_length
      in ret_memcmp < 0 \<or> ret_memcmp = 0 \<and> snd k < snd t)"

section \<open>Agreement with the order of the tree\<close>

lemma slice_before_iff: "slice_before k t \<longleftrightarrow> key_ord k < key_ord t"
  by (auto simp: slice_before_def Let_def memcmp_sign key_ord_def pair_less_iff word_less_nat_alt
      simp del: less_prod_simp)

lemma canonical_zero: "canonical k \<Longrightarrow> snd k = 0 \<Longrightarrow> fst k = 0"
  by (rule slice_bytes_inj) (simp add: canonical_def)

lemma slice_match_iff:
  assumes "canonical k" and "canonical t"
  shows "slice_match k t \<longleftrightarrow> k = t"
proof -
  have l: "unat (snd k) \<le> 9" "unat (snd t) \<le> 9" using assms by (simp_all add: canonical_def)
  have "snd k = snd t" if "8 < snd k" "8 < snd t"
  proof -
    have "unat (snd k) = 9" "unat (snd t) = 9"
      using that l by (simp_all add: word_less_nat_alt)
    then show ?thesis by (metis word_unat_eq_iff)
  qed
  then show ?thesis
    using canonical_zero [OF assms(1)] canonical_zero [OF assms(2)]
    by (auto simp: slice_match_def memcmp_sign prod_eq_iff dest: slice_bytes_inj)
qed

lemma take_clamp: "length xs = n \<Longrightarrow> take (min m n) xs = take m xs"
  by (cases "m \<le> n") simp_all

lemma clamped_before:
  assumes "canonical k" and "canonical t"
    and "n = min (min (unat (snd k)) (unat (snd t))) 8"
  shows "memcmp (slice_bytes (fst k)) (slice_bytes (fst t)) n < 0 \<or>
     memcmp (slice_bytes (fst k)) (slice_bytes (fst t)) n = 0 \<and> snd k < snd t
     \<longleftrightarrow> key_ord k < key_ord t"
proof -
  let ?X = "slice_bytes (fst k)" and ?Y = "slice_bytes (fst t)"
  let ?m = "unat (snd k)" and ?n = "unat (snd t)"
  have X: "drop ?m ?X = replicate (length ?X - ?m) 0"
    and Y: "drop ?n ?Y = replicate (length ?Y - ?n) 0"
    using assms(1,2) by (cases "?m \<le> 8"; cases "?n \<le> 8"; simp add: canonical_def min_def)+
  have t: "take (min ?m ?n) ?X = take n ?X" "take (min ?m ?n) ?Y = take n ?Y"
    unfolding assms(3) by (rule take_clamp [symmetric], simp)+
  have "take (min ?m ?n) ?X < take (min ?m ?n) ?Y
      \<or> take (min ?m ?n) ?X = take (min ?m ?n) ?Y \<and> ?m < ?n \<longleftrightarrow> (?X, ?m) < (?Y, ?n)"
    using X Y by (intro padded_prefix_order) simp_all
  then show ?thesis
    by (simp only: t memcmp_sign length_slice_bytes key_ord_def word_less_nat_alt)
qed

lemma child_before_iff: "canonical k \<Longrightarrow> canonical t \<Longrightarrow> child_before k t \<longleftrightarrow> key_ord k < key_ord t"
  unfolding child_before_def Let_def
  by (rule clamped_before) (auto simp: word_less_nat_alt min_def)

lemma pivot_before_iff: "canonical k \<Longrightarrow> canonical t \<Longrightarrow> pivot_before k t \<longleftrightarrow> key_ord k < key_ord t"
  unfolding pivot_before_def Let_def
  by (rule clamped_before) (auto simp: word_less_nat_alt min_def)

section \<open>Sorted keys\<close>

definition key_sorted :: "key list \<Rightarrow> bool" where
  "key_sorted ks \<longleftrightarrow> sorted_wrt (\<lambda>a b. key_ord a < key_ord b) ks \<and> (\<forall>k \<in> set ks. canonical k)"

text \<open>The number of keys that are not above \<open>k\<close>, and the number of keys below it.\<close>

definition rank_le :: "key \<Rightarrow> key list \<Rightarrow> nat" where
  "rank_le k ks = length (takeWhile (\<lambda>t. key_ord t \<le> key_ord k) ks)"

lemma rank_le_length: "rank_le k ks \<le> length ks"
  by (simp add: rank_le_def length_takeWhile_le)

lemma rank_le_below: "i < rank_le k ks \<Longrightarrow> key_ord (ks ! i) \<le> key_ord k"
  unfolding rank_le_def by (metis nth_mem set_takeWhileD takeWhile_nth)

lemma rank_le_above:
  assumes "key_sorted ks" and "rank_le k ks \<le> i" and "i < length ks"
  shows "key_ord k < key_ord (ks ! i)"
proof -
  have s: "sorted_wrt (\<lambda>a b. key_ord a < key_ord b) ks" using assms(1) by (simp add: key_sorted_def)
  have r: "rank_le k ks < length ks" using assms by simp
  then have "\<not> key_ord (ks ! rank_le k ks) \<le> key_ord k"
    unfolding rank_le_def by (rule nth_length_takeWhile)
  then have h: "key_ord k < key_ord (ks ! rank_le k ks)" by simp
  show ?thesis
  proof (cases "rank_le k ks = i")
    case False
    then have "key_ord (ks ! rank_le k ks) < key_ord (ks ! i)"
      using assms by (intro sorted_wrt_nth_less [OF s]) simp_all
    then show ?thesis using h by (rule less_trans [rotated])
  qed (use h in simp)
qed

lemma key_sorted_distinct: "key_sorted ks \<Longrightarrow> distinct ks"
  unfolding key_sorted_def by (induction ks) auto

lemma key_sorted_take: "key_sorted ks \<Longrightarrow> key_sorted (take n ks)"
  by (auto simp: key_sorted_def sorted_wrt_take dest: in_set_takeD)

lemma key_sorted_drop: "key_sorted ks \<Longrightarrow> key_sorted (drop n ks)"
  by (auto simp: key_sorted_def sorted_wrt_drop dest: in_set_dropD)

lemma key_sorted_append:
  "key_sorted (xs @ ys) \<longleftrightarrow> key_sorted xs \<and> key_sorted ys \<and>
     (\<forall>x \<in> set xs. \<forall>y \<in> set ys. key_ord x < key_ord y)"
  by (auto simp: key_sorted_def sorted_wrt_append)

lemma key_sorted_split:
  "key_sorted ks \<Longrightarrow> x \<in> set (take i ks) \<Longrightarrow> y \<in> set (drop i ks) \<Longrightarrow> key_ord x < key_ord y"
  using key_sorted_append [of "take i ks" "drop i ks"] by simp

lemma key_sorted_del_at: "key_sorted ks \<Longrightarrow> key_sorted (del_at i ks)"
proof -
  assume s: "key_sorted ks"
  have "set (drop (Suc i) ks) \<subseteq> set (drop i ks)"
    by (rule set_drop_subset_set_drop) simp
  then show ?thesis unfolding del_at_def key_sorted_append
    using s key_sorted_split [OF s] key_sorted_take [OF s] key_sorted_drop [OF s] by blast
qed

lemma key_sorted_ins_at:
  assumes "key_sorted ks" and "canonical k" and "k \<notin> set ks"
  shows "key_sorted (ins_at (rank_le k ks) k ks)"
proof -
  let ?r = "rank_le k ks"
  have a: "key_ord x < key_ord k" if x: "x \<in> set (take ?r ks)" for x
  proof -
    obtain i where i: "i < length (take ?r ks)" "x = take ?r ks ! i"
      using x unfolding in_set_conv_nth by blast
    then have i: "i < ?r" "i < length ks" "x = ks ! i" by simp_all
    then have "key_ord x \<le> key_ord k" using rank_le_below by simp
    moreover have "x \<noteq> k" using i assms(3) by auto
    ultimately show ?thesis using key_ord_inj [of x k] by (auto simp: order_le_less)
  qed
  have b: "key_ord k < key_ord x" if x: "x \<in> set (drop ?r ks)" for x
  proof -
    obtain i where "i < length (drop ?r ks)" "x = drop ?r ks ! i"
      using x unfolding in_set_conv_nth by blast
    then show ?thesis using rank_le_above [OF assms(1), of k "?r + i"] by simp
  qed
  have "key_sorted (k # drop ?r ks)"
    using b assms(2) key_sorted_drop [OF assms(1)] by (simp add: key_sorted_def)
  moreover have "\<forall>x \<in> set (take ?r ks). \<forall>y \<in> set (k # drop ?r ks). key_ord x < key_ord y"
    using a key_sorted_split [OF assms(1)] by (simp only: list.set) blast
  ultimately show ?thesis
    by (simp only: ins_at_def key_sorted_append key_sorted_take [OF assms(1)] simp_thms)
qed

section \<open>Searching\<close>

locale key_compare =
  fixes before :: "key \<Rightarrow> key \<Rightarrow> bool"
  assumes before_iff: "canonical k \<Longrightarrow> canonical t \<Longrightarrow> before k t \<longleftrightarrow> key_ord k < key_ord t"
begin

text \<open>The loop that stops at the first key above \<open>k\<close>.\<close>

lemma first_above:
  assumes "key_sorted ks" and "canonical k"
  shows "length (takeWhile (\<lambda>t. \<not> before k t) ks) = rank_le k ks"
proof -
  have "\<forall>t \<in> set ks. canonical t" using assms(1) by (simp add: key_sorted_def)
  then have "takeWhile (\<lambda>t. \<not> before k t) ks = takeWhile (\<lambda>t. key_ord t \<le> key_ord k) ks"
    using assms(2) by (intro takeWhile_cong) (auto simp: before_iff not_less)
  then show ?thesis by (simp add: rank_le_def)
qed

lemma before_irrefl: "canonical k \<Longrightarrow> \<not> before k k"
  by (simp add: before_iff)

lemma before_trichotomy:
  "canonical k \<Longrightarrow> canonical t \<Longrightarrow> before k t \<or> before t k \<or> k = t"
  using key_ord_inj [of k t] linorder_less_linear [of "key_ord k" "key_ord t"]
  by (simp only: before_iff) blast

end

interpretation border_compare: key_compare slice_before
  by unfold_locales (rule slice_before_iff)

interpretation child_compare: key_compare child_before
  by unfold_locales (rule child_before_iff)

interpretation pivot_compare: key_compare pivot_before
  by unfold_locales (rule pivot_before_iff)

section \<open>Properties\<close>

text \<open>
  C19. The order the nodes keep is the lexicographic order of the user's byte strings:
  comparing two keys as strings is comparing their prepared slices, eight zero-padded
  bytes first and lengths second, and, when both keys go on below the same slice,
  comparing what is left of them in the next layer.
\<close>

theorem slices_keep_string_order:
  "K < L \<longleftrightarrow> slice_before (prepare_key_slice K) (prepare_key_slice L) \<or>
     slice_match (prepare_key_slice K) (prepare_key_slice L) \<and> drop 8 K < drop 8 L"
  using key_string_order [of K L]
  by (simp only: slice_before_iff slice_match_iff [OF canonical_prepare canonical_prepare])

text \<open>
  C31. On canonical keys, equal ones included, the comparisons of the sources agree with one
  another and with the order of the tree: the whole-slice comparison of the border nodes and
  the two prefix comparisons of the interior nodes and the splits are that strict order, the
  match test is equality, and \<^verbatim>\<open>key_tuple::operator<\<close> is the strict order as well, except
  that it holds of two empty keys, so that the empty key is less than itself.
\<close>

theorem comparisons_agree:
  assumes "canonical k" and "canonical t"
  shows "(slice_before k t \<longleftrightarrow> key_ord k < key_ord t) \<and> (child_before k t \<longleftrightarrow> slice_before k t) \<and>
    (pivot_before k t \<longleftrightarrow> slice_before k t) \<and> (slice_match k t \<longleftrightarrow> k = t) \<and>
    (key_tuple_less \<lparr>key_slice = fst k, key_length = snd k\<rparr>
       \<lparr>key_slice = fst t, key_length = snd t\<rparr> \<longleftrightarrow> slice_before k t \<or> snd k = 0 \<and> snd t = 0)"
proof (cases "snd k = 0 \<and> snd t = 0")
  case True
  then show ?thesis
    using assms by (simp only: child_before_iff pivot_before_iff slice_before_iff slice_match_iff)
      (simp add: key_tuple_less_def)
next
  case False
  then show ?thesis
    using assms key_tuple_less_key_ord [of "\<lparr>key_slice = fst k, key_length = snd k\<rparr>"
        "\<lparr>key_slice = fst t, key_length = snd t\<rparr>"]
    by (auto simp only: child_before_iff pivot_before_iff slice_before_iff slice_match_iff
        key_tuple.simps prod.collapse de_Morgan_conj)
qed

theorem comparisons_agree_witness:
  "let k = prepare_key_slice [65, 66]; t = prepare_key_slice [65, 66, 0]
   in (child_before k t \<longleftrightarrow> slice_before k t) \<and> (pivot_before t k \<longleftrightarrow> slice_before t k) \<and>
    (child_before k k \<longleftrightarrow> slice_before k k) \<and> (pivot_before k k \<longleftrightarrow> slice_before k k) \<and>
    slice_match k k \<and> \<not> slice_match k t"
proof -
  have "prepare_key_slice [65, 66] \<noteq> prepare_key_slice [65, 66, 0]" by code_simp
  then show ?thesis
    using comparisons_agree [OF canonical_prepare canonical_prepare, of "[65, 66]" "[65, 66, 0]"]
      comparisons_agree [OF canonical_prepare canonical_prepare, of "[65, 66, 0]" "[65, 66]"]
      comparisons_agree [OF canonical_prepare canonical_prepare, of "[65, 66]" "[65, 66]"]
    by (simp only: Let_def simp_thms)
qed

end
