(* ===== verification/Interior_Node.thy ===== *)
theory Interior_Node
  imports Key_Search
begin

text \<open>
  \<^verbatim>\<open>include/interior_node.h\<close>, the operations on one interior node: choosing the child for a
  key, inserting a child with its pivot key, removing a child. The parts that reach
  parents, children and the session (\<^verbatim>\<open>get_child_of\<close>'s version checks, \<^verbatim>\<open>delete_of\<close>,
  \<^verbatim>\<open>move_children_to_interior_range\<close>, \<^verbatim>\<open>destroy\<close>) are in the theories of the heap and of
  the tree operations.
\<close>

record interior_node =
  interior_base :: base_node
  n_keys :: "8 word"
  children :: "addr list"

abbreviation (input) child_length :: nat where
  "child_length \<equiv> key_slice_length + 1"

section \<open>Members\<close>

definition get_child_at :: "interior_node \<Rightarrow> nat \<Rightarrow> addr option" where
  "get_child_at n i = at (children n) i"

definition set_child_at :: "nat \<Rightarrow> addr \<Rightarrow> interior_node \<Rightarrow> interior_node option" where
  "set_child_at i c n = map_option (\<lambda>cs. n\<lparr>children := cs\<rparr>) (put_at (children n) i c)"

definition set_n_keys :: "8 word \<Rightarrow> interior_node \<Rightarrow> interior_node" where
  "set_n_keys k n = n\<lparr>n_keys := k\<rparr>"

definition n_keys_decrement :: "interior_node \<Rightarrow> interior_node" where
  "n_keys_decrement n = n\<lparr>n_keys := n_keys n - 1\<rparr>"

definition n_keys_increment :: "interior_node \<Rightarrow> interior_node" where
  "n_keys_increment n = n\<lparr>n_keys := n_keys n + 1\<rparr>"

definition set_interior_base :: "(base_node \<Rightarrow> base_node) \<Rightarrow> interior_node \<Rightarrow> interior_node" where
  "set_interior_base f n = n\<lparr>interior_base := f (interior_base n)\<rparr>"

definition set_interior_base_opt ::
  "(base_node \<Rightarrow> base_node option) \<Rightarrow> interior_node \<Rightarrow> interior_node option" where
  "set_interior_base_opt f n = map_option (\<lambda>b. n\<lparr>interior_base := b\<rparr>) (f (interior_base n))"

definition new_interior_node :: interior_node where
  "new_interior_node = \<lparr>interior_base = new_base_node, n_keys = 0,
     children = replicate child_length nullptr\<rparr>"

definition init_interior :: "interior_node \<Rightarrow> interior_node" where
  "init_interior n =
     (let n = set_interior_base init_base n;
          n = set_interior_base (set_version_border False) n;
          n = n\<lparr>children := replicate (length (children n)) nullptr\<rparr>
      in set_n_keys 0 n)"

text \<open>
  The shifts of the children are loops over single stores. An index below zero is a huge
  \<^verbatim>\<open>size_t\<close>, for which \<^verbatim>\<open>at\<close> throws.
\<close>

definition shift_left_children :: "nat \<Rightarrow> nat \<Rightarrow> interior_node \<Rightarrow> interior_node option" where
  "shift_left_children start_pos shift_size n =
     foldM (\<lambda>i n. get_child_at n i \<bind>
         (\<lambda>c. if i < shift_size then None else set_child_at (i - shift_size) c n))
       [start_pos..<child_length] n"

definition shift_right_children :: "nat \<Rightarrow> interior_node \<Rightarrow> interior_node option" where
  "shift_right_children start_pos n =
     foldM (\<lambda>i n. get_child_at n (i - 1) \<bind> (\<lambda>c. set_child_at i c n))
       (rev [start_pos + 1..<unat (n_keys n) + 2]) n"

fun swap_child_from :: "addr \<Rightarrow> addr \<Rightarrow> nat list \<Rightarrow> interior_node \<Rightarrow> interior_node option" where
  "swap_child_from old_child new_child [] n = Some n"
| "swap_child_from old_child new_child (i # is) n = do {
     c \<leftarrow> get_child_at n i;
     if c = old_child then set_child_at i new_child n
     else swap_child_from old_child new_child is n
   }"

definition swap_child :: "addr \<Rightarrow> addr \<Rightarrow> interior_node \<Rightarrow> interior_node option" where
  "swap_child old_child new_child n = swap_child_from old_child new_child [0..<child_length] n"

section \<open>Choosing a child\<close>

text \<open>
  The loop of \<^verbatim>\<open>get_child_of\<close> over the key positions that are left; when it runs to its end
  the result is \<^verbatim>\<open>nullptr\<close> and the rightmost child is taken.
\<close>

fun child_search :: "interior_node \<Rightarrow> key \<Rightarrow> nat list \<Rightarrow> addr option" where
  "child_search n k [] = Some nullptr"
| "child_search n k (i # is) = do {
     ts \<leftarrow> get_key_slice_at (interior_base n) i;
     tl \<leftarrow> get_key_length_at (interior_base n) i;
     if child_before k (ts, tl) then get_child_at n i else child_search n k is
   }"

definition pick_child :: "interior_node \<Rightarrow> key \<Rightarrow> addr option" where
  "pick_child n k = do {
     let n_key = unat (n_keys n);
     ret_child \<leftarrow> child_search n k [0..<n_key];
     if ret_child = nullptr then get_child_at n n_key else Some ret_child
   }"

section \<open>Inserting and removing a child\<close>

fun insert_child_from :: "addr \<Rightarrow> key \<Rightarrow> nat list \<Rightarrow> interior_node \<Rightarrow> interior_node option" where
  "insert_child_from child pivot [] n = do {
     let n_key = unat (n_keys n);
     n \<leftarrow> set_interior_base_opt (set_key n_key (fst pivot) (snd pivot)) n;
     n \<leftarrow> set_child_at (n_key + 1) child n;
     Some (n_keys_increment n)
   }"
| "insert_child_from child pivot (i # is) n = do {
     ts \<leftarrow> get_key_slice_at (interior_base n) i;
     tl \<leftarrow> get_key_length_at (interior_base n) i;
     if pivot_before pivot (ts, tl) then do {
       n \<leftarrow> set_interior_base_opt (shift_right_base_member i 1) n;
       n \<leftarrow> set_interior_base_opt (set_key i (fst pivot) (snd pivot)) n;
       n \<leftarrow> shift_right_children (i + 1) n;
       n \<leftarrow> set_child_at (i + 1) child n;
       Some (n_keys_increment n)
     } else insert_child_from child pivot is n
   }"

definition insert_child :: "addr \<Rightarrow> key \<Rightarrow> interior_node \<Rightarrow> interior_node option" where
  "insert_child child pivot n =
     (let n = set_interior_base (set_version_inserting_deleting True) n
      in insert_child_from child pivot [0..<unat (n_keys n)] n)"

text \<open>The part of \<^verbatim>\<open>delete_of\<close> for a node that keeps at least two children.\<close>

definition remove_child_at :: "nat \<Rightarrow> interior_node \<Rightarrow> interior_node option" where
  "remove_child_at i n = do {
     let n_key = unat (n_keys n);
     n \<leftarrow> (if i = 0 then do {
            n \<leftarrow> set_interior_base_opt (shift_left_base_member 1 1) n;
            n \<leftarrow> shift_left_children 1 1 n;
            set_child_at n_key nullptr n
          } else if i = n_key then set_child_at i nullptr n
          else do {
            n \<leftarrow> set_interior_base_opt (shift_left_base_member i 1) n;
            n \<leftarrow> shift_left_children (i + 1) 1 n;
            set_child_at n_key nullptr n
          });
     n \<leftarrow> set_interior_base_opt (set_key (n_key - 1) 0 0) n;
     Some (n_keys_decrement n)
   }"

section \<open>The node as sorted keys between children\<close>

definition interior_keys :: "interior_node \<Rightarrow> key list" where
  "interior_keys n = take (unat (n_keys n)) (base_keys (interior_base n))"

definition interior_children :: "interior_node \<Rightarrow> addr list" where
  "interior_children n = take (unat (n_keys n) + 1) (children n)"

definition interior_wf :: "interior_node \<Rightarrow> bool" where
  "interior_wf n \<longleftrightarrow> base_wf (interior_base n) \<and> length (children n) = child_length \<and>
     unat (n_keys n) \<le> key_slice_length \<and> key_sorted (interior_keys n) \<and>
     nullptr \<notin> set (interior_children n)"

lemma length_interior:
  assumes "interior_wf n"
  shows "length (interior_keys n) = unat (n_keys n)" and "length (interior_children n) = unat (n_keys n) + 1"
  using assms by (simp_all add: interior_wf_def interior_keys_def interior_children_def)

subsection \<open>Choosing\<close>

lemma child_search_from:
  assumes "interior_wf n" and "canonical k" and "j \<le> rank_le k (interior_keys n)"
  shows "child_search n k [j..<unat (n_keys n)] =
    Some (if rank_le k (interior_keys n) < unat (n_keys n)
          then interior_children n ! rank_le k (interior_keys n) else nullptr)"
  using assms(3)
proof (induction "unat (n_keys n) - j" arbitrary: j)
  case 0
  then have j: "unat (n_keys n) \<le> j" by simp
  then have "\<not> rank_le k (interior_keys n) < unat (n_keys n)" using 0 by simp
  then show ?case using j by simp
next
  case (Suc m)
  let ?r = "rank_le k (interior_keys n)"
  have j: "j < unat (n_keys n)" using Suc by simp
  have b: "base_wf (interior_base n)" "unat (n_keys n) \<le> 15" using assms(1) by (simp_all add: interior_wf_def)
  have key: "base_keys (interior_base n) ! j = interior_keys n ! j"
    using j by (simp add: interior_keys_def)
  have c: "canonical (interior_keys n ! j)"
    using assms(1) j length_interior(1) [OF assms(1)] by (simp add: interior_wf_def key_sorted_def)
  have st: "child_search n k (j # is) =
      (if key_ord k < key_ord (interior_keys n ! j) then Some (interior_children n ! j)
       else child_search n k is)" for "is"
    using b j assms(1,2) c by (simp add: get_key_at key child_before_iff)
      (simp add: get_child_at_def interior_wf_def interior_children_def)
  have s: "key_sorted (interior_keys n)" using assms(1) by (simp add: interior_wf_def)
  show ?case
  proof (cases "j = ?r")
    case True
    then have "key_ord k < key_ord (interior_keys n ! j)"
      using j by (intro rank_le_above [OF s]) (simp_all add: length_interior(1) [OF assms(1)])
    then have "child_search n k [j..<unat (n_keys n)] = Some (interior_children n ! j)"
      by (simp only: upt_conv_Cons [OF j] st if_True)
    then show ?thesis using True j by simp
  next
    case False
    then have lt: "j < ?r" using Suc by simp
    then have "\<not> key_ord k < key_ord (interior_keys n ! j)"
      using rank_le_below [OF lt] by (simp only: not_less)
    then have "child_search n k [j..<unat (n_keys n)] = child_search n k [Suc j..<unat (n_keys n)]"
      by (simp only: upt_conv_Cons [OF j] st if_False)
    also have "\<dots> = Some (if ?r < unat (n_keys n) then interior_children n ! ?r else nullptr)"
      using Suc.hyps lt by (intro Suc.hyps(1)) simp_all
    finally show ?thesis .
  qed
qed

lemma pick_child_eq:
  assumes "interior_wf n" and "canonical k"
  shows "pick_child n k = Some (interior_children n ! rank_le k (interior_keys n))"
proof -
  let ?r = "rank_le k (interior_keys n)"
  have r: "?r \<le> unat (n_keys n)"
    using rank_le_length [of k "interior_keys n"] by (simp add: length_interior(1) [OF assms(1)])
  then have "interior_children n ! ?r \<in> set (interior_children n)"
    using length_interior(2) [OF assms(1)] by simp
  then have nn: "interior_children n ! ?r \<noteq> nullptr" using assms(1) by (auto simp: interior_wf_def)
  show ?thesis
  proof (cases "?r < unat (n_keys n)")
    case True
    then show ?thesis using child_search_from [OF assms, of 0] nn by (simp add: pick_child_def)
  next
    case False
    then have "?r = unat (n_keys n)" using r by simp
    then show ?thesis using child_search_from [OF assms, of 0] assms(1)
      by (simp add: pick_child_def get_child_at_def interior_children_def interior_wf_def)
  qed
qed

subsection \<open>Shifting\<close>

lemma shift_left_children_eq:
  assumes "length (children n) = 16" and "0 < start" and "start \<le> 16"
  shows "shift_left_children start 1 n = Some (n\<lparr>children := move_left start 1 (children n)\<rparr>)"
proof -
  let ?f = "\<lambda>i n. get_child_at n i \<bind> (\<lambda>c. if i < 1 then None else set_child_at (i - 1) c n)"
  let ?c = "children n"
  have "foldM ?f [start..<j] n = Some (n\<lparr>children := take (start - 1) ?c @ take (j - start) (drop start ?c)
      @ drop (j - 1) ?c\<rparr>)" if "start \<le> j" "j \<le> 16" for j
    using that
  proof (induction j rule: dec_induct)
    case base
    then show ?case by simp
  next
    case (step j)
    let ?l = "take (start - 1) ?c @ take (j - start) (drop start ?c) @ drop (j - 1) ?c"
    have l: "length ?l = 16" using step assms by simp
    have j: "j < 16" "0 < j" using step assms by simp_all
    have nth: "?l ! j = ?c ! j" using step assms by (auto simp: nth_append)
    have d: "drop (j - 1) ?c = ?c ! (j - 1) # drop j ?c"
      using j assms by (intro drop_prev) simp_all
    have t: "take (Suc j - start) (drop start ?c) = take (j - start) (drop start ?c) @ [?c ! j]"
      using step assms by (simp add: Suc_diff_le take_Suc_conv_app_nth)
    have "?l[j - 1 := ?c ! j] = take (start - 1) ?c @ take (Suc j - start) (drop start ?c) @ drop j ?c"
      unfolding d t using step assms by (auto simp: list_update_append)
    then show ?case
      using step j l nth by (simp add: foldM_append get_child_at_def set_child_at_def)
  qed
  from this [of 16] show ?thesis
    using assms by (simp add: shift_left_children_def move_left_def cong: if_cong)
qed

lemma shift_right_children_eq:
  assumes "length (children n) = 16" and "start \<le> unat (n_keys n) + 1" and "unat (n_keys n) < 15"
  shows "shift_right_children start n = Some (n\<lparr>children := take (start + 1) (children n) @
    take (unat (n_keys n) + 1 - start) (drop start (children n)) @ drop (unat (n_keys n) + 2) (children n)\<rparr>)"
proof -
  let ?f = "\<lambda>i n. get_child_at n (i - 1) \<bind> (\<lambda>c. set_child_at i c n)"
  let ?c = "children n" and ?m = "unat (n_keys n)"
  have "foldM ?f (rev [?m + 2 - d..<?m + 2]) n = Some (n\<lparr>children := take (?m + 2 - d) ?c @
      take d (drop (?m + 1 - d) ?c) @ drop (?m + 2) ?c\<rparr>)" if "d \<le> ?m + 1" for d
    using that
  proof (induction d)
    case 0
    then show ?case by simp
  next
    case (Suc d)
    define j where "j = ?m + 1 - d"
    have j: "0 < j" "j < 16" "?m + 2 - Suc d = j" "?m + 2 - d = Suc j" "?m + 1 - Suc d = j - 1"
      using Suc.prems assms(3) by (simp_all add: j_def)
    have u: "[j..<?m + 2] = j # [Suc j..<?m + 2]"
      using Suc.prems assms(3) by (intro upt_conv_Cons) (simp add: j_def)
    let ?l = "take (Suc j) ?c @ take d (drop j ?c) @ drop (?m + 2) ?c"
    have l: "length ?l = 16" using Suc.prems assms j by (simp add: j_def)
    have nth: "?l ! (j - 1) = ?c ! (j - 1)" using j assms by (auto simp: nth_append)
    have t: "take (Suc d) (drop (j - 1) ?c) = ?c ! (j - 1) # take d (drop j ?c)"
      using j assms drop_prev [of j ?c] by simp
    have "?l[j := ?c ! (j - 1)] = take j ?c @ (?c ! (j - 1) # take d (drop j ?c)) @ drop (?m + 2) ?c"
      using j assms by (simp add: take_Suc_conv_app_nth list_update_append)
    moreover have "at ?l (j - 1) = Some (?c ! (j - 1))" "put_at ?l j v = Some (?l[j := v])" for v
      unfolding at_def put_at_def l nth using j by simp_all
    ultimately have "?f j (n\<lparr>children := ?l\<rparr>) = Some (n\<lparr>children := take j ?c @
        take (Suc d) (drop (j - 1) ?c) @ drop (?m + 2) ?c\<rparr>)"
      using t by (simp add: get_child_at_def set_child_at_def)
    moreover have "foldM ?f (rev [Suc j..<?m + 2]) n = Some (n\<lparr>children := ?l\<rparr>)"
      using Suc.IH [OF Suc_leD [OF Suc.prems]] by (simp only: j j_def [symmetric])
    ultimately show ?case
      unfolding j u rev.simps foldM_append by (simp del: upt.simps)
  qed
  from this [of "?m + 1 - start"] show ?thesis
    using assms by (simp add: shift_right_children_def Suc_diff_le)
qed


subsection \<open>Inserting\<close>

lemma insert_child_at_position:
  assumes "interior_wf n" and "unat (n_keys n) < 15" and "i < unat (n_keys n)"
  shows "\<exists>n'. do {
       n \<leftarrow> set_interior_base_opt (shift_right_base_member i 1) n;
       n \<leftarrow> set_interior_base_opt (set_key i (fst pivot) (snd pivot)) n;
       n \<leftarrow> shift_right_children (i + 1) n;
       n \<leftarrow> set_child_at (i + 1) child n;
       Some (n_keys_increment n)
     } = Some n' \<and> interior_keys n' = ins_at i pivot (interior_keys n) \<and>
    interior_children n' = ins_at (i + 1) child (interior_children n) \<and>
    base_wf (interior_base n') \<and> length (children n') = 16 \<and> n_keys n' = n_keys n + 1 \<and>
    version (interior_base n') = version (interior_base n) \<and> parent (interior_base n') = parent (interior_base n)"
proof -
  let ?m = "unat (n_keys n)" and ?K = "base_keys (interior_base n)" and ?C = "children n"
  have w: "base_wf (interior_base n)" "length ?C = 16" and lK: "length ?K = 15"
    using assms(1) by (simp_all add: interior_wf_def)
  obtain b1 where b1: "shift_right_base_member i 1 (interior_base n) = Some b1" "base_wf b1"
    "base_keys b1 = move_right i 1 ?K" "version b1 = version (interior_base n)"
    "parent b1 = parent (interior_base n)"
    using shift_right_keys [OF w(1), of i 1] assms by auto
  obtain b2 where b2: "set_key i (fst pivot) (snd pivot) b1 = Some b2" "base_wf b2"
    "base_keys b2 = (base_keys b1)[i := pivot]" "version b2 = version b1" "parent b2 = parent b1"
    using set_key_keys [OF b1(2), of i "fst pivot" "snd pivot"] assms by auto
  let ?C1 = "take (i + 2) ?C @ take (?m - i) (drop (i + 1) ?C) @ drop (?m + 2) ?C"
  have k: "unat (n_keys n + 1) = ?m + 1" using assms(2) by (simp add: unat_word_ariths)
  have keys: "take (?m + 1) (base_keys b2) = ins_at i pivot (take ?m ?K)"
  proof -
    have "move_right i 1 ?K = take i ?K @ ?K ! i # take (14 - i) (drop i ?K)"
      using assms lK by (simp add: move_right_def take_Suc_conv_app_nth)
    then have "base_keys b2 = take i ?K @ pivot # take (14 - i) (drop i ?K)"
      using b2(3) b1(3) assms lK by (simp add: list_update_append)
    then show ?thesis using assms lK
      by (simp add: ins_at_def min_def drop_take Suc_diff_le)
  qed
  have chd: "take (?m + 2) (?C1[i + 1 := child]) = ins_at (i + 1) child (take (?m + 1) ?C)"
  proof -
    have "take (i + 2) ?C = take (i + 1) ?C @ [?C ! (i + 1)]"
      using assms w(2) by (simp add: take_Suc_conv_app_nth)
    then have "?C1[i + 1 := child] = take (i + 1) ?C @ child # take (?m - i) (drop (i + 1) ?C) @ drop (?m + 2) ?C"
      using assms w(2) by (simp add: list_update_append)
    then show ?thesis using assms w(2)
      by (simp add: ins_at_def min_def drop_take Suc_diff_le)
  qed
  define n' where "n' = n\<lparr>interior_base := b2, children := ?C1[i + 1 := child], n_keys := n_keys n + 1\<rparr>"
  have l1: "length ?C1 = 16" using assms w(2) by simp
  have "do {
       n \<leftarrow> set_interior_base_opt (shift_right_base_member i 1) n;
       n \<leftarrow> set_interior_base_opt (set_key i (fst pivot) (snd pivot)) n;
       n \<leftarrow> shift_right_children (i + 1) n;
       n \<leftarrow> set_child_at (i + 1) child n;
       Some (n_keys_increment n)
     } = Some n'"
    using b1(1) b2(1) w(2) assms l1
    by (simp add: set_interior_base_opt_def shift_right_children_eq set_child_at_def n_keys_increment_def n'_def)
  then show ?thesis
    using keys chd k b1 b2 l1 by (intro exI [of _ n']) (simp add: n'_def interior_keys_def interior_children_def)
qed

lemma insert_child_rightmost:
  assumes "interior_wf n" and "unat (n_keys n) < 15"
  shows "\<exists>n'. insert_child_from child pivot [] n = Some n' \<and>
    interior_keys n' = interior_keys n @ [pivot] \<and> interior_children n' = interior_children n @ [child] \<and>
    base_wf (interior_base n') \<and> length (children n') = 16 \<and> n_keys n' = n_keys n + 1 \<and>
    version (interior_base n') = version (interior_base n) \<and> parent (interior_base n') = parent (interior_base n)"
proof -
  let ?m = "unat (n_keys n)" and ?K = "base_keys (interior_base n)" and ?C = "children n"
  have w: "base_wf (interior_base n)" "length ?C = 16" and lK: "length ?K = 15"
    using assms(1) by (simp_all add: interior_wf_def)
  obtain b where b: "set_key ?m (fst pivot) (snd pivot) (interior_base n) = Some b" "base_wf b"
    "base_keys b = ?K[?m := pivot]" "version b = version (interior_base n)" "parent b = parent (interior_base n)"
    using set_key_keys [OF w(1), of ?m "fst pivot" "snd pivot"] assms by auto
  have k: "unat (n_keys n + 1) = ?m + 1" using assms(2) by (simp add: unat_word_ariths)
  have "take (?m + 1) (?K[?m := pivot]) = take ?m ?K @ [pivot]"
    using assms lK by (simp add: take_Suc_conv_app_nth)
  moreover have "take (?m + 2) (?C[?m + 1 := child]) = take (?m + 1) ?C @ [child]"
    using assms w(2) by (simp add: take_Suc_conv_app_nth)
  ultimately show ?thesis
    using b w(2) k assms(2)
    by (intro exI [of _ "n\<lparr>interior_base := b, children := ?C[?m + 1 := child], n_keys := n_keys n + 1\<rparr>"])
      (simp add: set_interior_base_opt_def set_child_at_def n_keys_increment_def interior_keys_def
        interior_children_def)
qed

text \<open>What inserting \<open>child\<close> with \<open>pivot\<close> into \<open>n\<close> gives.\<close>

definition child_inserted :: "interior_node \<Rightarrow> addr \<Rightarrow> key \<Rightarrow> interior_node \<Rightarrow> bool" where
  "child_inserted n child pivot n' \<longleftrightarrow>
     interior_keys n' = ins_at (rank_le pivot (interior_keys n)) pivot (interior_keys n) \<and>
     interior_children n' = ins_at (rank_le pivot (interior_keys n) + 1) child (interior_children n) \<and>
     base_wf (interior_base n') \<and> length (children n') = 16 \<and> n_keys n' = n_keys n + 1 \<and>
     version (interior_base n') = version (interior_base n) \<and>
     parent (interior_base n') = parent (interior_base n)"

lemma insert_child_from_spec:
  assumes "interior_wf n" and "unat (n_keys n) < 15" and "canonical pivot"
    and "j \<le> rank_le pivot (interior_keys n)"
  shows "\<exists>n'. insert_child_from child pivot [j..<unat (n_keys n)] n = Some n' \<and> child_inserted n child pivot n'"
  using assms(4)
proof (induction "unat (n_keys n) - j" arbitrary: j)
  case 0
  have "rank_le pivot (interior_keys n) = length (interior_keys n)"
    using 0 rank_le_length [of pivot "interior_keys n"] by (simp add: length_interior(1) [OF assms(1)])
  moreover from this have "length (interior_children n) = rank_le pivot (interior_keys n) + 1"
    using length_interior [OF assms(1)] by simp
  ultimately show ?case
    using insert_child_rightmost [OF assms(1,2), of child pivot] 0
    by (simp add: child_inserted_def ins_at_def)
next
  case (Suc m)
  let ?r = "rank_le pivot (interior_keys n)"
  have j: "j < unat (n_keys n)" using Suc by simp
  have b: "base_wf (interior_base n)" "unat (n_keys n) \<le> 15" using assms(1) by (simp_all add: interior_wf_def)
  have key: "base_keys (interior_base n) ! j = interior_keys n ! j"
    using j by (simp add: interior_keys_def)
  have c: "canonical (interior_keys n ! j)"
    using assms(1) j length_interior(1) [OF assms(1)] by (simp add: interior_wf_def key_sorted_def)
  have s: "key_sorted (interior_keys n)" using assms(1) by (simp add: interior_wf_def)
  have t: "pivot_before pivot (interior_keys n ! j) \<longleftrightarrow> j = ?r"
  proof -
    have "key_ord pivot < key_ord (interior_keys n ! j)" if "j = ?r"
      using that j by (intro rank_le_above [OF s]) (simp_all add: length_interior(1) [OF assms(1)])
    moreover have "\<not> key_ord pivot < key_ord (interior_keys n ! j)" if "j \<noteq> ?r"
      using rank_le_below [of j pivot "interior_keys n"] that Suc.prems by (simp only: not_less)
    ultimately show ?thesis unfolding pivot_before_iff [OF assms(3) c] by blast
  qed
  show ?case
  proof (cases "j = ?r")
    case True
    then show ?thesis
      using insert_child_at_position [OF assms(1,2) j, of pivot child] t b j key
      by (simp add: upt_conv_Cons get_key_at child_inserted_def)
  next
    case False
    then have "\<exists>n'. insert_child_from child pivot [Suc j..<unat (n_keys n)] n = Some n' \<and>
        child_inserted n child pivot n'"
      using Suc by (intro Suc.hyps(1)) simp_all
    then show ?thesis using False t b j by (simp add: upt_conv_Cons get_key_at key)
  qed
qed

lemma child_inserted_wf:
  assumes "interior_wf n" and "unat (n_keys n) < 15" and "canonical pivot" and "pivot \<notin> set (interior_keys n)"
    and "child \<noteq> nullptr" and "child_inserted n child pivot n'"
  shows "interior_wf n'"
proof -
  have "unat (n_keys n + 1) = unat (n_keys n) + 1" using assms(2) by (simp add: unat_word_ariths)
  moreover have "key_sorted (ins_at (rank_le pivot (interior_keys n)) pivot (interior_keys n))"
    using assms by (intro key_sorted_ins_at) (simp_all add: interior_wf_def)
  ultimately show ?thesis using assms by (simp add: interior_wf_def child_inserted_def)
qed

lemma insert_child_spec:
  assumes "interior_wf n" and "unat (n_keys n) < 15" and "canonical pivot"
  shows "\<exists>n'. insert_child child pivot n = Some n' \<and>
    child_inserted (set_interior_base (set_version_inserting_deleting True) n) child pivot n'"
proof -
  let ?n = "set_interior_base (set_version_inserting_deleting True) n"
  have "interior_wf ?n" "n_keys ?n = n_keys n"
    using assms(1) by (simp_all add: interior_wf_def set_interior_base_def interior_keys_def interior_children_def)
  then show ?thesis
    using insert_child_from_spec [of ?n pivot 0 child] assms by (simp add: insert_child_def)
qed

subsection \<open>Removing\<close>

lemma move_left_one: "0 < s \<Longrightarrow> s \<le> n \<Longrightarrow> n \<le> length xs \<Longrightarrow>
  take (n - 1) (move_left s 1 xs) = del_at (s - 1) (take n xs)"
  by (cases s; cases n) (auto simp: move_left_def del_at_def drop_take min_def)

lemma remove_child_at_spec:
  assumes "interior_wf n" and "2 \<le> unat (n_keys n)" and "i \<le> unat (n_keys n)"
  shows "\<exists>n'. remove_child_at i n = Some n' \<and> interior_keys n' = del_at (i - 1) (interior_keys n) \<and>
    interior_children n' = del_at i (interior_children n) \<and> base_wf (interior_base n') \<and>
    length (children n') = 16 \<and> n_keys n' = n_keys n - 1 \<and>
    version (interior_base n') = version (interior_base n) \<and> parent (interior_base n') = parent (interior_base n)"
proof -
  let ?m = "unat (n_keys n)" and ?K = "base_keys (interior_base n)" and ?C = "children n"
  have w: "base_wf (interior_base n)" "length ?C = 16" "?m \<le> 15" and lK: "length ?K = 15"
    using assms(1) by (simp_all add: interior_wf_def)
  define s where "s = (if i = 0 then 1 else i)"
  have s: "1 \<le> s" "s \<le> ?m" "s - 1 = i - 1" using assms by (auto simp: s_def)
  define B where "B = (if i = ?m then Some (interior_base n) else shift_left_base_member s 1 (interior_base n))"
  define C where "C = (if i = ?m then ?C[i := nullptr] else (move_left (i + 1) 1 ?C)[?m := nullptr])"
  obtain b1 where b1: "B = Some b1" "base_wf b1" "take (?m - 1) (base_keys b1) = del_at (i - 1) (take ?m ?K)"
    "version b1 = version (interior_base n)" "parent b1 = parent (interior_base n)"
  proof (cases "i = ?m")
    case True
    then show ?thesis using that [of "interior_base n"] w lK assms by (simp add: B_def del_at_def min_def)
  next
    case False
    then have "s < 15" using s assms w(3) by (auto simp: s_def)
    then obtain b where "shift_left_base_member s 1 (interior_base n) = Some b" "base_wf b"
      "base_keys b = move_left s 1 ?K" "version b = version (interior_base n)"
      "parent b = parent (interior_base n)"
      using shift_left_keys [OF w(1) s(1)] by blast
    then show ?thesis
      using that [of b] False s w(3) lK move_left_one [of s ?m ?K] by (simp add: B_def)
  qed
  obtain b2 where b2: "set_key (?m - 1) 0 0 b1 = Some b2" "base_wf b2"
    "base_keys b2 = (base_keys b1)[?m - 1 := (0, 0)]" "version b2 = version b1" "parent b2 = parent b1"
  proof -
    have "?m - 1 < 15" using w(3) assms(2) by linarith
    then show thesis using set_key_keys [OF b1(2), of "?m - 1" 0 0] that by blast
  qed
  have lC: "length C = 16" using assms w by (simp add: C_def)
  have tC: "take ?m C = del_at i (take (?m + 1) ?C)"
  proof (cases "i = ?m")
    case True
    then show ?thesis using w by (simp add: C_def del_at_def min_def)
  next
    case False
    then show ?thesis using move_left_one [of "i + 1" "?m + 1" ?C] assms w by (simp add: C_def)
  qed
  have k: "unat (n_keys n - 1) = ?m - 1" using assms(2) by (simp add: unat_sub word_le_nat_alt)
  define n' where "n' = n\<lparr>interior_base := b2, children := C, n_keys := n_keys n - 1\<rparr>"
  have "remove_child_at i n = Some n'"
    using b1(1) b2(1) w assms
    by (cases "i = 0"; cases "i = ?m")
      (simp_all add: Let_def remove_child_at_def B_def C_def s_def n'_def set_interior_base_opt_def
        set_child_at_def shift_left_children_eq [unfolded One_nat_def] n_keys_decrement_def)
  then show ?thesis
    using b1 b2 tC lC k assms(2)
    by (intro exI [of _ n']) (simp add: n'_def interior_keys_def interior_children_def)
qed

lemma removed_child_wf:
  assumes "interior_wf n" and "2 \<le> unat (n_keys n)" and "base_wf (interior_base n')"
    and "length (children n') = 16" and "n_keys n' = n_keys n - 1"
    and "interior_keys n' = del_at j (interior_keys n)" and "interior_children n' = del_at i (interior_children n)"
  shows "interior_wf n'"
proof -
  have "unat (n_keys n - 1) = unat (n_keys n) - 1" using assms(2) by (simp add: unat_sub word_le_nat_alt)
  then show ?thesis
    using assms key_sorted_del_at [of "interior_keys n" j] set_del_at_subset [of i "interior_children n"]
    by (auto simp: interior_wf_def)
qed

lemma swap_child_from_eq:
  "length (children n) = 16 \<Longrightarrow> i < 16 \<Longrightarrow> j \<le> i \<Longrightarrow> children n ! i = old_child \<Longrightarrow>
   (\<And>l. j \<le> l \<Longrightarrow> l < i \<Longrightarrow> children n ! l \<noteq> old_child) \<Longrightarrow>
   swap_child_from old_child new_child [j..<16] n = Some (n\<lparr>children := (children n)[i := new_child]\<rparr>)"
proof (induction "i - j" arbitrary: j)
  case 0
  then show ?case by (simp add: upt_conv_Cons get_child_at_def set_child_at_def)
next
  case (Suc m)
  then have "j < 16" "j < i" by simp_all
  moreover from this have "children n ! j \<noteq> old_child" using Suc.prems by simp
  moreover have "swap_child_from old_child new_child [Suc j..<16] n =
      Some (n\<lparr>children := (children n)[i := new_child]\<rparr>)"
    using Suc by (intro Suc.hyps(1)) simp_all
  ultimately show ?case using Suc.prems by (simp add: upt_conv_Cons get_child_at_def)
qed

lemma swap_child_spec:
  assumes "interior_wf n" and "i < length (interior_children n)" and "distinct (interior_children n)"
  shows "\<exists>n'. swap_child (interior_children n ! i) new_child n = Some n' \<and>
    interior_children n' = (interior_children n)[i := new_child] \<and> length (children n') = 16 \<and>
    interior_base n' = interior_base n \<and> n_keys n' = n_keys n"
proof -
  let ?m = "unat (n_keys n)"
  have w: "length (children n) = 16" "?m \<le> 15" using assms(1) by (simp_all add: interior_wf_def)
  have i: "i \<le> ?m" using assms(2) length_interior(2) [OF assms(1)] by simp
  have c: "interior_children n ! j = children n ! j" if "j \<le> ?m" for j
    using that by (simp add: interior_children_def)
  have "children n ! l \<noteq> children n ! i" if "l < i" for l
    using that assms(2,3) i c [of l] c [of i] nth_eq_iff_index_eq [of "interior_children n" l i] by auto
  then have "swap_child (interior_children n ! i) new_child n =
      Some (n\<lparr>children := (children n)[i := new_child]\<rparr>)"
    using swap_child_from_eq [of n i 0 "interior_children n ! i" new_child] w i c [OF i]
    by (simp add: swap_child_def)
  then show ?thesis using w i by (simp add: interior_children_def take_update_swap)
qed

section \<open>Properties\<close>

text \<open>Three children at the pivots \<^verbatim>\<open>"b"\<close> and \<^verbatim>\<open>"d"\<close>.\<close>

definition sample_interior :: interior_node where
  "sample_interior = new_interior_node\<lparr>
     interior_base := new_base_node\<lparr>key_slice_arr := [98, 100] @ replicate 13 0,
       key_length_arr := [1, 1] @ replicate 13 0\<rparr>,
     n_keys := 2, children := [64, 128, 192] @ replicate 13 nullptr\<rparr>"

lemma sample_interior_wf: "interior_wf sample_interior"
  by code_simp

text \<open>
  C22. Descent: \<^verbatim>\<open>get_child_of\<close> picks the child whose key range holds the key: every pivot
  to the left of the child is at most the key, every pivot from the child on is above it.
\<close>

theorem pick_child_covers:
  assumes "interior_wf n" and "canonical k"
  shows "\<exists>i \<le> unat (n_keys n). pick_child n k = Some (interior_children n ! i) \<and>
    (\<forall>j < i. key_ord (interior_keys n ! j) \<le> key_ord k) \<and>
    (\<forall>j < unat (n_keys n). i \<le> j \<longrightarrow> key_ord k < key_ord (interior_keys n ! j))"
proof -
  let ?r = "rank_le k (interior_keys n)"
  have l: "length (interior_keys n) = unat (n_keys n)" by (rule length_interior(1) [OF assms(1)])
  have s: "key_sorted (interior_keys n)" using assms(1) by (simp add: interior_wf_def)
  show ?thesis
    using pick_child_eq [OF assms] rank_le_length [of k "interior_keys n"] rank_le_below rank_le_above [OF s] l
    by (intro exI [of _ ?r]) (simp only: l, blast)
qed

theorem pick_child_covers_witness: "pick_child sample_interior (99, 1) = Some 128"
proof -
  have c: "canonical (99, 1)" by code_simp
  have l: "unat (n_keys sample_interior) = 2" "interior_children sample_interior ! 1 = 128"
    "\<not> key_ord (interior_keys sample_interior ! 1) \<le> key_ord (99, 1)"
    "\<not> key_ord (99, 1) < key_ord (interior_keys sample_interior ! 0)"
    by code_simp+
  obtain i where i: "i \<le> 2" "pick_child sample_interior (99, 1) = Some (interior_children sample_interior ! i)"
    "\<And>j. j < i \<Longrightarrow> key_ord (interior_keys sample_interior ! j) \<le> key_ord (99, 1)"
    "\<And>j. j < 2 \<Longrightarrow> i \<le> j \<Longrightarrow> key_ord (99, 1) < key_ord (interior_keys sample_interior ! j)"
    using pick_child_covers [OF sample_interior_wf c] unfolding l(1) by blast
  have "i = 1" using i(3) [of 1] i(4) [of 0] l(3,4) by (cases i) force+
  then show ?thesis using i(2) l(2) by simp
qed

text \<open>
  C23. Inserting a child with a new pivot into an interior node that is not full puts the
  pivot at its place in the sorted keys and the child right of it, shifts all arrays
  consistently, loses no child, and leaves the node well formed and marked as being
  written.
\<close>

theorem insert_child_refines:
  assumes "interior_wf n" and "unat (n_keys n) < 15" and "canonical pivot"
    and "pivot \<notin> set (interior_keys n)" and "child \<noteq> nullptr"
  shows "\<exists>n' r. insert_child child pivot n = Some n' \<and> interior_wf n' \<and>
    interior_keys n' = ins_at r pivot (interior_keys n) \<and>
    interior_children n' = ins_at (r + 1) child (interior_children n) \<and>
    inserting_deleting (version (interior_base n'))"
proof -
  let ?n = "set_interior_base (set_version_inserting_deleting True) n"
  obtain n' where n': "insert_child child pivot n = Some n'" "child_inserted ?n child pivot n'"
    using insert_child_spec [OF assms(1-3)] by blast
  have e: "interior_keys ?n = interior_keys n" "interior_children ?n = interior_children n"
    "interior_wf ?n" "n_keys ?n = n_keys n"
    using assms(1) by (simp_all add: interior_wf_def set_interior_base_def interior_keys_def interior_children_def)
  have v: "inserting_deleting (version (interior_base n'))"
    using n'(2) by (simp add: child_inserted_def set_interior_base_def set_version_inserting_deleting_def
        version_simps)
  have "interior_wf n'"
    using child_inserted_wf [OF e(3) _ assms(3) _ assms(5) n'(2)] assms(2,4) e by simp
  then show ?thesis using n' e v by (auto simp: child_inserted_def)
qed

theorem insert_child_refines_witness:
  "\<exists>n' r. insert_child 256 (99, 1) sample_interior = Some n' \<and> interior_wf n' \<and>
    interior_keys n' = ins_at r (99, 1) (interior_keys sample_interior) \<and>
    interior_children n' = ins_at (r + 1) 256 (interior_children sample_interior) \<and>
    inserting_deleting (version (interior_base n'))"
proof -
  have "unat (n_keys sample_interior) < 15" "canonical (99, 1)"
    "(99, 1) \<notin> set (interior_keys sample_interior)"
    by code_simp+
  then show ?thesis by (intro insert_child_refines [OF sample_interior_wf]) simp_all
qed

text \<open>
  C24. Removing a child from an interior node with at least three: exactly that child goes,
  together with the pivot on its left (the first pivot for the leftmost child), and the
  node stays well formed with the other children in order.
\<close>

theorem remove_child_refines:
  assumes "interior_wf n" and "2 \<le> unat (n_keys n)" and "i \<le> unat (n_keys n)"
  shows "\<exists>n'. remove_child_at i n = Some n' \<and> interior_wf n' \<and>
    interior_keys n' = del_at (i - 1) (interior_keys n) \<and>
    interior_children n' = del_at i (interior_children n)"
  using remove_child_at_spec [OF assms] removed_child_wf [OF assms(1,2)] by blast

theorem remove_child_refines_witness:
  "\<exists>n'. remove_child_at 1 sample_interior = Some n' \<and> interior_wf n' \<and>
    interior_keys n' = del_at (1 - 1) (interior_keys sample_interior) \<and>
    interior_children n' = del_at 1 (interior_children sample_interior)"
proof -
  have "2 \<le> unat (n_keys sample_interior)" "1 \<le> unat (n_keys sample_interior)" by code_simp+
  then show ?thesis by (rule remove_child_refines [OF sample_interior_wf])
qed

end
