(* ===== verification/Value.thy ===== *)
theory Value
  imports Key_Slice
begin

text \<open>
  \<^verbatim>\<open>include/value.h\<close>: a \<^verbatim>\<open>value*\<close> is a 64-bit word that is either the value itself (stored
  inline) or, with bit 62 set, the address of a heap page that begins with a header
  (length, alignment, delete flag) and holds the copied bytes at offset \<^verbatim>\<open>align_\<close>. The
  pages are a partial map from addresses; the allocator is a supply of the addresses that
  successive calls of \<^verbatim>\<open>operator new\<close> return.
\<close>

section \<open>Pages\<close>

record value_page =
  len :: "32 word"
  align :: "16 word"
  need_delete_flag :: bool
  page_size :: "64 word"
  body :: "byte list"

type_synonym value_pages = "addr \<rightharpoonup> value_page"

text \<open>Bit 62 of a \<^verbatim>\<open>value*\<close>.\<close>

definition kValPtrFlag :: "64 word" where
  "kValPtrFlag = push_bit 62 0b01"

definition remove_ptr_flag :: "64 word \<Rightarrow> 64 word" where
  "remove_ptr_flag val = val AND NOT kValPtrFlag"

text \<open>
  \<^verbatim>\<open>sizeof(value)\<close> is 8, and the length and the alignment are narrowed to 32 and 16 bits
  when the header is written. With a narrowed alignment below 8 the copy would overwrite
  the header: the result \<open>None\<close>, as for a failed allocation.
\<close>

definition create_value ::
  "bool \<Rightarrow> byte list \<Rightarrow> 64 word \<Rightarrow> 64 word \<Rightarrow> addr list \<Rightarrow> value_pages \<Rightarrow>
   (64 word \<times> addr list \<times> value_pages) option" where
  "create_value kIsInlineValue in_ptr v_len v_align supply vh =
     (if kIsInlineValue
      then (if 8 \<le> length in_ptr then Some (slice_of_bytes (take 8 in_ptr), supply, vh) else None)
      else let kMinAlignment = 8;
               v_align = (if v_align < kMinAlignment then kMinAlignment else v_align);
               total_len = v_len + v_align
           in case supply of
                [] \<Rightarrow> None
              | page # supply \<Rightarrow>
                  if (ucast v_align :: 16 word) < 8 \<or> length in_ptr < unat v_len then None
                  else Some (page OR kValPtrFlag, supply,
                         vh(page \<mapsto> \<lparr>len = ucast v_len, align = ucast v_align,
                             need_delete_flag = True, page_size = total_len,
                             body = take (unat v_len) in_ptr\<rparr>)))"

definition is_value_ptr :: "64 word \<Rightarrow> bool" where
  "is_value_ptr val = (0 < (val AND kValPtrFlag))"

text \<open>Dereferencing an address that holds no page is undefined: the result \<open>None\<close>.\<close>

definition need_delete :: "value_pages \<Rightarrow> 64 word \<Rightarrow> bool option" where
  "need_delete vh val =
     (let v = remove_ptr_flag val
      in if v = val then Some False else map_option need_delete_flag (vh v))"

definition get_body :: "value_pages \<Rightarrow> 64 word \<Rightarrow> addr option" where
  "get_body vh val =
     (let v = remove_ptr_flag val
      in if v = val then Some v else map_option (\<lambda>p. v + ucast (align p)) (vh v))"

definition get_len :: "value_pages \<Rightarrow> 64 word \<Rightarrow> 64 word option" where
  "get_len vh val =
     (let v = remove_ptr_flag val
      in if v = val then Some 8 else map_option (\<lambda>p. ucast (len p)) (vh v))"

text \<open>The sum of the header fields is computed in 32 bits.\<close>

definition header_size :: "value_page \<Rightarrow> 64 word" where
  "header_size p = ucast (len p + ucast (align p))"

definition get_gc_info :: "value_pages \<Rightarrow> 64 word \<Rightarrow> (addr \<times> 64 word \<times> 64 word) option" where
  "get_gc_info vh val =
     (let v = remove_ptr_flag val
      in if v = val then Some (nullptr, 0, 0)
         else map_option (\<lambda>p. (v, header_size p, ucast (align p))) (vh v))"

definition remove_delete_flag :: "value_pages \<Rightarrow> 64 word \<Rightarrow> value_pages option" where
  "remove_delete_flag vh val =
     (let v = remove_ptr_flag val
      in if v \<noteq> val
         then map_option (\<lambda>p. vh(v \<mapsto> p\<lparr>need_delete_flag := False\<rparr>)) (vh v)
         else Some vh)"

text \<open>
  \<^verbatim>\<open>operator delete(v, size, align)\<close>: releasing what is not allocated is undefined.
\<close>

definition free_page :: "value_pages \<Rightarrow> addr \<Rightarrow> value_pages option" where
  "free_page vh v = map_option (\<lambda>p. vh(v := None)) (vh v)"

definition delete_value :: "value_pages \<Rightarrow> 64 word \<Rightarrow> value_pages option" where
  "delete_value vh val =
     (let v = remove_ptr_flag val in if v \<noteq> val then free_page vh v else Some vh)"

text \<open>The bytes a reader finds behind the pair that \<^verbatim>\<open>get\<close> returns.\<close>

definition value_bytes :: "value_pages \<Rightarrow> 64 word \<Rightarrow> byte list option" where
  "value_bytes vh val =
     (let v = remove_ptr_flag val
      in if v = val then Some (slice_bytes val) else map_option body (vh v))"

section \<open>Pointer tags\<close>

text \<open>
  User-space addresses leave the two topmost bits free; the tags rely on it.
\<close>

definition valid_ptr :: "addr \<Rightarrow> bool" where
  "valid_ptr p \<longleftrightarrow> p \<noteq> nullptr \<and> \<not> bit p 62 \<and> \<not> bit p 63"

lemma bit_kValPtrFlag: "bit kValPtrFlag n \<longleftrightarrow> n = 62"
  unfolding kValPtrFlag_def bit_push_bit_iff by (auto simp: bit_1_iff)

lemma remove_ptr_flag_tagged:
  assumes "\<not> bit p 62"
  shows "remove_ptr_flag (p OR kValPtrFlag) = p" and "p OR kValPtrFlag \<noteq> p"
proof -
  show "remove_ptr_flag (p OR kValPtrFlag) = p"
    unfolding remove_ptr_flag_def
    by (rule bit_word_eqI) (use assms in \<open>auto simp: bit_simps bit_kValPtrFlag\<close>)
  have "bit (p OR kValPtrFlag) 62" by (simp add: bit_simps bit_kValPtrFlag)
  then show "p OR kValPtrFlag \<noteq> p" using assms by metis
qed

lemma remove_ptr_flag_untagged: "\<not> bit v 62 \<Longrightarrow> remove_ptr_flag v = v"
  unfolding remove_ptr_flag_def by (rule bit_word_eqI) (auto simp: bit_simps bit_kValPtrFlag)

lemma is_value_ptr_bit: "is_value_ptr v \<longleftrightarrow> bit v 62"
proof -
  have "v AND kValPtrFlag = 0 \<longleftrightarrow> \<not> bit v 62"
  proof
    assume "v AND kValPtrFlag = 0"
    then have "\<not> bit (v AND kValPtrFlag) 62" by simp
    then show "\<not> bit v 62" by (simp add: bit_and_iff bit_kValPtrFlag)
  next
    assume "\<not> bit v 62"
    then show "v AND kValPtrFlag = 0"
      by (intro bit_word_eqI) (auto simp: bit_and_iff bit_kValPtrFlag)
  qed
  then show ?thesis by (simp add: is_value_ptr_def word_gt_0)
qed

lemma narrow_exact:
  "unat (w :: 64 word) < 2 ^ LENGTH('a :: len) \<Longrightarrow> unat (ucast w :: 'a word) = unat w"
  by (simp add: unsigned_ucast_eq take_bit_nat_eq_self)

lemma ucast_unat_eq: "unat v = n \<Longrightarrow> (ucast v :: 'b :: len word) = word_of_nat n"
  by (drule sym) simp

lemma widen_narrow:
  assumes "unat (w :: 64 word) < 2 ^ LENGTH('a :: len)"
  shows "ucast (ucast w :: 'a word) = w"
  using ucast_unat_eq [OF narrow_exact [OF assms], where ?'b = 64] by simp

section \<open>Properties\<close>

text \<open>
  C29. A value created out of line reads back, whatever alignment is asked for: the
  alignment used is the requested one, raised to 8 when it is smaller, and the data begin
  there; the pointer is tagged, the length, the bytes and the recorded allocation size
  (length plus alignment used) are those of the call, it is marked for deletion, and
  \<^verbatim>\<open>delete_value\<close> releases exactly its page. The header fields hold the length and the
  alignment as long as they fit: alignment used below \<open>2 ^ 16\<close>, length plus alignment used
  below \<open>2 ^ 32\<close>.
\<close>

theorem create_value_roundtrip:
  assumes "valid_ptr page" and "unat v_len \<le> length data"
    and "al = (if unat v_align < 8 then 8 else v_align)"
    and "unat al < 2 ^ 16" and "unat v_len + unat al < 2 ^ 32"
  shows "\<exists>v vh'. create_value False data v_len v_align (page # supply) vh = Some (v, supply, vh') \<and>
    is_value_ptr v \<and> get_len vh' v = Some v_len \<and> get_body vh' v = Some (page + al) \<and>
    value_bytes vh' v = Some (take (unat v_len) data) \<and> need_delete vh' v = Some True \<and>
    get_gc_info vh' v = Some (page, v_len + al, al) \<and>
    delete_value vh' v = Some (vh(page := None))"
proof -
  let ?p = "\<lparr>len = ucast v_len, align = ucast al, need_delete_flag = True,
    page_size = v_len + al, body = take (unat v_len) data\<rparr>"
  have p: "\<not> bit page 62" using assms(1) by (simp add: valid_ptr_def)
  have e: "(if v_align < 8 then 8 else v_align) = al"
    using assms(3) by (simp add: word_less_nat_alt)
  have l: "unat (ucast v_len :: 32 word) = unat v_len" using assms(5) by (intro narrow_exact) simp
  have a: "unat (ucast al :: 16 word) = unat al" using assms(4) by (intro narrow_exact) simp
  have ul: "ucast (ucast v_len :: 32 word) = v_len" and ua: "ucast (ucast al :: 16 word) = al"
    using assms(4,5) by (auto intro!: widen_narrow)
  have n16: "\<not> (ucast al :: 16 word) < 8"
    using assms(3) a by (simp add: word_less_nat_alt)
  have h: "header_size ?p = v_len + al"
  proof -
    have "unat (ucast (ucast al :: 16 word) :: 32 word) = unat al"
      using assms(4) by (simp only: ucast_unat_eq [OF a] unat_of_nat) simp
    then have "unat (ucast v_len + ucast (ucast al :: 16 word) :: 32 word) = unat v_len + unat al"
      using l assms(5) by (simp only: unat_word_ariths) simp
    moreover have "unat (v_len + al) = unat v_len + unat al"
      using assms(5) by (simp add: unat_word_ariths)
    ultimately show ?thesis
      using assms(5) by (simp add: header_size_def word_unat_eq_iff unsigned_ucast_eq take_bit_nat_eq_self)
  qed
  have c: "create_value False data v_len v_align (page # supply) vh =
      Some (page OR kValPtrFlag, supply, vh(page \<mapsto> ?p))"
    using assms(2) n16 by (simp add: create_value_def Let_def e)
  show ?thesis
    using remove_ptr_flag_tagged [OF p] h ul ua
    by (intro exI [of _ "page OR kValPtrFlag"] exI [of _ "vh(page \<mapsto> ?p)"])
      (simp add: c is_value_ptr_bit bit_or_iff bit_kValPtrFlag get_len_def get_body_def
        value_bytes_def need_delete_def get_gc_info_def delete_value_def free_page_def Let_def)
qed

theorem create_value_roundtrip_witness:
  "\<exists>v vh'. create_value False [104, 105] 2 1 (4096 # []) Map.empty = Some (v, [], vh') \<and>
    is_value_ptr v \<and> get_len vh' v = Some 2 \<and> get_body vh' v = Some (4096 + 8) \<and>
    value_bytes vh' v = Some (take (unat (2 :: 64 word)) [104, 105]) \<and> need_delete vh' v = Some True \<and>
    get_gc_info vh' v = Some (4096, 2 + 8, 8) \<and>
    delete_value vh' v = Some (Map.empty(4096 := None))"
proof -
  have "valid_ptr 4096" by code_simp
  then show ?thesis by (rule create_value_roundtrip) simp_all
qed

text \<open>
  C38. The header narrows: a value of \<open>2 ^ 32 + n\<close> bytes, \<open>n\<close> below \<open>2 ^ 16\<close> and stored
  with alignment 8, is stored and copied in full,
  but \<^verbatim>\<open>get_len\<close> reports \<open>n\<close> bytes, and the size that \<^verbatim>\<open>get_gc_info\<close> hands to the sized
  \<^verbatim>\<open>operator delete\<close> is not the size that was allocated.
\<close>

theorem create_value_length_narrows:
  assumes "valid_ptr page" and "n < 2 ^ 16" and "length data = 2 ^ 32 + n"
  shows "\<exists>v vh' p. create_value False data (of_nat (2 ^ 32 + n)) 8 (page # supply) vh
      = Some (v, supply, vh') \<and> vh' page = Some p \<and>
    get_len vh' v = Some (of_nat n) \<and> page_size p = of_nat (2 ^ 32 + n + 8) \<and>
    get_gc_info vh' v = Some (page, of_nat (n + 8), 8)"
proof -
  let ?l = "of_nat (2 ^ 32 + n) :: 64 word"
  let ?p = "\<lparr>len = ucast ?l, align = 8, need_delete_flag = True, page_size = ?l + 8, body = data\<rparr>"
  have p: "\<not> bit page 62" using assms(1) by (simp add: valid_ptr_def)
  have u: "unat ?l = 2 ^ 32 + n" using assms(2) by (simp only: unat_of_nat) simp
  have l: "unat (ucast ?l :: 32 word) = n"
    using assms(2) unfolding unsigned_ucast_eq u by (simp add: take_bit_eq_mod)
  have ul: "(ucast (ucast ?l :: 32 word) :: 64 word) = of_nat n"
    by (rule ucast_unat_eq [OF l])
  have "unat (ucast ?l + 8 :: 32 word) = n + 8" using l assms(2) by (simp add: unat_word_ariths)
  then have h: "header_size ?p = of_nat (n + 8)"
    by (simp only: header_size_def value_page.simps) (rule ucast_unat_eq, simp)
  have c: "create_value False data ?l 8 (page # supply) vh =
      Some (page OR kValPtrFlag, supply, vh(page \<mapsto> ?p))"
    using assms(3) u by (simp add: create_value_def Let_def)
  show ?thesis
    using remove_ptr_flag_tagged [OF p] h ul
    by (intro exI [of _ "page OR kValPtrFlag"] exI [of _ "vh(page \<mapsto> ?p)"] exI [of _ ?p] conjI c)
      (simp_all add: get_len_def get_gc_info_def Let_def)
qed

theorem create_value_length_narrows_witness:
  "\<exists>v vh' p. create_value False (replicate (2 ^ 32 + 7) 0) (of_nat (2 ^ 32 + 7)) 8 [4096] Map.empty
      = Some (v, [], vh') \<and> vh' 4096 = Some p \<and>
    get_len vh' v = Some (of_nat 7) \<and> page_size p = of_nat (2 ^ 32 + 7 + 8) \<and>
    get_gc_info vh' v = Some (4096, of_nat (7 + 8), 8)"
proof -
  have "valid_ptr 4096" by code_simp
  then show ?thesis by (rule create_value_length_narrows) (simp_all only: length_replicate, simp)
qed

end
