(* ===== verification/Link_Or_Value.thy ===== *)
theory Link_Or_Value
  imports Value
begin

text \<open>
  \<^verbatim>\<open>include/link_or_value.h\<close>: the payload of a slot of a border node is one 64-bit word.
  With bit 63 set it is a link to the root node of the next layer, with bit 62 set the
  address of a value page, the bare bit 62 marks the empty slot, and any other word is a
  value stored inline.
\<close>

type_synonym link_or_value = "64 word"

definition kChildFlag :: "64 word" where
  "kChildFlag = push_bit 62 0b10"

definition init_lv :: link_or_value where
  "init_lv = kValPtrFlag"

definition get_next_layer :: "link_or_value \<Rightarrow> addr" where
  "get_next_layer ptr = (if ptr AND kChildFlag = 0 then nullptr else ptr AND NOT kChildFlag)"

definition get_value :: "link_or_value \<Rightarrow> 64 word" where
  "get_value ptr = (if 0 < (ptr AND kChildFlag) \<or> ptr = kValPtrFlag then nullptr else ptr)"

datatype lv_type = Base_Node_Ptr | Value_Ptr | Null_Ptr

definition get_lv_type :: "link_or_value \<Rightarrow> lv_type" where
  "get_lv_type lv =
     (if get_next_layer lv \<noteq> nullptr then Base_Node_Ptr
      else if get_value lv \<noteq> nullptr then Value_Ptr
      else Null_Ptr)"

text \<open>
  \<^verbatim>\<open>set_value\<close>. The flags say whether the out-parameters \<^verbatim>\<open>created_value_ptr\<close> and
  \<^verbatim>\<open>old_value\<close> are given. The result holds the new word, what was written through the two
  pointers, and the value pages: without \<^verbatim>\<open>old_value\<close> the replaced value is released at
  once.
\<close>

definition set_value ::
  "value_pages \<Rightarrow> link_or_value \<Rightarrow> 64 word \<Rightarrow> bool \<Rightarrow> bool \<Rightarrow>
   (link_or_value \<times> addr option \<times> addr option \<times> value_pages) option" where
  "set_value vh lv new_value created_given old_given = do {
     let cur_v = get_value lv;
     del \<leftarrow> (if cur_v \<noteq> nullptr then need_delete vh cur_v else Some False);
     (old, vh) \<leftarrow> (if del
        then (if \<not> old_given then map_option (Pair None) (delete_value vh cur_v)
              else Some (Some cur_v, vh))
        else Some (None, vh));
     created \<leftarrow> (if created_given then map_option Some (get_body vh new_value) else Some None);
     Some (new_value, created, old, vh)
   }"

definition set_next_layer :: "addr \<Rightarrow> link_or_value" where
  "set_next_layer new_next_layer = new_next_layer OR kChildFlag"

section \<open>Tags\<close>

lemma bit_kChildFlag: "bit kChildFlag n \<longleftrightarrow> n = 63"
proof -
  have k: "kChildFlag = push_bit 63 1" by code_simp
  show ?thesis unfolding k bit_push_bit_iff by (auto simp: bit_1_iff)
qed

lemma and_kChildFlag: "lv AND kChildFlag = 0 \<longleftrightarrow> \<not> bit lv 63"
proof
  assume "lv AND kChildFlag = 0"
  then have "\<not> bit (lv AND kChildFlag) 63" by simp
  then show "\<not> bit lv 63" by (simp add: bit_and_iff bit_kChildFlag)
next
  assume "\<not> bit lv 63"
  then show "lv AND kChildFlag = 0"
    by (intro bit_word_eqI) (auto simp: bit_and_iff bit_kChildFlag)
qed

lemma get_next_layer_none [simp]: "\<not> bit lv 63 \<Longrightarrow> get_next_layer lv = nullptr"
  by (simp add: get_next_layer_def and_kChildFlag)

lemma bit_63_init_lv [simp]: "\<not> bit init_lv 63" "\<not> bit kValPtrFlag 63"
  by (simp_all add: init_lv_def bit_kValPtrFlag)

lemma get_value_eq: "get_value lv = (if bit lv 63 \<or> lv = init_lv then nullptr else lv)"
  by (simp add: get_value_def word_gt_0 and_kChildFlag init_lv_def)

lemma set_next_layer_roundtrip:
  assumes "valid_ptr n"
  shows "get_next_layer (set_next_layer n) = n" and "get_value (set_next_layer n) = nullptr"
    and "bit (set_next_layer n) 63" and "set_next_layer n \<noteq> init_lv"
proof -
  have b: "bit (set_next_layer n) 63"
    by (simp add: set_next_layer_def bit_or_iff bit_kChildFlag)
  then show "bit (set_next_layer n) 63" "set_next_layer n \<noteq> init_lv"
    using bit_63_init_lv(1) by metis+
  have "set_next_layer n AND NOT kChildFlag = n"
    unfolding set_next_layer_def
    by (rule bit_word_eqI) (use assms in \<open>auto simp: valid_ptr_def bit_simps bit_kChildFlag\<close>)
  then show "get_next_layer (set_next_layer n) = n"
    using b by (simp add: get_next_layer_def and_kChildFlag)
  show "get_value (set_next_layer n) = nullptr"
    using b by (simp add: get_value_eq)
qed

text \<open>The words that can stand for a value: not a link, not the empty slot, not null.\<close>

definition value_word :: "64 word \<Rightarrow> bool" where
  "value_word v \<longleftrightarrow> \<not> bit v 63 \<and> v \<noteq> init_lv \<and> v \<noteq> nullptr"

lemma get_value_word [simp]: "value_word v \<Longrightarrow> get_value v = v"
  by (simp add: value_word_def get_value_eq)

lemma value_word_page: "valid_ptr p \<Longrightarrow> value_word (p OR kValPtrFlag)"
proof -
  assume p: "valid_ptr p"
  then obtain k where k: "bit p k" "k \<noteq> 62" "k \<noteq> 63"
    unfolding valid_ptr_def by (metis bit_0_eq bit_eqI bot_apply bot_bool_def)
  then have "bit (p OR kValPtrFlag) k" "\<not> bit kValPtrFlag k" by (simp_all add: bit_or_iff bit_kValPtrFlag)
  then have "p OR kValPtrFlag \<noteq> kValPtrFlag" by metis
  moreover have "p OR kValPtrFlag \<noteq> 0" using \<open>bit (p OR kValPtrFlag) k\<close> by (metis bit_0_eq bot_apply bot_bool_def)
  ultimately show ?thesis using p
    by (simp add: value_word_def valid_ptr_def bit_or_iff bit_kValPtrFlag init_lv_def)
qed

section \<open>Properties\<close>

text \<open>
  C30. The three kinds of slot content are told apart by every reader: an empty slot has
  neither link nor value; a stored link is read back as that link and never as a value; a
  stored value word is read back as that value and never as a link. The link is one to a
  valid address, and a value word is one other than null and the empty slot whose bit 63 is
  clear; the inline words with tags are left out here.
\<close>

theorem link_or_value_kinds:
  assumes "valid_ptr n" and "value_word v"
  shows "get_lv_type init_lv = Null_Ptr \<and>
    get_lv_type (set_next_layer n) = Base_Node_Ptr \<and> get_next_layer (set_next_layer n) = n \<and>
    get_value (set_next_layer n) = nullptr \<and>
    get_lv_type v = Value_Ptr \<and> get_value v = v \<and> get_next_layer v = nullptr"
proof -
  have "n \<noteq> nullptr" and "v \<noteq> nullptr" and "\<not> bit v 63"
    using assms by (auto simp: valid_ptr_def value_word_def)
  then show ?thesis
    using assms set_next_layer_roundtrip [OF assms(1)] by (simp add: get_lv_type_def) (simp add: get_value_eq)
qed

theorem link_or_value_kinds_witness:
  "get_lv_type init_lv = Null_Ptr \<and>
    get_lv_type (set_next_layer 4096) = Base_Node_Ptr \<and> get_next_layer (set_next_layer 4096) = 4096 \<and>
    get_value (set_next_layer 4096) = nullptr \<and>
    get_lv_type 77 = Value_Ptr \<and> get_value 77 = 77 \<and> get_next_layer 77 = nullptr"
proof -
  have "valid_ptr 4096" "value_word 77" by code_simp+
  then show ?thesis by (rule link_or_value_kinds)
qed

lemma remove_ptr_flag_bit: "remove_ptr_flag w = w \<longleftrightarrow> \<not> bit w 62"
proof
  assume "remove_ptr_flag w = w"
  moreover have "\<not> bit (remove_ptr_flag w) 62"
    by (simp add: remove_ptr_flag_def bit_and_iff bit_not_iff bit_kValPtrFlag)
  ultimately show "\<not> bit w 62" by simp
qed (rule remove_ptr_flag_untagged)

text \<open>The address of a body is never the tagged word it was computed from.\<close>

lemma get_body_tagged: "bit w 62 \<Longrightarrow> get_body vh w \<noteq> Some w"
proof
  assume t: "bit w 62" and g: "get_body vh w = Some w"
  then have "remove_ptr_flag w \<noteq> w" by (simp add: remove_ptr_flag_bit)
  with g obtain p :: value_page where p: "remove_ptr_flag w + ucast (align p) = w"
    by (auto simp: get_body_def Let_def)
  have "(w AND NOT kValPtrFlag) OR (w AND kValPtrFlag) = w"
    by (rule bit_word_eqI) (auto simp: bit_simps)
  moreover have "(w AND NOT kValPtrFlag) + (w AND kValPtrFlag)
      = (w AND NOT kValPtrFlag) OR (w AND kValPtrFlag)"
    by (rule disjunctive_add) (auto simp: bit_simps)
  moreover have "w AND kValPtrFlag = kValPtrFlag"
    by (rule bit_word_eqI) (use t in \<open>auto simp: bit_simps bit_kValPtrFlag\<close>)
  ultimately have "remove_ptr_flag w + kValPtrFlag = w" by (simp add: remove_ptr_flag_def)
  with p have "(ucast (align p) :: 64 word) = kValPtrFlag" by (metis add_left_cancel)
  moreover have "\<not> bit (ucast (align p) :: 64 word) 62"
    using bit_imp_le_length [of "align p" 62] by (auto simp: bit_simps)
  moreover have "bit kValPtrFlag 62" by (simp add: bit_kValPtrFlag)
  ultimately show False by metis
qed

lemma set_value_stores: "set_value vh lv v c d = Some (lv', created, old, vh') \<Longrightarrow> lv' = v"
  by (auto simp: set_value_def Let_def split: bind_splits if_splits)

lemma create_value_inline:
  "create_value True data n al supply vh = Some (v, supply', vh') \<Longrightarrow> v = slice_of_bytes (take 8 data)"
  by (auto simp: create_value_def split: if_splits)

text \<open>
  C37. Inline values are stored without a tag of their own. When a word is created as an
  inline value and stored into a slot by \<^verbatim>\<open>set_value\<close>, then what \<^verbatim>\<open>get\<close> reads from the slot
  (\<^verbatim>\<open>get_body\<close> of \<^verbatim>\<open>get_value\<close>) is the word again exactly when its bits 62 and 63 are clear,
  zero included. A word with bit 63 set and the word \<open>2 ^ 62\<close> are read as zero, and one
  with bit 63 set passes for a link to a next layer.
\<close>

theorem inline_value_misread:
  assumes "create_value True data n al supply vh = Some (v, supply', vh1)"
    and "set_value vh1 lv v created_given old_given = Some (lv', created, old, vh2)"
  shows "let w = slice_of_bytes (take 8 data) in
    (get_body vh2 (get_value lv') = Some w \<longleftrightarrow> \<not> bit w 62 \<and> \<not> bit w 63) \<and>
    (bit w 63 \<or> w = 2 ^ 62 \<longrightarrow> get_body vh2 (get_value lv') = Some 0) \<and>
    get_next_layer lv' = (if bit w 63 then w AND NOT kChildFlag else nullptr)"
proof -
  let ?w = "slice_of_bytes (take 8 data)"
  have lv: "lv' = ?w" using create_value_inline [OF assms(1)] set_value_stores [OF assms(2)] by simp
  have k: "kValPtrFlag = 2 ^ 62" by code_simp
  have z: "get_body vh2 0 = Some 0" by (simp add: get_body_def remove_ptr_flag_def)
  have u: "get_body vh2 ?w = Some ?w" if "\<not> bit ?w 62"
    using remove_ptr_flag_untagged [OF that] by (simp add: get_body_def Let_def)
  have i: "?w \<noteq> init_lv" if "\<not> bit ?w 62"
    using that by (auto simp: init_lv_def bit_kValPtrFlag)
  have n: "?w \<noteq> 0" if "bit ?w 63 \<or> bit ?w 62" using that by auto
  have b: "bit init_lv 62" by (simp add: init_lv_def bit_kValPtrFlag)
  have "get_body vh2 (get_value ?w) = Some ?w \<longleftrightarrow> \<not> bit ?w 62 \<and> \<not> bit ?w 63"
    using z u i n b get_body_tagged [of ?w vh2] by (auto simp: get_value_eq)
  moreover have "get_body vh2 (get_value ?w) = Some 0" if "bit ?w 63 \<or> ?w = 2 ^ 62"
    using that z by (auto simp: get_value_eq init_lv_def k)
  ultimately show ?thesis
    using and_kChildFlag [of ?w] by (simp only: Let_def lv) (simp add: get_next_layer_def)
qed

theorem inline_value_misread_witness:
  "let w = 2 ^ 63 + 5; r = set_value Map.empty init_lv w True False
   in r \<noteq> None \<and> get_body Map.empty (get_value (fst (the r))) \<noteq> Some w \<and>
    get_body Map.empty (get_value (fst (the r))) = Some 0 \<and> get_next_layer (fst (the r)) = 5"
proof -
  have c: "create_value True [5, 0, 0, 0, 0, 0, 0, 128] 8 8 [] Map.empty = Some (2 ^ 63 + 5, [], Map.empty)"
    by code_simp
  have s: "set_value Map.empty init_lv (2 ^ 63 + 5) True False
      = Some (2 ^ 63 + 5, Some (2 ^ 63 + 5), None, Map.empty)"
    by code_simp
  note m = inline_value_misread [OF c s]
  have w: "slice_of_bytes (take 8 [5, 0, 0, 0, 0, 0, 0, 128]) = 2 ^ 63 + 5" by code_simp
  have b: "bit (2 ^ 63 + 5 :: 64 word) 63" by code_simp
  have f: "(2 ^ 63 + 5) AND NOT kChildFlag = 5" by code_simp
  show ?thesis using m b f s by (simp only: Let_def w) simp
qed

end
