(* ===== verification/Tree_Model.thy ===== *)
theory Tree_Model
  imports Interior_Node Link_Or_Value
begin

text \<open>
  The trees that the heap holds, as a datatype: what the refinement proofs of \<^verbatim>\<open>get\<close> and
  \<^verbatim>\<open>scan\<close> are stated with. A leaf stands for a border node and its sorted entries, a branch
  for an interior node with its pivots and children. An entry holds a value word or the
  tree of the next layer.
\<close>

section \<open>Trees\<close>

datatype tree =
    Leaf addr "(key \<times> content) list"
  | Branch addr "key list" "tree list"
and content = Val "64 word" | Sub tree

lemma tree_induct [case_names Leaf Branch]:
  assumes "\<And>p es. (\<And>k t. (k, Sub t) \<in> set es \<Longrightarrow> P t) \<Longrightarrow> P (Leaf p es)"
    and "\<And>p ks ts. (\<And>t. t \<in> set ts \<Longrightarrow> P t) \<Longrightarrow> P (Branch p ks ts)"
  shows "P t"
proof (induction "size t" arbitrary: t rule: less_induct)
  case less
  show ?case
  proof (cases t)
    case (Leaf p es)
    have "size t' < size t" if "(k, Sub t') \<in> set es" for k t'
      using size_list_estimation' [OF that, of "size t'" "size_prod (\<lambda>_. 0) size"] by (simp add: Leaf)
    then show ?thesis using assms(1) less Leaf by auto
  next
    case (Branch p ks ts)
    have "size t' < size t" if "t' \<in> set ts" for t'
      using size_list_estimation' [OF that, of "size t'" size] by (simp add: Branch)
    then show ?thesis using assms(2) less Branch by auto
  qed
qed

fun addr_of :: "tree \<Rightarrow> addr" where
  "addr_of (Leaf p es) = p"
| "addr_of (Branch p ks ts) = p"

text \<open>The bytes of a key in its layer: at most eight.\<close>

definition key_bytes :: "key \<Rightarrow> byte list" where
  "key_bytes k = take (unat (snd k)) (slice_bytes (fst k))"

text \<open>The user's keys with their values, in order.\<close>

fun tree_entries :: "tree \<Rightarrow> (byte list \<times> 64 word) list"
  and content_entries :: "byte list \<Rightarrow> content \<Rightarrow> (byte list \<times> 64 word) list" where
  "tree_entries (Leaf p es) = concat (map (\<lambda>(k, c). content_entries (key_bytes k) c) es)"
| "tree_entries (Branch p ks ts) = concat (map tree_entries ts)"
| "content_entries s (Val v) = [(s, v)]"
| "content_entries s (Sub t) = map (\<lambda>(s', v). (s @ s', v)) (tree_entries t)"

text \<open>One layer: its entries from left to right, its leaves, and its keys with the pivots.\<close>

fun layer_entries :: "tree \<Rightarrow> (key \<times> content) list" where
  "layer_entries (Leaf p es) = es"
| "layer_entries (Branch p ks ts) = concat (map layer_entries ts)"

fun layer_leaves :: "tree \<Rightarrow> (addr \<times> (key \<times> content) list) list" where
  "layer_leaves (Leaf p es) = [(p, es)]"
| "layer_leaves (Branch p ks ts) = concat (map layer_leaves ts)"

fun tree_keys :: "tree \<Rightarrow> key set" where
  "tree_keys (Leaf p es) = fst ` set es"
| "tree_keys (Branch p ks ts) = set ks \<union> \<Union> (tree_keys ` set ts)"

text \<open>The leaf that the descent reaches.\<close>

function descend :: "key \<Rightarrow> tree \<Rightarrow> addr \<times> (key \<times> content) list" where
  "descend k (Leaf p es) = (p, es)"
| "descend k (Branch p ks ts) =
     (if rank_le k ks < length ts then descend k (ts ! rank_le k ks) else (p, []))"
  by pat_completeness auto
termination
  by (relation "measure (size \<circ> snd)")
    (simp_all add: less_Suc_eq_le size_list_estimation' [OF nth_mem])

section \<open>Well-formed trees\<close>

text \<open>\<open>Ks\<close> lists the keys of the children: left of a pivot they are below it.\<close>

definition pivots_ok :: "key list \<Rightarrow> key set list \<Rightarrow> bool" where
  "pivots_ok ks Ks \<longleftrightarrow> length Ks = Suc (length ks) \<and>
     (\<forall>i < length ks. (\<forall>k \<in> \<Union> (set (take (Suc i) Ks)). key_ord k < key_ord (ks ! i)) \<and>
        (\<forall>k \<in> \<Union> (set (drop (Suc i) Ks)). key_ord (ks ! i) \<le> key_ord k))"

text \<open>
  Entries with a next layer have length nine; the next layer is not empty and, because
  something is left of its keys, does not hold the empty key.
\<close>

fun tree_wf :: "tree \<Rightarrow> bool" and content_wf :: "key \<Rightarrow> content \<Rightarrow> bool" where
  "tree_wf (Leaf p es) \<longleftrightarrow> valid_ptr p \<and> length es \<le> key_slice_length \<and> key_sorted (map fst es) \<and>
     (\<forall>(k, c) \<in> set es. content_wf k c)"
| "tree_wf (Branch p ks ts) \<longleftrightarrow> valid_ptr p \<and> ks \<noteq> [] \<and> length ks \<le> key_slice_length \<and> key_sorted ks \<and>
     pivots_ok ks (map tree_keys ts) \<and> (\<forall>t \<in> set ts. layer_entries t \<noteq> [] \<and> tree_wf t)"
| "content_wf k (Val v) \<longleftrightarrow> unat (snd k) \<le> slice_size \<and> value_word v"
| "content_wf k (Sub t) \<longleftrightarrow> snd k = 9 \<and> layer_entries t \<noteq> [] \<and> 0 \<notin> snd ` tree_keys t \<and> tree_wf t"

lemma tree_wf_valid_ptr: "tree_wf t \<Longrightarrow> valid_ptr (addr_of t)"
  by (cases t) simp_all

subsection \<open>Layers\<close>

lemma tree_entries_layer:
  "tree_entries t = concat (map (\<lambda>(k, c). content_entries (key_bytes k) c) (layer_entries t))"
proof (induction t rule: tree_induct)
  case (Branch p ks ts)
  then show ?case by (induction ts) simp_all
qed simp

lemma layer_keys_subset: "fst ` set (layer_entries t) \<subseteq> tree_keys t"
proof (induction t rule: tree_induct)
  case (Branch p ks ts)
  have "fst x \<in> \<Union> (tree_keys ` set ts)" if "t \<in> set ts" "x \<in> set (layer_entries t)" for t x
    using Branch [OF that(1)] that by blast
  then show ?case by auto
qed simp

lemma layer_entries_leaves: "layer_entries t = concat (map snd (layer_leaves t))"
proof (induction t rule: tree_induct)
  case (Branch p ks ts)
  then show ?case by (induction ts) simp_all
qed simp

lemma pivots_ok_nth:
  assumes "pivots_ok ks Ks" and "i < length ks" and "j \<le> length ks" and "k \<in> Ks ! j"
  shows "j \<le> i \<Longrightarrow> key_ord k < key_ord (ks ! i)" and "i < j \<Longrightarrow> key_ord (ks ! i) \<le> key_ord k"
proof -
  have l: "length Ks = Suc (length ks)" using assms(1) by (simp add: pivots_ok_def)
  have "Ks ! j \<in> set (take (Suc i) Ks)" if "j \<le> i"
    using that l assms(2) by (auto simp: in_set_conv_nth intro!: exI [of _ j])
  then show "j \<le> i \<Longrightarrow> key_ord k < key_ord (ks ! i)" using assms by (auto simp: pivots_ok_def)
  have "Ks ! j \<in> set (drop (Suc i) Ks)" if "i < j"
    using that l assms(3) by (auto simp: in_set_conv_nth intro!: exI [of _ "j - Suc i"])
  then show "i < j \<Longrightarrow> key_ord (ks ! i) \<le> key_ord k" using assms by (auto simp: pivots_ok_def)
qed

text \<open>A key can only be in the child that the descent chooses.\<close>

lemma pivots_ok_rank:
  assumes "pivots_ok ks Ks" and "key_sorted ks" and "k \<in> Ks ! j" and "j \<le> length ks"
  shows "j = rank_le k ks"
proof (rule ccontr)
  assume "j \<noteq> rank_le k ks"
  then consider "j < rank_le k ks" | "rank_le k ks < j" by linarith
  then show False
  proof cases
    case 1
    then have "key_ord (ks ! j) \<le> key_ord k" by (rule rank_le_below)
    moreover have "key_ord k < key_ord (ks ! j)"
      using 1 rank_le_length [of k ks] by (intro pivots_ok_nth(1) [OF assms(1) _ assms(4,3)]) simp_all
    ultimately show False by simp
  next
    case 2
    then have "key_ord k < key_ord (ks ! (j - 1))" using assms by (intro rank_le_above) simp_all
    moreover have "key_ord (ks ! (j - 1)) \<le> key_ord k"
      using 2 assms(4) by (intro pivots_ok_nth(2) [OF assms(1) _ assms(4,3)]) simp_all
    ultimately show False by simp
  qed
qed

lemma sorted_wrt_concat:
  "sorted_wrt P (concat xss) \<longleftrightarrow> (\<forall>xs \<in> set xss. sorted_wrt P xs) \<and>
     sorted_wrt (\<lambda>xs ys. \<forall>x \<in> set xs. \<forall>y \<in> set ys. P x y) xss"
  by (induction xss) (auto simp: sorted_wrt_append)

lemma layer_sorted: "tree_wf t \<Longrightarrow> key_sorted (map fst (layer_entries t))"
proof (induction t rule: tree_induct)
  case (Branch p ks ts)
  let ?xss = "map (map fst \<circ> layer_entries) ts"
  have l: "length ts = Suc (length ks)" and p: "pivots_ok ks (map tree_keys ts)"
    using Branch.prems by (simp_all add: pivots_ok_def)
  have "key_ord x < key_ord y" if "i < j" "j < length ts" "x \<in> set (?xss ! i)" "y \<in> set (?xss ! j)" for i j x y
  proof -
    have "x \<in> map tree_keys ts ! i" "y \<in> map tree_keys ts ! j"
      using that layer_keys_subset [of "ts ! i"] layer_keys_subset [of "ts ! j"] by auto
    then have "key_ord x < key_ord (ks ! i)" "key_ord (ks ! i) \<le> key_ord y"
      using that l pivots_ok_nth(1) [OF p, of i i x] pivots_ok_nth(2) [OF p, of i j y] by simp_all
    then show ?thesis by (rule less_le_trans)
  qed
  then have "sorted_wrt (\<lambda>xs ys. \<forall>x \<in> set xs. \<forall>y \<in> set ys. key_ord x < key_ord y) ?xss"
    by (simp add: sorted_wrt_iff_nth_less)
  moreover have "\<forall>xs \<in> set ?xss. key_sorted xs" using Branch by simp
  ultimately have "key_sorted (concat ?xss)" by (auto simp: key_sorted_def sorted_wrt_concat)
  then show ?case by (simp add: map_concat o_def)
qed simp

lemma map_of_concat_one:
  assumes "r < length xss" and "\<And>j. j < length xss \<Longrightarrow> j \<noteq> r \<Longrightarrow> k \<notin> fst ` set (xss ! j)"
  shows "map_of (concat xss) k = map_of (xss ! r) k"
  using assms
proof (induction xss arbitrary: r)
  case (Cons xs xss)
  have none: "map_of (concat xss) k = None" if "r = 0"
    using Cons.prems(2) [of "Suc _"] that by (force simp: map_of_eq_None_iff in_set_conv_nth)
  show ?case
  proof (cases r)
    case 0
    then show ?thesis using none by (simp add: map_add_def split: option.splits)
  next
    case (Suc r')
    then have "map_of xs k = None" using Cons.prems(2) [of 0] by (force simp: map_of_eq_None_iff)
    moreover have "map_of (concat xss) k = map_of (xss ! r') k"
      using Cons.prems(1) Cons.prems(2) [of "Suc _"] Suc by (intro Cons.IH) force+
    ultimately show ?thesis using Suc by (simp add: map_add_def split: option.splits)
  qed
qed simp

lemma descend_lookup:
  "tree_wf t \<Longrightarrow> map_of (snd (descend k t)) k = map_of (layer_entries t) k"
proof (induction t rule: tree_induct)
  case (Branch p ks ts)
  let ?r = "rank_le k ks"
  have p: "pivots_ok ks (map tree_keys ts)" "key_sorted ks" and l: "length ts = Suc (length ks)"
    using Branch.prems by (simp_all add: pivots_ok_def)
  have r: "?r < length ts" using rank_le_length [of k ks] l by simp
  have "k \<notin> fst ` set (map layer_entries ts ! j)" if "j < length (map layer_entries ts)" "j \<noteq> ?r" for j
    using pivots_ok_rank [OF p, of k j] that layer_keys_subset [of "ts ! j"] l by auto
  then have "map_of (concat (map layer_entries ts)) k = map_of (map layer_entries ts ! ?r) k"
    using r by (intro map_of_concat_one) simp_all
  moreover have "tree_wf (ts ! ?r)" using Branch.prems r by simp
  ultimately show ?case using Branch.IH [of "ts ! ?r"] r by simp
qed simp

lemma descend_in_leaves: "tree_wf t \<Longrightarrow> descend k t \<in> set (layer_leaves t)"
proof (induction t rule: tree_induct)
  case (Branch p ks ts)
  then have "length ts = Suc (length ks)" by (simp add: pivots_ok_def)
  then have r: "rank_le k ks < length ts" using rank_le_length [of k ks] by simp
  then have "descend k (ts ! rank_le k ks) \<in> set (layer_leaves (ts ! rank_le k ks))"
    using Branch by simp
  then show ?case using r by (auto intro!: bexI [of _ "ts ! rank_le k ks"])
qed simp

subsection \<open>Keys as strings\<close>

lemma prepare_key_bytes:
  assumes "canonical k" and "unat (snd k) \<le> 8"
  shows "prepare_key_slice (key_bytes k) = k" and "length (key_bytes k) \<le> 8"
proof -
  have l: "length (key_bytes k) = unat (snd k)" using assms(2) by (simp add: key_bytes_def)
  then show "length (key_bytes k) \<le> 8" using assms(2) by simp
  have "slice_bytes (fst (prepare_key_slice (key_bytes k))) = slice_bytes (fst k)"
    unfolding slice_bytes_prepare using assms l
    by (metis append_take_drop_id canonical_def key_bytes_def min.absorb1 take_all)
  moreover have "unat (snd (prepare_key_slice (key_bytes k))) = unat (snd k)"
    using assms(2) l by (simp add: unat_length_prepare)
  ultimately show "prepare_key_slice (key_bytes k) = k"
    by (intro key_ord_inj) (simp add: key_ord_def)
qed

lemma key_bytes_prepare: "length s \<le> 8 \<Longrightarrow> key_bytes (prepare_key_slice s) = s"
  by (simp add: key_bytes_def slice_bytes_prepare unat_length_prepare)

lemma key_bytes_long: "snd k = 9 \<Longrightarrow> key_bytes k = slice_bytes (fst k)"
  by (simp add: key_bytes_def)

lemma prepare_key_long:
  assumes "snd k = 9" and "s \<noteq> []"
  shows "prepare_key_slice (slice_bytes (fst k) @ s) = k"
proof -
  have "1 \<le> length s" using assms(2) by (cases s) simp_all
  then have "min (length (slice_bytes (fst k) @ s)) 9 = 9" by simp
  then have "key_ord (prepare_key_slice (slice_bytes (fst k) @ s)) = key_ord k"
    unfolding key_ord_def slice_bytes_prepare unat_length_prepare using assms(1) by simp
  then show ?thesis by (rule key_ord_inj)
qed

lemma prepare_length: "snd (prepare_key_slice s) = 9 \<longleftrightarrow> 8 < length s"
proof -
  have "snd (prepare_key_slice s) = 9 \<longleftrightarrow> unat (snd (prepare_key_slice s)) = 9"
    by (simp add: word_unat_eq_iff)
  then show ?thesis by (auto simp: unat_length_prepare min_def)
qed

lemma layer_content_wf:
  "tree_wf t \<Longrightarrow> (k, c) \<in> set (layer_entries t) \<Longrightarrow> canonical k \<and> content_wf k c"
proof (induction t rule: tree_induct)
  case (Leaf p es)
  then show ?case by (auto simp: key_sorted_def)
qed auto

lemma content_keys_nonempty:
  "canonical k \<Longrightarrow> snd k \<noteq> 0 \<Longrightarrow> content_wf k c \<Longrightarrow> [] \<notin> fst ` set (content_entries (key_bytes k) c)"
  using length_slice_bytes [of "fst k"] by (cases c) (auto simp: key_bytes_def unat_eq_zero simp del: length_slice_bytes)

lemma layer_strings_nonempty:
  assumes "tree_wf t" and "0 \<notin> snd ` tree_keys t"
  shows "[] \<notin> fst ` set (tree_entries t)"
proof -
  have "[] \<notin> fst ` set (content_entries (key_bytes k) c)" if "(k, c) \<in> set (layer_entries t)" for k c
    using that assms(2) layer_keys_subset [of t] layer_content_wf [OF assms(1) that]
    by (intro content_keys_nonempty) force+
  then show ?thesis unfolding tree_entries_layer by (auto split: prod.splits)
qed

text \<open>The strings of an entry begin with its slice.\<close>

lemma content_strings:
  assumes "canonical k" and "content_wf k c" and "s \<in> fst ` set (content_entries (key_bytes k) c)"
  shows "prepare_key_slice s = k"
proof (cases c)
  case (Val v)
  then show ?thesis using assms prepare_key_bytes(1) [OF assms(1)] by simp
next
  case (Sub t)
  then obtain s' where "s' \<in> fst ` set (tree_entries t)" "s = slice_bytes (fst k) @ s'"
    using assms by (force simp: key_bytes_long)
  moreover have "[] \<notin> fst ` set (tree_entries t)" using assms(2) Sub by (intro layer_strings_nonempty) simp_all
  ultimately show ?thesis using assms(2) Sub by (metis content_wf.simps(2) prepare_key_long)
qed

lemma map_of_prefixed:
  "map_of (map (\<lambda>(s', v). (u @ s', v)) E) (u @ s) = map_of E s"
  by (induction E) auto

lemma content_lookup:
  assumes "canonical (prepare_key_slice s)" and "content_wf (prepare_key_slice s) c"
  shows "map_of (content_entries (key_bytes (prepare_key_slice s)) c) s =
    (case c of Val v \<Rightarrow> Some v | Sub t \<Rightarrow> map_of (tree_entries t) (drop 8 s))"
proof (cases c)
  case (Val v)
  then have "length s \<le> 8" using assms(2) by (auto simp: unat_length_prepare min_def split: if_splits)
  then show ?thesis using Val by (simp add: key_bytes_prepare)
next
  case (Sub t)
  then have n: "snd (prepare_key_slice s) = 9" using assms(2) by simp
  then have "key_bytes (prepare_key_slice s) = take 8 s"
    using prepare_length [of s] by (simp add: key_bytes_long slice_bytes_prepare)
  then show ?thesis using Sub map_of_prefixed [of "take 8 s" "tree_entries t" "drop 8 s"] by simp
qed

text \<open>Looking up a string is looking up its slice and going on in the next layer.\<close>

lemma map_of_tree_entries:
  assumes "tree_wf t"
  shows "map_of (tree_entries t) s = (case map_of (layer_entries t) (prepare_key_slice s) of
      None \<Rightarrow> None | Some (Val v) \<Rightarrow> Some v | Some (Sub t') \<Rightarrow> map_of (tree_entries t') (drop 8 s))"
proof -
  have "map_of (concat (map (\<lambda>(k, c). content_entries (key_bytes k) c) es)) s =
      (case map_of es (prepare_key_slice s) of None \<Rightarrow> None
       | Some c \<Rightarrow> (case c of Val v \<Rightarrow> Some v | Sub t' \<Rightarrow> map_of (tree_entries t') (drop 8 s)))"
    if "\<And>k c. (k, c) \<in> set es \<Longrightarrow> canonical k \<and> content_wf k c" "distinct (map fst es)" for es
    using that
  proof (induction es)
    case (Cons e es)
    obtain k c where e: "e = (k, c)" by (rule prod.exhaust)
    have kc: "canonical k" "content_wf k c" using Cons.prems(1) [of k c] e by simp_all
    have ih: "map_of (concat (map (\<lambda>(k, c). content_entries (key_bytes k) c) es)) s =
      (case map_of es (prepare_key_slice s) of None \<Rightarrow> None
       | Some c \<Rightarrow> (case c of Val v \<Rightarrow> Some v | Sub t' \<Rightarrow> map_of (tree_entries t') (drop 8 s)))"
      using Cons by auto
    show ?case
    proof (cases "k = prepare_key_slice s")
      case True
      then have "map_of es (prepare_key_slice s) = None" using Cons.prems(2) e by (auto simp: map_of_eq_None_iff)
      then show ?thesis using ih e content_lookup [of s c] kc True
        by (simp add: map_add_def split: option.splits)
    next
      case False
      then have "map_of (content_entries (key_bytes k) c) s = None"
        using content_strings [OF kc] by (auto simp: map_of_eq_None_iff)
      then show ?thesis using ih e False by (simp add: map_add_def split: option.splits)
    qed
  qed simp
  moreover have "distinct (map fst (layer_entries t))"
    by (rule key_sorted_distinct [OF layer_sorted [OF assms]])
  ultimately show ?thesis
    unfolding tree_entries_layer using layer_content_wf [OF assms]
    by (auto split: option.splits content.splits)
qed

end
