(* ===== verification/Garbage_Collection.thy ===== *)
theory Garbage_Collection
  imports Atomic
begin

text \<open>
  \<^verbatim>\<open>include/garbage_collection.h\<close>, \<^verbatim>\<open>include/thread_info.h\<close> and \<^verbatim>\<open>include/concurrent_queue.h\<close>:
  every session keeps a queue of the nodes and a queue of the values it unlinked, each
  tagged with the session's begin epoch, and one cached element per queue that was popped
  but was still too young to be released. The functions here return what they hand to
  \<^verbatim>\<open>delete\<close>; the heap theory releases it.
\<close>

type_synonym Epoch = "64 word"
type_synonym gc_node_elem = "Epoch \<times> addr"
type_synonym gc_value_elem = "Epoch \<times> addr \<times> 64 word \<times> 64 word"

text \<open>\<^verbatim>\<open>tbb::concurrent_queue\<close> is a FIFO queue; \<^verbatim>\<open>try_pop\<close> fails on an empty one.\<close>

definition queue_push :: "'a \<Rightarrow> 'a list \<Rightarrow> 'a list" where
  "queue_push x q = q @ [x]"

fun queue_try_pop :: "'a list \<Rightarrow> ('a \<times> 'a list) option" where
  "queue_try_pop [] = None"
| "queue_try_pop (x # q) = Some (x, q)"

record garbage_collection =
  cache_node_container :: gc_node_elem
  node_container :: "gc_node_elem list"
  cache_value_container :: gc_value_elem
  value_container :: "gc_value_elem list"

record thread_info =
  begin_epoch :: Epoch
  running :: bool
  gc_info :: garbage_collection

definition new_garbage_collection :: garbage_collection where
  "new_garbage_collection = \<lparr>cache_node_container = (0, nullptr), node_container = [],
     cache_value_container = (0, nullptr, 0, 0), value_container = []\<rparr>"

definition new_thread_info :: thread_info where
  "new_thread_info = \<lparr>begin_epoch = 0, running = False, gc_info = new_garbage_collection\<rparr>"

definition push_node_container :: "gc_node_elem \<Rightarrow> garbage_collection \<Rightarrow> garbage_collection" where
  "push_node_container e g = g\<lparr>node_container := queue_push e (node_container g)\<rparr>"

definition push_value_container :: "gc_value_elem \<Rightarrow> garbage_collection \<Rightarrow> garbage_collection" where
  "push_value_container e g = g\<lparr>value_container := queue_push e (value_container g)\<rparr>"

section \<open>Collecting\<close>

text \<open>
  The loop both collectors share: pop, and either put the element aside because its epoch
  is not below \<open>gc_epoch\<close>, which ends the loop, or release it. The result is the
  elements released, the element put aside, if any, and the rest of the queue.
\<close>

lemma queue_try_pop_length: "queue_try_pop q = Some (x, rest) \<Longrightarrow> length rest < length q"
  by (cases q) auto

function gc_loop :: "Epoch \<Rightarrow> (Epoch \<times> 'a) list \<Rightarrow>
    (Epoch \<times> 'a) list \<times> (Epoch \<times> 'a) option \<times> (Epoch \<times> 'a) list" where
  "gc_loop gc_epoch q =
     (case queue_try_pop q of
        None \<Rightarrow> ([], None, [])
      | Some (elem, rest) \<Rightarrow>
          (if fst elem \<ge> gc_epoch then ([], Some elem, rest)
           else case gc_loop gc_epoch rest of (freed, c, rest) \<Rightarrow> (elem # freed, c, rest)))"
  by pat_completeness auto
termination
  by (relation "measure (\<lambda>(e, q). length q)") (auto dest: queue_try_pop_length)

declare gc_loop.simps [simp del]

definition gc_node :: "Epoch \<Rightarrow> garbage_collection \<Rightarrow> addr list \<times> garbage_collection" where
  "gc_node gc_epoch g =
     (let (ce, c) = cache_node_container g
      in if c \<noteq> nullptr \<and> ce \<ge> gc_epoch then ([], g)
         else let freed = (if c \<noteq> nullptr then [c] else []);
                  g = (if c \<noteq> nullptr then g\<lparr>cache_node_container := (ce, nullptr)\<rparr> else g)
              in case gc_loop gc_epoch (node_container g) of
                   (fs, keep, rest) \<Rightarrow>
                     (freed @ map snd fs,
                      g\<lparr>cache_node_container := (case keep of None \<Rightarrow> cache_node_container g | Some e \<Rightarrow> e),
                        node_container := rest\<rparr>))"

definition gc_value :: "Epoch \<Rightarrow> garbage_collection \<Rightarrow>
    (addr \<times> 64 word \<times> 64 word) list \<times> garbage_collection" where
  "gc_value gc_epoch g =
     (let (ce, c, size, al) = cache_value_container g
      in if c \<noteq> nullptr \<and> ce \<ge> gc_epoch then ([], g)
         else let freed = (if c \<noteq> nullptr then [(c, size, al)] else []);
                  g = (if c \<noteq> nullptr then g\<lparr>cache_value_container := (ce, nullptr, size, al)\<rparr> else g)
              in case gc_loop gc_epoch (value_container g) of
                   (fs, keep, rest) \<Rightarrow>
                     (freed @ map snd fs,
                      g\<lparr>cache_value_container := (case keep of None \<Rightarrow> cache_value_container g | Some e \<Rightarrow> e),
                        value_container := rest\<rparr>))"

text \<open>
  \<^verbatim>\<open>gc\<close> runs the two collectors, and each of them loads the shared collection epoch for
  itself: \<open>ne\<close> is the value \<^verbatim>\<open>gc_node\<close> reads, \<open>ve\<close> the one \<^verbatim>\<open>gc_value\<close> reads.
\<close>

definition gc :: "Epoch \<Rightarrow> Epoch \<Rightarrow> garbage_collection \<Rightarrow>
    addr list \<times> (addr \<times> 64 word \<times> 64 word) list \<times> garbage_collection" where
  "gc ne ve g =
     (let (ns, g) = gc_node ne g; (vs, g) = gc_value ve g in (ns, vs, g))"

text \<open>
  \<^verbatim>\<open>fin\<close> releases everything: the cached node, then the node queue popped until it is empty,
  then the values the same way. The loop yields what it released and the queue it leaves.
\<close>

function fin_loop :: "(Epoch \<times> 'a) list \<Rightarrow> 'a list \<times> (Epoch \<times> 'a) list" where
  "fin_loop q =
     (case queue_try_pop q of
        None \<Rightarrow> ([], q)
      | Some (elem, q) \<Rightarrow> (case fin_loop q of (freed, q) \<Rightarrow> (snd elem # freed, q)))"
  by pat_completeness auto
termination
  by (relation "measure length") (auto dest: queue_try_pop_length)

declare fin_loop.simps [simp del]

definition gc_fin :: "garbage_collection \<Rightarrow>
    addr list \<times> (addr \<times> 64 word \<times> 64 word) list \<times> garbage_collection" where
  "gc_fin g =
     (let (ce, c) = cache_node_container g;
          cached_n = (if c \<noteq> nullptr then [c] else []);
          g = (if c \<noteq> nullptr then g\<lparr>cache_node_container := (ce, nullptr)\<rparr> else g);
          (ns, q) = fin_loop (node_container g);
          g = g\<lparr>node_container := q\<rparr>;
          (ve, v, size, al) = cache_value_container g;
          cached_v = (if v \<noteq> nullptr then [(v, size, al)] else []);
          g = (if v \<noteq> nullptr then g\<lparr>cache_value_container := (ve, nullptr, size, al)\<rparr> else g);
          (vs, q) = fin_loop (value_container g)
      in (cached_n @ ns, cached_v @ vs, g\<lparr>value_container := q\<rparr>))"

section \<open>What is in the containers\<close>

definition node_garbage :: "garbage_collection \<Rightarrow> gc_node_elem list" where
  "node_garbage g = (if snd (cache_node_container g) \<noteq> nullptr then [cache_node_container g] else [])
     @ node_container g"

definition value_garbage :: "garbage_collection \<Rightarrow> gc_value_elem list" where
  "value_garbage g = (if fst (snd (cache_value_container g)) \<noteq> nullptr then [cache_value_container g] else [])
     @ value_container g"

lemma gc_loop_Nil [simp]: "gc_loop e [] = ([], None, [])"
  by (simp add: gc_loop.simps)

lemma gc_loop_Cons [simp]:
  "gc_loop e (x # q) = (if fst x \<ge> e then ([], Some x, q)
     else case gc_loop e q of (freed, c, rest) \<Rightarrow> (x # freed, c, rest))"
  by (simp add: gc_loop.simps)

lemma fin_loop_all: "fin_loop q = (map snd q, [])"
  by (induction q) (simp_all add: fin_loop.simps)

lemma gc_loop_split:
  "gc_loop e q = (takeWhile (\<lambda>x. fst x < e) q,
     (case dropWhile (\<lambda>x. fst x < e) q of [] \<Rightarrow> None | x # _ \<Rightarrow> Some x),
     (case dropWhile (\<lambda>x. fst x < e) q of [] \<Rightarrow> [] | _ # rest \<Rightarrow> rest))"
  by (induction q) auto

lemma node_garbage_push [simp]: "node_garbage (push_node_container e g) = node_garbage g @ [e]"
  by (simp add: node_garbage_def push_node_container_def queue_push_def)

lemma value_garbage_push [simp]: "value_garbage (push_value_container e g) = value_garbage g @ [e]"
  by (simp add: value_garbage_def push_value_container_def queue_push_def)

section \<open>Properties\<close>

lemma gc_node_takeWhile:
  assumes "\<forall>x \<in> set (node_container g). snd x \<noteq> nullptr"
  shows "fst (gc_node e g) = map snd (takeWhile (\<lambda>x. fst x < e) (node_garbage g)) \<and>
    node_garbage (snd (gc_node e g)) = dropWhile (\<lambda>x. fst x < e) (node_garbage g)"
proof -
  obtain ce c where c: "cache_node_container g = (ce, c)" by (cases "cache_node_container g")
  have d: "snd y \<noteq> nullptr" if "dropWhile (\<lambda>x. fst x < e) (node_container g) = y # ys" for y ys
    using assms that set_dropWhileD [of y "\<lambda>x. fst x < e" "node_container g"] by simp
  let ?q = "dropWhile (\<lambda>x. fst x < e) (node_container g)"
  consider "c \<noteq> 0" "\<not> ce < e" | "c \<noteq> 0" "ce < e" | "c = 0" by blast
  then show ?thesis
  proof cases
    case 1
    then show ?thesis by (simp add: gc_node_def c node_garbage_def not_less)
  next
    case 2
    then show ?thesis using d [of "hd ?q" "tl ?q"]
      by (cases ?q) (simp_all del: dropWhile_eq_Nil_conv add: gc_node_def gc_loop_split c node_garbage_def Let_def not_le)
  next
    case 3
    then show ?thesis using d [of "hd ?q" "tl ?q"]
      by (cases ?q) (simp_all del: dropWhile_eq_Nil_conv add: gc_node_def gc_loop_split c node_garbage_def Let_def)
  qed
qed

lemma gc_value_takeWhile:
  assumes "\<forall>x \<in> set (value_container g). fst (snd x) \<noteq> nullptr"
  shows "fst (gc_value e g) = map snd (takeWhile (\<lambda>x. fst x < e) (value_garbage g)) \<and>
    value_garbage (snd (gc_value e g)) = dropWhile (\<lambda>x. fst x < e) (value_garbage g)"
proof -
  obtain ce c s a where c: "cache_value_container g = (ce, c, s, a)" by (cases "cache_value_container g")
  have d: "fst (snd y) \<noteq> nullptr" if "dropWhile (\<lambda>x. fst x < e) (value_container g) = y # ys" for y ys
    using assms that set_dropWhileD [of y "\<lambda>x. fst x < e" "value_container g"] by simp
  let ?q = "dropWhile (\<lambda>x. fst x < e) (value_container g)"
  consider "c \<noteq> 0" "\<not> ce < e" | "c \<noteq> 0" "ce < e" | "c = 0" by blast
  then show ?thesis
  proof cases
    case 1
    then show ?thesis by (simp add: gc_value_def c value_garbage_def not_less)
  next
    case 2
    then show ?thesis using d [of "hd ?q" "tl ?q"]
      by (cases ?q) (simp_all del: dropWhile_eq_Nil_conv add: gc_value_def gc_loop_split c value_garbage_def Let_def not_le)
  next
    case 3
    then show ?thesis using d [of "hd ?q" "tl ?q"]
      by (cases ?q) (simp_all del: dropWhile_eq_Nil_conv add: gc_value_def gc_loop_split c value_garbage_def Let_def)
  qed
qed

lemma gc_split:
  assumes "\<forall>x \<in> set (node_container g). snd x \<noteq> nullptr"
    and "\<forall>x \<in> set (value_container g). fst (snd x) \<noteq> nullptr"
    and "gc ne ve g = (ns, vs, g')"
  shows "ns = map snd (takeWhile (\<lambda>x. fst x < ne) (node_garbage g)) \<and>
    node_garbage g' = dropWhile (\<lambda>x. fst x < ne) (node_garbage g) \<and>
    vs = map snd (takeWhile (\<lambda>x. fst x < ve) (value_garbage g)) \<and>
    value_garbage g' = dropWhile (\<lambda>x. fst x < ve) (value_garbage g)"
proof -
  obtain g1 where n: "gc_node ne g = (ns, g1)" and v: "gc_value ve g1 = (vs, g')"
    using assms(3) by (auto simp: gc_def split: prod.splits)
  have k: "value_container g1 = value_container g" "cache_value_container g1 = cache_value_container g"
    using n by (auto simp: gc_node_def Let_def split: prod.splits if_splits)
  have m: "node_garbage g' = node_garbage g1"
    using v by (auto simp: gc_value_def Let_def node_garbage_def split: prod.splits if_splits)
  show ?thesis
    using gc_node_takeWhile [OF assms(1), of ne] gc_value_takeWhile [of g1 ve]
      assms(2) k m n v by (simp add: value_garbage_def)
qed

text \<open>
  C26. One pass of the collector over a session releases exactly the longest prefix of its
  garbage, cached element first, whose epochs are below the collection epoch that was read
  for that kind, nodes and values alike; what it does not release stays, in order, for the
  next pass. Nothing is lost and nothing is released twice.
\<close>

theorem gc_releases_old_prefix:
  assumes "\<forall>x \<in> set (node_container g). snd x \<noteq> nullptr"
    and "\<forall>x \<in> set (value_container g). fst (snd x) \<noteq> nullptr"
    and "gc ne ve g = (ns, vs, g')"
  shows "ns = map snd (takeWhile (\<lambda>x. fst x < ne) (node_garbage g)) \<and>
    node_garbage g' = dropWhile (\<lambda>x. fst x < ne) (node_garbage g) \<and>
    vs = map snd (takeWhile (\<lambda>x. fst x < ve) (value_garbage g)) \<and>
    value_garbage g' = dropWhile (\<lambda>x. fst x < ve) (value_garbage g)"
  by (rule gc_split [OF assms])

theorem gc_releases_old_prefix_witness:
  "let g = push_value_container (5, 96, 16, 8) (push_node_container (9, 80)
        (push_node_container (3, 64) new_garbage_collection))
   in [64] = map snd (takeWhile (\<lambda>x. fst x < 5) (node_garbage g)) \<and>
    node_garbage (snd (snd (gc 5 6 g))) = dropWhile (\<lambda>x. fst x < 5) (node_garbage g) \<and>
    [(96, 16, 8)] = map snd (takeWhile (\<lambda>x. fst x < 6) (value_garbage g)) \<and>
    value_garbage (snd (snd (gc 5 6 g))) = dropWhile (\<lambda>x. fst x < 6) (value_garbage g)"
proof -
  let ?g = "push_value_container (5, 96, 16, 8) (push_node_container (9, 80)
        (push_node_container (3, 64) new_garbage_collection))"
  have "\<forall>x \<in> set (node_container ?g). snd x \<noteq> nullptr"
    "\<forall>x \<in> set (value_container ?g). fst (snd x) \<noteq> nullptr"
    "gc 5 6 ?g = ([64], [(96, 16, 8)], snd (snd (gc 5 6 ?g)))"
    by code_simp+
  from gc_releases_old_prefix [OF this] show ?thesis by (simp only: Let_def)
qed

section \<open>The life of a session's garbage\<close>

text \<open>
  What happens to the containers of a session between its construction and \<^verbatim>\<open>fin\<close>: pushes
  by its operations and collector passes, in any order and with any epochs.
\<close>

datatype gc_op = Push_Node gc_node_elem | Push_Value gc_value_elem | Collect Epoch Epoch

fun gc_run :: "gc_op list \<Rightarrow> garbage_collection \<Rightarrow>
    addr list \<times> (addr \<times> 64 word \<times> 64 word) list \<times> garbage_collection" where
  "gc_run [] g = ([], [], g)"
| "gc_run (Push_Node e # ops) g = gc_run ops (push_node_container e g)"
| "gc_run (Push_Value e # ops) g = gc_run ops (push_value_container e g)"
| "gc_run (Collect ne ve # ops) g =
     (case gc ne ve g of (ns, vs, g) \<Rightarrow>
        (case gc_run ops g of (ns', vs', g) \<Rightarrow> (ns @ ns', vs @ vs', g)))"

fun pushed_nodes :: "gc_op list \<Rightarrow> addr list" where
  "pushed_nodes (Push_Node e # ops) = snd e # pushed_nodes ops"
| "pushed_nodes (_ # ops) = pushed_nodes ops"
| "pushed_nodes [] = []"

fun pushed_values :: "gc_op list \<Rightarrow> (addr \<times> 64 word \<times> 64 word) list" where
  "pushed_values (Push_Value e # ops) = snd e # pushed_values ops"
| "pushed_values (_ # ops) = pushed_values ops"
| "pushed_values [] = []"

definition gc_wf :: "garbage_collection \<Rightarrow> bool" where
  "gc_wf g \<longleftrightarrow> (\<forall>x \<in> set (node_container g). snd x \<noteq> nullptr) \<and>
     (\<forall>x \<in> set (value_container g). fst (snd x) \<noteq> nullptr)"

lemma gc_loop_subset: "gc_loop e q = (fs, keep, rest) \<Longrightarrow> set rest \<subseteq> set q"
  by (induction q arbitrary: fs keep rest) (auto split: if_splits prod.splits)

lemma gc_wf_gc: "gc_wf g \<Longrightarrow> gc ne ve g = (ns, vs, g') \<Longrightarrow> gc_wf g'"
  by (fastforce simp: gc_wf_def gc_def gc_node_def gc_value_def Let_def split: prod.splits if_splits
      dest: gc_loop_subset)

lemma gc_run_conserves:
  assumes "nullptr \<notin> set (pushed_nodes ops)" and "nullptr \<notin> fst ` set (pushed_values ops)"
    and "gc_wf g" and "gc_run ops g = (ns, vs, g')"
  shows "gc_wf g' \<and> ns @ map snd (node_garbage g') = map snd (node_garbage g) @ pushed_nodes ops \<and>
    vs @ map snd (value_garbage g') = map snd (value_garbage g) @ pushed_values ops"
  using assms
proof (induction ops arbitrary: g ns vs g')
  case (Cons x ops)
  show ?case
  proof (cases x)
    case (Push_Node e)
    with Cons.prems have "gc_wf (push_node_container e g)"
      by (auto simp: gc_wf_def push_node_container_def queue_push_def)
    with Cons.IH [of "push_node_container e g" ns vs] Cons.prems Push_Node show ?thesis
      by (simp add: push_node_container_def value_garbage_def node_garbage_def queue_push_def)
  next
    case (Push_Value e)
    with Cons.prems have "gc_wf (push_value_container e g)"
      by (auto simp: gc_wf_def push_value_container_def queue_push_def)
    with Cons.IH [of "push_value_container e g" ns vs] Cons.prems Push_Value show ?thesis
      by (simp add: push_value_container_def value_garbage_def node_garbage_def queue_push_def)
  next
    case (Collect ne ve)
    obtain n1 v1 g1 where a: "gc ne ve g = (n1, v1, g1)" by (rule prod_cases3)
    obtain n2 v2 g2 where b: "gc_run ops g1 = (n2, v2, g2)" by (rule prod_cases3)
    have s: "ns = n1 @ n2" "vs = v1 @ v2" "g' = g2" using Cons.prems(4) by (simp_all add: Collect a b)
    have w: "gc_wf g1" by (rule gc_wf_gc [OF Cons.prems(3) a])
    have l: "map snd (takeWhile P xs) @ map snd (dropWhile P xs) = map snd xs" for P and xs :: "('z \<times> 'y) list"
      by (metis map_append takeWhile_dropWhile_id)
    have "n1 @ map snd (node_garbage g1) = map snd (node_garbage g)"
      "v1 @ map snd (value_garbage g1) = map snd (value_garbage g)"
      using gc_split [OF _ _ a] Cons.prems(3) by (simp_all add: gc_wf_def l)
    then show ?thesis
      using Cons.IH [OF _ _ w b] Cons.prems(1,2) by (simp add: Collect s)
  qed
qed simp

text \<open>
  C27. Over the whole life of a session's containers, from their construction through any
  pushes of non-null pointers and any collector passes to \<^verbatim>\<open>fin\<close>, the nodes and the value
  pages released are exactly those that were pushed, in the order they were pushed, each
  once; after \<^verbatim>\<open>fin\<close> both queues are empty and no element is cached.
\<close>

theorem gc_fin_releases_all:
  assumes "nullptr \<notin> set (pushed_nodes ops)" and "nullptr \<notin> fst ` set (pushed_values ops)"
    and "gc_run ops new_garbage_collection = (ns, vs, g)" and "gc_fin g = (ns', vs', g')"
  shows "ns @ ns' = pushed_nodes ops \<and> vs @ vs' = pushed_values ops \<and>
    node_container g' = [] \<and> value_container g' = [] \<and>
    node_garbage g' = [] \<and> value_garbage g' = []"
proof -
  have "gc_wf new_garbage_collection" "node_garbage new_garbage_collection = []"
    "value_garbage new_garbage_collection = []"
    by (simp_all add: gc_wf_def new_garbage_collection_def node_garbage_def value_garbage_def)
  then have "ns @ map snd (node_garbage g) = pushed_nodes ops"
    "vs @ map snd (value_garbage g) = pushed_values ops"
    using gc_run_conserves [OF assms(1,2) _ assms(3)] by simp_all
  moreover have "ns' = map snd (node_garbage g)" "vs' = map snd (value_garbage g)"
    "node_container g' = []" "value_container g' = []" "node_garbage g' = []" "value_garbage g' = []"
    using assms(4) by (auto simp: gc_fin_def fin_loop_all node_garbage_def value_garbage_def Let_def
        split: prod.splits if_splits)
  ultimately show ?thesis by simp
qed

theorem gc_fin_releases_all_witness:
  "let r = gc_run [Push_Node (3, 64), Push_Node (9, 80), Push_Value (5, 96, 16, 8), Collect 5 5,
       Push_Node (9, 112)] new_garbage_collection;
     f = gc_fin (snd (snd r))
   in fst r @ fst f = [64, 80, 112] \<and> fst (snd r) @ fst (snd f) = [(96, 16, 8)] \<and>
     node_garbage (snd (snd f)) = []"
proof -
  let ?ops = "[Push_Node (3, 64), Push_Node (9, 80), Push_Value (5, 96, 16, 8), Collect 5 5,
       Push_Node (9, 112)]"
  let ?r = "gc_run ?ops new_garbage_collection"
  let ?f = "gc_fin (snd (snd ?r))"
  have h: "nullptr \<notin> set (pushed_nodes ?ops)" "nullptr \<notin> fst ` set (pushed_values ?ops)"
    "?r = (fst ?r, fst (snd ?r), snd (snd ?r))" "?f = (fst ?f, fst (snd ?f), snd (snd ?f))"
    by simp_all
  have "pushed_nodes ?ops = [64, 80, 112]" "pushed_values ?ops = [(96, 16, 8)]" by simp_all
  with gc_fin_releases_all [OF h] show ?thesis by (simp only: Let_def simp_thms)
qed

end
