(* ===== verification/Border_Node.thy ===== *)
theory Border_Node
  imports Key_Search Link_Or_Value Garbage_Collection
begin

text \<open>
  \<^verbatim>\<open>include/border_node.h\<close>, the operations on one border node: its record, the searches by
  key slice, insertion into and deletion from a slot. What reaches other nodes
  (\<^verbatim>\<open>insert_lv_at\<close> for long keys, \<^verbatim>\<open>delete_of\<close>, \<^verbatim>\<open>destroy\<close>) is in the theories of the heap
  and of the tree operations.
\<close>

record border_node =
  border_base :: base_node
  perm_body :: permutation
  lv_arr :: "link_or_value list"
  prev_node :: addr
  next_node :: addr

section \<open>Members\<close>

definition get_lv_at :: "border_node \<Rightarrow> nat \<Rightarrow> link_or_value option" where
  "get_lv_at b i = at (lv_arr b) i"

definition set_lv :: "nat \<Rightarrow> link_or_value \<Rightarrow> border_node \<Rightarrow> border_node option" where
  "set_lv i nlv b = map_option (\<lambda>xs. b\<lparr>lv_arr := xs\<rparr>) (put_at (lv_arr b) i nlv)"

definition get_permutation_cnk :: "border_node \<Rightarrow> nat" where
  "get_permutation_cnk b = unat (get_cnk (perm_body b))"

definition get_permutation_lowest_key_pos :: "border_node \<Rightarrow> nat" where
  "get_permutation_lowest_key_pos b = get_lowest_key_pos (perm_body b)"

definition set_permutation_cnk :: "8 word \<Rightarrow> border_node \<Rightarrow> border_node" where
  "set_permutation_cnk n b = b\<lparr>perm_body := set_cnk (perm_body b) n\<rparr>"

definition permutation_rearrange :: "border_node \<Rightarrow> border_node" where
  "permutation_rearrange b =
     b\<lparr>perm_body := rearrange (perm_body b) (key_slice_arr (border_base b)) (key_length_arr (border_base b))\<rparr>"

definition set_next :: "addr \<Rightarrow> border_node \<Rightarrow> border_node" where
  "set_next p b = b\<lparr>next_node := p\<rparr>"

definition set_prev :: "addr \<Rightarrow> border_node \<Rightarrow> border_node" where
  "set_prev p b = b\<lparr>prev_node := p\<rparr>"

definition set_border_base :: "(base_node \<Rightarrow> base_node) \<Rightarrow> border_node \<Rightarrow> border_node" where
  "set_border_base f b = b\<lparr>border_base := f (border_base b)\<rparr>"

definition set_border_base_opt :: "(base_node \<Rightarrow> base_node option) \<Rightarrow> border_node \<Rightarrow> border_node option" where
  "set_border_base_opt f b = map_option (\<lambda>n. b\<lparr>border_base := n\<rparr>) (f (border_base b))"

definition new_border_node :: border_node where
  "new_border_node = \<lparr>border_base = new_base_node, perm_body = 0,
     lv_arr = replicate key_slice_length init_lv, prev_node = nullptr, next_node = nullptr\<rparr>"

definition init_border_member_range :: "nat \<Rightarrow> border_node \<Rightarrow> border_node option" where
  "init_border_member_range start b = foldM (\<lambda>i. set_lv i init_lv) [start..<length (lv_arr b)] b"

text \<open>\<^verbatim>\<open>init_border()\<close> and \<^verbatim>\<open>init_border(pos)\<close>.\<close>

definition init_border :: "border_node \<Rightarrow> border_node option" where
  "init_border b = do {
     let b = set_border_base init_base b;
     b \<leftarrow> init_border_member_range 0 b;
     let b = set_border_base (set_version_root True) b;
     let b = set_border_base (set_version_border True) b;
     let b = b\<lparr>perm_body := perm_init\<rparr>;
     let b = set_next nullptr b;
     Some (set_prev nullptr b)
   }"

definition init_border_at :: "nat \<Rightarrow> border_node \<Rightarrow> border_node option" where
  "init_border_at pos b = set_border_base_opt (init_base_at pos) b \<bind> set_lv pos init_lv"

definition shift_left_border_member :: "nat \<Rightarrow> nat \<Rightarrow> border_node \<Rightarrow> border_node option" where
  "shift_left_border_member start_pos shift_size b =
     (if shift_size \<le> start_pos \<and> start_pos < length (lv_arr b)
      then Some (b\<lparr>lv_arr := move_left start_pos shift_size (lv_arr b)\<rparr>) else None)"

section \<open>Searches\<close>

text \<open>
  The loop of \<^verbatim>\<open>get_lv_of\<close> over the ranks that are left. \<open>Some None\<close> is a finished
  search that found nothing.
\<close>

fun lv_search :: "border_node \<Rightarrow> permutation \<Rightarrow> key \<Rightarrow> nat list \<Rightarrow> nat option option" where
  "lv_search b perm k [] = Some None"
| "lv_search b perm k (i # is) = do {
     let index = get_index_of_rank perm i;
     ts \<leftarrow> get_key_slice_at (border_base b) index;
     tl \<leftarrow> get_key_length_at (border_base b) index;
     if slice_match k (ts, tl) then map_option (\<lambda>_. Some index) (get_lv_at b index)
     else if slice_before k (ts, tl) then Some None
     else lv_search b perm k is
   }"

text \<open>
  \<^verbatim>\<open>get_lv_of\<close>: the stable version and the position of the slot, repeated until the version
  did not change in between.
\<close>

partial_function (option) get_lv_of_loop ::
  "border_node \<Rightarrow> key \<Rightarrow> node_version64_body \<Rightarrow> (node_version64_body \<times> nat option) option" where
  "get_lv_of_loop b k v = do {
     let perm = perm_body b;
     let cnk = unat (get_cnk perm);
     ret_lv \<leftarrow> lv_search b perm k [0..<cnk];
     v_check \<leftarrow> get_stable_version (version (border_base b));
     if body_eq v v_check then Some (v, ret_lv) else get_lv_of_loop b k v_check
   }"

declare get_lv_of_loop.simps [code]

definition get_lv_of :: "border_node \<Rightarrow> key \<Rightarrow> (node_version64_body \<times> nat option) option" where
  "get_lv_of b k = get_stable_version (version (border_base b)) \<bind> get_lv_of_loop b k"

text \<open>\<^verbatim>\<open>get_lv_of_without_lock\<close> does not stop at a match.\<close>

fun lv_search_all :: "border_node \<Rightarrow> permutation \<Rightarrow> key \<Rightarrow> nat list \<Rightarrow> nat option \<Rightarrow> nat option option" where
  "lv_search_all b perm k [] ret_lv = Some ret_lv"
| "lv_search_all b perm k (i # is) ret_lv = do {
     let index = get_index_of_rank perm i;
     ts \<leftarrow> get_key_slice_at (border_base b) index;
     tl \<leftarrow> get_key_length_at (border_base b) index;
     if slice_match k (ts, tl)
     then get_lv_at b index \<bind> (\<lambda>_. lv_search_all b perm k is (Some index))
     else if slice_before k (ts, tl) then Some ret_lv
     else lv_search_all b perm k is ret_lv
   }"

definition get_lv_of_without_lock :: "border_node \<Rightarrow> key \<Rightarrow> nat option option" where
  "get_lv_of_without_lock b k =
     (let perm = perm_body b in lv_search_all b perm k [0..<unat (get_cnk perm)] None)"

text \<open>\<^verbatim>\<open>compute_rank_if_insert\<close>; a key that is present is logged as an error and has rank 0.\<close>

fun rank_search :: "border_node \<Rightarrow> permutation \<Rightarrow> key \<Rightarrow> nat list \<Rightarrow> nat option" where
  "rank_search b perm k [] = Some (unat (get_cnk perm))"
| "rank_search b perm k (i # is) = do {
     let index = get_index_of_rank perm i;
     ts \<leftarrow> get_key_slice_at (border_base b) index;
     tl \<leftarrow> get_key_length_at (border_base b) index;
     if slice_match k (ts, tl) then Some 0
     else if slice_before k (ts, tl) then Some i
     else rank_search b perm k is
   }"

definition compute_rank_if_insert :: "border_node \<Rightarrow> key \<Rightarrow> nat option" where
  "compute_rank_if_insert b k =
     (let perm = perm_body b in rank_search b perm k [0..<unat (get_cnk perm)])"

text \<open>\<^verbatim>\<open>get_lv(next_layer)\<close> looks at all fifteen slots, used or not.\<close>

fun find_next_layer :: "link_or_value list \<Rightarrow> addr \<Rightarrow> nat \<Rightarrow> nat option" where
  "find_next_layer [] next_layer i = None"
| "find_next_layer (x # xs) next_layer i =
     (if get_next_layer x = next_layer then Some i else find_next_layer xs next_layer (Suc i))"

definition get_lv :: "border_node \<Rightarrow> addr \<Rightarrow> nat option" where
  "get_lv b next_layer = find_next_layer (lv_arr b) next_layer 0"

definition get_all_next_layer :: "border_node \<Rightarrow> addr list option" where
  "get_all_next_layer b =
     foldM (\<lambda>i acc. map_option (\<lambda>x. let nl = get_next_layer x in if nl \<noteq> nullptr then acc @ [nl] else acc)
         (get_lv_at b (get_index_of_rank (perm_body b) i)))
       [0..<get_permutation_cnk b] []"

section \<open>Insertion of a value and deletion\<close>

text \<open>\<^verbatim>\<open>set_lv_value\<close> and \<^verbatim>\<open>set_lv_next_layer\<close>.\<close>

definition set_lv_value :: "nat \<Rightarrow> 64 word \<Rightarrow> bool \<Rightarrow> border_node \<Rightarrow> value_pages \<Rightarrow>
    (border_node \<times> addr option \<times> value_pages) option" where
  "set_lv_value i new_value created_given b vh = do {
     x \<leftarrow> get_lv_at b i;
     (x, created, _, vh) \<leftarrow> set_value vh x new_value created_given False;
     b \<leftarrow> set_lv i x b;
     Some (b, created, vh)
   }"

definition set_lv_next_layer :: "nat \<Rightarrow> addr \<Rightarrow> border_node \<Rightarrow> border_node option" where
  "set_lv_next_layer i next_layer b = set_lv i (set_next_layer next_layer) b"

text \<open>The last two statements of \<^verbatim>\<open>insert_lv_at\<close>.\<close>

definition link_slot :: "nat \<Rightarrow> nat \<Rightarrow> border_node \<Rightarrow> border_node" where
  "link_slot rank index b = b\<lparr>perm_body := perm_insert (inc_key_num (perm_body b)) rank index\<rparr>"

text \<open>
  \<^verbatim>\<open>delete_at\<close>: the session's record is the one behind the token. A value page is handed
  to the session's garbage and the slot is cleared; anything else stays in the slot, which
  the permutation no longer names.
\<close>

definition delete_at :: "thread_info \<Rightarrow> nat \<Rightarrow> nat \<Rightarrow> bool \<Rightarrow> border_node \<Rightarrow> value_pages \<Rightarrow>
    (thread_info \<times> border_node \<times> value_pages) option" where
  "delete_at ti rank pos target_is_value b vh = do {
     (ti, b, vh) \<leftarrow> (if target_is_value then do {
          x \<leftarrow> get_lv_at b pos;
          let vp = get_value x;
          if is_value_ptr vp then do {
            vh \<leftarrow> remove_delete_flag vh vp;
            (v_ptr, v_len, v_align) \<leftarrow> get_gc_info vh vp;
            let ti = ti\<lparr>gc_info := push_value_container (begin_epoch ti, v_ptr, v_len, v_align) (gc_info ti)\<rparr>;
            b \<leftarrow> set_lv pos init_lv b;
            Some (ti, b, vh)
          } else Some (ti, b, vh)
        } else Some (ti, b, vh));
     Some (ti, b\<lparr>perm_body := dec_key_num (delete_rank (perm_body b) rank)\<rparr>, vh)
   }"

section \<open>The node as a sorted list of entries\<close>

definition border_keys :: "border_node \<Rightarrow> key list" where
  "border_keys b = map (\<lambda>i. base_keys (border_base b) ! i) (perm_list (perm_body b))"

definition border_entries :: "border_node \<Rightarrow> (key \<times> link_or_value) list" where
  "border_entries b =
     map (\<lambda>i. (base_keys (border_base b) ! i, lv_arr b ! i)) (perm_list (perm_body b))"

definition border_wf :: "border_node \<Rightarrow> bool" where
  "border_wf b \<longleftrightarrow> base_wf (border_base b) \<and> length (lv_arr b) = key_slice_length \<and>
     perm_wf (perm_body b) \<and> key_sorted (border_keys b)"

lemma map_fst_entries: "map fst (border_entries b) = border_keys b"
  by (simp add: border_entries_def border_keys_def)

lemma length_border_keys: "length (border_keys b) = get_permutation_cnk b"
  by (simp add: border_keys_def get_permutation_cnk_def perm.count_order)

lemma length_border_entries: "length (border_entries b) = get_permutation_cnk b"
  by (simp add: border_entries_def get_permutation_cnk_def perm.count_order)

lemma border_slot:
  assumes "border_wf b" and "r < get_permutation_cnk b"
  shows "get_index_of_rank (perm_body b) r = perm_list (perm_body b) ! r"
    and "perm_list (perm_body b) ! r < 15"
    and "base_keys (border_base b) ! (perm_list (perm_body b) ! r) = border_keys b ! r"
    and "lv_arr b ! (perm_list (perm_body b) ! r) = snd (border_entries b ! r)"
  using assms by (simp_all add: border_wf_def border_keys_def border_entries_def perm.index_order
      get_permutation_cnk_def perm.count_order perm.invar_order)

lemma border_slot_key:
  assumes "border_wf b" and "r < get_permutation_cnk b"
  shows "get_key_slice_at (border_base b) (get_index_of_rank (perm_body b) r) = Some (fst (border_keys b ! r))"
    and "get_key_length_at (border_base b) (get_index_of_rank (perm_body b) r) = Some (snd (border_keys b ! r))"
    and "get_lv_at b (get_index_of_rank (perm_body b) r) = Some (snd (border_entries b ! r))"
  using border_slot [OF assms] assms(1)
  by (simp_all add: get_key_at border_wf_def get_lv_at_def)

lemma border_cnk_le: "border_wf b \<Longrightarrow> get_permutation_cnk b \<le> 15"
  using perm.count_le_capacity by (simp add: border_wf_def get_permutation_cnk_def)

lemma border_key_canonical:
  "border_wf b \<Longrightarrow> r < get_permutation_cnk b \<Longrightarrow> canonical (border_keys b ! r)"
  by (simp add: border_wf_def key_sorted_def length_border_keys)

lemma border_key_below:
  assumes "border_wf b" and "r < s" and "s < get_permutation_cnk b"
  shows "key_ord (border_keys b ! r) < key_ord (border_keys b ! s)"
  using assms(1) unfolding border_wf_def key_sorted_def
  by (metis (no_types, lifting) assms(2,3) length_border_keys sorted_wrt_nth_less)

section \<open>What the searches find\<close>

lemma lv_search_step:
  assumes "border_wf b" and "canonical k" and "j < get_permutation_cnk b"
  shows "lv_search b (perm_body b) k (j # is) =
    (if k = border_keys b ! j then Some (Some (perm_list (perm_body b) ! j))
     else if key_ord k < key_ord (border_keys b ! j) then Some None
     else lv_search b (perm_body b) k is)"
  using border_slot_key [OF assms(1,3)] border_slot(1) [OF assms(1,3)] assms(2)
    border_key_canonical [OF assms(1,3)]
  by (simp add: slice_match_iff slice_before_iff)

lemma lv_search_from:
  assumes "border_wf b" and "canonical k" and "j \<le> get_permutation_cnk b"
  shows "(\<exists>r < get_permutation_cnk b. border_keys b ! r = k \<and>
      lv_search b (perm_body b) k [j..<get_permutation_cnk b] = Some (Some (perm_list (perm_body b) ! r))) \<or>
    ((\<forall>r < get_permutation_cnk b. j \<le> r \<longrightarrow> border_keys b ! r \<noteq> k) \<and>
      lv_search b (perm_body b) k [j..<get_permutation_cnk b] = Some None)"
  using assms(3)
proof (induction "get_permutation_cnk b - j" arbitrary: j)
  case 0
  then show ?case by simp
next
  case (Suc n)
  then have j: "j < get_permutation_cnk b" by simp
  have u: "[j..<get_permutation_cnk b] = j # [Suc j..<get_permutation_cnk b]"
    using j by (rule upt_conv_Cons)
  have ih: "(\<exists>r < get_permutation_cnk b. border_keys b ! r = k \<and>
      lv_search b (perm_body b) k [Suc j..<get_permutation_cnk b] = Some (Some (perm_list (perm_body b) ! r))) \<or>
    ((\<forall>r < get_permutation_cnk b. Suc j \<le> r \<longrightarrow> border_keys b ! r \<noteq> k) \<and>
      lv_search b (perm_body b) k [Suc j..<get_permutation_cnk b] = Some None)"
    using Suc by simp
  note st = lv_search_step [OF assms(1,2) j, of "[Suc j..<get_permutation_cnk b]"]
  consider "k = border_keys b ! j" | "k \<noteq> border_keys b ! j" "key_ord k < key_ord (border_keys b ! j)"
    | "k \<noteq> border_keys b ! j" "\<not> key_ord k < key_ord (border_keys b ! j)" by blast
  then show ?case
  proof cases
    case 1
    then show ?thesis using j st unfolding u by auto
  next
    case 2
    have "border_keys b ! r \<noteq> k" if "r < get_permutation_cnk b" "j \<le> r" for r
    proof (cases "r = j")
      case False
      then have "key_ord (border_keys b ! j) < key_ord (border_keys b ! r)"
        using that by (intro border_key_below [OF assms(1)]) simp_all
      then have "key_ord k < key_ord (border_keys b ! r)" using 2(2) by (rule less_trans [rotated])
      then show ?thesis by auto
    qed (use 2 in simp)
    then show ?thesis using 2 st unfolding u by (simp only: if_False if_True) blast
  next
    case 3
    then have "lv_search b (perm_body b) k [j..<get_permutation_cnk b] =
        lv_search b (perm_body b) k [Suc j..<get_permutation_cnk b]"
      using st unfolding u by (simp only: if_False)
    moreover have "border_keys b ! r \<noteq> k" if "\<forall>r < get_permutation_cnk b. Suc j \<le> r \<longrightarrow> border_keys b ! r \<noteq> k"
      "r < get_permutation_cnk b" "j \<le> r" for r
      using that 3(1) by (cases "r = j") auto
    ultimately show ?thesis using ih by (elim disjE) auto
  qed
qed

definition slot_of :: "border_node \<Rightarrow> key \<Rightarrow> nat option" where
  "slot_of b k = map_of (zip (border_keys b) (perm_list (perm_body b))) k"

lemma slot_of_Some:
  assumes "border_wf b" and "r < get_permutation_cnk b"
  shows "slot_of b (border_keys b ! r) = Some (perm_list (perm_body b) ! r)"
proof -
  have "distinct (border_keys b)" using assms(1) by (simp add: border_wf_def key_sorted_distinct)
  then show ?thesis unfolding slot_of_def
    by (rule map_of_zip_nth [rotated])
      (use assms(2) in \<open>simp_all add: length_border_keys get_permutation_cnk_def perm.count_order\<close>)
qed

lemma slot_of_None: "slot_of b k = None \<longleftrightarrow> k \<notin> set (border_keys b)"
  by (simp add: slot_of_def length_border_keys get_permutation_cnk_def perm.count_order)

lemma lv_search_slot_of:
  assumes "border_wf b" and "canonical k"
  shows "lv_search b (perm_body b) k [0..<get_permutation_cnk b] = Some (slot_of b k)"
proof -
  consider (found) r where "r < get_permutation_cnk b" "border_keys b ! r = k"
      "lv_search b (perm_body b) k [0..<get_permutation_cnk b] = Some (Some (perm_list (perm_body b) ! r))"
    | (absent) "\<forall>r < get_permutation_cnk b. border_keys b ! r \<noteq> k"
      "lv_search b (perm_body b) k [0..<get_permutation_cnk b] = Some None"
    using lv_search_from [OF assms, of 0] by auto
  then show ?thesis
  proof cases
    case found
    then show ?thesis using slot_of_Some [OF assms(1)] by auto
  next
    case absent
    then have "k \<notin> set (border_keys b)" by (auto simp: in_set_conv_nth length_border_keys)
    then have "slot_of b k = None" by (simp add: slot_of_None)
    then show ?thesis using absent by simp
  qed
qed

lemma get_lv_of_eq:
  assumes "border_wf b" and "canonical k" and "is_stable (version (border_base b))"
  shows "get_lv_of b k = Some (version (border_base b), slot_of b k)"
  using assms lv_search_slot_of [OF assms(1,2)]
  by (simp add: get_lv_of_def get_stable_version_def get_lv_of_loop.simps [of b k] body_eq_iff
      get_permutation_cnk_def)

lemma slot_of_entries:
  assumes "border_wf b"
  shows "map_option (\<lambda>i. lv_arr b ! i) (slot_of b k) = map_of (border_entries b) k"
proof -
  have "border_entries b = map (\<lambda>(k, i). (k, lv_arr b ! i)) (zip (border_keys b) (perm_list (perm_body b)))"
    by (simp add: border_entries_def border_keys_def zip_map1 zip_same_conv_map o_def)
  then show ?thesis by (simp add: slot_of_def map_of_map)
qed

lemma rank_search_from:
  assumes "border_wf b" and "canonical k" and "k \<notin> set (border_keys b)"
    and "j \<le> rank_le k (border_keys b)"
  shows "rank_search b (perm_body b) k [j..<get_permutation_cnk b] = Some (rank_le k (border_keys b))"
  using assms(4)
proof (induction "get_permutation_cnk b - j" arbitrary: j)
  case 0
  moreover have "rank_le k (border_keys b) \<le> get_permutation_cnk b"
    using rank_le_length [of k "border_keys b"] by (simp add: length_border_keys)
  ultimately show ?case by (simp add: get_permutation_cnk_def)
next
  case (Suc n)
  then have j: "j < get_permutation_cnk b" by simp
  have u: "[j..<get_permutation_cnk b] = j # [Suc j..<get_permutation_cnk b]"
    using j by (rule upt_conv_Cons)
  have ne: "k \<noteq> border_keys b ! j" using assms(3) j by (auto simp: length_border_keys)
  have c: "canonical (border_keys b ! j)" using assms(1) j by (rule border_key_canonical)
  have st: "rank_search b (perm_body b) k (j # is) =
      (if key_ord k < key_ord (border_keys b ! j) then Some j else rank_search b (perm_body b) k is)" for "is"
    using border_slot_key [OF assms(1) j] assms(2) c ne
    by (simp add: slice_match_iff slice_before_iff)
  have s: "key_sorted (border_keys b)" using assms(1) by (simp add: border_wf_def)
  show ?case
  proof (cases "j = rank_le k (border_keys b)")
    case True
    then have "key_ord k < key_ord (border_keys b ! j)"
      using j by (intro rank_le_above [OF s]) (simp_all add: length_border_keys)
    then show ?thesis unfolding u st using True by (simp only: if_True)
  next
    case False
    then have lt: "j < rank_le k (border_keys b)" using Suc by simp
    then have "\<not> key_ord k < key_ord (border_keys b ! j)"
      using rank_le_below [OF lt] by (simp only: not_less)
    then show ?thesis unfolding u st using Suc lt by (simp add: Suc_leI)
  qed
qed

lemma compute_rank_eq:
  "border_wf b \<Longrightarrow> canonical k \<Longrightarrow> k \<notin> set (border_keys b) \<Longrightarrow>
   compute_rank_if_insert b k = Some (rank_le k (border_keys b))"
  using rank_search_from [of b k 0] by (simp add: compute_rank_if_insert_def get_permutation_cnk_def)

section \<open>Insertion and deletion on the entries\<close>

text \<open>\<open>b1\<close> is \<open>b\<close> with the entry \<open>(k, v)\<close> written to slot \<open>i\<close>.\<close>

definition slot_written :: "border_node \<Rightarrow> nat \<Rightarrow> key \<Rightarrow> link_or_value \<Rightarrow> border_node \<Rightarrow> bool" where
  "slot_written b i k v b1 \<longleftrightarrow> base_wf (border_base b1) \<and>
     base_keys (border_base b1) = (base_keys (border_base b))[i := k] \<and>
     lv_arr b1 = (lv_arr b)[i := v] \<and> perm_body b1 = perm_body b"

lemma link_slot_entries:
  assumes "border_wf b" and "slot_written b i k v b1" and "get_permutation_cnk b < 15"
    and "r \<le> get_permutation_cnk b" and "i < 15" and "i \<notin> set (perm_list (perm_body b))"
  shows "border_entries (link_slot r i b1) = ins_at r (k, v) (border_entries b)"
proof -
  have p: "perm_list (perm_insert (inc_key_num (perm_body b)) r i) = ins_at r i (perm_list (perm_body b))"
    using assms by (intro perm.order_add) (simp_all add: get_permutation_cnk_def perm.count_order)
  have l: "length (base_keys (border_base b)) = 15" "length (lv_arr b) = 15"
    using assms(1) by (simp_all add: border_wf_def)
  have m: "map (\<lambda>j. ((base_keys (border_base b))[i := k] ! j, (lv_arr b)[i := v] ! j)) (perm_list (perm_body b))
      = border_entries b"
    unfolding border_entries_def using assms(6) by (intro map_cong refl) (metis nth_list_update_neq)
  have "border_entries (link_slot r i b1) =
      map (\<lambda>j. ((base_keys (border_base b))[i := k] ! j, (lv_arr b)[i := v] ! j)) (ins_at r i (perm_list (perm_body b)))"
    using assms(2) p by (simp add: border_entries_def link_slot_def slot_written_def)
  also have "\<dots> = ins_at r (k, v) (border_entries b)"
    using l assms(5) by (simp only: ins_at_map [symmetric] m nth_list_update_eq)
  finally show ?thesis .
qed

lemma link_slot_wf:
  assumes "border_wf b" and "slot_written b i k v b1" and "get_permutation_cnk b < 15"
    and "i < 15" and "i \<notin> set (perm_list (perm_body b))" and "canonical k" and "k \<notin> set (border_keys b)"
  shows "border_wf (link_slot (rank_le k (border_keys b)) i b1)"
proof -
  let ?r = "rank_le k (border_keys b)"
  have r: "?r \<le> get_permutation_cnk b" using rank_le_length [of k "border_keys b"]
    by (simp add: length_border_keys)
  have "border_keys (link_slot ?r i b1) = ins_at ?r k (border_keys b)"
    using link_slot_entries [OF assms(1-3) r assms(4,5)]
    by (simp flip: map_fst_entries ins_at_map)
  moreover have "key_sorted (ins_at ?r k (border_keys b))"
    using assms by (intro key_sorted_ins_at) (simp_all add: border_wf_def)
  moreover have p: "perm_wf (perm_insert (inc_key_num (perm_body b)) ?r i)"
  proof -
    have "perm_list (perm_insert (inc_key_num (perm_body b)) ?r i) = ins_at ?r i (perm_list (perm_body b))"
      using assms r by (intro perm.order_add) (simp_all add: get_permutation_cnk_def perm.count_order)
    then show ?thesis using assms(1,4,5) by (simp add: border_wf_def perm.invar_order distinct_ins_at)
  qed
  ultimately show ?thesis
    using assms(1,2) by (simp add: border_wf_def slot_written_def) (simp add: link_slot_def)
qed

lemma delete_at_spec:
  assumes "border_wf b" and "r < get_permutation_cnk b"
    and "delete_at ti r (perm_list (perm_body b) ! r) tv b vh = Some (ti', b', vh')"
  shows "border_entries b' = del_at r (border_entries b)" and "border_wf b'"
    and "border_base b' = border_base b" and "prev_node b' = prev_node b" and "next_node b' = next_node b"
proof -
  let ?p = "perm_list (perm_body b)"
  let ?i = "?p ! r"
  have r: "r < length ?p" using assms(2) by (simp add: get_permutation_cnk_def perm.count_order)
  have i: "?i < 15" using border_slot(2) [OF assms(1,2)] .
  have sh: "border_base b' = border_base b \<and> prev_node b' = prev_node b \<and> next_node b' = next_node b \<and>
      perm_body b' = dec_key_num (delete_rank (perm_body b) r) \<and>
      (lv_arr b' = lv_arr b \<or> lv_arr b' = (lv_arr b)[?i := init_lv])"
    using assms(3)
    by (auto simp: delete_at_def bind_eq_Some Let_def set_lv_def put_at_eq_Some split: if_splits)
  then show b: "border_base b' = border_base b" "prev_node b' = prev_node b" "next_node b' = next_node b"
    by simp_all
  have p: "perm_list (perm_body b') = del_at r ?p" using sh perm.order_drop [OF r] by simp
  have d: "distinct ?p" using assms(1) by (simp add: border_wf_def perm.invar_order)
  have "?i \<notin> set (del_at r ?p)" using set_del_at [OF d r] by simp
  then have e: "lv_arr b' ! j = lv_arr b ! j" if "j \<in> set (del_at r ?p)" for j
    using sh that by (metis nth_list_update_neq)
  show ent: "border_entries b' = del_at r (border_entries b)"
    unfolding border_entries_def p del_at_map b(1)
    by (intro map_cong refl) (simp add: e)
  have "border_keys b' = del_at r (border_keys b)"
    using ent by (simp flip: map_fst_entries del_at_map)
  then show "border_wf b'"
    using assms(1) sh perm.invar_drop [of "perm_body b" r] assms(2) key_sorted_del_at [of "border_keys b" r]
    by (auto simp: border_wf_def get_permutation_cnk_def)
qed

subsection \<open>The search that does not stop at a match\<close>

lemma lv_search_all_step:
  assumes "border_wf b" and "canonical k" and "j < get_permutation_cnk b"
  shows "lv_search_all b (perm_body b) k (j # is) acc =
    (if k = border_keys b ! j then lv_search_all b (perm_body b) k is (Some (perm_list (perm_body b) ! j))
     else if key_ord k < key_ord (border_keys b ! j) then Some acc
     else lv_search_all b (perm_body b) k is acc)"
  using border_slot_key [OF assms(1,3)] border_slot(1) [OF assms(1,3)] assms(2)
    border_key_canonical [OF assms(1,3)]
  by (simp add: slice_match_iff slice_before_iff)

lemma lv_search_all_above:
  assumes "border_wf b" and "canonical k" and "j \<le> get_permutation_cnk b"
    and "\<forall>r < get_permutation_cnk b. j \<le> r \<longrightarrow> key_ord k < key_ord (border_keys b ! r)"
  shows "lv_search_all b (perm_body b) k [j..<get_permutation_cnk b] acc = Some acc"
proof (cases "j < get_permutation_cnk b")
  case True
  then have lt: "key_ord k < key_ord (border_keys b ! j)" using assms(4) by blast
  then have "k \<noteq> border_keys b ! j" by auto
  then show ?thesis
    using lv_search_all_step [OF assms(1,2) True] lt
    by (simp only: upt_conv_Cons [OF True] if_False if_True)
next
  case False
  then show ?thesis using assms(3) by simp
qed

lemma lv_search_all_eq:
  assumes "border_wf b" and "canonical k" and "j \<le> get_permutation_cnk b"
  shows "lv_search_all b (perm_body b) k [j..<get_permutation_cnk b] None =
    lv_search b (perm_body b) k [j..<get_permutation_cnk b]"
  using assms(3)
proof (induction "get_permutation_cnk b - j" arbitrary: j)
  case 0
  then show ?case by simp
next
  case (Suc n)
  then have j: "j < get_permutation_cnk b" by simp
  have above: "\<forall>r < get_permutation_cnk b. Suc j \<le> r \<longrightarrow> key_ord (border_keys b ! j) < key_ord (border_keys b ! r)"
    using border_key_below [OF assms(1)] by (meson Suc_le_lessD)
  have ih: "lv_search_all b (perm_body b) k [Suc j..<get_permutation_cnk b] None =
      lv_search b (perm_body b) k [Suc j..<get_permutation_cnk b]"
    using Suc by (intro Suc.hyps(1)) simp_all
  show ?case
  proof (cases "k = border_keys b ! j")
    case True
    have "lv_search_all b (perm_body b) k [Suc j..<get_permutation_cnk b] acc = Some acc" for acc
      using above j unfolding True [symmetric]
      by (intro lv_search_all_above [OF assms(1,2)]) simp_all
    then show ?thesis
      by (simp only: upt_conv_Cons [OF j] lv_search_step [OF assms(1,2) j]
          lv_search_all_step [OF assms(1,2) j] if_P [OF True])
  next
    case False
    then show ?thesis
      by (simp only: upt_conv_Cons [OF j] lv_search_step [OF assms(1,2) j]
          lv_search_all_step [OF assms(1,2) j] if_False ih)
  qed
qed

section \<open>Properties\<close>

text \<open>A node with the keys \<^verbatim>\<open>""\<close>, \<^verbatim>\<open>"a"\<close> and \<^verbatim>\<open>"ab"\<close> in the slots 2, 0 and 1.\<close>

definition sample_border :: border_node where
  "sample_border = (new_border_node :: border_node)\<lparr>
     border_base := set_version_border True (new_base_node\<lparr>
        key_slice_arr := [97, 0x6261, 0] @ replicate 12 0,
        key_length_arr := [1, 2, 0] @ replicate 12 0\<rparr>),
     perm_body := 0x1023, lv_arr := [11, 12, 13] @ replicate 12 init_lv\<rparr>"

lemma sample_border_wf: "border_wf sample_border \<and> is_stable (version (border_base sample_border))"
  by code_simp

text \<open>
  C20. Lookup in a border node: on a node that is not being written both searches
  terminate, return the node's version, and find the slot of exactly the entry with the
  given slice and length; a key that is not present is reported as absent.
\<close>

theorem border_lookup:
  assumes "border_wf b" and "canonical k" and "is_stable (version (border_base b))"
  shows "\<exists>pos. get_lv_of b k = Some (version (border_base b), pos) \<and>
    get_lv_of_without_lock b k = Some pos \<and>
    map_option (\<lambda>i. lv_arr b ! i) pos = map_of (border_entries b) k"
  using get_lv_of_eq [OF assms] slot_of_entries [OF assms(1)] lv_search_slot_of [OF assms(1,2)]
    lv_search_all_eq [OF assms(1,2), of 0]
  by (simp add: get_lv_of_without_lock_def get_permutation_cnk_def)

theorem border_lookup_witness:
  "\<exists>pos. get_lv_of sample_border (97, 1) = Some (version (border_base sample_border), pos) \<and>
    get_lv_of_without_lock sample_border (97, 1) = Some pos \<and>
    map_option (\<lambda>i. lv_arr sample_border ! i) pos = map_of (border_entries sample_border) (97, 1)"
proof -
  have "canonical (97, 1)" by code_simp
  then show ?thesis using sample_border_wf border_lookup by blast
qed

text \<open>
  C21. Deletion from a border node: whatever the kind of the entry, \<^verbatim>\<open>delete_at\<close> removes the
  entry of the given rank from the sorted entries and nothing else, and keeps the node well
  formed; the links to other nodes, the version and the keys are untouched.
\<close>

theorem delete_at_removes_entry:
  assumes "border_wf b" and "r < get_permutation_cnk b"
    and "delete_at ti r (get_index_of_rank (perm_body b) r) tv b vh = Some (ti', b', vh')"
  shows "border_entries b' = del_at r (border_entries b) \<and> border_wf b' \<and>
    border_base b' = border_base b \<and> prev_node b' = prev_node b \<and> next_node b' = next_node b"
  using delete_at_spec [OF assms(1,2)] assms(3) border_slot(1) [OF assms(1,2)] by simp

theorem delete_at_removes_entry_witness:
  "\<exists>ti' b' vh'. delete_at new_thread_info 1 (get_index_of_rank (perm_body sample_border) 1) True
      sample_border Map.empty = Some (ti', b', vh') \<and>
    border_entries b' = del_at 1 (border_entries sample_border) \<and> border_wf b' \<and>
    border_base b' = border_base sample_border \<and> prev_node b' = prev_node sample_border \<and>
    next_node b' = next_node sample_border"
proof -
  have "1 < get_permutation_cnk sample_border" by code_simp
  moreover have "\<not> Option.is_none (delete_at new_thread_info 1
      (get_index_of_rank (perm_body sample_border) 1) True sample_border Map.empty)"
    by code_simp
  then obtain ti' b' vh' where d: "delete_at new_thread_info 1
      (get_index_of_rank (perm_body sample_border) 1) True sample_border Map.empty = Some (ti', b', vh')"
    by (cases "delete_at new_thread_info 1
      (get_index_of_rank (perm_body sample_border) 1) True sample_border Map.empty") auto
  ultimately show ?thesis
    using delete_at_removes_entry [OF _ _ d] sample_border_wf by blast
qed

end
