(* ===== verification/Heap.thy ===== *)
theory Heap
  imports Border_Node Interior_Node
begin

text \<open>
  The memory the program works on: the nodes behind \<^verbatim>\<open>base_node*\<close>, the value pages, the
  allocator, the static objects (\<^verbatim>\<open>storage::storages_\<close>, the session table, the epochs) and
  the operations of \<^verbatim>\<open>base_node.h\<close>, \<^verbatim>\<open>border_node.h\<close> and \<^verbatim>\<open>tree_instance.h\<close> that follow
  pointers. Operations take the heap as their last argument and return it in an option:
  \<open>None\<close> stands for undefined behaviour (a dangling or null pointer, a failed
  \<^verbatim>\<open>dynamic_cast\<close> that is dereferenced), an exception, an exhausted allocator, or a wait
  that no other thread can end.
\<close>

section \<open>State\<close>

datatype node = Border border_node | Interior interior_node

record heap =
  nodes :: "addr \<rightharpoonup> node"
  pages :: value_pages
  fresh :: "addr list"
  storages_root :: addr
  thread_info_table :: "thread_info list"
  epoch :: Epoch
  gc_epoch :: Epoch

type_synonym Token = nat

text \<open>The state of the program before any operation: \<open>n\<close> sessions and the allocator's addresses.\<close>

definition initial_heap :: "nat \<Rightarrow> addr list \<Rightarrow> heap" where
  "initial_heap n ps = \<lparr>nodes = Map.empty, pages = Map.empty, fresh = ps, storages_root = nullptr,
     thread_info_table = replicate n new_thread_info, epoch = 1, gc_epoch = 0\<rparr>"

fun node_base :: "node \<Rightarrow> base_node" where
  "node_base (Border b) = border_base b"
| "node_base (Interior n) = interior_base n"

fun node_map_base :: "(base_node \<Rightarrow> base_node) \<Rightarrow> node \<Rightarrow> node" where
  "node_map_base f (Border b) = Border (set_border_base f b)"
| "node_map_base f (Interior n) = Interior (set_interior_base f n)"

definition get_base :: "addr \<Rightarrow> heap \<Rightarrow> base_node option" where
  "get_base p h = map_option node_base (nodes h p)"

definition get_border :: "addr \<Rightarrow> heap \<Rightarrow> border_node option" where
  "get_border p h = (case nodes h p of Some (Border b) \<Rightarrow> Some b | _ \<Rightarrow> None)"

definition get_interior :: "addr \<Rightarrow> heap \<Rightarrow> interior_node option" where
  "get_interior p h = (case nodes h p of Some (Interior n) \<Rightarrow> Some n | _ \<Rightarrow> None)"

definition set_node :: "addr \<Rightarrow> node \<Rightarrow> heap \<Rightarrow> heap" where
  "set_node p n h = h\<lparr>nodes := (nodes h)(p \<mapsto> n)\<rparr>"

definition upd_base :: "addr \<Rightarrow> (base_node \<Rightarrow> base_node) \<Rightarrow> heap \<Rightarrow> heap option" where
  "upd_base p f h = map_option (\<lambda>n. set_node p (node_map_base f n) h) (nodes h p)"

definition upd_border :: "addr \<Rightarrow> (border_node \<Rightarrow> border_node option) \<Rightarrow> heap \<Rightarrow> heap option" where
  "upd_border p f h = get_border p h \<bind> f \<bind> (\<lambda>b. Some (set_node p (Border b) h))"

definition upd_interior :: "addr \<Rightarrow> (interior_node \<Rightarrow> interior_node option) \<Rightarrow> heap \<Rightarrow> heap option" where
  "upd_interior p f h = get_interior p h \<bind> f \<bind> (\<lambda>n. Some (set_node p (Interior n) h))"

text \<open>\<^verbatim>\<open>new border_node()\<close>, \<^verbatim>\<open>new interior_node()\<close> and \<^verbatim>\<open>delete\<close>.\<close>

definition new_node :: "node \<Rightarrow> heap \<Rightarrow> (addr \<times> heap) option" where
  "new_node n h = (case fresh h of [] \<Rightarrow> None
     | p # ps \<Rightarrow> Some (p, set_node p n (h\<lparr>fresh := ps\<rparr>)))"

definition delete_node :: "addr \<Rightarrow> heap \<Rightarrow> heap option" where
  "delete_node p h = map_option (\<lambda>_. h\<lparr>nodes := (nodes h)(p := None)\<rparr>) (nodes h p)"

definition new_value :: "bool \<Rightarrow> byte list \<Rightarrow> 64 word \<Rightarrow> 64 word \<Rightarrow> heap \<Rightarrow> (64 word \<times> heap) option" where
  "new_value kIsInline v_ptr v_len v_align h = do {
     (v, ps, vh) \<leftarrow> create_value kIsInline v_ptr v_len v_align (fresh h) (pages h);
     Some (v, h\<lparr>fresh := ps, pages := vh\<rparr>)
   }"

text \<open>The session behind a token.\<close>

definition get_session :: "Token \<Rightarrow> heap \<Rightarrow> thread_info option" where
  "get_session token h = at (thread_info_table h) token"

definition set_session :: "Token \<Rightarrow> thread_info \<Rightarrow> heap \<Rightarrow> heap" where
  "set_session token ti h = h\<lparr>thread_info_table := (thread_info_table h)[token := ti]\<rparr>"

definition push_node_garbage :: "Token \<Rightarrow> addr \<Rightarrow> heap \<Rightarrow> heap option" where
  "push_node_garbage token p h = do {
     ti \<leftarrow> get_session token h;
     Some (set_session token (ti\<lparr>gc_info := push_node_container (begin_epoch ti, p) (gc_info ti)\<rparr>) h)
   }"

definition push_value_garbage :: "Token \<Rightarrow> addr \<times> 64 word \<times> 64 word \<Rightarrow> heap \<Rightarrow> heap option" where
  "push_value_garbage token e h = do {
     ti \<leftarrow> get_session token h;
     Some (set_session token (ti\<lparr>gc_info := push_value_container (begin_epoch ti, e) (gc_info ti)\<rparr>) h)
   }"

section \<open>Tree instances\<close>

text \<open>
  A \<^verbatim>\<open>tree_instance\<close> is one pointer. The static one is \<^verbatim>\<open>storages_\<close>; the others are values
  of the tree of storages: the eight bytes after the header of a value page, so that the
  page begins eight bytes before the instance.
\<close>

definition storages :: addr where
  "storages = 8"

definition load_root_ptr :: "addr \<Rightarrow> heap \<Rightarrow> addr option" where
  "load_root_ptr ti h =
     (if ti = storages then Some (storages_root h)
      else case pages h (ti - 8) of
             Some p \<Rightarrow> if align p = 8 \<and> length (body p) = 8 then Some (slice_of_bytes (body p)) else None
           | None \<Rightarrow> None)"

definition store_root_ptr :: "addr \<Rightarrow> addr \<Rightarrow> heap \<Rightarrow> heap option" where
  "store_root_ptr ti new_root h =
     (if ti = storages then Some (h\<lparr>storages_root := new_root\<rparr>)
      else case pages h (ti - 8) of
             Some p \<Rightarrow> if align p = 8 \<and> length (body p) = 8
               then Some (h\<lparr>pages := (pages h)(ti - 8 \<mapsto> p\<lparr>body := slice_bytes new_root\<rparr>)\<rparr>) else None
           | None \<Rightarrow> None)"

definition tree_empty :: "addr \<Rightarrow> heap \<Rightarrow> bool option" where
  "tree_empty ti h = map_option (\<lambda>r. r = nullptr) (load_root_ptr ti h)"

section \<open>Locks\<close>

definition lock_at :: "addr \<Rightarrow> heap \<Rightarrow> heap option" where
  "lock_at p h = do {
     n \<leftarrow> nodes h p;
     b \<leftarrow> lock_node (node_base n);
     Some (set_node p (node_map_base (\<lambda>_. b) n) h)
   }"

definition unlock_at :: "addr \<Rightarrow> heap \<Rightarrow> heap option" where
  "unlock_at p h = upd_base p version_unlock h"

definition get_stable_version_at :: "addr \<Rightarrow> heap \<Rightarrow> node_version64_body option" where
  "get_stable_version_at p h = get_base p h \<bind> (\<lambda>b. get_stable_version (version b))"

definition get_parent_at :: "addr \<Rightarrow> heap \<Rightarrow> addr option" where
  "get_parent_at p h = map_option parent (get_base p h)"

text \<open>\<^verbatim>\<open>lock_parent\<close>: the parent found locked, or \<^verbatim>\<open>nullptr\<close>.\<close>

partial_function (option) lock_parent_loop :: "addr \<Rightarrow> addr \<Rightarrow> heap \<Rightarrow> (addr \<times> heap) option" where
  "lock_parent_loop this p h =
     (if p = nullptr then Some (nullptr, h)
      else do {
        h \<leftarrow> lock_at p h;
        check \<leftarrow> get_parent_at this h;
        if p = check then Some (p, h)
        else do {
          h \<leftarrow> unlock_at p h;
          lock_parent_loop this check h
        }
      })"

declare lock_parent_loop.simps [code]

definition lock_parent :: "addr \<Rightarrow> heap \<Rightarrow> (addr \<times> heap) option" where
  "lock_parent this h = get_parent_at this h \<bind> (\<lambda>p. lock_parent_loop this p h)"

section \<open>Insertion into a border node\<close>

text \<open>
  \<^verbatim>\<open>insert_lv_at\<close> and \<^verbatim>\<open>init_border(key_view, new_value, created_value_ptr, root)\<close>: a key of
  more than eight bytes gets a new layer with one border node per eight bytes. The result
  is what is stored through \<^verbatim>\<open>created_value_ptr\<close>, if given, and the heap.
\<close>

function (sequential) insert_lv_at ::
    "addr \<Rightarrow> nat \<Rightarrow> byte list \<Rightarrow> 64 word \<Rightarrow> bool \<Rightarrow> nat \<Rightarrow> heap \<Rightarrow> (addr option \<times> heap) option"
  and init_border_with ::
    "addr \<Rightarrow> byte list \<Rightarrow> 64 word \<Rightarrow> bool \<Rightarrow> bool \<Rightarrow> heap \<Rightarrow> (addr option \<times> heap) option" where
  "insert_lv_at this index key_view v created_given rank h =
     (if length key_view > slice_size then do {
        let ks = memcpy_slice 0 key_view slice_size;
        h \<leftarrow> upd_border this (set_border_base_opt (set_key_slice_at index ks)) h;
        h \<leftarrow> upd_border this (set_border_base_opt (set_key_length_at index (of_nat (slice_size + 1)))) h;
        (next_layer_border, h) \<leftarrow> new_node (Border new_border_node) h;
        (created, h) \<leftarrow> init_border_with next_layer_border (drop slice_size key_view) v created_given True h;
        h \<leftarrow> upd_base next_layer_border (set_parent this) h;
        h \<leftarrow> upd_border this (set_lv_next_layer index next_layer_border) h;
        h \<leftarrow> upd_border this (Some \<circ> link_slot rank index) h;
        Some (created, h)
      } else do {
        let ks = memcpy_slice 0 key_view (length key_view);
        h \<leftarrow> upd_border this (set_border_base_opt (set_key_slice_at index ks)) h;
        h \<leftarrow> upd_border this (set_border_base_opt (set_key_length_at index (of_nat (length key_view)))) h;
        b \<leftarrow> get_border this h;
        (b, created, vh) \<leftarrow> set_lv_value index v created_given b (pages h);
        let h = set_node this (Border b) (h\<lparr>pages := vh\<rparr>);
        h \<leftarrow> upd_border this (Some \<circ> link_slot rank index) h;
        Some (created, h)
      })"
| "init_border_with this key_view v created_given is_root h = do {
     h \<leftarrow> upd_border this init_border h;
     h \<leftarrow> upd_base this (set_version_root is_root) h;
     h \<leftarrow> upd_base this version_atomic_inc_vinsert h;
     b \<leftarrow> get_border this h;
     slot \<leftarrow> get_empty_slot (perm_body b);
     insert_lv_at this slot key_view v created_given 0 h
   }"
  by pat_completeness auto
termination
  by (relation "measure (\<lambda>x. case x of Inl (_, _, k, _) \<Rightarrow> 2 * length k | Inr (_, k, _) \<Rightarrow> 2 * length k + 1)")
    auto

declare insert_lv_at.simps [simp del] init_border_with.simps [simp del]

section \<open>Accessors after updates\<close>

lemma nodes_set_node [simp]: "nodes (set_node p n h) = (nodes h)(p \<mapsto> n)"
  by (simp add: set_node_def)

lemma set_node_fields [simp]:
  "pages (set_node p n h) = pages h" "fresh (set_node p n h) = fresh h"
  "storages_root (set_node p n h) = storages_root h"
  "thread_info_table (set_node p n h) = thread_info_table h"
  "epoch (set_node p n h) = epoch h" "gc_epoch (set_node p n h) = gc_epoch h"
  by (simp_all add: set_node_def)

lemma get_border_Some: "get_border p h = Some b \<longleftrightarrow> nodes h p = Some (Border b)"
  by (auto simp: get_border_def split: option.splits node.splits)

lemma get_interior_Some: "get_interior p h = Some n \<longleftrightarrow> nodes h p = Some (Interior n)"
  by (auto simp: get_interior_def split: option.splits node.splits)

lemma node_base_map [simp]: "node_base (node_map_base f n) = f (node_base n)"
  by (cases n) (simp_all add: set_border_base_def set_interior_base_def)

lemma load_root_set_node [simp]: "load_root_ptr ti (set_node p n h) = load_root_ptr ti h"
  by (simp add: load_root_ptr_def)

end
