(* ===== verification/Split.thy ===== *)
theory Split
  imports Heap
begin

text \<open>
  \<^verbatim>\<open>include/border_helper.h\<close> and \<^verbatim>\<open>include/interior_helper.h\<close>: inserting into a border node,
  splitting full border and interior nodes, and creating the interior nodes above a split.
\<close>

section \<open>New parents\<close>

definition create_interior_parent_of_border :: "addr \<Rightarrow> addr \<Rightarrow> heap \<Rightarrow> (addr \<times> heap) option" where
  "create_interior_parent_of_border left right h = do {
     h \<leftarrow> upd_base left (set_version_root False) h;
     h \<leftarrow> upd_base right (set_version_root False) h;
     (ni, h) \<leftarrow> new_node (Interior new_interior_node) h;
     h \<leftarrow> upd_interior ni (Some \<circ> init_interior) h;
     h \<leftarrow> upd_base ni (set_version_root True) h;
     h \<leftarrow> upd_base ni (set_version_inserting_deleting True) h;
     h \<leftarrow> lock_at ni h;
     rb \<leftarrow> get_base right h;
     ks \<leftarrow> get_key_slice_at rb 0;
     kl \<leftarrow> get_key_length_at rb 0;
     h \<leftarrow> upd_interior ni (set_interior_base_opt (set_key 0 ks kl)) h;
     h \<leftarrow> upd_interior ni (set_child_at 0 left) h;
     h \<leftarrow> upd_interior ni (set_child_at 1 right) h;
     h \<leftarrow> upd_interior ni (Some \<circ> n_keys_increment) h;
     h \<leftarrow> upd_base left (set_parent ni) h;
     h \<leftarrow> upd_base right (set_parent ni) h;
     Some (ni, h)
   }"

definition create_interior_parent_of_interior ::
  "addr \<Rightarrow> addr \<Rightarrow> key \<Rightarrow> heap \<Rightarrow> (addr \<times> heap) option" where
  "create_interior_parent_of_interior left right pivot_key h = do {
     h \<leftarrow> upd_base left (set_version_root False) h;
     h \<leftarrow> upd_base right (set_version_root False) h;
     (ni, h) \<leftarrow> new_node (Interior new_interior_node) h;
     h \<leftarrow> upd_interior ni (Some \<circ> init_interior) h;
     h \<leftarrow> upd_base ni (set_version_root True) h;
     h \<leftarrow> upd_base ni (set_version_inserting_deleting True) h;
     h \<leftarrow> lock_at ni h;
     h \<leftarrow> upd_interior ni (set_interior_base_opt (set_key 0 (fst pivot_key) (snd pivot_key))) h;
     h \<leftarrow> upd_interior ni (Some \<circ> n_keys_increment) h;
     h \<leftarrow> upd_interior ni (set_child_at 0 left) h;
     h \<leftarrow> upd_interior ni (set_child_at 1 right) h;
     h \<leftarrow> upd_base left (set_parent ni) h;
     h \<leftarrow> upd_base right (set_parent ni) h;
     Some (ni, h)
   }"

section \<open>Splitting an interior node\<close>

text \<open>\<^verbatim>\<open>move_key_to_base_range\<close> between two nodes of the heap.\<close>

definition move_keys :: "addr \<Rightarrow> addr \<Rightarrow> nat \<Rightarrow> heap \<Rightarrow> heap option" where
  "move_keys this right start h = do {
     n \<leftarrow> get_interior this h;
     r \<leftarrow> get_interior right h;
     (nb, rb) \<leftarrow> move_key_to_base_range start (interior_base n) (interior_base r);
     Some (set_node right (Interior (r\<lparr>interior_base := rb\<rparr>))
       (set_node this (Interior (n\<lparr>interior_base := nb\<rparr>)) h))
   }"

definition move_children_to_interior_range :: "addr \<Rightarrow> addr \<Rightarrow> nat \<Rightarrow> heap \<Rightarrow> heap option" where
  "move_children_to_interior_range this right_interior start h =
     foldM (\<lambda>i h. do {
         n \<leftarrow> get_interior this h;
         c \<leftarrow> get_child_at n i;
         h \<leftarrow> upd_interior right_interior (set_child_at (i - start) c) h;
         h \<leftarrow> upd_base c (set_parent right_interior) h;
         upd_interior this (set_child_at i nullptr) h
       }) [start..<child_length] h"

text \<open>\<^verbatim>\<open>lv->set_next_layer(next)\<close> on the slot of \<open>pb\<close> that links to \<open>child\<close>.\<close>

definition replace_layer :: "addr \<Rightarrow> addr \<Rightarrow> addr \<Rightarrow> heap \<Rightarrow> heap option" where
  "replace_layer pb child next_layer h = do {
     b \<leftarrow> get_border pb h;
     pos \<leftarrow> get_lv b child;
     upd_border pb (set_lv pos (set_next_layer next_layer)) h
   }"

partial_function (option) interior_split :: "addr \<Rightarrow> addr \<Rightarrow> addr \<Rightarrow> key \<Rightarrow> heap \<Rightarrow> heap option" where
  "interior_split ti interior child_node inserting_key h = do {
     h \<leftarrow> upd_base interior (set_version_splitting True) h;
     (new_interior, h) \<leftarrow> new_node (Interior new_interior_node) h;
     h \<leftarrow> upd_interior new_interior (Some \<circ> init_interior) h;
     ib \<leftarrow> get_base interior h;
     h \<leftarrow> upd_base new_interior (set_version (version ib)) h;
     let pivot_key_pos = key_slice_length div 2;
     let split_children_points = pivot_key_pos + 1;
     h \<leftarrow> move_keys interior new_interior split_children_points h;
     h \<leftarrow> upd_interior interior (Some \<circ> set_n_keys (of_nat pivot_key_pos)) h;
     h \<leftarrow> (if odd pivot_key_pos
           then upd_interior new_interior (Some \<circ> set_n_keys (of_nat pivot_key_pos)) h
           else upd_interior new_interior (Some \<circ> set_n_keys (of_nat (pivot_key_pos - 1))) h);
     h \<leftarrow> move_children_to_interior_range interior new_interior split_children_points h;
     ib \<leftarrow> get_base interior h;
     pivot_key \<leftarrow> get_key_slice_at ib pivot_key_pos;
     pivot_length \<leftarrow> get_key_length_at ib pivot_key_pos;
     h \<leftarrow> upd_interior interior (set_interior_base_opt (set_key pivot_key_pos 0 0)) h;
     h \<leftarrow> (if pivot_before inserting_key (pivot_key, pivot_length) then do {
             h \<leftarrow> upd_base child_node (set_parent interior) h;
             upd_interior interior (insert_child child_node inserting_key) h
           } else do {
             h \<leftarrow> upd_base child_node (set_parent new_interior) h;
             upd_interior new_interior (insert_child child_node inserting_key) h
           });
     (p, h) \<leftarrow> lock_parent interior h;
     if p = nullptr then do {
       (p, h) \<leftarrow> create_interior_parent_of_interior interior new_interior (pivot_key, pivot_length) h;
       h \<leftarrow> unlock_at interior h;
       h \<leftarrow> unlock_at new_interior h;
       h \<leftarrow> store_root_ptr ti p h;
       unlock_at p h
     } else do {
       pbase \<leftarrow> get_base p h;
       if border (version pbase) then do {
         h \<leftarrow> upd_base p (set_version_inserting_deleting True) h;
         (new_p, h) \<leftarrow> create_interior_parent_of_interior interior new_interior (pivot_key, pivot_length) h;
         h \<leftarrow> unlock_at interior h;
         h \<leftarrow> unlock_at new_interior h;
         h \<leftarrow> replace_layer p interior new_p h;
         h \<leftarrow> upd_base new_p (set_parent p) h;
         h \<leftarrow> unlock_at new_p h;
         unlock_at p h
       } else do {
         h \<leftarrow> unlock_at interior h;
         h \<leftarrow> upd_base new_interior (set_parent p) h;
         h \<leftarrow> unlock_at new_interior h;
         pi \<leftarrow> get_interior p h;
         if unat (n_keys pi) = key_slice_length
         then interior_split ti p new_interior (pivot_key, pivot_length) h
         else do {
           h \<leftarrow> upd_interior p (insert_child new_interior (pivot_key, pivot_length)) h;
           unlock_at p h
         }
       }
     }
   }"

declare interior_split.simps [code]

section \<open>Splitting a border node\<close>

text \<open>One iteration of the loop that moves the upper entries to the new node.\<close>

definition move_entry :: "addr \<Rightarrow> addr \<Rightarrow> nat \<Rightarrow> nat \<Rightarrow> heap \<Rightarrow> heap option" where
  "move_entry bd new_border remaining_size index_ctr h = do {
     b \<leftarrow> get_border bd h;
     let src_index = get_index_of_rank (perm_body b) remaining_size;
     ks \<leftarrow> get_key_slice_at (border_base b) src_index;
     h \<leftarrow> upd_border new_border (set_border_base_opt (set_key_slice_at index_ctr ks)) h;
     kl \<leftarrow> get_key_length_at (border_base b) src_index;
     h \<leftarrow> upd_border new_border (set_border_base_opt (set_key_length_at index_ctr kl)) h;
     x \<leftarrow> get_lv_at b src_index;
     h \<leftarrow> upd_border new_border (set_lv index_ctr x) h;
     let nl = get_next_layer x;
     h \<leftarrow> (if nl \<noteq> nullptr then upd_base nl (set_parent new_border) h else Some h);
     h \<leftarrow> upd_border bd (init_border_at src_index) h;
     upd_border bd (\<lambda>b. Some (b\<lparr>perm_body := dec_key_num (delete_rank (perm_body b) remaining_size)\<rparr>)) h
   }"

text \<open>The comparison with the first key of the new node, and the choice of the side.\<close>

definition goes_lower :: "key \<Rightarrow> key \<Rightarrow> nat \<Rightarrow> nat \<Rightarrow> bool" where
  "goes_lower k t rank remaining_size =
     (let ret_memcmp = memcmp (slice_bytes (fst k)) (slice_bytes (fst t))
            (if 8 < snd k \<and> 8 < snd t then slice_size
             else if snd k < snd t then unat (snd k) else unat (snd t))
      in snd k = 0 \<or> ret_memcmp < 0 \<or> ret_memcmp = 0 \<and> snd k < snd t \<or>
         ret_memcmp = 0 \<and> rank < remaining_size)"

text \<open>
  \<^verbatim>\<open>border_split\<close>: the result holds what is stored through \<^verbatim>\<open>created_value_ptr\<close> and the node
  whose version is reported through \<^verbatim>\<open>inserted_node_version_ptr\<close>. A rank that would wrap
  around in \<^verbatim>\<open>rank - remaining_size\<close> is the result \<open>None\<close>.
\<close>

definition border_split ::
  "addr \<Rightarrow> addr \<Rightarrow> byte list \<Rightarrow> 64 word \<Rightarrow> bool \<Rightarrow> nat \<Rightarrow> heap \<Rightarrow> (addr option \<times> addr \<times> heap) option" where
  "border_split ti bd key_view v created_given rank h = do {
     let inserted = bd;
     h \<leftarrow> upd_base bd (set_version_splitting True) h;
     (new_border, h) \<leftarrow> new_node (Border new_border_node) h;
     h \<leftarrow> upd_border new_border init_border h;
     b \<leftarrow> get_border bd h;
     h \<leftarrow> upd_border new_border (Some \<circ> set_next (next_node b)) h;
     h \<leftarrow> upd_border new_border (Some \<circ> set_prev bd) h;
     h \<leftarrow> upd_base new_border (set_version (version (border_base b))) h;
     h \<leftarrow> upd_border bd (Some \<circ> set_next new_border) h;
     nb \<leftarrow> get_border new_border h;
     h \<leftarrow> (if next_node nb \<noteq> nullptr
           then upd_border (next_node nb) (Some \<circ> set_prev new_border) h else Some h);
     let remaining_size = key_slice_length div 2 + 1;
     h \<leftarrow> foldM (move_entry bd new_border remaining_size) [0..<key_slice_length - remaining_size] h;
     h \<leftarrow> upd_border new_border
           (\<lambda>nb. Some (nb\<lparr>perm_body := split_dest (key_slice_length - remaining_size)\<rparr>)) h;
     let k = prepare_key_slice key_view;
     nb \<leftarrow> get_border new_border h;
     ts \<leftarrow> get_key_slice_at (border_base nb) 0;
     tl \<leftarrow> get_key_length_at (border_base nb) 0;
     (created, h) \<leftarrow> (if goes_lower k (ts, tl) rank remaining_size then do {
             b \<leftarrow> get_border bd h;
             slot \<leftarrow> get_empty_slot (perm_body b);
             insert_lv_at bd slot key_view v created_given rank h
           } else do {
             slot \<leftarrow> get_empty_slot (perm_body nb);
             if rank < remaining_size then None
             else insert_lv_at new_border slot key_view v created_given (rank - remaining_size) h
           });
     (p, h) \<leftarrow> lock_parent bd h;
     if p = nullptr then do {
       (p, h) \<leftarrow> create_interior_parent_of_border bd new_border h;
       h \<leftarrow> unlock_at bd h;
       h \<leftarrow> unlock_at new_border h;
       h \<leftarrow> store_root_ptr ti p h;
       h \<leftarrow> unlock_at p h;
       Some (created, inserted, h)
     } else do {
       pbase \<leftarrow> get_base p h;
       if border (version pbase) then do {
         h \<leftarrow> upd_base p (set_version_inserting_deleting True) h;
         (pi, h) \<leftarrow> create_interior_parent_of_border bd new_border h;
         h \<leftarrow> unlock_at bd h;
         h \<leftarrow> unlock_at new_border h;
         h \<leftarrow> upd_base pi (set_parent p) h;
         h \<leftarrow> unlock_at pi h;
         h \<leftarrow> replace_layer p bd pi h;
         h \<leftarrow> unlock_at p h;
         Some (created, inserted, h)
       } else do {
         h \<leftarrow> upd_base bd (set_version_root False) h;
         h \<leftarrow> upd_base new_border (set_version_root False) h;
         h \<leftarrow> unlock_at bd h;
         h \<leftarrow> unlock_at new_border h;
         pi \<leftarrow> get_interior p h;
         nb \<leftarrow> get_border new_border h;
         ts \<leftarrow> get_key_slice_at (border_base nb) 0;
         tl \<leftarrow> get_key_length_at (border_base nb) 0;
         h \<leftarrow> (if unat (n_keys pi) = key_slice_length
               then interior_split ti p new_border (ts, tl) h
               else do {
                 h \<leftarrow> upd_base new_border (set_parent p) h;
                 h \<leftarrow> upd_interior p (insert_child new_border (ts, tl)) h;
                 unlock_at p h
               });
         Some (created, inserted, h)
       }
     }
   }"

section \<open>Insertion into a border node, with or without a split\<close>

definition insert_lv ::
  "addr \<Rightarrow> addr \<Rightarrow> byte list \<Rightarrow> 64 word \<Rightarrow> bool \<Rightarrow> nat \<Rightarrow> heap \<Rightarrow> (addr option \<times> addr \<times> heap) option" where
  "insert_lv ti bd key_view v created_given rank h = do {
     h \<leftarrow> upd_base bd (set_version_inserting_deleting True) h;
     b \<leftarrow> get_border bd h;
     let cnk = get_permutation_cnk b;
     h \<leftarrow> (if cnk = 0 then upd_base bd (set_version_deleted False) h else Some h);
     if cnk = key_slice_length then border_split ti bd key_view v created_given rank h
     else do {
       b \<leftarrow> get_border bd h;
       slot \<leftarrow> get_empty_slot (perm_body b);
       (created, h) \<leftarrow> insert_lv_at bd slot key_view v created_given rank h;
       h \<leftarrow> unlock_at bd h;
       Some (created, bd, h)
     }
   }"

end
