(* ===== verification/Deletion.thy ===== *)
theory Deletion
  imports Split
begin

text \<open>
  The member functions \<^verbatim>\<open>delete_of\<close> of \<^verbatim>\<open>border_node.h\<close> and \<^verbatim>\<open>interior_node.h\<close>: removing an
  entry from a locked border node, unlinking a border node that became empty from its
  siblings, and removing it from its parent, which in turn may collapse an interior node
  with one child left or empty the border node of the layer above.
\<close>

section \<open>Interior nodes\<close>

fun find_child :: "interior_node \<Rightarrow> addr \<Rightarrow> nat list \<Rightarrow> nat option option" where
  "find_child n child [] = Some None"
| "find_child n child (i # is) = do {
     c \<leftarrow> get_child_at n i;
     if c = child then Some (Some i) else find_child n child is
   }"

definition interior_delete_of :: "Token \<Rightarrow> addr \<Rightarrow> addr \<Rightarrow> addr \<Rightarrow> heap \<Rightarrow> heap option" where
  "interior_delete_of token ti this child h = do {
     h \<leftarrow> upd_base this (set_version_inserting_deleting True) h;
     n \<leftarrow> get_interior this h;
     let n_key = unat (n_keys n);
     found \<leftarrow> find_child n child [0..<n_key + 1];
     case found of
       None \<Rightarrow> Some h
     | Some i \<Rightarrow>
         if n_key = 1 then do {
           h \<leftarrow> upd_base this (set_version_deleted True) h;
           h \<leftarrow> upd_base this (set_version_root False) h;
           h \<leftarrow> upd_interior this (Some \<circ> n_keys_decrement) h;
           (pn, h) \<leftarrow> lock_parent this h;
           n \<leftarrow> get_interior this h;
           sibling \<leftarrow> get_child_at n (if i = 0 then 1 else 0);
           h \<leftarrow> (if pn = nullptr then do {
                   h \<leftarrow> upd_base sibling (set_version_root True) h;
                   h \<leftarrow> store_root_ptr ti sibling h;
                   upd_base sibling (set_parent nullptr) h
                 } else do {
                   pbase \<leftarrow> get_base pn h;
                   h \<leftarrow> (if border (version pbase) then do {
                           h \<leftarrow> replace_layer pn this sibling h;
                           upd_base sibling (set_version_root True) h
                         } else upd_interior pn (swap_child this sibling) h);
                   h \<leftarrow> upd_base sibling (set_parent pn) h;
                   unlock_at pn h
                 });
           h \<leftarrow> unlock_at this h;
           push_node_garbage token this h
         } else do {
           h \<leftarrow> upd_interior this (remove_child_at i) h;
           unlock_at this h
         }
   }"

section \<open>Border nodes\<close>

text \<open>The test with which \<^verbatim>\<open>delete_of\<close> looks for its entry.\<close>

definition delete_match :: "key \<Rightarrow> key \<Rightarrow> bool" where
  "delete_match k t \<longleftrightarrow> snd k = 0 \<and> snd t = 0 \<or>
     snd k = snd t \<and> memcmp (slice_bytes (fst k)) (slice_bytes (fst t)) slice_size = 0"

fun find_entry :: "border_node \<Rightarrow> key \<Rightarrow> nat list \<Rightarrow> (nat \<times> nat) option option" where
  "find_entry b k [] = Some None"
| "find_entry b k (i # is) = do {
     let index = get_index_of_rank (perm_body b) i;
     ts \<leftarrow> get_key_slice_at (border_base b) index;
     tl \<leftarrow> get_key_length_at (border_base b) index;
     if delete_match k (ts, tl) then Some (Some (i, index)) else find_entry b k is
   }"

text \<open>The search of \<^verbatim>\<open>delete_of(token, ti, child)\<close>: the key under which \<open>child\<close> is linked.\<close>

fun find_layer_key :: "border_node \<Rightarrow> addr \<Rightarrow> nat list \<Rightarrow> key option option" where
  "find_layer_key b child [] = Some None"
| "find_layer_key b child (i # is) = do {
     let index = get_index_of_rank (perm_body b) i;
     x \<leftarrow> get_lv_at b index;
     if child = get_next_layer x then do {
       ks \<leftarrow> get_key_slice_at (border_base b) index;
       kl \<leftarrow> get_key_length_at (border_base b) index;
       Some (Some (ks, kl))
     } else find_layer_key b child is
   }"

text \<open>The label \<^verbatim>\<open>retry_prev_lock\<close>: the empty node leaves the list of siblings.\<close>

partial_function (option) unlink_siblings :: "addr \<Rightarrow> heap \<Rightarrow> heap option" where
  "unlink_siblings this h = do {
     b \<leftarrow> get_border this h;
     let prev = prev_node b;
     if prev \<noteq> nullptr then do {
       h \<leftarrow> lock_at prev h;
       pbase \<leftarrow> get_base prev h;
       b \<leftarrow> get_border this h;
       if deleted (version pbase) \<or> prev \<noteq> prev_node b then do {
         h \<leftarrow> unlock_at prev h;
         unlink_siblings this h
       } else do {
         h \<leftarrow> upd_border prev (Some \<circ> set_next (next_node b)) h;
         h \<leftarrow> (if next_node b \<noteq> nullptr then upd_border (next_node b) (Some \<circ> set_prev prev) h else Some h);
         unlock_at prev h
       }
     } else if next_node b \<noteq> nullptr then upd_border (next_node b) (Some \<circ> set_prev nullptr) h
     else Some h
   }"

declare unlink_siblings.simps [code]

definition delete_entry :: "Token \<Rightarrow> addr \<Rightarrow> nat \<Rightarrow> nat \<Rightarrow> bool \<Rightarrow> heap \<Rightarrow> heap option" where
  "delete_entry token this rank pos target_is_value h = do {
     tinfo \<leftarrow> get_session token h;
     b \<leftarrow> get_border this h;
     (tinfo, b, vh) \<leftarrow> delete_at tinfo rank pos target_is_value b (pages h);
     Some (set_session token tinfo (set_node this (Border b) (h\<lparr>pages := vh\<rparr>)))
   }"

partial_function (option) border_delete_of ::
  "Token \<Rightarrow> addr \<Rightarrow> addr \<Rightarrow> key \<Rightarrow> bool \<Rightarrow> heap \<Rightarrow> heap option" where
  "border_delete_of token ti this k target_is_value h = do {
     b \<leftarrow> get_border this h;
     let cnk = get_permutation_cnk b;
     found \<leftarrow> find_entry b k [0..<cnk];
     case found of
       None \<Rightarrow> Some h
     | Some (i, index) \<Rightarrow> do {
         h \<leftarrow> delete_entry token this i index target_is_value h;
         if cnk = 1 then do {
           h \<leftarrow> upd_base this (set_version_deleted True) h;
           r \<leftarrow> load_root_ptr ti h;
           h \<leftarrow> (if r \<noteq> this then upd_base this (set_version_root False) h else Some h);
           h \<leftarrow> unlink_siblings this h;
           (pn, h) \<leftarrow> lock_parent this h;
           if pn = nullptr then unlock_at this h
           else do {
             h \<leftarrow> upd_base this (set_version_root False) h;
             h \<leftarrow> unlock_at this h;
             pbase \<leftarrow> get_base pn h;
             h \<leftarrow> (if border (version pbase) then do {
                     pb \<leftarrow> get_border pn h;
                     lk \<leftarrow> find_layer_key pb this [0..<get_permutation_cnk pb];
                     case lk of
                       None \<Rightarrow> Some h
                     | Some k \<Rightarrow> border_delete_of token ti pn k False h
                   } else interior_delete_of token ti pn this h);
             push_node_garbage token this h
           }
         } else unlock_at this h
       }
   }"

declare border_delete_of.simps [code]

end
