(* ===== verification/Interface.thy ===== *)
theory Interface
  imports Deletion
begin

text \<open>
  \<^verbatim>\<open>include/common_helper.h\<close>, \<^verbatim>\<open>include/interface_get.h\<close>, \<^verbatim>\<open>include/interface_put.h\<close> and
  \<^verbatim>\<open>include/interface_remove.h\<close>: the descent to a border node and the operations on one
  tree. The labels of the sources are the constructors of a datatype; a \<^verbatim>\<open>goto\<close> is a call
  with the label and the variables that are live there.
\<close>

section \<open>Descent\<close>

partial_function (option) get_child_of ::
  "addr \<Rightarrow> key \<Rightarrow> node_version64_body \<Rightarrow> heap \<Rightarrow> (addr \<times> node_version64_body) option" where
  "get_child_of this k v h = do {
     n \<leftarrow> get_interior this h;
     ret_child \<leftarrow> pick_child n k;
     if ret_child = nullptr then Some (nullptr, v)
     else do {
       child_v \<leftarrow> get_stable_version_at ret_child h;
       check_v \<leftarrow> get_stable_version_at this h;
       if body_eq v check_v \<and> \<not> deleted child_v then Some (ret_child, child_v)
       else if get_vsplit v \<noteq> get_vsplit check_v \<or> deleted check_v then Some (nullptr, v)
       else get_child_of this k check_v h
     }
   }"

declare get_child_of.simps [code]

text \<open>\<^verbatim>\<open>dynamic_cast<border_node*>\<close>.\<close>

definition as_border :: "addr \<Rightarrow> heap \<Rightarrow> addr" where
  "as_border p h = (case get_border p h of None \<Rightarrow> nullptr | Some _ \<Rightarrow> p)"

text \<open>
  \<open>None\<close> for the position is the label \<^verbatim>\<open>retry\<close>; \<open>Some (n, v)\<close> the head of the loop at
  node \<open>n\<close> with version \<open>v\<close>.
\<close>

partial_function (option) find_border_loop ::
  "addr \<Rightarrow> key \<Rightarrow> status \<Rightarrow> (addr \<times> node_version64_body) option \<Rightarrow> heap \<Rightarrow>
   (addr \<times> node_version64_body \<times> status) option" where
  "find_border_loop rt k special_status position h =
     (case position of
        None \<Rightarrow> do {
          v \<leftarrow> get_stable_version_at rt h;
          if \<not> root v then Some (nullptr, body_init, WARN_RETRY_FROM_ROOT_OF_ALL)
          else if deleted v then Some (as_border rt h, v, special_status)
          else find_border_loop rt k special_status (Some (rt, v)) h
        }
      | Some (n, v) \<Rightarrow>
          if border v then Some (as_border n h, v, special_status)
          else do {
            (n_child, v) \<leftarrow> get_child_of n k v h;
            if n_child = nullptr then find_border_loop rt k WARN_CONCURRENT_OPERATIONS None h
            else find_border_loop rt k special_status (Some (n_child, v)) h
          })"

declare find_border_loop.simps [code]

definition find_border :: "addr \<Rightarrow> key \<Rightarrow> heap \<Rightarrow> (addr \<times> node_version64_body \<times> status) option" where
  "find_border rt k h = find_border_loop rt k OK None h"

datatype label =
    Root_Nullptr
  | Retry_From_Root
  | Retry_Find_Border addr "byte list"
  | Retry_Fetch_Lv "byte list" addr node_version64_body

text \<open>
  The code between two labels is a step: it ends with a \<^verbatim>\<open>goto\<close> or returns. \<open>run\<close> follows
  the labels; \<open>None\<close> is a step that fails or a loop that never returns.
\<close>

datatype ('l, 'r) outcome = Goto 'l | Return 'r

partial_function (option) run :: "('l \<Rightarrow> ('l, 'r) outcome option) \<Rightarrow> 'l \<Rightarrow> 'r option" where
  "run step l = do {
     x \<leftarrow> step l;
     case x of Goto l \<Rightarrow> run step l | Return r \<Rightarrow> Some r
   }"

declare run.simps [code]

lemma run_Goto: "step l = Some (Goto l') \<Longrightarrow> run step l = run step l'"
  by (simp add: run.simps [of step l])

lemma run_Return: "step l = Some (Return r) \<Longrightarrow> run step l = Some r"
  by (simp add: run.simps [of step l])

text \<open>The two tests behind every optimistic read: is this still the border, is this still the slot.\<close>

definition wrong_border :: "node_version64_body \<Rightarrow> node_version64_body \<Rightarrow> bool" where
  "wrong_border check v_at_fb \<longleftrightarrow>
     get_vsplit check \<noteq> get_vsplit v_at_fb \<or> deleted check \<and> \<not> root check"

definition wrong_lv :: "node_version64_body \<Rightarrow> node_version64_body \<Rightarrow> bool" where
  "wrong_lv check v_at_fetch_lv \<longleftrightarrow> get_vinsert_delete check \<noteq> get_vinsert_delete v_at_fetch_lv"

section \<open>\<^verbatim>\<open>get\<close>\<close>

type_synonym get_result = "status \<times> (addr \<times> 64 word) option"

definition get_from_root :: "addr \<Rightarrow> byte list \<Rightarrow> heap \<Rightarrow> (label, get_result) outcome option" where
  "get_from_root ti key_view h = do {
     rt \<leftarrow> load_root_ptr ti h;
     if rt = nullptr then Some (Return (WARN_NOT_EXIST, None))
     else Some (Goto (Retry_Find_Border rt key_view))
   }"

definition get_find_border :: "addr \<Rightarrow> byte list \<Rightarrow> heap \<Rightarrow> (label, get_result) outcome option" where
  "get_find_border rt traverse_key_view h = do {
     let k = prepare_key_slice traverse_key_view;
     (target_border, v_at_fb, special_status) \<leftarrow> find_border rt k h;
     if special_status = WARN_RETRY_FROM_ROOT_OF_ALL then Some (Goto Retry_From_Root)
     else Some (Goto (Retry_Fetch_Lv traverse_key_view target_border v_at_fb))
   }"

definition get_fetch_lv ::
  "byte list \<Rightarrow> addr \<Rightarrow> node_version64_body \<Rightarrow> heap \<Rightarrow> (label, get_result) outcome option" where
  "get_fetch_lv traverse_key_view target_border v_at_fb h = do {
     let k = prepare_key_slice traverse_key_view;
     b \<leftarrow> get_border target_border h;
     (v_at_fetch_lv, lv_pos) \<leftarrow> get_lv_of b k;
     if wrong_border v_at_fetch_lv v_at_fb then Some (Goto Retry_From_Root)
     else case lv_pos of
       None \<Rightarrow> Some (Return (WARN_NOT_EXIST, None))
     | Some pos \<Rightarrow> do {
         x \<leftarrow> get_lv_at b pos;
         kl \<leftarrow> get_key_length_at (border_base b) pos;
         if unat kl \<le> slice_size then do {
           let vp = get_value x;
           v_body \<leftarrow> get_body (pages h) vp;
           final_check \<leftarrow> get_stable_version_at target_border h;
           if wrong_border final_check v_at_fb then Some (Goto Retry_From_Root)
           else if wrong_lv final_check v_at_fetch_lv
           then Some (Goto (Retry_Fetch_Lv traverse_key_view target_border v_at_fb))
           else do {
             v_len \<leftarrow> get_len (pages h) vp;
             Some (Return (OK, Some (v_body, v_len)))
           }
         } else do {
           let rt = get_next_layer x;
           final_check \<leftarrow> get_stable_version_at target_border h;
           if wrong_border final_check v_at_fb then Some (Goto Retry_From_Root)
           else if wrong_lv final_check v_at_fetch_lv
           then Some (Goto (Retry_Fetch_Lv traverse_key_view target_border v_at_fb))
           else Some (Goto (Retry_Find_Border rt (drop slice_size traverse_key_view)))
         }
       }
   }"

fun get_step :: "addr \<Rightarrow> byte list \<Rightarrow> heap \<Rightarrow> label \<Rightarrow> (label, get_result) outcome option" where
  "get_step ti key_view h Root_Nullptr = Some (Goto Retry_From_Root)"
| "get_step ti key_view h Retry_From_Root = get_from_root ti key_view h"
| "get_step ti key_view h (Retry_Find_Border rt tkv) = get_find_border rt tkv h"
| "get_step ti key_view h (Retry_Fetch_Lv tkv bd v) = get_fetch_lv tkv bd v h"

definition get :: "addr \<Rightarrow> byte list \<Rightarrow> heap \<Rightarrow> get_result option" where
  "get ti key_view h = run (get_step ti key_view h) Retry_From_Root"

section \<open>\<^verbatim>\<open>put\<close>\<close>

text \<open>
  What a call of \<^verbatim>\<open>put\<close> is given beside the key: whether the value type is stored inline,
  the bytes behind \<^verbatim>\<open>v_ptr\<close> with their length and alignment, the uniqueness flag, and
  whether \<^verbatim>\<open>created_value_ptr\<close> is given.
\<close>

record put_args =
  kIsInline :: bool
  v_ptr :: "byte list"
  v_len :: "64 word"
  v_align :: "64 word"
  unique_restriction :: bool
  created_given :: bool

text \<open>
  The result: the status, what is stored through \<^verbatim>\<open>created_value_ptr\<close>, the node whose
  version is reported through \<^verbatim>\<open>inserted_node_version_ptr\<close>, and the heap. The labels of
  \<^verbatim>\<open>put\<close> and \<^verbatim>\<open>remove\<close> carry the heap along.
\<close>

type_synonym put_result = "status \<times> addr option \<times> addr option \<times> heap"
type_synonym put_next = "(label \<times> heap, put_result) outcome"

text \<open>
  With no root yet, the tree becomes one border node; with no other thread the exchange of
  the root pointer succeeds.
\<close>

definition put_root_nullptr :: "addr \<Rightarrow> byte list \<Rightarrow> put_args \<Rightarrow> heap \<Rightarrow> put_next option" where
  "put_root_nullptr ti key_view a h = do {
     expected \<leftarrow> load_root_ptr ti h;
     if expected = nullptr then do {
       (new_border, h) \<leftarrow> new_node (Border new_border_node) h;
       (v, h) \<leftarrow> new_value (kIsInline a) (v_ptr a) (v_len a) (v_align a) h;
       (created, h) \<leftarrow> init_border_with new_border key_view v (created_given a) True h;
       h \<leftarrow> store_root_ptr ti new_border h;
       Some (Return (OK, created, Some new_border, h))
     } else Some (Goto (Retry_From_Root, h))
   }"

definition put_from_root :: "addr \<Rightarrow> byte list \<Rightarrow> heap \<Rightarrow> put_next option" where
  "put_from_root ti key_view h = do {
     rt \<leftarrow> load_root_ptr ti h;
     if rt = nullptr then Some (Goto (Root_Nullptr, h))
     else Some (Goto (Retry_Find_Border rt key_view, h))
   }"

definition put_find_border :: "addr \<Rightarrow> byte list \<Rightarrow> heap \<Rightarrow> put_next option" where
  "put_find_border rt traverse_key_view h = do {
     let k = prepare_key_slice traverse_key_view;
     (target_border, v_at_fb, special_status) \<leftarrow> find_border rt k h;
     if special_status = WARN_RETRY_FROM_ROOT_OF_ALL \<and> \<not> (root v_at_fb \<and> deleted v_at_fb)
     then Some (Goto (Retry_From_Root, h))
     else Some (Goto (Retry_Fetch_Lv traverse_key_view target_border v_at_fb, h))
   }"

text \<open>The branch for a key that is not in the border node.\<close>

definition put_new_key :: "addr \<Rightarrow> put_args \<Rightarrow> byte list \<Rightarrow> addr \<Rightarrow> node_version64_body \<Rightarrow>
    node_version64_body \<Rightarrow> heap \<Rightarrow> put_next option" where
  "put_new_key ti a traverse_key_view target_border v_at_fb v_at_fetch_lv h = do {
     h \<leftarrow> lock_at target_border h;
     b \<leftarrow> get_border target_border h;
     let nv = version (border_base b);
     if wrong_border nv v_at_fb then do {
       h \<leftarrow> unlock_at target_border h;
       Some (Goto (Retry_From_Root, h))
     } else if wrong_lv nv v_at_fetch_lv then do {
       h \<leftarrow> unlock_at target_border h;
       Some (Goto (Retry_Fetch_Lv traverse_key_view target_border v_at_fb, h))
     } else do {
       (v, h) \<leftarrow> new_value (kIsInline a) (v_ptr a) (v_len a) (v_align a) h;
       rank \<leftarrow> compute_rank_if_insert b (prepare_key_slice traverse_key_view);
       (created, inserted, h) \<leftarrow> insert_lv ti target_border traverse_key_view v (created_given a) rank h;
       Some (Return (OK, created, Some inserted, h))
     }
   }"

text \<open>
  The branch for a key that is there: the old value page becomes garbage of the session,
  an old inline value is overwritten.
\<close>

definition put_old_key :: "Token \<Rightarrow> put_args \<Rightarrow> byte list \<Rightarrow> addr \<Rightarrow> nat \<Rightarrow> node_version64_body \<Rightarrow>
    node_version64_body \<Rightarrow> heap \<Rightarrow> put_next option" where
  "put_old_key token a traverse_key_view target_border pos v_at_fb v_at_fetch_lv h =
     (if unique_restriction a then Some (Return (WARN_UNIQUE_RESTRICTION, None, None, h))
      else do {
        h \<leftarrow> lock_at target_border h;
        b \<leftarrow> get_border target_border h;
        let nv = version (border_base b);
        if wrong_border nv v_at_fb then do {
          h \<leftarrow> unlock_at target_border h;
          Some (Goto (Retry_From_Root, h))
        } else if wrong_lv nv v_at_fetch_lv then do {
          h \<leftarrow> unlock_at target_border h;
          Some (Goto (Retry_Fetch_Lv traverse_key_view target_border v_at_fb, h))
        } else do {
          (v, h) \<leftarrow> new_value (kIsInline a) (v_ptr a) (v_len a) (v_align a) h;
          x \<leftarrow> get_lv_at b pos;
          (x, created, old_v, vh) \<leftarrow> set_value (pages h) x v (created_given a) (\<not> kIsInline a);
          h \<leftarrow> upd_border target_border (set_lv pos x) (h\<lparr>pages := vh\<rparr>);
          h \<leftarrow> unlock_at target_border h;
          h \<leftarrow> (case old_v of
                  None \<Rightarrow> Some h
                | Some old_v \<Rightarrow> get_gc_info (pages h) old_v \<bind> (\<lambda>e. push_value_garbage token e h));
          Some (Return (OK, created, None, h))
        }
      })"

text \<open>
  The versions that the source reads without waiting, when a long key meets a slot with a
  short one, are those of the same node record.
\<close>

definition put_fetch_lv :: "Token \<Rightarrow> addr \<Rightarrow> put_args \<Rightarrow> byte list \<Rightarrow> addr \<Rightarrow> node_version64_body \<Rightarrow>
    heap \<Rightarrow> put_next option" where
  "put_fetch_lv token ti a traverse_key_view target_border v_at_fb h = do {
     let k = prepare_key_slice traverse_key_view;
     b \<leftarrow> get_border target_border h;
     (v_at_fetch_lv, lv_pos) \<leftarrow> get_lv_of b k;
     if wrong_border v_at_fetch_lv v_at_fb then Some (Goto (Retry_From_Root, h))
     else case lv_pos of
       None \<Rightarrow> put_new_key ti a traverse_key_view target_border v_at_fb v_at_fetch_lv h
     | Some pos \<Rightarrow> do {
         x \<leftarrow> get_lv_at b pos;
         kl \<leftarrow> get_key_length_at (border_base b) pos;
         if unat kl \<le> slice_size \<and> unat (snd k) \<le> slice_size
         then put_old_key token a traverse_key_view target_border pos v_at_fb v_at_fetch_lv h
         else if unat kl \<le> slice_size \<and> wrong_border (version (border_base b)) v_at_fb
         then Some (Goto (Retry_From_Root, h))
         else if unat kl \<le> slice_size \<and> wrong_lv (version (border_base b)) v_at_fetch_lv
         then Some (Goto (Retry_Fetch_Lv traverse_key_view target_border v_at_fb, h))
         else do {
           let rt = get_next_layer x;
           final_check \<leftarrow> get_stable_version_at target_border h;
           if wrong_border final_check v_at_fb then Some (Goto (Retry_From_Root, h))
           else if wrong_lv final_check v_at_fetch_lv
           then Some (Goto (Retry_Fetch_Lv traverse_key_view target_border v_at_fb, h))
           else Some (Goto (Retry_Find_Border rt (drop slice_size traverse_key_view), h))
         }
       }
   }"

fun put_step :: "Token \<Rightarrow> addr \<Rightarrow> byte list \<Rightarrow> put_args \<Rightarrow> label \<times> heap \<Rightarrow> put_next option" where
  "put_step token ti key_view a (Root_Nullptr, h) = put_root_nullptr ti key_view a h"
| "put_step token ti key_view a (Retry_From_Root, h) = put_from_root ti key_view h"
| "put_step token ti key_view a (Retry_Find_Border rt tkv, h) = put_find_border rt tkv h"
| "put_step token ti key_view a (Retry_Fetch_Lv tkv bd v, h) = put_fetch_lv token ti a tkv bd v h"

definition put :: "Token \<Rightarrow> addr \<Rightarrow> byte list \<Rightarrow> put_args \<Rightarrow> heap \<Rightarrow> put_result option" where
  "put token ti key_view a h = run (put_step token ti key_view a) (Root_Nullptr, h)"

section \<open>\<^verbatim>\<open>remove\<close>\<close>

type_synonym remove_next = "(label \<times> heap, status \<times> heap) outcome"

definition remove_from_root :: "addr \<Rightarrow> byte list \<Rightarrow> heap \<Rightarrow> remove_next option" where
  "remove_from_root ti key_view h = do {
     rt \<leftarrow> load_root_ptr ti h;
     if rt = nullptr then Some (Return (OK_ROOT_IS_NULL, h))
     else Some (Goto (Retry_Find_Border rt key_view, h))
   }"

definition remove_find_border :: "addr \<Rightarrow> byte list \<Rightarrow> heap \<Rightarrow> remove_next option" where
  "remove_find_border rt traverse_key_view h = do {
     let k = prepare_key_slice traverse_key_view;
     (target_border, v_at_fb, special_status) \<leftarrow> find_border rt k h;
     if special_status = WARN_RETRY_FROM_ROOT_OF_ALL then Some (Goto (Retry_From_Root, h))
     else if target_border = nullptr then Some (Goto (Retry_From_Root, h))
     else if get_border target_border h = None then Some (Return (ERR_FATAL, h))
     else Some (Goto (Retry_Fetch_Lv traverse_key_view target_border v_at_fb, h))
   }"

text \<open>The branch that deletes a value from the border node.\<close>

definition remove_value :: "Token \<Rightarrow> addr \<Rightarrow> byte list \<Rightarrow> addr \<Rightarrow> node_version64_body \<Rightarrow>
    node_version64_body \<Rightarrow> heap \<Rightarrow> remove_next option" where
  "remove_value token ti traverse_key_view target_border v_at_fb v_at_fetch_lv h = do {
     let k = prepare_key_slice traverse_key_view;
     h \<leftarrow> lock_at target_border h;
     b \<leftarrow> get_border target_border h;
     let final_check = version (border_base b);
     if wrong_border final_check v_at_fb then do {
       h \<leftarrow> unlock_at target_border h;
       Some (Goto (Retry_From_Root, h))
     } else if wrong_lv final_check v_at_fetch_lv then do {
       h \<leftarrow> unlock_at target_border h;
       Some (Goto (Retry_Fetch_Lv traverse_key_view target_border v_at_fb, h))
     } else do {
       lv_pos \<leftarrow> get_lv_of_without_lock b k;
       case lv_pos of
         None \<Rightarrow> do {
           h \<leftarrow> unlock_at target_border h;
           Some (Return (OK_NOT_FOUND, h))
         }
       | Some _ \<Rightarrow> do {
           h \<leftarrow> border_delete_of token ti target_border k True h;
           Some (Return (OK, h))
         }
     }
   }"

definition remove_fetch_lv :: "Token \<Rightarrow> addr \<Rightarrow> byte list \<Rightarrow> addr \<Rightarrow> node_version64_body \<Rightarrow>
    heap \<Rightarrow> remove_next option" where
  "remove_fetch_lv token ti traverse_key_view target_border v_at_fb h = do {
     let k = prepare_key_slice traverse_key_view;
     b \<leftarrow> get_border target_border h;
     (v_at_fetch_lv, lv_pos) \<leftarrow> get_lv_of b k;
     if wrong_border v_at_fetch_lv v_at_fb then Some (Goto (Retry_From_Root, h))
     else case lv_pos of
       None \<Rightarrow> do {
         final_check \<leftarrow> get_stable_version_at target_border h;
         if wrong_lv final_check v_at_fetch_lv
         then Some (Goto (Retry_Fetch_Lv traverse_key_view target_border v_at_fb, h))
         else Some (Return (OK_NOT_FOUND, h))
       }
     | Some pos \<Rightarrow> do {
         x \<leftarrow> get_lv_at b pos;
         kl \<leftarrow> get_key_length_at (border_base b) pos;
         if unat kl \<le> slice_size
         then remove_value token ti traverse_key_view target_border v_at_fb v_at_fetch_lv h
         else do {
           let rt = get_next_layer x;
           final_check \<leftarrow> get_stable_version_at target_border h;
           if wrong_border final_check v_at_fb then Some (Goto (Retry_From_Root, h))
           else if wrong_lv final_check v_at_fetch_lv
           then Some (Goto (Retry_Fetch_Lv traverse_key_view target_border v_at_fb, h))
           else Some (Goto (Retry_Find_Border rt (drop slice_size traverse_key_view), h))
         }
       }
   }"

fun remove_step :: "Token \<Rightarrow> addr \<Rightarrow> byte list \<Rightarrow> label \<times> heap \<Rightarrow> remove_next option" where
  "remove_step token ti key_view (Root_Nullptr, h) = Some (Goto (Retry_From_Root, h))"
| "remove_step token ti key_view (Retry_From_Root, h) = remove_from_root ti key_view h"
| "remove_step token ti key_view (Retry_Find_Border rt tkv, h) = remove_find_border rt tkv h"
| "remove_step token ti key_view (Retry_Fetch_Lv tkv bd v, h) = remove_fetch_lv token ti tkv bd v h"

definition remove :: "Token \<Rightarrow> addr \<Rightarrow> byte list \<Rightarrow> heap \<Rightarrow> (status \<times> heap) option" where
  "remove token ti key_view h = run (remove_step token ti key_view) (Retry_From_Root, h)"

end
