(* ===== verification/Tree_Heap.thy ===== *)
theory Tree_Heap
  imports Tree_Model Interface
begin

text \<open>
  The trees of \<open>Tree_Model\<close> in the heap: when the nodes behind a root pointer hold a given
  tree, and what the descent and \<^verbatim>\<open>get\<close> do on such a heap.
\<close>

section \<open>Representation\<close>

fun lv_word :: "content \<Rightarrow> link_or_value" where
  "lv_word (Val v) = v"
| "lv_word (Sub t) = set_next_layer (addr_of t)"

text \<open>
  A border node that no thread is writing, with its entries. Only an empty node may be
  marked as deleted, and only the root of a tree may be empty.
\<close>

definition leaf_node :: "addr \<Rightarrow> bool \<Rightarrow> (key \<times> content) list \<Rightarrow> border_node \<Rightarrow> bool" where
  "leaf_node par is_root es b \<longleftrightarrow> border_wf b \<and> parent (border_base b) = par \<and>
     (let v = version (border_base b) in
        is_stable v \<and> border v \<and> (root v \<longleftrightarrow> is_root) \<and> (deleted v \<longrightarrow> is_root \<and> es = [])) \<and>
     border_entries b = map (\<lambda>(k, c). (k, lv_word c)) es"

definition branch_node :: "addr \<Rightarrow> bool \<Rightarrow> key list \<Rightarrow> addr list \<Rightarrow> interior_node \<Rightarrow> bool" where
  "branch_node par is_root ks cs n \<longleftrightarrow> interior_wf n \<and> parent (interior_base n) = par \<and>
     (let v = version (interior_base n) in
        is_stable v \<and> \<not> border v \<and> (root v \<longleftrightarrow> is_root) \<and> \<not> deleted v) \<and>
     interior_keys n = ks \<and> interior_children n = cs"

text \<open>A value word is inline or the tagged address of a page.\<close>

definition value_at :: "value_pages \<Rightarrow> 64 word \<Rightarrow> bool" where
  "value_at vh v \<longleftrightarrow> remove_ptr_flag v = v \<or> vh (remove_ptr_flag v) \<noteq> None"

text \<open>The leaves of a layer form a list linked in both directions.\<close>

fun linked :: "heap \<Rightarrow> addr \<Rightarrow> addr list \<Rightarrow> bool" where
  "linked h q [] \<longleftrightarrow> True"
| "linked h q (p # ps) \<longleftrightarrow> (case nodes h p of
       Some (Border b) \<Rightarrow> prev_node b = q \<and> next_node b = (case ps of [] \<Rightarrow> nullptr | p' # _ \<Rightarrow> p')
     | _ \<Rightarrow> False) \<and> linked h p ps"

fun tree_at :: "heap \<Rightarrow> addr \<Rightarrow> bool \<Rightarrow> tree \<Rightarrow> bool"
  and content_at :: "heap \<Rightarrow> addr \<Rightarrow> content \<Rightarrow> bool" where
  "tree_at h par is_root (Leaf p es) \<longleftrightarrow> (case nodes h p of
       Some (Border b) \<Rightarrow> leaf_node par is_root es b
     | _ \<Rightarrow> False) \<and> (\<forall>(k, c) \<in> set es. content_at h p c)"
| "tree_at h par is_root (Branch p ks ts) \<longleftrightarrow> (case nodes h p of
       Some (Interior n) \<Rightarrow> branch_node par is_root ks (map addr_of ts) n
     | _ \<Rightarrow> False) \<and> (\<forall>t \<in> set ts. tree_at h p False t)"
| "content_at h p (Val v) \<longleftrightarrow> value_at (pages h) v"
| "content_at h p (Sub t) \<longleftrightarrow> tree_at h p True t \<and> linked h nullptr (map fst (layer_leaves t))"

text \<open>The tree instance \<open>ti\<close> holds the tree \<open>t\<close>.\<close>

definition tree_rep :: "heap \<Rightarrow> addr \<Rightarrow> tree \<Rightarrow> bool" where
  "tree_rep h ti t \<longleftrightarrow> load_root_ptr ti h = Some (addr_of t) \<and> tree_wf t \<and>
     tree_at h nullptr True t \<and> linked h nullptr (map fst (layer_leaves t))"

lemma tree_at_Leaf:
  "tree_at h par rt (Leaf p es) \<longleftrightarrow>
     (\<exists>b. nodes h p = Some (Border b) \<and> leaf_node par rt es b \<and> (\<forall>(k, c) \<in> set es. content_at h p c))"
  by (auto split: option.splits node.splits)

lemma tree_at_Branch:
  "tree_at h par rt (Branch p ks ts) \<longleftrightarrow>
     (\<exists>n. nodes h p = Some (Interior n) \<and> branch_node par rt ks (map addr_of ts) n \<and>
       (\<forall>t \<in> set ts. tree_at h p False t))"
  by (auto split: option.splits node.splits)

lemma linked_suffix: "linked h q (xs @ p # ps) \<Longrightarrow> \<exists>q'. linked h q' (p # ps)"
  by (induction xs arbitrary: q) auto

text \<open>What every node of a tree promises to the descent.\<close>

lemma tree_at_base:
  assumes "tree_at h par rt t"
  obtains b where "get_base (addr_of t) h = Some b" "is_stable (version b)" "root (version b) \<longleftrightarrow> rt"
    "parent b = par" "deleted (version b) \<Longrightarrow> rt \<and> layer_entries t = []"
    "border (version b) \<longleftrightarrow> (\<exists>p es. t = Leaf p es)"
proof (cases t)
  case (Leaf p es)
  then show ?thesis using assms that unfolding Leaf tree_at_Leaf
    by (auto simp: get_base_def leaf_node_def Let_def)
next
  case (Branch p ks ts)
  then show ?thesis using assms that unfolding Branch tree_at_Branch
    by (auto simp: get_base_def branch_node_def Let_def)
qed

section \<open>Descent\<close>

lemma get_stable_version_at_eq:
  "get_base p h = Some b \<Longrightarrow> is_stable (version b) \<Longrightarrow> get_stable_version_at p h = Some (version b)"
  by (simp add: get_stable_version_at_def get_stable_version_def)

text \<open>
  The descent sees a key only through the choice of children: \<open>k\<close> may be any word and length
  that chooses like the canonical key \<open>c\<close>.
\<close>

definition descends_like :: "key \<Rightarrow> key \<Rightarrow> bool" where
  "descends_like k c \<longleftrightarrow> canonical c \<and> (\<forall>n. interior_wf n \<longrightarrow> pick_child n k = pick_child n c)"

lemma descends_like_refl: "canonical k \<Longrightarrow> descends_like k k"
  by (simp add: descends_like_def)

lemma get_child_of_eq:
  assumes "nodes h p = Some (Interior n)" and "branch_node par rt ks cs n" and "descends_like k0 k"
    and "get_base (cs ! rank_le k ks) h = Some b" and "is_stable (version b)" and "\<not> deleted (version b)"
  shows "get_child_of p k0 (version (interior_base n)) h = Some (cs ! rank_le k ks, version b)"
proof -
  have n: "interior_wf n" "is_stable (version (interior_base n))" "interior_keys n = ks" "interior_children n = cs"
    using assms(2) by (simp_all add: branch_node_def Let_def)
  have "length cs = Suc (length ks)" using length_interior [OF n(1)] n by simp
  then have "cs ! rank_le k ks \<in> set cs" using rank_le_length [of k ks] by simp
  then have "cs ! rank_le k ks \<noteq> nullptr" using n by (auto simp: interior_wf_def)
  moreover have "get_stable_version_at p h = Some (version (interior_base n))"
    using assms(1) n(2) by (intro get_stable_version_at_eq) (simp_all add: get_base_def)
  moreover have "get_interior p h = Some n" using assms(1) by (simp add: get_interior_Some)
  ultimately show ?thesis
    using pick_child_eq [OF n(1)] assms(3) n get_stable_version_at_eq [OF assms(4,5)] assms(6)
    by (simp add: get_child_of.simps [of p] body_eq_iff descends_like_def)
qed

text \<open>The border node that the descent for \<open>k\<close> reaches.\<close>

definition leaf_at :: "heap \<Rightarrow> addr \<times> (key \<times> content) list \<Rightarrow> border_node \<Rightarrow> bool" where
  "leaf_at h l b \<longleftrightarrow> nodes h (fst l) = Some (Border b) \<and> fst l \<noteq> nullptr \<and>
     (\<exists>par rt. leaf_node par rt (snd l) b) \<and> (\<forall>(k, c) \<in> set (snd l). content_wf k c \<and> content_at h (fst l) c)"

lemma find_border_loop_descend:
  assumes "tree_wf t" and "tree_at h par rt t" and "get_base (addr_of t) h = Some b" and "descends_like k0 k"
  shows "\<exists>b'. find_border_loop rp k0 st (Some (addr_of t, version b)) h =
      Some (fst (descend k t), version (border_base b'), st) \<and> leaf_at h (descend k t) b'"
  using assms
proof (induction t arbitrary: par rt b rule: tree_induct)
  case (Leaf p es)
  then obtain b' where b': "nodes h p = Some (Border b')" "leaf_node par rt es b'"
    "\<forall>(k, c) \<in> set es. content_at h p c" "b = border_base b'"
    unfolding tree_at_Leaf by (auto simp: get_base_def)
  moreover have "as_border p h = p" using b'(1) by (simp add: as_border_def get_border_def)
  moreover have "border (version b)" using b' by (simp add: leaf_node_def Let_def)
  moreover have "p \<noteq> nullptr" using Leaf.prems by (simp add: valid_ptr_def)
  ultimately show ?case
    using Leaf.prems(1) by (auto simp: find_border_loop.simps [of _ _ _ "Some _"] leaf_at_def)
next
  case (Branch p ks ts)
  let ?t = "ts ! rank_le k ks"
  obtain n where n: "nodes h p = Some (Interior n)" "branch_node par rt ks (map addr_of ts) n"
    "\<forall>t \<in> set ts. tree_at h p False t" "b = interior_base n"
    using Branch.prems unfolding tree_at_Branch by (auto simp: get_base_def)
  have "length ts = Suc (length ks)" using Branch.prems by (simp add: pivots_ok_def)
  then have r: "rank_le k ks < length ts" using rank_le_length [of k ks] by simp
  then have t: "?t \<in> set ts" "tree_wf ?t" "layer_entries ?t \<noteq> []" using Branch.prems by simp_all
  obtain c where c: "get_base (addr_of ?t) h = Some c" "is_stable (version c)" "\<not> deleted (version c)"
    using tree_at_base [of h p False ?t] n(3) t by metis
  have "get_child_of p k0 (version b) h = Some (addr_of ?t, version c)"
    using get_child_of_eq [OF n(1,2) Branch.prems(4), of c] c r n(4) by simp
  moreover have "\<not> border (version b)" using n by (simp add: branch_node_def Let_def)
  moreover have "addr_of ?t \<noteq> nullptr" using tree_wf_valid_ptr [OF t(2)] by (simp add: valid_ptr_def)
  ultimately have "find_border_loop rp k0 st (Some (p, version b)) h =
      find_border_loop rp k0 st (Some (addr_of ?t, version c)) h"
    by (simp add: find_border_loop.simps [of _ _ _ "Some (p, version b)"])
  moreover have "tree_at h p False ?t" using n(3) t(1) by blast
  ultimately show ?case using Branch.IH [OF t(1,2) _ c(1) Branch.prems(4)] r by simp
qed

text \<open>From the root of a layer.\<close>

lemma find_border_descend:
  assumes "tree_wf t" and "tree_at h par True t" and "descends_like k0 k"
  shows "\<exists>b. find_border (addr_of t) k0 h = Some (fst (descend k t), version (border_base b), OK) \<and>
    leaf_at h (descend k t) b"
proof -
  obtain b where b: "get_base (addr_of t) h = Some b" "is_stable (version b)" "root (version b)"
    "deleted (version b) \<Longrightarrow> layer_entries t = []"
    "border (version b) \<longleftrightarrow> (\<exists>p es. t = Leaf p es)"
    using tree_at_base [OF assms(2)] by metis
  note loop = find_border_loop_descend [OF assms(1,2) b(1) assms(3), of "addr_of t" OK]
  have st: "get_stable_version_at (addr_of t) h = Some (version b)"
    by (rule get_stable_version_at_eq [OF b(1,2)])
  show ?thesis
  proof (cases "deleted (version b)")
    case False
    then show ?thesis using loop st b(3) by (simp add: find_border_def find_border_loop.simps [of _ _ _ None])
  next
    case True
    have "\<exists>p. t = Leaf p []"
    proof (cases t)
      case (Branch p ks ts)
      then show ?thesis using b(4) [OF True] assms(1) by (cases ts) (auto simp: pivots_ok_def)
    qed (use b(4) [OF True] in simp)
    then obtain p where t: "t = Leaf p []" by blast
    then have "border (version b)" using b(5) by blast
    then have "find_border_loop (addr_of t) k0 OK (Some (addr_of t, version b)) h =
        Some (as_border (addr_of t) h, version b, OK)"
      by (simp add: find_border_loop.simps [of _ _ _ "Some _"])
    then show ?thesis using loop st b(3) True
      by (simp add: find_border_def find_border_loop.simps [of _ _ _ None])
  qed
qed

section \<open>Fetching\<close>

text \<open>The slot of a key holds the word of its entry.\<close>

lemma leaf_slot:
  assumes "leaf_at h (p, es) b"
  shows "map_option (\<lambda>i. lv_arr b ! i) (slot_of b k) = map_option lv_word (map_of es k)"
    and "slot_of b k = Some i \<Longrightarrow> get_lv_at b i = Some (lv_arr b ! i) \<and>
      get_key_length_at (border_base b) i = Some (snd k)"
proof -
  have b: "border_wf b" "border_entries b = map (\<lambda>(k, c). (k, lv_word c)) es"
    using assms by (auto simp: leaf_at_def leaf_node_def Let_def)
  show "map_option (\<lambda>i. lv_arr b ! i) (slot_of b k) = map_option lv_word (map_of es k)"
    using slot_of_entries [OF b(1)] b(2) by (simp add: map_of_map)
  assume "slot_of b k = Some i"
  then have "k \<in> set (border_keys b)" using slot_of_None [of b k] by (cases "k \<in> set (border_keys b)") auto
  then obtain r where r: "r < get_permutation_cnk b" "border_keys b ! r = k"
    by (auto simp: in_set_conv_nth length_border_keys)
  then have "i = perm_list (perm_body b) ! r" using slot_of_Some [OF b(1) r(1)] \<open>slot_of b k = Some i\<close> by simp
  then show "get_lv_at b i = Some (lv_arr b ! i) \<and> get_key_length_at (border_base b) i = Some (snd k)"
    using border_slot [OF b(1) r(1)] border_slot_key [OF b(1) r(1)] r(2) by simp
qed

lemma leaf_at_stable:
  assumes "leaf_at h (p, es) b"
  shows "get_border p h = Some b" and "get_stable_version_at p h = Some (version (border_base b))"
    and "\<not> wrong_border (version (border_base b)) (version (border_base b))"
    and "get_lv_of b (prepare_key_slice s) = Some (version (border_base b), slot_of b (prepare_key_slice s))"
  using assms get_lv_of_eq [of b "prepare_key_slice s"]
  by (auto simp: leaf_at_def leaf_node_def Let_def get_border_Some wrong_border_def canonical_prepare
      get_base_def intro!: get_stable_version_at_eq)

lemma leaf_content:
  "leaf_at h (p, es) b \<Longrightarrow> map_of es k = Some c \<Longrightarrow> content_wf k c \<and> content_at h p c"
  by (auto simp: leaf_at_def dest!: map_of_SomeD)

text \<open>What a reader is handed for a value: where its bytes are and how many.\<close>

definition value_view :: "value_pages \<Rightarrow> 64 word \<Rightarrow> addr \<times> 64 word" where
  "value_view vh v = (the (get_body vh v), the (get_len vh v))"

lemma value_at_read:
  assumes "value_at vh v"
  shows "get_body vh v = Some (fst (value_view vh v))" and "get_len vh v = Some (snd (value_view vh v))"
  using assms by (auto simp: value_at_def value_view_def get_body_def get_len_def Let_def)

lemma get_fetch_lv_eq:
  assumes "leaf_at h (p, es) b"
  shows "get_fetch_lv s p (version (border_base b)) h = Some
    (case map_of es (prepare_key_slice s) of
       None \<Rightarrow> Return (WARN_NOT_EXIST, None)
     | Some (Val v) \<Rightarrow> Return (OK, Some (value_view (pages h) v))
     | Some (Sub t) \<Rightarrow> Goto (Retry_Find_Border (addr_of t) (drop slice_size s)))"
proof -
  let ?k = "prepare_key_slice s"
  note st = leaf_at_stable [OF assms]
  show ?thesis
  proof (cases "map_of es ?k")
    case None
    then have "slot_of b ?k = None" using leaf_slot(1) [OF assms, of ?k] by simp
    then show ?thesis using st None by (simp add: get_fetch_lv_def)
  next
    case (Some c)
    then obtain i where i: "slot_of b ?k = Some i" "lv_arr b ! i = lv_word c"
      using leaf_slot(1) [OF assms, of ?k] by auto
    have c: "content_wf ?k c" "content_at h p c" using leaf_content [OF assms Some] by simp_all
    note rd = leaf_slot(2) [OF assms i(1)]
    show ?thesis
    proof (cases c)
      case (Val v)
      then show ?thesis using st i rd c Some value_at_read [of "pages h" v]
        by (simp add: get_fetch_lv_def wrong_lv_def)
    next
      case (Sub t)
      have "get_next_layer (set_next_layer (addr_of t)) = addr_of t"
        using c(1) Sub by (intro set_next_layer_roundtrip(1) tree_wf_valid_ptr) simp
      then show ?thesis using st i rd c(1) Some Sub by (simp add: get_fetch_lv_def wrong_lv_def)
    qed
  qed
qed

lemma get_layers:
  assumes "tree_wf t" and "tree_at h par True t"
  shows "run (get_step ti key h) (Retry_Find_Border (addr_of t) s) = Some
    (case map_of (tree_entries t) s of
       None \<Rightarrow> (WARN_NOT_EXIST, None) | Some v \<Rightarrow> (OK, Some (value_view (pages h) v)))"
  using assms
proof (induction "length s" arbitrary: s t par rule: less_induct)
  case less
  let ?k = "prepare_key_slice s" and ?run = "run (get_step ti key h)"
  obtain p es where d: "descend ?k t = (p, es)" by (rule prod.exhaust)
  obtain b where b: "find_border (addr_of t) ?k h = Some (p, version (border_base b), OK)" "leaf_at h (p, es) b"
    using find_border_descend [OF less.prems descends_like_refl [OF canonical_prepare [of s]]] d by auto
  have es: "map_of (layer_entries t) ?k = map_of es ?k"
    using descend_lookup [OF less.prems(1), of ?k] d by simp
  have "?run (Retry_Find_Border (addr_of t) s) = ?run (Retry_Fetch_Lv s p (version (border_base b)))"
    by (rule run_Goto) (simp add: get_find_border_def b(1))
  also have "\<dots> = (case map_of es ?k of
       None \<Rightarrow> Some (WARN_NOT_EXIST, None) | Some (Val v) \<Rightarrow> Some (OK, Some (value_view (pages h) v))
     | Some (Sub t') \<Rightarrow> ?run (Retry_Find_Border (addr_of t') (drop slice_size s)))"
    using get_fetch_lv_eq [OF b(2), of s] by (simp add: run.simps [of _ "Retry_Fetch_Lv _ _ _"]
        split: option.splits content.splits)
  also have "\<dots> = Some (case map_of (tree_entries t) s of
       None \<Rightarrow> (WARN_NOT_EXIST, None) | Some v \<Rightarrow> (OK, Some (value_view (pages h) v)))"
  proof (cases "\<exists>t'. map_of es ?k = Some (Sub t')")
    case True
    then obtain t' where t': "map_of es ?k = Some (Sub t')" by blast
    then have c: "content_wf ?k (Sub t')" "content_at h p (Sub t')" using leaf_content [OF b(2)] by blast+
    then have "length (drop slice_size s) < length s" using prepare_length [of s] by auto
    then show ?thesis
      using less.hyps [of "drop slice_size s" t' p] c t' map_of_tree_entries [OF less.prems(1), of s]
      by (simp add: es)
  next
    case False
    then show ?thesis using map_of_tree_entries [OF less.prems(1), of s]
      by (auto simp: es split: option.splits content.splits)
  qed
  finally show ?case .
qed

text \<open>From the root of the tree.\<close>

lemma get_lookup:
  assumes "tree_rep h ti t"
  shows "get ti key h = Some (case map_of (tree_entries t) key of
     None \<Rightarrow> (WARN_NOT_EXIST, None) | Some v \<Rightarrow> (OK, Some (value_view (pages h) v)))"
proof -
  have t: "load_root_ptr ti h = Some (addr_of t)" "tree_wf t" "tree_at h nullptr True t"
    using assms by (simp_all add: tree_rep_def)
  have "addr_of t \<noteq> nullptr" using tree_wf_valid_ptr [OF t(2)] by (simp add: valid_ptr_def)
  then have "get_step ti key h Retry_From_Root = Some (Goto (Retry_Find_Border (addr_of t) key))"
    using t(1) by (simp add: get_from_root_def)
  then have "get ti key h = run (get_step ti key h) (Retry_Find_Border (addr_of t) key)"
    unfolding get_def by (rule run_Goto)
  then show ?thesis using get_layers [OF t(2,3)] by simp
qed

section \<open>A sample tree\<close>

text \<open>
  A heap with a tree of two layers: a root with two leaves, the second of which holds a key of
  nine bytes in a layer of its own.
\<close>

definition plain_base :: "addr \<Rightarrow> bool \<Rightarrow> bool \<Rightarrow> key list \<Rightarrow> base_node" where
  "plain_base par is_root is_border ks =
     \<lparr>key_slice_arr = map fst ks @ replicate (key_slice_length - length ks) 0, parent = par,
      version = body_init\<lparr>root := is_root, border := is_border\<rparr>,
      key_length_arr = map snd ks @ replicate (key_slice_length - length ks) 0\<rparr>"

definition plain_leaf :: "addr \<Rightarrow> bool \<Rightarrow> addr \<Rightarrow> addr \<Rightarrow> (key \<times> content) list \<Rightarrow> node" where
  "plain_leaf par is_root left right es = Border
     \<lparr>border_base = plain_base par is_root True (map fst es), perm_body = split_dest (length es),
      lv_arr = map (lv_word \<circ> snd) es @ replicate (key_slice_length - length es) init_lv,
      prev_node = left, next_node = right\<rparr>"

definition plain_branch :: "addr \<Rightarrow> bool \<Rightarrow> key list \<Rightarrow> addr list \<Rightarrow> node" where
  "plain_branch par is_root ks cs = Interior
     \<lparr>interior_base = plain_base par is_root False ks, n_keys = of_nat (length ks),
      children = cs @ replicate (child_length - length cs) nullptr\<rparr>"

definition sample_lower :: "(key \<times> content) list" where
  "sample_lower = [((1, 1), Val 101), ((2, 1), Val 102)]"

definition sample_layer :: "(key \<times> content) list" where
  "sample_layer = [((17, 1), Val 117)]"

definition sample_higher :: "(key \<times> content) list" where
  "sample_higher = [((9, 1), Val 109), ((0x1111111111111111, 9), Sub (Leaf 256 sample_layer))]"

definition sample_tree :: tree where
  "sample_tree = Branch 192 [(9, 1)] [Leaf 64 sample_lower, Leaf 128 sample_higher]"

definition sample_heap :: heap where
  "sample_heap = (initial_heap 1 [320, 384, 448, 512])\<lparr>storages_root := 192, nodes :=
     [192 \<mapsto> plain_branch nullptr True [(9, 1)] [64, 128],
      64 \<mapsto> plain_leaf 192 False nullptr 128 sample_lower,
      128 \<mapsto> plain_leaf 192 False 64 nullptr sample_higher,
      256 \<mapsto> plain_leaf 128 True nullptr nullptr sample_layer]\<rparr>"

lemma sample_tree_rep: "tree_rep sample_heap storages sample_tree"
  by code_simp

section \<open>Properties\<close>

text \<open>
  C1. \<^verbatim>\<open>get\<close> refines the lookup in a map from byte strings to values: on a heap that holds a
  well-formed tree of any number of layers, with no writer under way, it returns, reports a
  key as absent exactly when no entry of the tree has it, and otherwise hands out the body
  and the length of the value stored for it.
\<close>

theorem get_refines_lookup:
  assumes "tree_rep h ti t"
  shows "get ti key h = Some (case map_of (tree_entries t) key of
     None \<Rightarrow> (WARN_NOT_EXIST, None) | Some v \<Rightarrow> (OK, Some (value_view (pages h) v)))"
  by (rule get_lookup [OF assms])

theorem get_refines_lookup_witness:
  "tree_rep sample_heap storages sample_tree \<and>
   get storages (replicate 9 17) sample_heap = Some (OK, Some (value_view (pages sample_heap) 117)) \<and>
   get storages [17] sample_heap = Some (WARN_NOT_EXIST, None)"
proof -
  have m: "map_of (tree_entries sample_tree) (replicate 9 17) = Some 117"
    "map_of (tree_entries sample_tree) [17] = None" by code_simp+
  show ?thesis
    using get_refines_lookup [OF sample_tree_rep, of "replicate 9 17"]
      get_refines_lookup [OF sample_tree_rep, of "[17]"] sample_tree_rep
    by (simp only: m option.case simp_thms)
qed

end
