(* ===== verification/Scan.thy ===== *)
theory Scan
  imports Interface
begin

text \<open>
  \<^verbatim>\<open>include/scan_helper.h\<close> and \<^verbatim>\<open>include/interface_scan.h\<close>: range scans. A border node is
  scanned entry by entry; an entry with a next layer is scanned by a nested call. The
  nested call is a parameter of the scan of a border node, and the recursion over the
  layers is bounded by a depth: with no depth left the result is \<open>None\<close>.
\<close>

section \<open>Results and arguments\<close>

record scan_out =
  tuple_list :: "(byte list \<times> addr \<times> 64 word) list"
  node_version_vec :: "(node_version64_body \<times> addr) list option"

record scan_range =
  l_key :: "byte list"
  l_end :: scan_endpoint
  r_key :: "byte list"
  r_end :: scan_endpoint
  max_size :: nat

definition push_node_version :: "node_version64_body \<Rightarrow> addr \<Rightarrow> scan_out \<Rightarrow> scan_out" where
  "push_node_version v p out = out\<lparr>node_version_vec := map_option (\<lambda>xs. xs @ [(v, p)]) (node_version_vec out)\<rparr>"

text \<open>The lambda \<^verbatim>\<open>clean_up_tuple_list_nvc\<close>: back to the sizes recorded earlier.\<close>

definition clean_up :: "scan_out \<Rightarrow> scan_out \<Rightarrow> scan_out" where
  "clean_up initial out = out\<lparr>tuple_list := take (length (tuple_list initial)) (tuple_list out),
     node_version_vec := (case node_version_vec initial of None \<Rightarrow> node_version_vec out
        | Some xs \<Rightarrow> map_option (take (length xs)) (node_version_vec out))\<rparr>"

type_synonym layer_scan =
  "addr \<Rightarrow> scan_range \<Rightarrow> byte list \<Rightarrow> scan_out \<Rightarrow> heap \<Rightarrow> (status \<times> scan_out) option"

section \<open>One border node\<close>

definition scan_check_retry ::
  "addr \<Rightarrow> node_version64_body \<Rightarrow> heap \<Rightarrow> (status \<times> node_version64_body) option" where
  "scan_check_retry bn v_at_fb h = do {
     check \<leftarrow> get_stable_version_at bn h;
     if \<not> body_eq check v_at_fb then
       (if get_vsplit check \<noteq> get_vsplit v_at_fb \<or> deleted check then Some (OK_RETRY_FROM_ROOT, v_at_fb)
        else Some (OK_RETRY_AFTER_FB, check))
     else Some (OK, v_at_fb)
   }"

text \<open>The key of an entry: the prefix of the layer and the bytes of the slice.\<close>

definition full_key_of :: "byte list \<Rightarrow> key \<Rightarrow> byte list" where
  "full_key_of key_prefix k =
     (if snd k > 0 then key_prefix @ take (if unat (snd k) < slice_size then unat (snd k) else slice_size)
        (slice_bytes (fst k)) else key_prefix)"

definition l_key_slice :: "byte list \<Rightarrow> key_slice_type" where
  "l_key_slice lk = memcpy_slice 0 lk (if length lk < slice_size then length lk else slice_size)"

definition r_cmp :: "byte list \<Rightarrow> byte list \<Rightarrow> int" where
  "r_cmp rk full_key = memcmp rk full_key (if length rk < length full_key then length rk else length full_key)"

text \<open>
  The endpoints for the nested scan of an entry with a next layer: \<open>Inl status\<close> where the
  source returns, \<open>Inr None\<close> where it continues with the next entry.
\<close>

definition layer_range ::
  "scan_range \<Rightarrow> key_slice_type \<Rightarrow> byte list \<Rightarrow> status + scan_range option" where
  "layer_range a ks full_key =
     (let l = (if l_end a = INFINITE then Some ([], INFINITE)
               else let ret_cmp = memcmp (slice_bytes (l_key_slice (l_key a))) (slice_bytes ks) slice_size
                    in if ret_cmp < 0 then Some ([], INFINITE)
                       else if ret_cmp = 0
                       then Some (if length (l_key a) > slice_size then drop slice_size (l_key a) else [], l_end a)
                       else None)
      in case l of
           None \<Rightarrow> Inr None
         | Some (lk, le) \<Rightarrow>
             if r_end a = INFINITE then Inr (Some (a\<lparr>l_key := lk, l_end := le, r_key := [], r_end := INFINITE\<rparr>))
             else let ret_cmp = r_cmp (r_key a) full_key
                  in if ret_cmp < 0 then Inl OK_SCAN_END
                     else if ret_cmp = 0
                     then (if length (r_key a) \<le> length full_key then Inl OK_SCAN_END
                           else Inr (Some (a\<lparr>l_key := lk, l_end := le\<rparr>)))
                     else Inr (Some (a\<lparr>l_key := lk, l_end := le, r_key := [], r_end := INFINITE\<rparr>)))"

text \<open>The position of a value entry relative to the range.\<close>

datatype position = Before_Range | In_Range | After_Range

definition value_position :: "scan_range \<Rightarrow> key \<Rightarrow> byte list \<Rightarrow> position" where
  "value_position a k full_key =
     (if l_end a = INFINITE \<and> r_end a = INFINITE then In_Range
      else if l_end a \<noteq> INFINITE \<and>
        (let l_cmp = memcmp (slice_bytes (l_key_slice (l_key a))) (slice_bytes (fst k)) slice_size
         in l_cmp > 0 \<or> l_cmp = 0 \<and> (length (l_key a) > unat (snd k) \<or>
              length (l_key a) = unat (snd k) \<and> l_end a = EXCLUSIVE)) then Before_Range
      else if r_end a = INFINITE then In_Range
      else let c = r_cmp (r_key a) full_key
           in if c > 0 \<or> c = 0 \<and> (length (r_key a) > length full_key \<or>
                length (r_key a) = length full_key \<and> r_end a = INCLUSIVE) then In_Range
              else After_Range)"

text \<open>The lambda \<^verbatim>\<open>in_range\<close>: the status and the results with the entry.\<close>

definition push_entry :: "scan_range \<Rightarrow> byte list \<Rightarrow> 64 word \<Rightarrow> node_version64_body \<Rightarrow> addr \<Rightarrow>
    scan_out \<Rightarrow> value_pages \<Rightarrow> (status \<times> scan_out) option" where
  "push_entry a full_key vp v_at_fb bn out vh = do {
     v_body \<leftarrow> get_body vh vp;
     v_len \<leftarrow> get_len vh vp;
     let out = push_node_version v_at_fb bn (out\<lparr>tuple_list := tuple_list out @ [(full_key, v_body, v_len)]\<rparr>);
     Some (if max_size a \<noteq> 0 \<and> length (tuple_list out) \<ge> max_size a then OK_SCAN_END else OK, out)
   }"

text \<open>
  What the loop over the entries ends with: all entries done (with the flag
  \<^verbatim>\<open>tuple_pushed_num\<close>), a return of \<^verbatim>\<open>scan_border\<close>, or \<^verbatim>\<open>goto retry\<close>.
\<close>

datatype entries_end =
    Entries_Done bool node_version64_body scan_out
  | Entries_Return status node_version64_body scan_out
  | Entries_Retry node_version64_body scan_out

fun scan_entries :: "layer_scan \<Rightarrow> scan_range \<Rightarrow> byte list \<Rightarrow> addr \<Rightarrow> border_node \<Rightarrow> scan_out \<Rightarrow>
    nat list \<Rightarrow> bool \<Rightarrow> node_version64_body \<Rightarrow> scan_out \<Rightarrow> heap \<Rightarrow> entries_end option" where
  "scan_entries sub a key_prefix bn b initial [] pushed v_at_fb out h =
     Some (Entries_Done pushed v_at_fb out)"
| "scan_entries sub a key_prefix bn b initial (i # is) pushed v_at_fb out h = do {
     let index = get_index_of_rank (perm_body b) i;
     ks \<leftarrow> get_key_slice_at (border_base b) index;
     kl \<leftarrow> get_key_length_at (border_base b) index;
     let full_key = full_key_of key_prefix (ks, kl);
     x \<leftarrow> get_lv_at b index;
     let vp = get_value x;
     let next_layer = get_next_layer x;
     (check_status, v_at_fb) \<leftarrow> scan_check_retry bn v_at_fb h;
     if check_status = OK_RETRY_FROM_ROOT
     then Some (Entries_Return OK_RETRY_FROM_ROOT v_at_fb (clean_up initial out))
     else if check_status = OK_RETRY_AFTER_FB then Some (Entries_Retry v_at_fb (clean_up initial out))
     else if unat kl > slice_size then
       (case layer_range a ks full_key of
          Inl st \<Rightarrow> Some (Entries_Return st v_at_fb out)
        | Inr None \<Rightarrow> scan_entries sub a key_prefix bn b initial is pushed v_at_fb out h
        | Inr (Some a') \<Rightarrow> do {
            (check_status, out) \<leftarrow> sub next_layer a' full_key out h;
            if check_status \<noteq> OK then Some (Entries_Retry v_at_fb (clean_up initial out))
            else scan_entries sub a key_prefix bn b initial is pushed v_at_fb out h
          })
     else
       (case value_position a (ks, kl) full_key of
          Before_Range \<Rightarrow> scan_entries sub a key_prefix bn b initial is pushed v_at_fb out h
        | In_Range \<Rightarrow> do {
            (st, out) \<leftarrow> push_entry a full_key vp v_at_fb bn out (pages h);
            if st \<noteq> OK then Some (Entries_Return OK_SCAN_END v_at_fb out)
            else scan_entries sub a key_prefix bn b initial is True v_at_fb out h
          }
        | After_Range \<Rightarrow>
            Some (Entries_Return OK_SCAN_END v_at_fb (if pushed then out else push_node_version v_at_fb bn out)))
   }"

text \<open>
  \<^verbatim>\<open>scan_border\<close>: status, the node to go on with, its version and the results. A step is
  one pass from the label \<^verbatim>\<open>retry\<close>.
\<close>

type_synonym border_result = "status \<times> addr \<times> node_version64_body \<times> scan_out"

definition scan_border_step :: "layer_scan \<Rightarrow> scan_range \<Rightarrow> byte list \<Rightarrow> addr \<Rightarrow> scan_out \<Rightarrow> heap \<Rightarrow>
    node_version64_body \<times> scan_out \<Rightarrow> (node_version64_body \<times> scan_out, border_result) outcome option" where
  "scan_border_step sub a key_prefix bn initial h st = do {
     let (v_at_fb, out) = st;
     b \<leftarrow> get_border bn h;
     let next = next_node b;
     e \<leftarrow> scan_entries sub a key_prefix bn b initial [0..<get_permutation_cnk b] False v_at_fb out h;
     case e of
       Entries_Return s v_at_fb out \<Rightarrow> Some (Return (s, bn, v_at_fb, out))
     | Entries_Retry v_at_fb out \<Rightarrow> Some (Goto (v_at_fb, out))
     | Entries_Done pushed v_at_fb out \<Rightarrow> do {
         let out = (if pushed then out else push_node_version v_at_fb bn out);
         next_version \<leftarrow> (if next \<noteq> nullptr then get_stable_version_at next h else Some body_init);
         (check_status, v_at_fb) \<leftarrow> scan_check_retry bn v_at_fb h;
         if check_status = OK_RETRY_FROM_ROOT
         then Some (Return (OK_RETRY_FROM_ROOT, bn, v_at_fb, clean_up initial out))
         else if check_status = OK_RETRY_AFTER_FB then Some (Goto (v_at_fb, clean_up initial out))
         else if next = nullptr then Some (Return (OK_SCAN_END, bn, v_at_fb, out))
         else Some (Return (OK_SCAN_CONTINUE, next, next_version, out))
       }
   }"

definition scan_border :: "layer_scan \<Rightarrow> scan_range \<Rightarrow> byte list \<Rightarrow> addr \<Rightarrow> node_version64_body \<Rightarrow>
    scan_out \<Rightarrow> heap \<Rightarrow> border_result option" where
  "scan_border sub a key_prefix target v_at_fb out h =
     run (scan_border_step sub a key_prefix target out h) (v_at_fb, out)"

section \<open>One layer\<close>

datatype scan_label =
    Scan_Retry scan_out
  | Scan_Loop addr node_version64_body scan_out

text \<open>The slice and the length that \<^verbatim>\<open>scan\<close> descends with: the length is not cut at nine.\<close>

definition scan_key :: "byte list \<Rightarrow> key" where
  "scan_key lk = ((if length lk > slice_size then memcpy_slice 0 lk slice_size
      else if lk \<noteq> [] then memcpy_slice 0 lk (length lk) else 0), of_nat (length lk))"

fun scan_layer_step :: "layer_scan \<Rightarrow> scan_range \<Rightarrow> byte list \<Rightarrow> addr \<Rightarrow> scan_out \<Rightarrow> heap \<Rightarrow> scan_label \<Rightarrow>
    (scan_label, status \<times> scan_out) outcome option" where
  "scan_layer_step sub a key_prefix rt initial h (Scan_Retry out) = do {
     rb \<leftarrow> get_base rt h;
     if deleted (version rb) \<or> \<not> root (version rb) then Some (Return (OK_RETRY_FROM_ROOT, out))
     else do {
       (bn, check_v, check_status) \<leftarrow> find_border rt (scan_key (l_key a)) h;
       if check_status = WARN_RETRY_FROM_ROOT_OF_ALL then Some (Return (OK_RETRY_AFTER_FB, out))
       else Some (Goto (Scan_Loop bn check_v out))
     }
   }"
| "scan_layer_step sub a key_prefix rt initial h (Scan_Loop bn check_v out) = do {
     let out_at_fb = out;
     (check_status, bn, check_v, out) \<leftarrow> scan_border sub a key_prefix bn check_v out h;
     if check_status = OK_SCAN_END then Some (Return (OK, out))
     else if check_status = OK_SCAN_CONTINUE then Some (Goto (Scan_Loop bn check_v out))
     else if check_status = OK_RETRY_AFTER_FB then do {
       re_check_v \<leftarrow> get_stable_version_at bn h;
       if get_vsplit check_v \<noteq> get_vsplit re_check_v \<or> deleted re_check_v
       then Some (Return (OK_RETRY_AFTER_FB, out))
       else if get_vinsert_delete check_v \<noteq> get_vinsert_delete re_check_v
       then Some (Goto (Scan_Loop bn re_check_v (clean_up out_at_fb out)))
       else Some (Goto (Scan_Loop bn check_v out))
     }
     else if check_status = OK_RETRY_FROM_ROOT then Some (Goto (Scan_Retry (clean_up initial out)))
     else Some (Goto (Scan_Loop bn check_v out))
   }"

fun scan_layer :: "nat \<Rightarrow> layer_scan" where
  "scan_layer 0 rt a key_prefix out h = None"
| "scan_layer (Suc depth) rt a key_prefix out h =
     run (scan_layer_step (scan_layer depth) a key_prefix rt out h) (Scan_Retry out)"

section \<open>The whole tree\<close>

text \<open>
  \<^verbatim>\<open>scan(ti, ...)\<close>: the caller's two vectors are cleared before the descent, but not when the
  arguments are rejected. The strings are lists here, so a null pointer with a length
  cannot be passed; the other misuse is rejected as in the source.
\<close>

fun scan_step :: "nat \<Rightarrow> addr \<Rightarrow> scan_range \<Rightarrow> heap \<Rightarrow> scan_label \<Rightarrow>
    (scan_label, status \<times> scan_out) outcome option" where
  "scan_step depth ti a h (Scan_Retry out) = do {
     let out = \<lparr>tuple_list = [], node_version_vec = map_option (\<lambda>_. []) (node_version_vec out)\<rparr>;
     rt \<leftarrow> load_root_ptr ti h;
     if rt = nullptr then Some (Return (OK_ROOT_IS_NULL, out))
     else do {
       (target_border, v, check_status) \<leftarrow> find_border rt (scan_key (l_key a)) h;
       if check_status = WARN_RETRY_FROM_ROOT_OF_ALL then Some (Goto (Scan_Retry out))
       else Some (Goto (Scan_Loop target_border v out))
     }
   }"
| "scan_step depth ti a h (Scan_Loop target_border v out) =
     (if deleted v \<and> root v
      then Some (Return (OK, out\<lparr>node_version_vec := map_option (\<lambda>_. [(v, target_border)]) (node_version_vec out)\<rparr>))
      else do {
        (check_status, target_border, v, out) \<leftarrow> scan_border (scan_layer depth) a [] target_border v out h;
        if check_status = OK_SCAN_END then Some (Return (OK, out))
        else if check_status = OK_SCAN_CONTINUE then Some (Goto (Scan_Loop target_border v out))
        else if check_status = OK_RETRY_FROM_ROOT then Some (Goto (Scan_Retry out))
        else Some (Goto (Scan_Loop target_border v out))
      })"

definition scan :: "nat \<Rightarrow> addr \<Rightarrow> scan_range \<Rightarrow> scan_out \<Rightarrow> heap \<Rightarrow> (status \<times> scan_out) option" where
  "scan depth ti a out h =
     (if l_key a = r_key a \<and> (l_end a = EXCLUSIVE \<or> r_end a = EXCLUSIVE)
      then Some (ERR_BAD_USAGE, out)
      else run (scan_step depth ti a h) (Scan_Retry out))"

end
