(* ===== verification/Scan_Refinement.thy ===== *)
theory Scan_Refinement
  imports Tree_Heap Scan
begin

text \<open>
  \<^verbatim>\<open>scan\<close> on a heap that holds a tree: it returns the entries of the tree whose keys lie in
  the range, in order, through all layers.
\<close>

section \<open>Ranges\<close>

text \<open>The endpoints as conditions on keys: the left one on the key in its layer, the right one on the whole key.\<close>

definition left_ok :: "scan_range \<Rightarrow> byte list \<Rightarrow> bool" where
  "left_ok a s = (case l_end a of INFINITE \<Rightarrow> True | INCLUSIVE \<Rightarrow> l_key a \<le> s | EXCLUSIVE \<Rightarrow> l_key a < s)"

definition right_ok :: "scan_range \<Rightarrow> byte list \<Rightarrow> bool" where
  "right_ok a s = (case r_end a of INFINITE \<Rightarrow> True | INCLUSIVE \<Rightarrow> s \<le> r_key a | EXCLUSIVE \<Rightarrow> s < r_key a)"

lemma right_ok_mono: "right_ok a s \<Longrightarrow> s' \<le> s \<Longrightarrow> right_ok a s'"
  by (auto simp: right_ok_def split: scan_endpoint.splits)

lemma append_le_cancel [simp]:
  fixes u :: "'a :: linorder list"
  shows "u @ x \<le> u @ y \<longleftrightarrow> x \<le> y"
  by (auto simp: le_less)

lemma less_append: "(s :: byte list) \<noteq> [] \<Longrightarrow> u < u @ s"
  using append_less_cancel [of u "[]" s] by (cases s) simp_all

lemma Nil_less_iff: "[] < s \<longleftrightarrow> (s :: byte list) \<noteq> []"
  by (cases s) simp_all

text \<open>Comparing on the common length and then by length is the lexicographic order.\<close>

lemma cmp_order:
  fixes x y :: "byte list"
  shows "cmp_bytes (take (min (length x) (length y)) x) (take (min (length x) (length y)) y) > 0 \<or>
      cmp_bytes (take (min (length x) (length y)) x) (take (min (length x) (length y)) y) = 0 \<and> length x > length y
      \<longleftrightarrow> y < x"
    and "cmp_bytes (take (min (length x) (length y)) x) (take (min (length x) (length y)) y) = 0 \<and> length x = length y
      \<longleftrightarrow> x = y"
  by (induction x y rule: cmp_bytes.induct) (auto simp: Nil_less_iff split: if_splits)

lemma r_cmp_order:
  "r_cmp x y > 0 \<or> r_cmp x y = 0 \<and> length x > length y \<longleftrightarrow> y < x"
  "r_cmp x y = 0 \<and> length x = length y \<longleftrightarrow> x = y"
proof -
  have m: "(if length x < length y then length x else length y) = min (length x) (length y)" by simp
  show "r_cmp x y > 0 \<or> r_cmp x y = 0 \<and> length x > length y \<longleftrightarrow> y < x"
    "r_cmp x y = 0 \<and> length x = length y \<longleftrightarrow> x = y"
    unfolding r_cmp_def memcmp_def m by (rule cmp_order)+
qed

lemma r_cmp_positive: "r_cmp x y > 0 \<Longrightarrow> y @ s < x"
proof (induction x y rule: cmp_bytes.induct)
  case (1 a as b bs)
  then show ?case by (auto simp: r_cmp_def memcmp_def split: if_splits)
qed (auto simp: r_cmp_def memcmp_def)

lemma l_key_slice_prepare: "slice_bytes (l_key_slice lk) = slice_bytes (fst (prepare_key_slice lk))"
  by (simp add: l_key_slice_def slice_bytes_prepare slice_bytes_memcpy min_def)

lemma l_cmp_order:
  assumes "canonical k" and "unat (snd k) \<le> 8"
  shows "(let c = memcmp (slice_bytes (l_key_slice lk)) (slice_bytes (fst k)) slice_size
     in c > 0 \<or> c = 0 \<and> (length lk > unat (snd k) \<or> length lk = unat (snd k) \<and> ex)) \<longleftrightarrow>
    key_bytes k < lk \<or> key_bytes k = lk \<and> ex"
proof -
  let ?s = "key_bytes k"
  note p = prepare_key_bytes [OF assms]
  have lt: "?s < lk \<longleftrightarrow> key_ord k < key_ord (prepare_key_slice lk)"
  proof -
    have "drop 8 ?s = []" using p(2) by simp
    moreover have "length lk \<le> 8" if "k = prepare_key_slice lk"
      using assms(2) unfolding that by (simp add: unat_length_prepare min_def split: if_splits)
    ultimately show ?thesis using key_string_order [of ?s lk] p(1) by auto
  qed
  have eq: "?s = lk \<longleftrightarrow> key_ord k = key_ord (prepare_key_slice lk)"
  proof
    assume "key_ord k = key_ord (prepare_key_slice lk)"
    then have "k = prepare_key_slice lk" by (rule key_ord_inj)
    moreover from this have "length lk \<le> 8"
      using assms(2) by (simp add: unat_length_prepare min_def split: if_splits)
    ultimately show "?s = lk" by (simp add: key_bytes_prepare)
  qed (use p(1) in auto)
  have "key_ord (prepare_key_slice lk) = (slice_bytes (l_key_slice lk), min (length lk) 9)"
    by (simp add: key_ord_def l_key_slice_prepare unat_length_prepare)
  moreover have "key_ord k = (slice_bytes (fst k), unat (snd k))" by (simp add: key_ord_def)
  ultimately show ?thesis
    using assms(2) unfolding lt eq Let_def by (auto simp: memcmp_sign pair_less_iff)
qed

section \<open>Entries and ranges\<close>

text \<open>The test of a value entry is the test of its key.\<close>

lemma value_position_eq:
  assumes "canonical k" and "unat (snd k) \<le> 8"
  shows "value_position a k (pre @ key_bytes k) =
    (if \<not> left_ok a (key_bytes k) then Before_Range
     else if right_ok a (pre @ key_bytes k) then In_Range else After_Range)"
proof -
  let ?s = "key_bytes k" and ?f = "pre @ key_bytes k"
  have l: "l_end a \<noteq> INFINITE \<and>
        (let c = memcmp (slice_bytes (l_key_slice (l_key a))) (slice_bytes (fst k)) slice_size
         in c > 0 \<or> c = 0 \<and> (length (l_key a) > unat (snd k) \<or>
              length (l_key a) = unat (snd k) \<and> l_end a = EXCLUSIVE)) \<longleftrightarrow> \<not> left_ok a ?s"
    unfolding l_cmp_order [OF assms] by (cases "l_end a") (auto simp: left_ok_def)
  have r: "(let c = r_cmp (r_key a) ?f in c > 0 \<or> c = 0 \<and> (length (r_key a) > length ?f \<or>
      length (r_key a) = length ?f \<and> r_end a = INCLUSIVE)) \<longleftrightarrow> right_ok a ?f" if "r_end a \<noteq> INFINITE"
    using r_cmp_order [of "r_key a" ?f] that unfolding Let_def
    by (cases "r_end a") (auto simp: right_ok_def le_less)
  show ?thesis
  proof (cases "l_end a = INFINITE \<and> r_end a = INFINITE")
    case True
    then show ?thesis by (simp add: value_position_def left_ok_def right_ok_def)
  next
    case False
    have "right_ok a ?f" if "r_end a = INFINITE" using that by (simp add: right_ok_def)
    then show ?thesis unfolding value_position_def l using False r by (auto simp: Let_def)
  qed
qed

lemma full_key_of_eq: "full_key_of pre k = pre @ key_bytes k"
  by (auto simp: full_key_of_def key_bytes_def word_neq_0_conv min_def word_less_nat_alt unat_eq_zero)

text \<open>The range handed to a next layer selects what the outer range selects below the slice.\<close>

lemma layer_range_skip:
  fixes k :: key
  assumes "layer_range a (fst k) full = Inr None" and "snd k = 9" and "s \<noteq> []"
  shows "\<not> left_ok a (slice_bytes (fst k) @ s)"
proof -
  have c: "l_end a \<noteq> INFINITE" "slice_bytes (fst k) < slice_bytes (l_key_slice (l_key a))"
    using assms(1) by (auto simp: layer_range_def Let_def memcmp_sign split: if_splits)
  have "key_ord k < key_ord (prepare_key_slice (l_key a))"
    using c(2) by (simp add: key_ord_def l_key_slice_prepare pair_less_iff)
  then have "slice_bytes (fst k) @ s < l_key a"
    using key_string_order prepare_key_long [OF assms(2,3)] by metis
  then show ?thesis using c(1) by (cases "l_end a") (auto simp: left_ok_def)
qed

lemma layer_range_end:
  assumes "layer_range a ks (pre @ slice_bytes ks) = Inl st" and "slice_bytes ks < s"
  shows "st = OK_SCAN_END" and "\<not> right_ok a (pre @ s)"
proof -
  have c: "st = OK_SCAN_END" "r_end a \<noteq> INFINITE" "\<not> pre @ slice_bytes ks < r_key a"
    using assms(1) r_cmp_order(1) [of "r_key a" "pre @ slice_bytes ks"]
    by (auto simp: layer_range_def Let_def split: if_splits option.splits)
  show "st = OK_SCAN_END" by (rule c(1))
  have "r_key a < pre @ s"
    using c(3) append_less_cancel [of pre "slice_bytes ks" s] assms(2) by (meson le_less_trans not_less)
  then show "\<not> right_ok a (pre @ s)" using c(2) by (cases "r_end a") (auto simp: right_ok_def)
qed

text \<open>The left endpoint below the slice of \<open>k\<close>.\<close>

lemma left_below:
  fixes k :: key
  assumes "snd k = 9" and "s \<noteq> []"
  shows "slice_bytes (l_key_slice lk) < slice_bytes (fst k) \<Longrightarrow> lk < slice_bytes (fst k) @ s"
    and "slice_bytes (l_key_slice lk) = slice_bytes (fst k) \<Longrightarrow> length lk \<le> 8 \<Longrightarrow> lk < slice_bytes (fst k) @ s"
    and "slice_bytes (l_key_slice lk) = slice_bytes (fst k) \<Longrightarrow> 8 < length lk \<Longrightarrow> lk = slice_bytes (fst k) @ drop 8 lk"
proof -
  have u: "unat (snd k) = 9" using assms(1) by simp
  have lt: "lk < slice_bytes (fst k) @ s" if "key_ord (prepare_key_slice lk) < key_ord k"
    using that key_string_order prepare_key_long [OF assms] by metis
  show "lk < slice_bytes (fst k) @ s" if "slice_bytes (l_key_slice lk) < slice_bytes (fst k)"
    using that by (intro lt) (simp add: key_ord_def l_key_slice_prepare pair_less_iff)
  show "lk < slice_bytes (fst k) @ s" if "slice_bytes (l_key_slice lk) = slice_bytes (fst k)" "length lk \<le> 8"
    using that u by (intro lt) (simp add: key_ord_def l_key_slice_prepare unat_length_prepare pair_less_iff)
  show "lk = slice_bytes (fst k) @ drop 8 lk"
    if "slice_bytes (l_key_slice lk) = slice_bytes (fst k)" "8 < length lk"
    using that by (simp add: l_key_slice_prepare slice_bytes_prepare flip: that(1))
qed

lemma layer_range_inner:
  fixes k :: key
  assumes "layer_range a (fst k) (pre @ slice_bytes (fst k)) = Inr (Some a')" and "snd k = 9"
  shows "s \<noteq> [] \<Longrightarrow> left_ok a' s \<longleftrightarrow> left_ok a (slice_bytes (fst k) @ s)"
    and "right_ok a' ((pre @ slice_bytes (fst k)) @ s) \<longleftrightarrow> right_ok a (pre @ slice_bytes (fst k) @ s)"
    and "max_size a' = max_size a" and "l_end a' = INFINITE \<Longrightarrow> l_key a' = []"
proof -
  let ?B = "slice_bytes (fst k)" and ?L = "slice_bytes (l_key_slice (l_key a))"
  have l: "l_end a = INFINITE \<and> l_key a' = [] \<and> l_end a' = INFINITE \<or>
    l_end a \<noteq> INFINITE \<and> ?L < ?B \<and> l_key a' = [] \<and> l_end a' = INFINITE \<or>
    l_end a \<noteq> INFINITE \<and> ?L = ?B \<and> l_end a' = l_end a \<and>
      l_key a' = (if 8 < length (l_key a) then drop 8 (l_key a) else [])"
    using assms(1) by (auto simp: layer_range_def Let_def memcmp_sign split: if_splits)
  then show "l_end a' = INFINITE \<Longrightarrow> l_key a' = []" by auto
  have r: "r_end a = INFINITE \<and> r_end a' = INFINITE \<or>
    r_end a \<noteq> INFINITE \<and> r_cmp (r_key a) (pre @ ?B) > 0 \<and> r_end a' = INFINITE \<or>
    r_end a' = r_end a \<and> r_key a' = r_key a"
    using assms(1) by (auto simp: layer_range_def Let_def split: if_splits option.splits)
  show "max_size a' = max_size a"
    using assms(1) by (auto simp: layer_range_def Let_def split: if_splits option.splits)
  show "right_ok a' ((pre @ ?B) @ s) \<longleftrightarrow> right_ok a (pre @ ?B @ s)"
    using r r_cmp_positive [of "r_key a" "pre @ ?B" s]
    by (cases "r_end a") (auto simp: right_ok_def)
  show "left_ok a' s \<longleftrightarrow> left_ok a (?B @ s)" if s: "s \<noteq> []"
    using l
  proof (elim disjE conjE)
    assume "l_end a \<noteq> INFINITE" "?L = ?B" "l_end a' = l_end a"
      and lk: "l_key a' = (if 8 < length (l_key a) then drop 8 (l_key a) else [])"
    then show ?thesis
    proof (cases "8 < length (l_key a)")
      case True
      then have "l_key a = ?B @ l_key a'" using left_below(3) [OF assms(2) s \<open>?L = ?B\<close>] lk by simp
      then show ?thesis using \<open>l_end a' = l_end a\<close> by (cases "l_end a") (simp_all add: left_ok_def)
    next
      case False
      then have "l_key a < ?B @ s" "l_key a' = []" using left_below(2) [OF assms(2) s \<open>?L = ?B\<close>] lk by simp_all
      then show ?thesis using s \<open>l_end a' = l_end a\<close>
        by (cases "l_end a") (auto simp: left_ok_def Nil_less_iff)
    qed
  next
    assume "l_end a \<noteq> INFINITE" "?L < ?B" "l_end a' = INFINITE"
    then show ?thesis using left_below(1) [OF assms(2) s \<open>?L < ?B\<close>]
      by (cases "l_end a") (auto simp: left_ok_def)
  qed (simp_all add: left_ok_def)
qed

section \<open>One border node\<close>

definition selected :: "scan_range \<Rightarrow> byte list \<Rightarrow> (byte list \<times> 64 word) list \<Rightarrow> (byte list \<times> 64 word) list" where
  "selected a pre E = filter (\<lambda>(s, v). left_ok a s \<and> right_ok a (pre @ s)) E"

text \<open>The results \<open>out'\<close> are \<open>out\<close> and the selected entries of \<open>E\<close>.\<close>

definition scan_adds :: "heap \<Rightarrow> scan_range \<Rightarrow> byte list \<Rightarrow> (byte list \<times> 64 word) list \<Rightarrow>
    scan_out \<Rightarrow> scan_out \<Rightarrow> bool" where
  "scan_adds h a pre E out out' \<longleftrightarrow> tuple_list out' =
     tuple_list out @ map (\<lambda>(s, v). (pre @ s, value_view (pages h) v)) (selected a pre E)"

lemma selected_append [simp]: "selected a pre (E @ F) = selected a pre E @ selected a pre F"
  by (simp add: selected_def)

lemma selected_empty:
  "selected a pre E = [] \<longleftrightarrow> (\<forall>s \<in> fst ` set E. \<not> (left_ok a s \<and> right_ok a (pre @ s)))"
  by (auto simp: selected_def filter_empty_conv)

lemma scan_adds_append:
  "scan_adds h a pre E out out' \<Longrightarrow> scan_adds h a pre F out' out'' \<Longrightarrow> scan_adds h a pre (E @ F) out out''"
  by (simp add: scan_adds_def)

lemma scan_adds_none: "selected a pre E = [] \<Longrightarrow> tuple_list out' = tuple_list out \<Longrightarrow> scan_adds h a pre E out out'"
  by (simp add: scan_adds_def)

lemma tuple_list_push [simp]: "tuple_list (push_node_version v p out) = tuple_list out"
  by (simp add: push_node_version_def)

text \<open>A nested scan that does what this theory proves of every layer.\<close>

definition layer_ok :: "layer_scan \<Rightarrow> heap \<Rightarrow> tree \<Rightarrow> bool" where
  "layer_ok sub h t \<longleftrightarrow> (\<forall>a pre out. max_size a = 0 \<longrightarrow> (l_end a = INFINITE \<longrightarrow> l_key a = []) \<longrightarrow>
     (\<exists>out'. sub (addr_of t) a pre out h = Some (OK, out') \<and> scan_adds h a pre (tree_entries t) out out'))"

definition layers_ok :: "layer_scan \<Rightarrow> heap \<Rightarrow> (key \<times> content) list \<Rightarrow> bool" where
  "layers_ok sub h es \<longleftrightarrow> (\<forall>k t. (k, Sub t) \<in> set es \<longrightarrow> layer_ok sub h t)"

abbreviation entries_of :: "(key \<times> content) list \<Rightarrow> (byte list \<times> 64 word) list" where
  "entries_of es \<equiv> concat (map (\<lambda>(k, c). content_entries (key_bytes k) c) es)"

text \<open>Behind the right endpoint: no key after \<open>k\<close> is in the range.\<close>

definition beyond :: "scan_range \<Rightarrow> byte list \<Rightarrow> key \<Rightarrow> bool" where
  "beyond a pre k \<longleftrightarrow> (\<forall>s. key_ord k < key_ord (prepare_key_slice s) \<longrightarrow> \<not> right_ok a (pre @ s))"

lemma beyond_unselected:
  assumes "beyond a pre k"
    and "\<And>k' c. (k', c) \<in> set es \<Longrightarrow> key_ord k < key_ord k' \<and> canonical k' \<and> content_wf k' c"
  shows "selected a pre (entries_of es) = []"
proof -
  have "\<not> right_ok a (pre @ s)" if "(k', c) \<in> set es" "s \<in> fst ` set (content_entries (key_bytes k') c)" for k' c s
    using assms(2) [OF that(1)] content_strings [OF _ _ that(2)] assms(1) by (simp add: beyond_def)
  moreover have "\<exists>k' c. (k', c) \<in> set es \<and> s \<in> fst ` set (content_entries (key_bytes k') c)"
    if "s \<in> fst ` set (entries_of es)" for s using that by (force simp: case_prod_unfold)
  ultimately show ?thesis unfolding selected_empty by blast
qed

text \<open>Inside the entry of a next layer.\<close>

lemma sub_selected:
  fixes k :: key
  assumes "layer_range a (fst k) (pre @ slice_bytes (fst k)) = Inr (Some a')" and "content_wf k (Sub t)"
  shows "map (\<lambda>(s, v). ((pre @ slice_bytes (fst k)) @ s, f v)) (selected a' (pre @ slice_bytes (fst k)) (tree_entries t)) =
    map (\<lambda>(s, v). (pre @ s, f v)) (selected a pre (content_entries (key_bytes k) (Sub t)))"
proof -
  have k: "snd k = 9" and ne: "[] \<notin> fst ` set (tree_entries t)"
    using assms(2) layer_strings_nonempty by simp_all
  have "filter (\<lambda>(s, v). left_ok a' s \<and> right_ok a' ((pre @ slice_bytes (fst k)) @ s)) (tree_entries t) =
      filter (\<lambda>(s, v). left_ok a (slice_bytes (fst k) @ s) \<and> right_ok a (pre @ slice_bytes (fst k) @ s)) (tree_entries t)"
  proof (rule filter_cong [OF refl])
    fix x assume "x \<in> set (tree_entries t)"
    then have "fst x \<noteq> []" using ne by force
    then show "(case x of (s, v) \<Rightarrow> left_ok a' s \<and> right_ok a' ((pre @ slice_bytes (fst k)) @ s)) \<longleftrightarrow>
        (case x of (s, v) \<Rightarrow> left_ok a (slice_bytes (fst k) @ s) \<and> right_ok a (pre @ slice_bytes (fst k) @ s))"
      using layer_range_inner(1,2) [OF assms(1) k, of "fst x"] by (simp add: case_prod_beta)
  qed
  then show ?thesis using k
    by (simp add: selected_def key_bytes_long filter_map o_def case_prod_unfold)
qed

lemma sub_unselected:
  fixes k :: key
  assumes "content_wf k (Sub t)"
    and "\<And>s. s \<noteq> [] \<Longrightarrow> \<not> (left_ok a (slice_bytes (fst k) @ s) \<and> right_ok a (pre @ slice_bytes (fst k) @ s))"
  shows "selected a pre (content_entries (key_bytes k) (Sub t)) = []"
proof -
  have ne: "[] \<notin> fst ` set (tree_entries t)" using assms(1) layer_strings_nonempty by simp
  have eq: "fst ` set (content_entries (key_bytes k) (Sub t)) = (@) (slice_bytes (fst k)) ` fst ` set (tree_entries t)"
    using assms(1) by (simp add: key_bytes_long image_image case_prod_unfold)
  show ?thesis unfolding selected_empty
  proof
    fix s assume "s \<in> fst ` set (content_entries (key_bytes k) (Sub t))"
    then obtain s' where s': "s' \<in> fst ` set (tree_entries t)" "s = slice_bytes (fst k) @ s'" unfolding eq by blast
    then have "s' \<noteq> []" using ne by metis
    then show "\<not> (left_ok a s \<and> right_ok a (pre @ s))" using assms(2) [of s'] s'(2) by simp
  qed
qed

lemma scan_check_retry_same:
  "get_stable_version_at bn h = Some v \<Longrightarrow> scan_check_retry bn v h = Some (OK, v)"
  by (simp add: scan_check_retry_def body_eq_iff)

text \<open>Reading the entry of rank \<open>i\<close>.\<close>

lemma leaf_entry:
  assumes "leaf_at h (p, es) b" and "i < length es"
  shows "get_key_slice_at (border_base b) (get_index_of_rank (perm_body b) i) = Some (fst (fst (es ! i)))"
    and "get_key_length_at (border_base b) (get_index_of_rank (perm_body b) i) = Some (snd (fst (es ! i)))"
    and "get_lv_at b (get_index_of_rank (perm_body b) i) = Some (lv_word (snd (es ! i)))"
    and "get_permutation_cnk b = length es"
proof -
  have b: "border_wf b" "border_entries b = map (\<lambda>(k, c). (k, lv_word c)) es"
    using assms(1) by (auto simp: leaf_at_def leaf_node_def Let_def)
  show n: "get_permutation_cnk b = length es" using b(2) length_border_entries [of b] by simp
  have "border_keys b ! i = fst (es ! i)"
    using b(2) assms(2) by (simp add: case_prod_unfold flip: map_fst_entries)
  then show "get_key_slice_at (border_base b) (get_index_of_rank (perm_body b) i) = Some (fst (fst (es ! i)))"
    "get_key_length_at (border_base b) (get_index_of_rank (perm_body b) i) = Some (snd (fst (es ! i)))"
    "get_lv_at b (get_index_of_rank (perm_body b) i) = Some (lv_word (snd (es ! i)))"
    using border_slot_key [OF b(1), of i] n assms(2) b(2) by (simp_all add: case_prod_unfold)
qed

lemma leaf_sorted:
  assumes "leaf_at h (p, es) b"
  shows "key_sorted (map fst es)"
proof -
  have "border_wf b" "border_entries b = map (\<lambda>(k, c). (k, lv_word c)) es"
    using assms by (auto simp: leaf_at_def leaf_node_def Let_def)
  then show ?thesis unfolding border_wf_def
    by (simp add: case_prod_unfold o_def flip: map_fst_entries)
qed

lemma leaf_later_wf: "leaf_at h (p, es) b \<Longrightarrow> (k, c) \<in> set es \<Longrightarrow> content_wf k c \<and> content_at h p c"
  by (auto simp: leaf_at_def)

lemma leaf_later:
  assumes "leaf_at h (p, es) b" and "i < length es" and "(k, c) \<in> set (drop (Suc i) es)"
  shows "key_ord (fst (es ! i)) < key_ord k \<and> canonical k \<and> content_wf k c"
proof -
  obtain j where j: "j < length es" "Suc i \<le> j" "es ! j = (k, c)"
    using assms(3) by (auto simp: in_set_conv_nth) (metis add_Suc add_leE le_add1 less_diff_conv add.commute plus_1_eq_Suc)
  have s: "sorted_wrt (\<lambda>a b. key_ord a < key_ord b) (map fst es)" "\<forall>k \<in> set (map fst es). canonical k"
    using leaf_sorted [OF assms(1)] by (simp_all add: key_sorted_def)
  have "key_ord (map fst es ! i) < key_ord (map fst es ! j)"
    using j by (intro sorted_wrt_nth_less [OF s(1)]) simp_all
  moreover have "(k, c) \<in> set es" using assms(3) by (rule in_set_dropD)
  ultimately show ?thesis using j assms(1,2) s(2) by (force simp: leaf_at_def)
qed

lemma scan_entries_leaf:
  assumes "leaf_at h (p, es) b" and "layers_ok sub h es"
    and "max_size a = 0" and "l_end a = INFINITE \<longrightarrow> l_key a = []" and "i \<le> length es"
  shows "\<exists>e out'. scan_entries sub a pre p b initial [i..<length es] pushed (version (border_base b)) out h = Some e \<and>
    scan_adds h a pre (entries_of (drop i es)) out out' \<and>
    ((\<exists>pushed'. e = Entries_Done pushed' (version (border_base b)) out') \<or>
     e = Entries_Return OK_SCAN_END (version (border_base b)) out' \<and> (\<exists>k \<in> fst ` set es. beyond a pre k))"
  using assms(5)
proof (induction "length es - i" arbitrary: i pushed out)
  case 0
  then show ?case by (simp add: scan_adds_def selected_def)
next
  case (Suc n)
  let ?v = "version (border_base b)" and ?go = "\<lambda>is pushed out. scan_entries sub a pre p b initial is pushed (version (border_base b)) out h"
  have i: "i < length es" using Suc by simp
  obtain k c where kc: "es ! i = (k, c)" by (rule prod.exhaust)
  then have mem: "(k, c) \<in> set es" using i by (metis nth_mem)
  have wf: "canonical k" "content_wf k c" "content_at h p c"
    using mem assms(1) leaf_sorted [OF assms(1)] by (force simp: leaf_at_def key_sorted_def)+
  have d: "drop i es = (k, c) # drop (Suc i) es" using i kc by (simp add: Cons_nth_drop_Suc [symmetric])
  have u: "[i..<length es] = i # [Suc i..<length es]" using i by (rule upt_conv_Cons)
  note rd = leaf_entry [OF assms(1) i, unfolded kc fst_conv snd_conv]
  note chk = scan_check_retry_same [OF leaf_at_stable(2) [OF assms(1)]]
  let ?goal = "\<lambda>out r. \<exists>e out'. r = Some e \<and> scan_adds h a pre (entries_of (drop i es)) out out' \<and>
    ((\<exists>pushed'. e = Entries_Done pushed' ?v out') \<or>
     e = Entries_Return OK_SCAN_END ?v out' \<and> (\<exists>k \<in> fst ` set es. beyond a pre k))"
  have go_on: "?goal out (?go [Suc i..<length es] pushed' out1)"
    if "scan_adds h a pre (content_entries (key_bytes k) c) out out1" for pushed' out1
  proof -
    have "n = length es - Suc i" "Suc i \<le> length es" using Suc.hyps(2) i by simp_all
    from Suc.hyps(1) [OF this, of pushed' out1] obtain e out' where
      o: "?go [Suc i..<length es] pushed' out1 = Some e" "scan_adds h a pre (entries_of (drop (Suc i) es)) out1 out'"
      "(\<exists>pushed'. e = Entries_Done pushed' ?v out') \<or>
       e = Entries_Return OK_SCAN_END ?v out' \<and> (\<exists>k \<in> fst ` set es. beyond a pre k)"
      by blast
    have "scan_adds h a pre (entries_of (drop i es)) out out'"
      using scan_adds_append [OF that o(2)] by (simp add: d)
    then show ?thesis using o(1,3) by blast
  qed
  have stop: "?goal out (Some (Entries_Return OK_SCAN_END ?v out1))"
    if "beyond a pre k" "selected a pre (content_entries (key_bytes k) c) = []" "tuple_list out1 = tuple_list out" for out1
  proof -
    have "selected a pre (entries_of (drop (Suc i) es)) = []"
      using leaf_later [OF assms(1) i] kc by (intro beyond_unselected [OF that(1)]) simp
    then have "scan_adds h a pre (entries_of (drop i es)) out out1"
      using that(2,3) by (intro scan_adds_none) (simp_all add: d)
    then show ?thesis using that(1) mem by (auto intro!: bexI [of _ "(k, c)"])
  qed
  show ?case
  proof (cases c)
    case (Val v)
    then have len: "unat (snd k) \<le> 8" using wf by simp
    have vp: "value_position a k (pre @ key_bytes k) = (if \<not> left_ok a (key_bytes k) then Before_Range
        else if right_ok a (pre @ key_bytes k) then In_Range else After_Range)"
      by (rule value_position_eq [OF wf(1) len])
    have "get_value v = v" "get_body (pages h) v = Some (fst (value_view (pages h) v))"
      "get_len (pages h) v = Some (snd (value_view (pages h) v))"
      using wf Val value_at_read [of "pages h" v] by simp_all
    then have eq: "?go [i..<length es] pushed out =
        (if \<not> left_ok a (key_bytes k) then ?go [Suc i..<length es] pushed out
         else if right_ok a (pre @ key_bytes k)
         then ?go [Suc i..<length es] True (push_node_version ?v p
           (out\<lparr>tuple_list := tuple_list out @ [(pre @ key_bytes k, value_view (pages h) v)]\<rparr>))
         else Some (Entries_Return OK_SCAN_END ?v (if pushed then out else push_node_version ?v p out)))"
      unfolding u using len by (simp add: rd chk Val full_key_of_eq vp push_entry_def assms(3) Let_def)
    consider "\<not> left_ok a (key_bytes k)" | "left_ok a (key_bytes k)" "right_ok a (pre @ key_bytes k)"
      | "left_ok a (key_bytes k)" "\<not> right_ok a (pre @ key_bytes k)" by blast
    then show ?thesis
    proof cases
      case 1
      then have "scan_adds h a pre (content_entries (key_bytes k) c) out out"
        by (simp add: Val scan_adds_def selected_def)
      then show ?thesis unfolding eq using 1 go_on by simp
    next
      case 2
      let ?out = "push_node_version ?v p
           (out\<lparr>tuple_list := tuple_list out @ [(pre @ key_bytes k, value_view (pages h) v)]\<rparr>)"
      have "scan_adds h a pre (content_entries (key_bytes k) c) out ?out"
        using 2 by (simp add: Val scan_adds_def selected_def)
      from go_on [OF this, of True] show ?thesis unfolding eq using 2 by simp
    next
      case 3
      have "beyond a pre k" unfolding beyond_def
      proof (intro allI impI)
        fix s assume "key_ord k < key_ord (prepare_key_slice s)"
        then have "key_bytes k < s" using prepare_key_bytes(1) [OF wf(1) len] key_string_order by metis
        then have "pre @ key_bytes k \<le> pre @ s" by (simp add: less_imp_le)
        then show "\<not> right_ok a (pre @ s)" using 3(2) right_ok_mono by blast
      qed
      moreover have "selected a pre (content_entries (key_bytes k) c) = []"
        using 3 by (simp add: Val selected_def)
      ultimately show ?thesis unfolding eq using 3 stop by simp
    qed
  next
    case (Sub t)
    let ?f = "pre @ slice_bytes (fst k)"
    have k9: "snd k = 9" "valid_ptr (addr_of t)" using wf Sub tree_wf_valid_ptr by simp_all
    have eq: "?go [i..<length es] pushed out = (case layer_range a (fst k) ?f of
          Inl st \<Rightarrow> Some (Entries_Return st ?v out)
        | Inr None \<Rightarrow> ?go [Suc i..<length es] pushed out
        | Inr (Some a') \<Rightarrow> sub (addr_of t) a' ?f out h \<bind> (\<lambda>(st, out).
            if st \<noteq> OK then Some (Entries_Retry ?v (clean_up initial out))
            else ?go [Suc i..<length es] pushed out))"
      unfolding u using k9 by (simp add: rd chk Sub full_key_of_eq key_bytes_long set_next_layer_roundtrip Let_def
          split: sum.split option.split)
    show ?thesis
    proof (cases "layer_range a (fst k) ?f")
      case (Inl st)
      have lt: "slice_bytes (fst k) < s" if "key_ord k < key_ord (prepare_key_slice s)" for s
      proof -
        have "key_ord (prepare_key_slice (slice_bytes (fst k))) \<le> key_ord k"
          using k9(1) by (auto simp: key_ord_def slice_bytes_prepare unat_length_prepare)
        then show ?thesis using that key_string_order [of "slice_bytes (fst k)" s] by (meson le_less_trans)
      qed
      have st: "st = OK_SCAN_END" using layer_range_end(1) [OF Inl less_append [of "[0]"]] by simp
      have "beyond a pre k" unfolding beyond_def using lt layer_range_end(2) [OF Inl] by blast
      moreover have "selected a pre (content_entries (key_bytes k) c) = []"
        unfolding Sub using wf(2) layer_range_end(2) [OF Inl less_append] by (intro sub_unselected) (simp_all add: Sub)
      ultimately show ?thesis unfolding eq Inl using stop st by simp
    next
      case (Inr r)
      show ?thesis
      proof (cases r)
        case None
        then have "selected a pre (content_entries (key_bytes k) c) = []"
          unfolding Sub using wf(2) layer_range_skip [OF _ k9(1)] Inr by (intro sub_unselected) (auto simp: Sub)
        then have "scan_adds h a pre (content_entries (key_bytes k) c) out out" by (intro scan_adds_none) simp_all
        then show ?thesis unfolding eq Inr None using go_on by simp
      next
        case (Some a')
        note in' = layer_range_inner [OF Inr [unfolded Some] k9(1)]
        obtain out1 where o1: "sub (addr_of t) a' ?f out h = Some (OK, out1)"
          "scan_adds h a' ?f (tree_entries t) out out1"
          using assms(2) mem Sub in'(3,4) assms(3) unfolding layers_ok_def layer_ok_def by metis
        then have "scan_adds h a pre (content_entries (key_bytes k) c) out out1"
          using sub_selected [OF Inr [unfolded Some], of t "value_view (pages h)"] wf(2)
          by (simp add: scan_adds_def Sub)
        from go_on [OF this, of pushed] show ?thesis unfolding eq Inr Some using o1(1) by simp
      qed
    qed
  qed
qed

lemma scan_border_leaf:
  assumes "leaf_at h (p, es) b" and "layers_ok sub h es"
    and "max_size a = 0" and "l_end a = INFINITE \<longrightarrow> l_key a = []"
    and "next_node b \<noteq> nullptr \<Longrightarrow> get_stable_version_at (next_node b) h = Some vn"
  obtains (last) q vq out' where "scan_border sub a pre p (version (border_base b)) out h = Some (OK_SCAN_END, q, vq, out')"
      "scan_adds h a pre (entries_of es) out out'" "next_node b = nullptr \<or> (\<exists>k \<in> fst ` set es. beyond a pre k)"
    | (more) out' where "scan_border sub a pre p (version (border_base b)) out h =
        Some (OK_SCAN_CONTINUE, next_node b, vn, out')"
      "scan_adds h a pre (entries_of es) out out'" "next_node b \<noteq> nullptr"
proof -
  let ?v = "version (border_base b)"
  obtain e out1 where e: "scan_entries sub a pre p b out [0..<length es] False ?v out h = Some e"
    "scan_adds h a pre (entries_of es) out out1"
    "(\<exists>pushed'. e = Entries_Done pushed' ?v out1) \<or>
     e = Entries_Return OK_SCAN_END ?v out1 \<and> (\<exists>k \<in> fst ` set es. beyond a pre k)"
    using scan_entries_leaf [OF assms(1-4), where i = 0 and pre = pre and initial = out and pushed = False and out = out]
    by (simp only: drop_0 le0 simp_thms) blast
  have n: "get_permutation_cnk b = length es"
    using assms(1) length_border_entries [of b] by (auto simp: leaf_at_def leaf_node_def Let_def)
  note st = leaf_at_stable(1,2) [OF assms(1)] scan_check_retry_same [OF leaf_at_stable(2) [OF assms(1)]]
  from e(3) show ?thesis
  proof (elim disjE exE conjE)
    fix pushed' assume d: "e = Entries_Done pushed' ?v out1"
    define out2 where "out2 = (if pushed' then out1 else push_node_version ?v p out1)"
    have o2: "scan_adds h a pre (entries_of es) out out2" using e(2) by (simp add: out2_def scan_adds_def)
    show ?thesis
    proof (cases "next_node b = nullptr")
      case True
      then have "scan_border sub a pre p ?v out h = Some (OK_SCAN_END, p, ?v, out2)"
        unfolding scan_border_def using st n e(1) d
        by (intro run_Return) (simp add: scan_border_step_def Let_def out2_def)
      then show ?thesis using last o2 True by blast
    next
      case False
      then have "scan_border sub a pre p ?v out h = Some (OK_SCAN_CONTINUE, next_node b, vn, out2)"
        unfolding scan_border_def using st n e(1) d assms(5)
        by (intro run_Return) (simp add: scan_border_step_def Let_def out2_def)
      then show ?thesis using more o2 False by blast
    qed
  next
    assume d: "e = Entries_Return OK_SCAN_END ?v out1" "\<exists>k \<in> fst ` set es. beyond a pre k"
    then have "scan_border sub a pre p ?v out h = Some (OK_SCAN_END, p, ?v, out1)"
      unfolding scan_border_def using st n e(1)
      by (intro run_Return) (simp add: scan_border_step_def Let_def)
    then show ?thesis using last e(2) d(2) by blast
  qed
qed

section \<open>A chain of border nodes\<close>

text \<open>
  The two loops over border nodes, of a layer and of the whole tree, go on in the same way.
\<close>

locale scan_loop =
  fixes step :: "scan_label \<Rightarrow> (scan_label, status \<times> scan_out) outcome option"
    and sub :: layer_scan and a :: scan_range and pre :: "byte list" and h :: heap
  assumes loop_end: "scan_border sub a pre bn v out h = Some (OK_SCAN_END, bn', v', out') \<Longrightarrow> \<not> deleted v \<Longrightarrow>
      step (Scan_Loop bn v out) = Some (Return (OK, out'))"
    and loop_continue: "scan_border sub a pre bn v out h = Some (OK_SCAN_CONTINUE, bn', v', out') \<Longrightarrow> \<not> deleted v \<Longrightarrow>
      step (Scan_Loop bn v out) = Some (Goto (Scan_Loop bn' v' out'))"
begin

lemma loop_leaves:
  assumes "\<forall>l \<in> set ((p0, es0) # ls). \<exists>b. leaf_at h l b" and "\<forall>l \<in> set ls. snd l \<noteq> []"
    and "layers_ok sub h (concat (map snd ((p0, es0) # ls)))"
    and "key_sorted (map fst (concat (map snd ((p0, es0) # ls))))"
    and "linked h q (p0 # map fst ls)"
    and "max_size a = 0" and "l_end a = INFINITE \<longrightarrow> l_key a = []"
    and "leaf_at h (p0, es0) b" and "\<not> deleted (version (border_base b))"
  shows "\<exists>out'. run step (Scan_Loop p0 (version (border_base b)) out) = Some (OK, out') \<and>
    scan_adds h a pre (entries_of (concat (map snd ((p0, es0) # ls)))) out out'"
  using assms
proof (induction ls arbitrary: p0 es0 q b out)
  case Nil
  let ?v = "version (border_base b)"
  have n: "next_node b = nullptr" using Nil.prems(5,8) by (simp add: leaf_at_def)
  have s: "layers_ok sub h es0" using Nil.prems(3) by simp
  show ?case
  proof (rule scan_border_leaf [OF Nil.prems(8) s Nil.prems(6,7), where vn = body_init and pre = pre and out = out])
    fix q' vq out' assume "scan_border sub a pre p0 ?v out h = Some (OK_SCAN_END, q', vq, out')"
      "scan_adds h a pre (entries_of es0) out out'"
    then show ?thesis using run_Return [where step = step, OF loop_end [OF _ Nil.prems(9)]] by simp
  qed (use n in auto)
next
  case (Cons l ls)
  let ?v = "version (border_base b)"
  obtain p1 es1 where l: "l = (p1, es1)" by (rule prod.exhaust)
  obtain b1 where b1: "leaf_at h (p1, es1) b1" using Cons.prems(1) l by auto
  have ne: "es1 \<noteq> []" using Cons.prems(2) l by simp
  then have d1: "\<not> deleted (version (border_base b1))"
    using b1 by (auto simp: leaf_at_def leaf_node_def Let_def)
  have n: "next_node b = p1" "p1 \<noteq> nullptr" "linked h p0 (p1 # map fst ls)"
    using Cons.prems(5,8) b1 by (simp_all add: l leaf_at_def)
  have s: "layers_ok sub h es0" "layers_ok sub h (concat (map snd ((p1, es1) # ls)))"
    using Cons.prems(3) by (auto simp: layers_ok_def l)
  have vn: "get_stable_version_at (next_node b) h = Some (version (border_base b1))"
    using leaf_at_stable(2) [OF b1] n(1) by simp
  let ?rest = "entries_of (concat (map snd (l # ls)))"
  have srt: "key_sorted (map fst es0 @ map fst (concat (map snd (l # ls))))" using Cons.prems(4) by simp
  show ?case
  proof (rule scan_border_leaf [OF Cons.prems(8) s(1) Cons.prems(6,7) vn, where pre = pre and out = out])
    fix q' vq out' assume e: "scan_border sub a pre p0 ?v out h = Some (OK_SCAN_END, q', vq, out')"
      "scan_adds h a pre (entries_of es0) out out'" "next_node b = nullptr \<or> (\<exists>k \<in> fst ` set es0. beyond a pre k)"
    then obtain k where k: "k \<in> fst ` set es0" "beyond a pre k" using n(1,2) by blast
    have "key_ord k < key_ord k' \<and> canonical k' \<and> content_wf k' c"
      if m: "(k', c) \<in> set (concat (map snd (l # ls)))" for k' c
    proof -
      obtain x where x: "x \<in> set (l # ls)" "(k', c) \<in> set (snd x)" using m by (simp only: set_concat set_map UN_iff) blast
      obtain p es where "x = (p, es)" by (rule prod.exhaust)
      then have "(p, es) \<in> set (l # ls)" and "(k', c) \<in> set es" using x by simp_all
      moreover from this obtain b' where "leaf_at h (p, es) b'" using Cons.prems(1) by auto
      ultimately have "content_wf k' c" using leaf_later_wf by blast
      moreover have "key_ord k < key_ord k'" "canonical k'"
        using srt k(1) image_eqI [OF _ m, of k' fst] unfolding key_sorted_append
        by (simp_all only: set_map fst_conv key_sorted_def simp_thms)
      ultimately show ?thesis by blast
    qed
    then have "selected a pre ?rest = []" by (intro beyond_unselected [OF k(2)]) blast
    then have "scan_adds h a pre ?rest out' out'" by (intro scan_adds_none) simp_all
    then have "scan_adds h a pre (entries_of es0 @ ?rest) out out'" by (rule scan_adds_append [OF e(2)])
    then show ?thesis using run_Return [where step = step, OF loop_end [OF e(1) Cons.prems(9)]] by simp
  next
    fix out' assume e: "scan_border sub a pre p0 ?v out h = Some (OK_SCAN_CONTINUE, next_node b, version (border_base b1), out')"
      "scan_adds h a pre (entries_of es0) out out'"
    have "\<exists>out''. run step (Scan_Loop p1 (version (border_base b1)) out') = Some (OK, out'') \<and>
      scan_adds h a pre (entries_of (concat (map snd ((p1, es1) # ls)))) out' out''"
    proof (rule Cons.IH [OF _ _ s(2) _ n(3) Cons.prems(6,7) b1 d1])
      show "key_sorted (map fst (concat (map snd ((p1, es1) # ls))))"
        using srt by (simp add: key_sorted_append l)
    qed (use Cons.prems(1,2) l in auto)
    then obtain out'' where o: "run step (Scan_Loop p1 (version (border_base b1)) out') = Some (OK, out'')"
      "scan_adds h a pre ?rest out' out''" by (auto simp: l)
    have "run step (Scan_Loop p0 ?v out) = Some (OK, out'')"
      using run_Goto [where step = step, OF loop_continue [OF e(1) Cons.prems(9)]] o(1) n(1) by simp
    then show ?thesis using scan_adds_append [OF e(2) o(2)] by simp
  qed
qed

end

section \<open>Where a scan starts\<close>

text \<open>
  \<^verbatim>\<open>scan\<close> descends with the length of the whole left key, cut to eight bits. That is the
  descent for the key itself or, when the cut length is at most eight, for a prefix of it.
\<close>

definition scan_prefix :: "byte list \<Rightarrow> byte list" where
  "scan_prefix lk = (if length lk mod 256 \<le> 8 then take (length lk mod 256) lk else lk)"

lemma scan_prefix_le: "scan_prefix lk \<le> lk"
proof -
  have "take n lk @ [] \<le> take n lk @ drop n lk" for n unfolding append_le_cancel by (cases "drop n lk") simp_all
  then show ?thesis by (simp add: scan_prefix_def)
qed

lemma scan_key_length: "unat (snd (scan_key lk)) = length lk mod 256"
  by (simp add: scan_key_def unat_of_nat)

lemma scan_key_bytes: "slice_bytes (fst (scan_key lk)) = take 8 lk @ replicate (8 - length lk) 0"
  by (simp add: scan_key_def slice_bytes_memcpy)

lemma child_before_scan_key:
  assumes "canonical t"
  shows "child_before (scan_key lk) t \<longleftrightarrow> child_before (prepare_key_slice (scan_prefix lk)) t"
proof -
  let ?m = "length lk mod 256" and ?k = "scan_key lk" and ?c = "prepare_key_slice (scan_prefix lk)"
  have t: "unat (snd t) \<le> 9" using assms by (simp add: canonical_def)
  have m: "?m \<le> length lk" by simp
  have cb: "child_before k t \<longleftrightarrow> (let n = min (min (unat (snd k)) (unat (snd t))) 8;
      c = memcmp (slice_bytes (fst k)) (slice_bytes (fst t)) n in c < 0 \<or> c = 0 \<and> unat (snd k) < unat (snd t))" for k
    unfolding child_before_def Let_def
    by (intro arg_cong2 [where f = "(\<or>)"] arg_cong2 [where f = "(\<and>)"] arg_cong [where f = "\<lambda>n. _ n < 0"]
        arg_cong [where f = "\<lambda>n. _ n = 0"]) (auto simp: word_less_nat_alt min_def)
  show ?thesis
  proof (cases "?m \<le> 8")
    case True
    then have c: "unat (snd ?c) = ?m" "slice_bytes (fst ?c) = take ?m lk @ replicate (8 - ?m) 0"
      using m by (simp_all add: scan_prefix_def unat_length_prepare slice_bytes_prepare min_def)
    have "take n (slice_bytes (fst ?k)) = take n (slice_bytes (fst ?c))" if "n \<le> ?m" for n
      using that True m by (simp add: scan_key_bytes c(2) min_def)
    then show ?thesis unfolding cb c(1) scan_key_length Let_def memcmp_def by simp
  next
    case False
    then have "8 < length lk" using m by linarith
    then have c: "unat (snd ?c) = 9" "slice_bytes (fst ?c) = slice_bytes (fst ?k)"
      using False by (simp_all add: scan_prefix_def unat_length_prepare slice_bytes_prepare scan_key_bytes)
    have "min ?m (unat (snd t)) = min 9 (unat (snd t))" "?m < unat (snd t) \<longleftrightarrow> 9 < unat (snd t)"
      using False t by auto
    then show ?thesis unfolding cb c scan_key_length by simp
  qed
qed

lemma descends_like_scan_key: "descends_like (scan_key lk) (prepare_key_slice (scan_prefix lk))"
proof -
  have "child_search n (scan_key lk) is = child_search n (prepare_key_slice (scan_prefix lk)) is"
    if "interior_wf n" "set is \<subseteq> {0..<unat (n_keys n)}" for n "is"
    using that(2)
  proof (induction "is")
    case (Cons i "is")
    then have i: "i < unat (n_keys n)" by simp
    have "interior_keys n ! i \<in> set (interior_keys n)" using i length_interior(1) [OF that(1)] by simp
    then have "canonical (base_keys (interior_base n) ! i)"
      using that(1) i by (simp add: interior_wf_def key_sorted_def interior_keys_def)
    then show ?case using Cons child_before_scan_key that(1) i
      by (simp add: get_key_at interior_wf_def)
  qed simp
  then show ?thesis by (simp add: descends_like_def canonical_prepare pick_child_def)
qed

text \<open>The leaves before the one that the descent reaches hold smaller keys only.\<close>

lemma descend_split:
  "tree_wf t \<Longrightarrow> \<exists>bef aft. layer_leaves t = bef @ descend k t # aft \<and>
     (\<forall>x \<in> fst ` set (concat (map snd bef)). key_ord x < key_ord k)"
proof (induction t rule: tree_induct)
  case (Branch p ks ts)
  let ?r = "rank_le k ks"
  have l: "length ts = Suc (length ks)" and pv: "pivots_ok ks (map tree_keys ts)"
    using Branch.prems by (simp_all add: pivots_ok_def)
  have r: "?r < length ts" using rank_le_length [of k ks] l by simp
  have ts: "ts = take ?r ts @ ts ! ?r # drop (Suc ?r) ts" using r by (rule id_take_nth_drop)
  have "tree_wf (ts ! ?r)" using Branch.prems r by simp
  then obtain bef aft where b: "layer_leaves (ts ! ?r) = bef @ descend k (ts ! ?r) # aft"
    "\<forall>x \<in> fst ` set (concat (map snd bef)). key_ord x < key_ord k"
    using Branch.IH r by (meson nth_mem)
  let ?bef = "concat (map layer_leaves (take ?r ts)) @ bef" and ?aft = "aft @ concat (map layer_leaves (drop (Suc ?r) ts))"
  have "layer_leaves (Branch p ks ts) = ?bef @ descend k (Branch p ks ts) # ?aft"
    using r by (simp, subst ts) (simp only: map_append list.map concat_append concat.simps b append_assoc append_Cons)
  moreover have "key_ord x < key_ord k" if x: "x \<in> fst ` set (concat (map snd (concat (map layer_leaves (take ?r ts)))))" for x
  proof -
    obtain t where t: "t \<in> set (take ?r ts)" "x \<in> fst ` set (layer_entries t)"
      using x by (auto simp: layer_entries_leaves)
    then obtain j where j: "j < ?r" "t = ts ! j" by (auto simp: in_set_conv_nth)
    have "x \<in> map tree_keys ts ! j" using t(2) layer_keys_subset [of t] j r by auto
    then have "key_ord x < key_ord (ks ! j)" using j r l by (intro pivots_ok_nth(1) [OF pv, of j j]) simp_all
    also have "\<dots> \<le> key_ord k" using j(1) by (rule rank_le_below)
    finally show ?thesis .
  qed
  moreover have "fst ` set (concat (map snd ?bef)) =
      fst ` set (concat (map snd (concat (map layer_leaves (take ?r ts))))) \<union> fst ` set (concat (map snd bef))"
    by (simp only: map_append concat_append set_append image_Un)
  ultimately have "\<forall>x \<in> fst ` set (concat (map snd ?bef)). key_ord x < key_ord k"
    using b(2) by (metis Un_iff)
  then show ?case using \<open>layer_leaves (Branch p ks ts) = ?bef @ descend k (Branch p ks ts) # ?aft\<close> by metis
next
  case (Leaf p es)
  show ?case by (intro exI [of _ "[]"]) simp
qed

lemma tree_at_leaves:
  "tree_wf t \<Longrightarrow> tree_at h par rt t \<Longrightarrow> l \<in> set (layer_leaves t) \<Longrightarrow> \<exists>b. leaf_at h l b"
proof (induction t arbitrary: par rt rule: tree_induct)
  case (Leaf p es)
  obtain b where "nodes h p = Some (Border b)" "leaf_node par rt es b" "\<forall>(k, c) \<in> set es. content_at h p c"
    using Leaf.prems(2) unfolding tree_at_Leaf by blast
  then have "leaf_at h (p, es) b" using Leaf.prems(1) by (auto simp: leaf_at_def valid_ptr_def)
  then show ?case using Leaf.prems(3) by auto
next
  case (Branch p ks ts)
  then show ?case unfolding tree_at_Branch by auto
qed

lemma leaves_nonempty:
  "tree_wf t \<Longrightarrow> layer_entries t \<noteq> [] \<Longrightarrow> (p, es) \<in> set (layer_leaves t) \<Longrightarrow> es \<noteq> []"
  by (induction t rule: tree_induct) auto

section \<open>Layers and trees\<close>

text \<open>How many layers are nested: what the depth of a scan has to exceed.\<close>

fun layers :: "tree \<Rightarrow> nat" and content_layers :: "content \<Rightarrow> nat" where
  "layers (Leaf p es) = fold max (map (\<lambda>(k, c). content_layers c) es) 0"
| "layers (Branch p ks ts) = fold max (map layers ts) 0"
| "content_layers (Val v) = 0"
| "content_layers (Sub t) = Suc (layers t)"

lemma fold_max_ge: "x \<in> set xs \<Longrightarrow> x \<le> fold max xs (n :: nat)"
  using Max_ge [of "set (n # xs)" x] by (simp flip: Max.set_eq_fold)

lemma layers_Sub: "(k, Sub t') \<in> set (layer_entries t) \<Longrightarrow> layers t' < layers t"
proof (induction t rule: tree_induct)
  case (Leaf p es)
  then have "Suc (layers t') \<in> set (map (\<lambda>(k, c). content_layers c) es)" by force
  from fold_max_ge [OF this, of 0] show ?case by simp
next
  case (Branch p ks ts)
  then obtain t where t: "t \<in> set ts" "layers t' < layers t" by auto
  then have "layers t \<in> set (map layers ts)" by simp
  from fold_max_ge [OF this, of 0] show ?case using t(2) by simp
qed

lemma layer_at_Sub:
  "tree_wf t \<Longrightarrow> tree_at h par rt t \<Longrightarrow> (k, Sub t') \<in> set (layer_entries t) \<Longrightarrow>
   \<exists>p. tree_wf t' \<and> layer_entries t' \<noteq> [] \<and> tree_at h p True t' \<and> linked h nullptr (map fst (layer_leaves t'))"
proof (induction t arbitrary: par rt rule: tree_induct)
  case (Leaf p es)
  then show ?case unfolding tree_at_Leaf by force
next
  case (Branch p ks ts)
  then show ?case unfolding tree_at_Branch by auto
qed

text \<open>From the leaf where the scan starts to the end of the layer, whatever the loop.\<close>

context scan_loop
begin

lemma loop_tree:
  assumes "tree_wf t" and "tree_at h par rt t" and "linked h nullptr (map fst (layer_leaves t))"
    and "layers_ok sub h (layer_entries t)" and "max_size a = 0" and "l_end a = INFINITE \<longrightarrow> l_key a = []"
    and "leaf_at h (descend (prepare_key_slice (scan_prefix (l_key a))) t) b"
    and "\<not> deleted (version (border_base b))"
  shows "\<exists>out'. run step (Scan_Loop (fst (descend (prepare_key_slice (scan_prefix (l_key a))) t))
      (version (border_base b)) out) = Some (OK, out') \<and> scan_adds h a pre (tree_entries t) out out'"
proof -
  let ?k = "prepare_key_slice (scan_prefix (l_key a))"
  obtain p0 es0 where d: "descend ?k t = (p0, es0)" by (rule prod.exhaust)
  obtain bef aft where sp: "layer_leaves t = bef @ (p0, es0) # aft"
    "\<forall>x \<in> fst ` set (concat (map snd bef)). key_ord x < key_ord ?k"
    using descend_split [OF assms(1), of ?k] unfolding d by blast
  let ?E0 = "concat (map snd bef)" and ?E1 = "concat (map snd ((p0, es0) # aft))"
  have le: "layer_entries t = ?E0 @ ?E1" by (simp add: layer_entries_leaves sp(1))
  have ne: "snd l \<noteq> []" if "l \<in> set aft" for l
  proof (cases t)
    case (Branch q ks ts)
    then obtain t' where "t' \<in> set ts" using assms(1) by (cases ts) (auto simp: pivots_ok_def)
    then have "layer_entries t \<noteq> []" using assms(1) Branch by auto
    then show ?thesis using leaves_nonempty [OF assms(1), of "fst l" "snd l"] that sp(1) by simp
  qed (use that sp(1) in \<open>auto simp: Cons_eq_append_conv\<close>)
  obtain q where lk: "linked h q (p0 # map fst aft)"
    using linked_suffix [of h nullptr "map fst bef"] assms(3) by (auto simp: sp(1))
  have srt: "key_sorted (map fst ?E1)"
    using layer_sorted [OF assms(1)] by (simp only: le map_append key_sorted_append)
  have "\<forall>l \<in> set ((p0, es0) # aft). \<exists>b. leaf_at h l b"
    using tree_at_leaves [OF assms(1,2)] sp(1) by auto
  moreover have "layers_ok sub h ?E1" using assms(4) unfolding le by (simp add: layers_ok_def)
  ultimately obtain out' where o: "run step (Scan_Loop p0 (version (border_base b)) out) = Some (OK, out')"
    "scan_adds h a pre (entries_of ?E1) out out'"
    using loop_leaves [OF _ _ _ srt lk assms(5,6) assms(7) [unfolded d] assms(8), of out] ne by blast
  have "selected a pre (entries_of ?E0) = []" unfolding selected_empty
  proof
    fix s assume "s \<in> fst ` set (entries_of ?E0)"
    then obtain x where x: "x \<in> set ?E0" "s \<in> fst ` set (content_entries (key_bytes (fst x)) (snd x))"
      by (force simp: case_prod_unfold)
    have "(fst x, snd x) \<in> set (layer_entries t)" using x(1) by (simp only: le set_append prod.collapse Un_iff simp_thms)
    then have "prepare_key_slice s = fst x" using layer_content_wf [OF assms(1)] x(2) content_strings by blast
    moreover have "key_ord (fst x) < key_ord ?k" using sp(2) x(1) by blast
    ultimately have "s < scan_prefix (l_key a)" using key_string_order by metis
    then have "s < l_key a" using scan_prefix_le by (rule less_le_trans)
    then show "\<not> (left_ok a s \<and> right_ok a (pre @ s))"
      using assms(6) by (cases "l_end a") (auto simp: left_ok_def)
  qed
  then have "scan_adds h a pre (entries_of ?E0 @ entries_of ?E1) out out'"
    using o(2) by (simp add: scan_adds_def)
  then have "scan_adds h a pre (tree_entries t) out out'" by (simp add: tree_entries_layer le)
  then show ?thesis using o(1) d by simp
qed

end

interpretation layer: scan_loop "scan_layer_step sub a pre rt initial h" sub a pre h
  for sub a pre rt initial h
  by unfold_locales (simp_all add: Let_def)

interpretation whole: scan_loop "scan_step depth ti a h" "scan_layer depth" a "[]" h
  for depth ti a h
  by unfold_locales simp_all

lemma scan_layer_ok:
  "tree_wf t \<Longrightarrow> tree_at h par True t \<Longrightarrow> linked h nullptr (map fst (layer_leaves t)) \<Longrightarrow>
   layer_entries t \<noteq> [] \<Longrightarrow> layers t < depth \<Longrightarrow> layer_ok (scan_layer depth) h t"
proof (induction depth arbitrary: t par)
  case (Suc depth)
  have subs: "layers_ok (scan_layer depth) h (layer_entries t)" unfolding layers_ok_def
  proof (intro allI impI)
    fix k t' assume m: "(k, Sub t') \<in> set (layer_entries t)"
    then have "layers t' < depth" using layers_Sub [OF m] Suc.prems(5) by simp
    then show "layer_ok (scan_layer depth) h t'"
      using layer_at_Sub [OF Suc.prems(1,2) m] Suc.IH by blast
  qed
  show ?case unfolding layer_ok_def
  proof (intro allI impI)
    fix a :: scan_range and pre out assume a: "max_size a = 0" "l_end a = INFINITE \<longrightarrow> l_key a = []"
    let ?k = "prepare_key_slice (scan_prefix (l_key a))"
    obtain b where b: "find_border (addr_of t) (scan_key (l_key a)) h =
        Some (fst (descend ?k t), version (border_base b), OK)" "leaf_at h (descend ?k t) b"
      using find_border_descend [OF Suc.prems(1,2) descends_like_scan_key] by blast
    have "snd (descend ?k t) \<noteq> []"
      using descend_in_leaves [OF Suc.prems(1), of ?k] leaves_nonempty [OF Suc.prems(1,4)] by (metis prod.collapse)
    then have nd: "\<not> deleted (version (border_base b))"
      using b(2) by (auto simp: leaf_at_def leaf_node_def Let_def)
    obtain rb where rb: "get_base (addr_of t) h = Some rb" "root (version rb)" "\<not> deleted (version rb)"
      using tree_at_base [OF Suc.prems(2)] Suc.prems(4) by metis
    let ?step = "scan_layer_step (scan_layer depth) a pre (addr_of t) out h"
    have "?step (Scan_Retry out) = Some (Goto (Scan_Loop (fst (descend ?k t)) (version (border_base b)) out))"
      using rb b(1) by simp
    then have eq: "scan_layer (Suc depth) (addr_of t) a pre out h =
        run ?step (Scan_Loop (fst (descend ?k t)) (version (border_base b)) out)"
      by (simp add: run_Goto)
    show "\<exists>out'. scan_layer (Suc depth) (addr_of t) a pre out h = Some (OK, out') \<and>
        scan_adds h a pre (tree_entries t) out out'"
      unfolding eq by (rule layer.loop_tree [OF Suc.prems(1-3) subs a b(2) nd])
  qed
qed simp

section \<open>Properties\<close>

text \<open>The range of a scan, on whole keys.\<close>

definition in_range :: "scan_range \<Rightarrow> byte list \<Rightarrow> bool" where
  "in_range a s \<longleftrightarrow> left_ok a s \<and> right_ok a s"

lemma scan_range:
  assumes "tree_rep h ti t" and "layers t \<le> depth" and "max_size a = 0"
    and "l_end a = INFINITE \<longrightarrow> l_key a = []"
    and "\<not> (l_key a = r_key a \<and> (l_end a = EXCLUSIVE \<or> r_end a = EXCLUSIVE))"
  shows "\<exists>out'. scan depth ti a out h = Some (OK, out') \<and>
    tuple_list out' = map (\<lambda>(s, v). (s, value_view (pages h) v)) (filter (\<lambda>(s, v). in_range a s) (tree_entries t))"
proof -
  have t: "load_root_ptr ti h = Some (addr_of t)" "tree_wf t" "tree_at h nullptr True t"
    "linked h nullptr (map fst (layer_leaves t))"
    using assms(1) by (simp_all add: tree_rep_def)
  have nn: "addr_of t \<noteq> nullptr" using tree_wf_valid_ptr [OF t(2)] by (simp add: valid_ptr_def)
  have subs: "layers_ok (scan_layer depth) h (layer_entries t)" unfolding layers_ok_def
  proof (intro allI impI)
    fix k t' assume m: "(k, Sub t') \<in> set (layer_entries t)"
    then have "layers t' < depth" using layers_Sub [OF m] assms(2) by simp
    then show "layer_ok (scan_layer depth) h t'"
      using layer_at_Sub [OF t(2,3) m] scan_layer_ok by blast
  qed
  let ?k = "prepare_key_slice (scan_prefix (l_key a))" and ?step = "scan_step depth ti a h"
  let ?out = "\<lparr>tuple_list = [], node_version_vec = map_option (\<lambda>_. []) (node_version_vec out)\<rparr>"
  obtain b where b: "find_border (addr_of t) (scan_key (l_key a)) h =
      Some (fst (descend ?k t), version (border_base b), OK)" "leaf_at h (descend ?k t) b"
    using find_border_descend [OF t(2,3) descends_like_scan_key] by blast
  let ?loop = "Scan_Loop (fst (descend ?k t)) (version (border_base b)) ?out"
  have "?step (Scan_Retry out) = Some (Goto ?loop)" using t(1) nn b(1) by simp
  then have eq: "scan depth ti a out h = run ?step ?loop"
    unfolding scan_def if_not_P [OF assms(5)] by (rule run_Goto)
  have "\<exists>out'. run ?step ?loop = Some (OK, out') \<and> scan_adds h a [] (tree_entries t) ?out out'"
  proof (cases "deleted (version (border_base b))")
    case False
    show ?thesis by (rule whole.loop_tree [OF t(2-4) subs assms(3,4) b(2) False])
  next
    case True
    then have e: "snd (descend ?k t) = []" "root (version (border_base b))"
      using b(2) by (auto simp: leaf_at_def leaf_node_def Let_def)
    have "layer_entries t = []"
      using e(1) descend_in_leaves [OF t(2), of ?k] leaves_nonempty [OF t(2)] by (metis prod.collapse)
    then have "tree_entries t = []" by (simp add: tree_entries_layer)
    then have "scan_adds h a [] (tree_entries t) ?out (?out\<lparr>node_version_vec :=
        map_option (\<lambda>_. [(version (border_base b), fst (descend ?k t))]) (node_version_vec ?out)\<rparr>)"
      by (simp add: scan_adds_def selected_def)
    moreover have "?step ?loop = Some (Return (OK, ?out\<lparr>node_version_vec :=
        map_option (\<lambda>_. [(version (border_base b), fst (descend ?k t))]) (node_version_vec ?out)\<rparr>))"
      using True e(2) by simp
    ultimately show ?thesis using run_Return [where step = ?step] by blast
  qed
  then show ?thesis unfolding eq by (simp add: scan_adds_def selected_def in_range_def)
qed

text \<open>
  C9. \<^verbatim>\<open>scan\<close> refines the range query on the sorted entries of the tree: without a limit on the
  number of results, and with an empty key for an infinite left end, it returns exactly the
  entries whose keys lie between the endpoints, in order and through all layers, and forgets
  what the caller's vector held before. Any depth from the number of nested layers on is
  enough.
\<close>

theorem scan_refines_range:
  assumes "tree_rep h ti t" and "layers t \<le> depth" and "max_size a = 0"
    and "l_end a = INFINITE \<longrightarrow> l_key a = []"
    and "\<not> (l_key a = r_key a \<and> (l_end a = EXCLUSIVE \<or> r_end a = EXCLUSIVE))"
  shows "\<exists>out'. scan depth ti a out h = Some (OK, out') \<and>
    tuple_list out' = map (\<lambda>(s, v). (s, value_view (pages h) v)) (filter (\<lambda>(s, v). in_range a s) (tree_entries t))"
  by (rule scan_range [OF assms])

theorem scan_refines_range_witness:
  "\<exists>out'. scan 1 storages \<lparr>l_key = [16], l_end = EXCLUSIVE, r_key = [], r_end = INFINITE, max_size = 0\<rparr>
     \<lparr>tuple_list = [], node_version_vec = None\<rparr> sample_heap = Some (OK, out') \<and> map fst (tuple_list out') = [replicate 9 17]"
proof -
  let ?a = "\<lparr>l_key = [16], l_end = EXCLUSIVE, r_key = [], r_end = INFINITE, max_size = 0\<rparr>"
  have f: "filter (\<lambda>(s, v). in_range ?a s) (tree_entries sample_tree) = [(replicate 9 17, 117)]"
    by code_simp
  have l: "layers sample_tree \<le> 1" by code_simp
  have "\<exists>out'. scan 1 storages ?a \<lparr>tuple_list = [], node_version_vec = None\<rparr> sample_heap = Some (OK, out') \<and> tuple_list out' =
    map (\<lambda>(s, v). (s, value_view (pages sample_heap) v)) (filter (\<lambda>(s, v). in_range ?a s) (tree_entries sample_tree))"
    by (rule scan_refines_range [OF sample_tree_rep l]) simp_all
  then obtain out' where "scan 1 storages ?a \<lparr>tuple_list = [], node_version_vec = None\<rparr> sample_heap = Some (OK, out')"
    "tuple_list out' = map (\<lambda>(s, v). (s, value_view (pages sample_heap) v)) [(replicate 9 17, 117)]"
    unfolding f by blast
  then show ?thesis by simp
qed

end
