(* ===== verification/Scan_Limits.thy ===== *)
theory Scan_Limits
  imports Scan_Refinement
begin

text \<open>
  Two calls of \<^verbatim>\<open>scan\<close> outside the reach of the refinement theorem: a limit on the number of
  results, and an infinite left end with a key.
\<close>

text \<open>A leaf with a next layer of two values in front of a value.\<close>

definition nested_layer :: "(key \<times> content) list" where
  "nested_layer = [((1, 1), Val 117), ((2, 1), Val 119)]"

definition nested_heap :: heap where
  "nested_heap = (initial_heap 1 [])\<lparr>storages_root := 64, nodes :=
     [64 \<mapsto> plain_leaf nullptr True nullptr nullptr
        [((0x1111111111111111, 9), Sub (Leaf 128 nested_layer)), ((18, 1), Val 118)],
      128 \<mapsto> plain_leaf 64 True nullptr nullptr nested_layer]\<rparr>"

definition scan_keys :: "scan_range \<Rightarrow> heap \<Rightarrow> (status \<times> byte list list) option" where
  "scan_keys a h = map_option (\<lambda>(st, out). (st, map fst (tuple_list out)))
     (scan 1 storages a \<lparr>tuple_list = [], node_version_vec = None\<rparr> h)"

section \<open>Runs\<close>

text \<open>
  The limit on the number of results is not kept across layers: the scan of the next
  layer stops at \<^verbatim>\<open>max_size\<close>, but its caller does not compare the size of the list with the
  limit afterwards and goes on. In this heap, which holds two keys of nine bytes and the key
  18, a scan limited to one result returns two, and the second of the long keys, which lies
  between them, is missing.
\<close>

lemma scan_limit_overrun:
  "scan_keys \<lparr>l_key = [], l_end = INFINITE, r_key = [], r_end = INFINITE, max_size = 0\<rparr> nested_heap =
     Some (OK, [replicate 8 17 @ [1], replicate 8 17 @ [2], [18]])"
  "scan_keys \<lparr>l_key = [], l_end = INFINITE, r_key = [], r_end = INFINITE, max_size = 1\<rparr> nested_heap =
     Some (OK, [replicate 8 17 @ [1], [18]])"
  by code_simp+

text \<open>
  An infinite left end does not make \<^verbatim>\<open>scan\<close> ignore the left key: the descent starts at
  the border node of that key, so leaves left of it are not visited. On the sample tree
  with the keys 1, 2, 9 and nine times 17, a scan from an infinite left end with the key 9
  misses 1 and 2.
\<close>

lemma scan_infinite_left_misses:
  "map fst (tree_entries sample_tree) = [[1], [2], [9], replicate 9 17] \<and>
   scan_keys \<lparr>l_key = [9], l_end = INFINITE, r_key = [], r_end = INFINITE, max_size = 0\<rparr> sample_heap =
     Some (OK, [[9], replicate 9 17])"
  by code_simp

end
