(* ===== verification/Tree_Path.thy ===== *)
theory Tree_Path
  imports Tree_Model "HOL-Library.Multiset"
begin

text \<open>
  Paths into a layer of a tree. A path is the list of branches above a subtree, the
  innermost first, each with the children left and right of the way down. It says which
  keys may stand below it, what the whole layer looks like around the subtree, and how the
  layer grows when the subtree at its end is split in two (\<^verbatim>\<open>border_split\<close> and
  \<^verbatim>\<open>interior_split\<close>).
\<close>

declare less_prod_simp [simp del] less_eq_prod_simp [simp del]

section \<open>Paths\<close>

type_synonym frame = "addr \<times> key list \<times> tree list \<times> tree list"

fun plug :: "frame list \<Rightarrow> tree \<Rightarrow> tree" where
  "plug [] t = t"
| "plug ((p, ks, ls, rs) # c) t = plug c (Branch p ks (ls @ t # rs))"

lemma plug_append: "plug (c @ d) t = plug d (plug c t)"
  by (induction c t rule: plug.induct) simp_all

text \<open>What a path contributes to a listing of the layer, on either side.\<close>

fun ctx_left :: "(tree \<Rightarrow> 'a list) \<Rightarrow> frame list \<Rightarrow> 'a list" where
  "ctx_left f [] = []"
| "ctx_left f ((p, ks, ls, rs) # c) = ctx_left f c @ concat (map f ls)"

fun ctx_right :: "(tree \<Rightarrow> 'a list) \<Rightarrow> frame list \<Rightarrow> 'a list" where
  "ctx_right f [] = []"
| "ctx_right f ((p, ks, ls, rs) # c) = concat (map f rs) @ ctx_right f c"

lemma layer_plug:
  "layer_entries (plug c t) = ctx_left layer_entries c @ layer_entries t @ ctx_right layer_entries c"
  "layer_leaves (plug c t) = ctx_left layer_leaves c @ layer_leaves t @ ctx_right layer_leaves c"
  by (induction c t rule: plug.induct) simp_all

text \<open>The addresses of all nodes, through all layers.\<close>

fun tree_addrs :: "tree \<Rightarrow> addr list" and content_addrs :: "content \<Rightarrow> addr list" where
  "tree_addrs (Leaf p es) = p # concat (map (\<lambda>(k, c). content_addrs c) es)"
| "tree_addrs (Branch p ks ts) = p # concat (map tree_addrs ts)"
| "content_addrs (Val v) = []"
| "content_addrs (Sub t) = tree_addrs t"

lemma tree_addrs_Leaf [simp]: "tree_addrs (Leaf p es) = p # concat (map content_addrs (map snd es))"
  by (simp add: o_def case_prod_beta')

declare tree_addrs.simps(1) [simp del]

fun ctx_addrs :: "frame list \<Rightarrow> addr list" where
  "ctx_addrs [] = []"
| "ctx_addrs ((p, ks, ls, rs) # c) = p # concat (map tree_addrs ls) @ concat (map tree_addrs rs) @ ctx_addrs c"

lemma tree_addrs_plug: "mset (tree_addrs (plug c t)) = mset (ctx_addrs c) + mset (tree_addrs t)"
  by (induction c t rule: plug.induct) simp_all

lemma distinct_plug: "distinct (tree_addrs (plug c t) @ xs) \<longleftrightarrow> distinct (ctx_addrs c @ tree_addrs t @ xs)"
  by (rule mset_eq_imp_distinct_iff) (simp add: tree_addrs_plug)

lemma set_addrs_plug: "set (tree_addrs (plug c t)) = set (ctx_addrs c) \<union> set (tree_addrs t)"
  using arg_cong [OF tree_addrs_plug [of c t], of set_mset] by simp

lemma tree_addrs_Cons: "tree_addrs t = addr_of t # tl (tree_addrs t)"
  by (cases t) simp_all

lemma addr_of_in_addrs [simp]: "addr_of t \<in> set (tree_addrs t)"
  by (cases t) simp_all

text \<open>The root of a plugged tree is the outermost branch.\<close>

lemma addr_of_plug: "addr_of t = addr_of t' \<Longrightarrow> addr_of (plug c t) = addr_of (plug c t')"
  by (induction c arbitrary: t t') auto

section \<open>Keys below a path\<close>

text \<open>A key that the descent leads into the hole of a branch.\<close>

fun fits_frame :: "frame \<Rightarrow> key \<Rightarrow> bool" where
  "fits_frame (p, ks, ls, rs) k \<longleftrightarrow> (\<forall>i < length ks.
     if i < length ls then key_ord (ks ! i) \<le> key_ord k else key_ord k < key_ord (ks ! i))"

definition fits :: "frame list \<Rightarrow> key \<Rightarrow> bool" where
  "fits c k \<longleftrightarrow> (\<forall>f \<in> set c. fits_frame f k)"

lemma fits_simps [simp]: "fits [] k" "fits (f # c) k \<longleftrightarrow> fits_frame f k \<and> fits c k"
  by (simp_all add: fits_def)

fun frame_keys :: "frame \<Rightarrow> key set" where
  "frame_keys (p, ks, ls, rs) = set ks \<union> \<Union> (tree_keys ` set ls) \<union> \<Union> (tree_keys ` set rs)"

lemma tree_keys_plug: "tree_keys (plug c t) = \<Union> (frame_keys ` set c) \<union> tree_keys t"
proof (induction c t rule: plug.induct)
  case (2 p ks ls rs c t)
  have "tree_keys (Branch p ks (ls @ t # rs)) = frame_keys (p, ks, ls, rs) \<union> tree_keys t" by auto
  then show ?case using 2 unfolding plug.simps by (simp only: list.set image_insert Union_insert) blast
qed simp

fun frame_wf :: "frame \<Rightarrow> bool" where
  "frame_wf (p, ks, ls, rs) \<longleftrightarrow> valid_ptr p \<and> ks \<noteq> [] \<and> length ks \<le> key_slice_length \<and> key_sorted ks \<and>
     pivots_ok ks (map tree_keys ls @ {} # map tree_keys rs) \<and>
     (\<forall>t \<in> set ls \<union> set rs. layer_entries t \<noteq> [] \<and> tree_wf t)"

fun ctx_wf :: "frame list \<Rightarrow> bool" where
  "ctx_wf [] \<longleftrightarrow> True"
| "ctx_wf (f # c) \<longleftrightarrow> frame_wf f \<and> (\<forall>k \<in> frame_keys f. fits c k) \<and> ctx_wf c"

lemma pivots_ok_iff:
  "pivots_ok ks Ks \<longleftrightarrow> length Ks = Suc (length ks) \<and> (\<forall>i < length ks. \<forall>j \<le> length ks. \<forall>k \<in> Ks ! j.
     if i < j then key_ord (ks ! i) \<le> key_ord k else key_ord k < key_ord (ks ! i))"
  (is "_ \<longleftrightarrow> ?l \<and> ?R")
proof
  assume p: "pivots_ok ks Ks"
  have ?R using pivots_ok_nth [OF p] by (simp add: not_less del: less_prod_simp less_eq_prod_simp)
  moreover have ?l using p by (simp add: pivots_ok_def)
  ultimately show "?l \<and> ?R" by blast
next
  assume a: "?l \<and> ?R"
  have "key_ord k < key_ord (ks ! i)" if i: "i < length ks" and k: "k \<in> \<Union> (set (take (Suc i) Ks))" for i k
  proof -
    obtain j where "j < Suc i" "k \<in> Ks ! j" using k by (auto simp: in_set_conv_nth)
    then show ?thesis using a i by (meson Suc_le_lessD less_imp_le_nat less_Suc_eq_le not_le order_trans)
  qed
  moreover have "key_ord (ks ! i) \<le> key_ord k" if i: "i < length ks" and k: "k \<in> \<Union> (set (drop (Suc i) Ks))" for i k
  proof -
    obtain j where "j < length Ks - Suc i" "k \<in> Ks ! (Suc i + j)" using k by (auto simp: in_set_conv_nth)
    moreover from this have "Suc i + j \<le> length ks" "i < Suc i + j" using a i by simp_all
    ultimately show ?thesis using a i by meson
  qed
  ultimately show "pivots_ok ks Ks" using a by (simp only: pivots_ok_def) blast
qed

text \<open>Only the keys in the hole depend on what is plugged in.\<close>

lemma pivots_ok_hole:
  "pivots_ok ks (map tree_keys ls @ K # map tree_keys rs) \<longleftrightarrow>
     pivots_ok ks (map tree_keys ls @ {} # map tree_keys rs) \<and> (\<forall>k \<in> K. fits_frame (p, ks, ls, rs) k)"
proof -
  let ?A = "map tree_keys ls" and ?B = "map tree_keys rs"
  have n: "(?A @ X # ?B) ! j = (if j = length ls then X else (?A @ {} # ?B) ! j)" for X j
    by (simp add: nth_append nth_Cons')
  have e: "(?A @ {} # ?B) ! length ls = {}" by (simp add: nth_append)
  have g: "(\<forall>i < n. \<forall>j \<le> n. \<forall>k \<in> (if j = m then K else E j). P i j k) \<longleftrightarrow>
      (\<forall>i < n. \<forall>j \<le> n. \<forall>k \<in> E j. P i j k) \<and> (\<forall>k \<in> K. \<forall>i < n. P i m k)"
    if "E m = {}" "m \<le> n" for n m :: nat and E :: "nat \<Rightarrow> key set" and P
    using that by (smt (verit) empty_iff)
  show ?thesis
  proof (cases "Suc (length ls + length rs) = Suc (length ks)")
    case True
    then have "length ls \<le> length ks" by simp
    note g' = g [of "\<lambda>j. (?A @ {} # ?B) ! j" "length ls" "length ks"
        "\<lambda>i j k. if i < j then key_ord (ks ! i) \<le> key_ord k else key_ord k < key_ord (ks ! i)", OF e this]
    show ?thesis unfolding pivots_ok_iff n [of K] fits_frame.simps using True g'
      by (simp only: length_append length_map list.size simp_thms add_Suc_right add_0_right)
  qed (simp add: pivots_ok_iff)
qed

lemma tree_wf_plug:
  "tree_wf (plug c t) \<longleftrightarrow> ctx_wf c \<and> tree_wf t \<and> (\<forall>k \<in> tree_keys t. fits c k) \<and> (c \<noteq> [] \<longrightarrow> layer_entries t \<noteq> [])"
proof (induction c t rule: plug.induct)
  case (2 p ks ls rs c t)
  have "tree_wf (Branch p ks (ls @ t # rs)) \<longleftrightarrow> frame_wf (p, ks, ls, rs) \<and> tree_wf t \<and> layer_entries t \<noteq> [] \<and>
      (\<forall>k \<in> tree_keys t. fits_frame (p, ks, ls, rs) k)"
    using pivots_ok_hole [of ks ls "tree_keys t" rs p] by (simp del: fits_frame.simps) blast
  moreover have "tree_keys (Branch p ks (ls @ t # rs)) = frame_keys (p, ks, ls, rs) \<union> tree_keys t" by auto
  moreover have "layer_entries t \<noteq> [] \<Longrightarrow> layer_entries (Branch p ks (ls @ t # rs)) \<noteq> []" by simp
  ultimately show ?case unfolding plug.simps 2 ctx_wf.simps fits_simps by blast
qed simp

text \<open>The leaf that a descent reaches, with the path to it.\<close>

lemma fits_frame_rank:
  assumes "key_sorted ks" and "r = rank_le k ks" and "r < length ts"
  shows "fits_frame (p, ks, take r ts, drop (Suc r) ts) k"
  using assms rank_le_below [of _ k ks] rank_le_above [OF assms(1), of k]
  by (simp del: less_prod_simp less_eq_prod_simp)

lemma descend_path:
  assumes "tree_wf t"
  shows "\<exists>c. t = plug c (Leaf (fst (descend k t)) (snd (descend k t))) \<and> fits c k"
  using assms
proof (induction t rule: tree_induct)
  case (Leaf p es)
  then show ?case by (intro exI [of _ "[]"]) simp
next
  case (Branch p ks ts)
  let ?r = "rank_le k ks"
  have w: "key_sorted ks" "length ts = Suc (length ks)" using Branch.prems by (simp_all add: pivots_ok_def)
  then have r: "?r < length ts" using rank_le_length [of k ks] by simp
  then obtain c where c: "ts ! ?r = plug c (Leaf (fst (descend k (ts ! ?r))) (snd (descend k (ts ! ?r))))" "fits c k"
    using Branch.IH [of "ts ! ?r"] Branch.prems by auto
  let ?f = "(p, ks, take ?r ts, drop (Suc ?r) ts)"
  have "fits (c @ [?f]) k" using c(2) fits_frame_rank [OF w(1) refl r] by (simp add: fits_def del: fits_frame.simps)
  moreover have "Branch p ks ts = plug (c @ [?f]) (Leaf (fst (descend k (ts ! ?r))) (snd (descend k (ts ! ?r))))"
    using c(1) r by (simp add: plug_append id_take_nth_drop [symmetric])
  moreover have "descend k (Branch p ks ts) = descend k (ts ! ?r)" using r by simp
  ultimately show ?case by metis
qed

section \<open>Growing a layer\<close>

text \<open>
  The subtree at the end of a path has been split into \<open>l\<close> and \<open>r\<close>, with \<open>k\<close> between them.
  Full branches on the way up are split too, into the keys before and after the one that
  moves up; a split that reaches the top makes a new root. New branches get the addresses
  \<open>qs\<close>.
\<close>

fun grow :: "frame list \<Rightarrow> tree \<Rightarrow> key \<Rightarrow> tree \<Rightarrow> addr list \<Rightarrow> tree" where
  "grow [] l k r qs = Branch (hd qs) [k] [l, r]"
| "grow ((p, ks, ls, rs) # c) l k r qs =
     (let ks' = ins_at (length ls) k ks; ts' = ls @ l # r # rs
      in if length ks < key_slice_length then plug c (Branch p ks' ts')
         else let m = (if length ls \<le> 7 then 8 else 7)
              in grow c (Branch p (take m ks') (take (Suc m) ts')) (ks' ! m)
                   (Branch (hd qs) (drop (Suc m) ks') (drop (Suc m) ts')) (tl qs))"

text \<open>The number of new branches.\<close>

fun grown :: "frame list \<Rightarrow> nat" where
  "grown [] = 1"
| "grown ((p, ks, ls, rs) # c) = (if length ks < key_slice_length then 0 else Suc (grown c))"

lemma grown_le: "grown c \<le> Suc (length c)"
  by (induction c rule: grown.induct) simp_all

lemma take_drop_concat: "concat (map f (take n xs)) @ concat (map f (drop n xs)) = concat (map f xs)"
  by (metis append_take_drop_id concat_append map_append)

lemma grow_induct [case_names Top Room Full]:
  assumes "\<And>l k r qs. P [] l k r qs"
    and "\<And>p ks ls rs c l k r qs. length ks < key_slice_length \<Longrightarrow>
      grow ((p, ks, ls, rs) # c) l k r qs = plug c (Branch p (ins_at (length ls) k ks) (ls @ l # r # rs)) \<Longrightarrow>
      P ((p, ks, ls, rs) # c) l k r qs"
    and "\<And>p ks ls rs c l k r qs ks' ts' m. \<not> length ks < key_slice_length \<Longrightarrow> ks' = ins_at (length ls) k ks \<Longrightarrow>
      ts' = ls @ l # r # rs \<Longrightarrow> m = (if length ls \<le> 7 then 8 else 7) \<Longrightarrow>
      grow ((p, ks, ls, rs) # c) l k r qs = grow c (Branch p (take m ks') (take (Suc m) ts')) (ks' ! m)
        (Branch (hd qs) (drop (Suc m) ks') (drop (Suc m) ts')) (tl qs) \<Longrightarrow>
      P c (Branch p (take m ks') (take (Suc m) ts')) (ks' ! m)
        (Branch (hd qs) (drop (Suc m) ks') (drop (Suc m) ts')) (tl qs) \<Longrightarrow>
      P ((p, ks, ls, rs) # c) l k r qs"
  shows "P c l k r qs"
proof (induction c l k r qs rule: grow.induct)
  case (2 p ks ls rs c l k r qs)
  define ks' ts' and m :: nat
    where "ks' = ins_at (length ls) k ks" and "ts' = ls @ l # r # rs" and "m = (if length ls \<le> 7 then 8 else 7)"
  show ?case
  proof (cases "length ks < key_slice_length")
    case True
    then show ?thesis by (intro assms(2)) simp_all
  next
    case False
    then show ?thesis
      by (intro assms(3) [OF False ks'_def ts'_def m_def] "2.IH" [OF ks'_def ts'_def False m_def])
        (simp add: ks'_def ts'_def m_def Let_def)
  qed
qed (rule assms(1))

declare grow.simps(2) [simp del]

lemma grow_layer:
  "layer_entries (grow c l k r qs) =
     ctx_left layer_entries c @ layer_entries l @ layer_entries r @ ctx_right layer_entries c \<and>
   layer_leaves (grow c l k r qs) =
     ctx_left layer_leaves c @ layer_leaves l @ layer_leaves r @ ctx_right layer_leaves c"
proof (induction c l k r qs rule: grow_induct)
  case (Full p ks ls rs c l k r qs ks' ts' m)
  have "concat (map layer_entries (take (Suc m) ts')) @ concat (map layer_entries (drop (Suc m) ts')) @ X =
      concat (map layer_entries ls) @ layer_entries l @ layer_entries r @ concat (map layer_entries rs) @ X" for X
    using take_drop_concat [of layer_entries "Suc m" ts'] by (simp add: Full(3) flip: append_assoc)
  moreover have "concat (map layer_leaves (take (Suc m) ts')) @ concat (map layer_leaves (drop (Suc m) ts')) @ X =
      concat (map layer_leaves ls) @ layer_leaves l @ layer_leaves r @ concat (map layer_leaves rs) @ X" for X
    using take_drop_concat [of layer_leaves "Suc m" ts'] by (simp add: Full(3) flip: append_assoc)
  ultimately show ?case using Full(6) unfolding Full(5) by simp
qed (simp_all add: layer_plug)

lemma grow_addrs:
  "grown c \<le> length qs \<Longrightarrow> mset (tree_addrs (grow c l k r qs)) =
     mset (ctx_addrs c) + mset (tree_addrs l) + mset (tree_addrs r) + mset (take (grown c) qs)"
proof (induction c l k r qs rule: grow_induct)
  case (Top l k r qs)
  then show ?case by (cases qs) simp_all
next
  case (Room p ks ls rs c l k r qs)
  then show ?case by (simp add: tree_addrs_plug)
next
  case (Full p ks ls rs c l k r qs ks' ts' m)
  have "mset (concat (map tree_addrs (take (Suc m) ts'))) + mset (concat (map tree_addrs (drop (Suc m) ts'))) =
      mset (concat (map tree_addrs (ls @ l # r # rs)))"
    unfolding mset_append [symmetric] take_drop_concat Full(3) ..
  then show ?case using Full by (cases qs) (simp_all add: ac_simps)
qed

lemma grow_keys:
  "tree_keys (grow c l k r qs) \<subseteq> \<Union> (frame_keys ` set c) \<union> tree_keys l \<union> tree_keys r \<union> {k}"
proof (induction c l k r qs rule: grow_induct)
  case (Room p ks ls rs c l k r qs)
  have "tree_keys (plug c t) \<subseteq> \<Union> (frame_keys ` set c) \<union> tree_keys t" for c t
    by (induction c t rule: plug.induct) auto
  from this [of c "Branch p (ins_at (length ls) k ks) (ls @ l # r # rs)"] show ?case
    unfolding Room(2) by auto
next
  case (Full p ks ls rs c l k r qs ks' ts' m)
  have k: "set ks' = insert k (set ks)" unfolding Full(2) by (rule set_ins_at)
  have "m < length ks'" using Full(1,2,4) by (simp add: ins_at_def min_def)
  then have "tree_keys (Branch p (take m ks') (take (Suc m) ts')) \<union>
      tree_keys (Branch (hd qs) (drop (Suc m) ks') (drop (Suc m) ts')) \<union> {ks' ! m} \<subseteq>
    set ks' \<union> \<Union> (tree_keys ` set ts')"
    unfolding tree_keys.simps using nth_mem [of m ks'] set_take_subset [of m ks'] set_drop_subset [of "Suc m" ks']
      set_take_subset [of "Suc m" ts'] set_drop_subset [of "Suc m" ts'] by blast
  moreover have "set ks' \<union> \<Union> (tree_keys ` set ts') \<subseteq> frame_keys (p, ks, ls, rs) \<union> tree_keys l \<union> tree_keys r \<union> {k}"
    unfolding k Full(3) frame_keys.simps set_append list.set by blast
  moreover have "\<Union> (frame_keys ` set ((p, ks, ls, rs) # c)) = frame_keys (p, ks, ls, rs) \<union> \<Union> (frame_keys ` set c)"
    by (simp only: list.set image_insert Union_insert)
  moreover have g: "T \<subseteq> (F \<union> C) \<union> L \<union> R \<union> D'" if "A \<union> B \<union> D \<subseteq> E" "E \<subseteq> F \<union> L \<union> R \<union> D'" "T \<subseteq> C \<union> A \<union> B \<union> D"
    for A B C D E F L R T and D' :: "key set" using that by blast
  ultimately show ?case using Full(6) unfolding Full(5) by (simp only:)
qed (simp_all add: insert_commute)

text \<open>When the two halves of a split may take the place of the subtree.\<close>

definition split_ok :: "frame list \<Rightarrow> tree \<Rightarrow> key \<Rightarrow> tree \<Rightarrow> bool" where
  "split_ok c l k r \<longleftrightarrow> ctx_wf c \<and> tree_wf l \<and> tree_wf r \<and> layer_entries l \<noteq> [] \<and> layer_entries r \<noteq> [] \<and>
     canonical k \<and> fits c k \<and> (\<forall>x \<in> tree_keys l. fits c x \<and> key_ord x < key_ord k) \<and>
     (\<forall>x \<in> tree_keys r. fits c x \<and> key_ord k \<le> key_ord x)"

lemma tree_keys_nonempty: "layer_entries t \<noteq> [] \<Longrightarrow> tree_keys t \<noteq> {}"
  using layer_keys_subset [of t] by auto

lemma pivots_ok_insert:
  assumes "pivots_ok ks (A @ {} # B)" and "length A \<le> length ks"
    and "\<forall>x \<in> insert k (L \<union> R). \<forall>i < length ks.
      if i < length A then key_ord (ks ! i) \<le> key_ord x else key_ord x < key_ord (ks ! i)"
    and "\<forall>x \<in> L. key_ord x < key_ord k" and "\<forall>x \<in> R. key_ord k \<le> key_ord x"
  shows "pivots_ok (ins_at (length A) k ks) (A @ L # R # B)"
  unfolding pivots_ok_iff
proof (intro conjI allI impI ballI)
  let ?a = "length A" and ?E = "A @ {} # B"
  have l: "length ?E = Suc (length ks)" using assms(1) by (simp add: pivots_ok_def)
  then show "length (A @ L # R # B) = Suc (length (ins_at ?a k ks))" using assms(2) by simp
  fix i j x assume "i < length (ins_at ?a k ks)" and "j \<le> length (ins_at ?a k ks)" and x: "x \<in> (A @ L # R # B) ! j"
  then have i: "i \<le> length ks" and j: "j \<le> Suc (length ks)" using assms(2) by simp_all
  have ki: "ins_at ?a k ks ! i = (if i < ?a then ks ! i else if i = ?a then k else ks ! (i - 1))"
    using i assms(2) by (rule nth_ins_at [rotated])
  have old: "if i < j then key_ord (ks ! i) \<le> key_ord x else key_ord x < key_ord (ks ! i)"
    if "i < length ks" "j \<le> length ks" "x \<in> ?E ! j" for i j
    using assms(1) that unfolding pivots_ok_iff by blast
  have sh: "(A @ L # R # B) ! j = ?E ! (j - 1)" if "Suc ?a < j"
  proof -
    obtain n where "j = ?a + Suc (Suc n)" using less_imp_Suc_add [OF \<open>Suc ?a < j\<close>] by auto
    then show ?thesis by (simp add: nth_append)
  qed
  have fit: "(i < ?a \<longrightarrow> key_ord (ks ! i) \<le> key_ord y) \<and> (?a < i \<longrightarrow> key_ord y < key_ord (ks ! (i - 1)))"
    if "y \<in> L \<union> R" for y
  proof -
    have "i < length ks" if "i < ?a" using that assms(2) by linarith
    moreover have "i - 1 < length ks" "\<not> i - 1 < ?a" if "?a < i" using that i by linarith+
    ultimately show ?thesis using assms(3) \<open>y \<in> L \<union> R\<close> by (metis insertI2)
  qed
  consider (left) "j < ?a" "x \<in> ?E ! j" | (l) "j = ?a" "x \<in> L" | (r) "j = Suc ?a" "x \<in> R"
    | (right) "Suc ?a < j" "x \<in> ?E ! (j - 1)"
  proof -
    consider "j < ?a" | "j = ?a" | "j = Suc ?a" | "Suc ?a < j" by linarith
    then show thesis using x sh that by cases (simp_all add: nth_append)
  qed
  then show "if i < j then key_ord (ins_at ?a k ks ! i) \<le> key_ord x else key_ord x < key_ord (ins_at ?a k ks ! i)"
  proof cases
    case left
    have "key_ord x < key_ord k" if "i = ?a"
    proof -
      have a: "?a - 1 < length ks" "\<not> ?a - 1 < j" "j \<le> length ks" "?a - 1 < ?a" using left assms(2) by linarith+
      have "key_ord x < key_ord (ks ! (?a - 1))" using old [OF a(1,3) left(2)] a(2) by (simp only: if_False)
      moreover have "key_ord (ks ! (?a - 1)) \<le> key_ord k" using assms(3) a(1,4) by (metis insertI1)
      ultimately show ?thesis by (rule less_le_trans)
    qed
    moreover have "key_ord x < key_ord (ks ! (i - 1))" if "?a < i"
    proof -
      have "i - 1 < length ks" "j \<le> length ks" "\<not> i - 1 < j" using that left i assms(2) by linarith+
      then show ?thesis using old [OF _ _ left(2), of "i - 1"] by (simp only: if_False)
    qed
    ultimately show ?thesis unfolding ki using old [of i j] left i j assms(2) by auto
  next
    case l
    then show ?thesis unfolding ki using fit [of x] assms(4) by auto
  next
    case r
    then show ?thesis unfolding ki using fit [of x] assms(5) by auto
  next
    case right
    have "key_ord k \<le> key_ord x" if "i = ?a"
    proof -
      have a: "?a < length ks" "j - 1 \<le> length ks" "?a < j - 1" using right j by simp_all
      have "key_ord (ks ! ?a) \<le> key_ord x" using old [of ?a "j - 1"] right(2) a by simp
      moreover have "key_ord k < key_ord (ks ! ?a)" using assms(3) a(1) by auto
      ultimately show ?thesis by simp
    qed
    moreover have "if i < j then key_ord (ks ! (i - 1)) \<le> key_ord x else key_ord x < key_ord (ks ! (i - 1))" if "?a < i"
    proof -
      have e: "i - 1 < length ks" "j - 1 \<le> length ks" "i - 1 < j - 1 \<longleftrightarrow> i < j" using that right i j by linarith+
      show ?thesis using old [OF e(1,2) right(2)] unfolding e(3) .
    qed
    moreover have "key_ord (ks ! i) \<le> key_ord x" if "i < ?a"
    proof -
      have "i < length ks" "j - 1 \<le> length ks" "i < j - 1" using that right i j assms(2) by linarith+
      then show ?thesis using old [OF _ _ right(2), of i] by (simp only: if_True)
    qed
    ultimately show ?thesis unfolding ki using right by auto
  qed
qed

text \<open>A branch with the pair in the place of the subtree, apart from its size.\<close>

lemma frame_insert:
  assumes "split_ok ((p, ks, ls, rs) # c) l k r"
  shows "key_sorted (ins_at (length ls) k ks)"
    and "pivots_ok (ins_at (length ls) k ks) (map tree_keys (ls @ l # r # rs))"
    and "rank_le k ks = length ls" and "k \<notin> set ks"
proof -
  have w: "key_sorted ks" "pivots_ok ks (map tree_keys ls @ {} # map tree_keys rs)" "canonical k"
    "fits_frame (p, ks, ls, rs) k" and n: "tree_keys l \<noteq> {}"
    and f: "\<forall>x \<in> tree_keys l \<union> tree_keys r. fits_frame (p, ks, ls, rs) x"
    and o: "\<forall>x \<in> tree_keys l. key_ord x < key_ord k" "\<forall>x \<in> tree_keys r. key_ord k \<le> key_ord x"
    using assms tree_keys_nonempty [of l] by (auto simp: split_ok_def simp del: fits_frame.simps)
  have le: "length ls \<le> length ks" using w(2) by (simp add: pivots_ok_def)
  show rk: "rank_le k ks = length ls"
  proof (rule antisym)
    show "rank_le k ks \<le> length ls"
    proof (rule ccontr)
      assume "\<not> rank_le k ks \<le> length ls"
      then have "length ls < rank_le k ks" by simp
      then have "key_ord (ks ! length ls) \<le> key_ord k" "length ls < length ks"
        using rank_le_below rank_le_length [of k ks] by (blast, simp)
      then show False using w(4) by (auto simp: not_less [symmetric])
    qed
    show "length ls \<le> rank_le k ks"
    proof (rule ccontr)
      assume "\<not> length ls \<le> rank_le k ks"
      then have "rank_le k ks < length ls" "rank_le k ks < length ks" using le by simp_all
      moreover from this have "key_ord k < key_ord (ks ! rank_le k ks)" by (intro rank_le_above [OF w(1)]) simp_all
      ultimately show False using w(4) by (auto simp: not_less [symmetric])
    qed
  qed
  obtain x where x: "x \<in> tree_keys l" using n by blast
  have "ks ! i \<noteq> k" if i: "i < length ks" for i
  proof (cases "i < length ls")
    case True
    then have "key_ord (ks ! i) \<le> key_ord x" "key_ord x < key_ord k" using f x i o(1) by auto
    then show ?thesis by auto
  next
    case False
    then have "key_ord k < key_ord (ks ! i)" using w(4) i by auto
    then show ?thesis by auto
  qed
  then show nin: "k \<notin> set ks" by (auto simp: in_set_conv_nth)
  show "key_sorted (ins_at (length ls) k ks)"
    using key_sorted_ins_at [OF w(1,3) nin] rk by simp
  show "pivots_ok (ins_at (length ls) k ks) (map tree_keys (ls @ l # r # rs))"
    using pivots_ok_insert [of ks "map tree_keys ls" "map tree_keys rs" k "tree_keys l" "tree_keys r"] w f o le
    by simp
qed

text \<open>The two halves of a branch.\<close>

lemma pivots_ok_take_drop:
  assumes "pivots_ok ks Ks" and "m < length ks"
  shows "pivots_ok (take m ks) (take (Suc m) Ks)" and "pivots_ok (drop (Suc m) ks) (drop (Suc m) Ks)"
    and "x \<in> \<Union> (set (take (Suc m) Ks)) \<Longrightarrow> key_ord x < key_ord (ks ! m)"
    and "x \<in> \<Union> (set (drop (Suc m) Ks)) \<Longrightarrow> key_ord (ks ! m) \<le> key_ord x"
proof -
  have l: "length Ks = Suc (length ks)"
    and o: "\<And>i j k. i < length ks \<Longrightarrow> j \<le> length ks \<Longrightarrow> k \<in> Ks ! j \<Longrightarrow>
       if i < j then key_ord (ks ! i) \<le> key_ord k else key_ord k < key_ord (ks ! i)"
    using assms(1) unfolding pivots_ok_iff by blast+
  show "pivots_ok (take m ks) (take (Suc m) Ks)"
    unfolding pivots_ok_iff
  proof (intro conjI allI impI ballI)
    fix i j k assume "i < length (take m ks)" "j \<le> length (take m ks)" "k \<in> take (Suc m) Ks ! j"
    then show "if i < j then key_ord (take m ks ! i) \<le> key_ord k else key_ord k < key_ord (take m ks ! i)"
      using o [of i j k] assms(2) l by simp
  qed (use assms(2) l in simp)
  show "pivots_ok (drop (Suc m) ks) (drop (Suc m) Ks)"
    unfolding pivots_ok_iff
  proof (intro conjI allI impI ballI)
    fix i j k assume "i < length (drop (Suc m) ks)" "j \<le> length (drop (Suc m) ks)" "k \<in> drop (Suc m) Ks ! j"
    then show "if i < j then key_ord (drop (Suc m) ks ! i) \<le> key_ord k else key_ord k < key_ord (drop (Suc m) ks ! i)"
      using o [of "Suc (m + i)" "Suc (m + j)" k] assms(2) l by (simp split: if_splits)
  qed (use assms(2) l in simp)
  show "x \<in> \<Union> (set (take (Suc m) Ks)) \<Longrightarrow> key_ord x < key_ord (ks ! m)"
    "x \<in> \<Union> (set (drop (Suc m) Ks)) \<Longrightarrow> key_ord (ks ! m) \<le> key_ord x"
    using assms by (simp_all only: pivots_ok_def)
qed

lemma ctx_wf_fits_pivots: "ctx_wf ((p, ks, ls, rs) # c) \<Longrightarrow> x \<in> frame_keys (p, ks, ls, rs) \<Longrightarrow> fits c x"
  by (simp del: frame_keys.simps)

lemma split_ok_Full:
  assumes "split_ok ((p, ks, ls, rs) # c) l k r" and "\<not> length ks < key_slice_length"
    and "ks' = ins_at (length ls) k ks" and "ts' = ls @ l # r # rs" and "m = (if length ls \<le> 7 then 8 else 7)"
    and "valid_ptr q"
  shows "split_ok c (Branch p (take m ks') (take (Suc m) ts')) (ks' ! m)
    (Branch q (drop (Suc m) ks') (drop (Suc m) ts'))"
proof -
  have w: "length ks = 15" "valid_ptr p" "ctx_wf c" "\<forall>t \<in> set ls \<union> set rs. layer_entries t \<noteq> [] \<and> tree_wf t"
    "\<forall>x \<in> frame_keys (p, ks, ls, rs). fits c x" "length ls \<le> length ks"
    and lr: "tree_wf l" "tree_wf r" "layer_entries l \<noteq> []" "layer_entries r \<noteq> []" "fits c k" "canonical k"
    "\<forall>x \<in> tree_keys l \<union> tree_keys r. fits c x"
    using assms(1,2) by (auto simp: split_ok_def pivots_ok_def simp del: fits_frame.simps frame_keys.simps)
  note ins = frame_insert [OF assms(1), folded assms(3), folded assms(4)]
  have l: "length ks' = 16" "length ts' = 17" using w(1,6) ins(2) by (simp_all add: assms(3) pivots_ok_def)
  have m: "m = 7 \<or> m = 8" "m < length ks'" using assms(5) l by auto
  have ts: "\<forall>t \<in> set ts'. layer_entries t \<noteq> [] \<and> tree_wf t" using w(4) lr by (auto simp: assms(4))
  have fit: "fits c x" if "x \<in> set ks' \<or> (\<exists>t \<in> set ts'. x \<in> tree_keys t)" for x
    using that w(5) lr(5,7) by (auto simp: assms(3,4))
  have can: "canonical (ks' ! m)" using ins(1) m(2) by (simp add: key_sorted_def)
  note piv = pivots_ok_take_drop [OF ins(2) m(2)]
  have sub: "set (take i xs) \<subseteq> set xs" "set (drop i xs) \<subseteq> set xs" for i and xs :: "'b list"
    by (rule set_take_subset set_drop_subset)+
  have split: "key_ord x < key_ord (ks' ! m)" if "x \<in> set (take m ks')" for x
  proof -
    have "ks' ! m \<in> set (drop m ks')" using m(2) by (metis Cons_nth_drop_Suc list.set_intros(1))
    then show ?thesis using key_sorted_split [OF ins(1) that] by blast
  qed
  have split': "key_ord (ks' ! m) \<le> key_ord x" if "x \<in> set (drop (Suc m) ks')" for x
  proof -
    have "ks' ! m \<in> set (take (Suc m) ks')" using m(2) by (simp add: take_Suc_conv_app_nth)
    then have "key_ord (ks' ! m) < key_ord x" using key_sorted_split [OF ins(1) _ that] by blast
    then show ?thesis by simp
  qed
  have "tree_wf (Branch p (take m ks') (take (Suc m) ts'))" "tree_wf (Branch q (drop (Suc m) ks') (drop (Suc m) ts'))"
    using piv(1,2) ts m l w(2) assms(6) key_sorted_take [OF ins(1)] key_sorted_drop [OF ins(1)] sub [of "Suc m" ts']
    by (auto simp: take_map drop_map)
  note wf = this
  have "layer_entries (Branch a xs ys) \<noteq> []" if "ys \<noteq> []" "set ys \<subseteq> set ts'" for a xs ys
    using that ts hd_in_set [of ys] by (cases ys) auto
  moreover have "take (Suc m) ts' \<noteq> []" "drop (Suc m) ts' \<noteq> []" using l m by auto
  ultimately have "layer_entries (Branch p (take m ks') (take (Suc m) ts')) \<noteq> []"
    "layer_entries (Branch q (drop (Suc m) ks') (drop (Suc m) ts')) \<noteq> []"
    using sub [of "Suc m" ts'] by blast+
  moreover have "fits c x \<and> key_ord x < key_ord (ks' ! m)"
    if "x \<in> tree_keys (Branch p (take m ks') (take (Suc m) ts'))" for x
  proof -
    have "x \<in> set (take m ks') \<or> (\<exists>t \<in> set (take (Suc m) ts'). x \<in> tree_keys t)"
      using that by (simp only: tree_keys.simps) blast
    then show ?thesis using fit [of x] split [of x] piv(3) [of x] sub(1) [of m ks'] sub(1) [of "Suc m" ts']
      unfolding take_map set_map by blast
  qed
  moreover have "fits c x \<and> key_ord (ks' ! m) \<le> key_ord x"
    if "x \<in> tree_keys (Branch q (drop (Suc m) ks') (drop (Suc m) ts'))" for x
  proof -
    have "x \<in> set (drop (Suc m) ks') \<or> (\<exists>t \<in> set (drop (Suc m) ts'). x \<in> tree_keys t)"
      using that by (simp only: tree_keys.simps) blast
    then show ?thesis using fit [of x] split' [of x] piv(4) [of x] sub(2) [of "Suc m" ks'] sub(2) [of "Suc m" ts']
      unfolding drop_map set_map by blast
  qed
  moreover have "fits c (ks' ! m)" using fit m(2) by simp
  ultimately show ?thesis unfolding split_ok_def using w(3) can wf by blast
qed

lemma grow_wf:
  "split_ok c l k r \<Longrightarrow> grown c \<le> length qs \<Longrightarrow> \<forall>q \<in> set qs. valid_ptr q \<Longrightarrow> tree_wf (grow c l k r qs)"
proof (induction c l k r qs rule: grow_induct)
  case (Top l k r qs)
  then show ?case by (cases qs) (auto simp: split_ok_def pivots_ok_def key_sorted_def)
next
  case (Room p ks ls rs c l k r qs)
  note ins = frame_insert [OF Room(3)]
  have "tree_wf (Branch p (ins_at (length ls) k ks) (ls @ l # r # rs))"
    using Room(1,3) ins(1,2) by (auto simp: split_ok_def ins_at_def)
  moreover have "fits c x" if "x \<in> tree_keys (Branch p (ins_at (length ls) k ks) (ls @ l # r # rs))" for x
    using that Room(3) by (auto simp: split_ok_def simp del: fits_frame.simps)
  moreover have "ctx_wf c" "layer_entries l \<noteq> []" using Room(3) by (simp_all add: split_ok_def)
  ultimately show ?case unfolding Room(2) tree_wf_plug by simp
next
  case (Full p ks ls rs c l k r qs ks' ts' m)
  then have "qs \<noteq> []" by auto
  then have "valid_ptr (hd qs)" using Full(9) by simp
  note s = split_ok_Full [OF Full(7,1-4) this]
  have "grown c \<le> length (tl qs)" "\<forall>q \<in> set (tl qs). valid_ptr q"
    using Full(1,8,9) by (cases qs; simp)+
  then show ?case unfolding Full(5) by (intro Full(6) s)
qed

end
