(* ===== verification/Tree_Frame.thy ===== *)
theory Tree_Frame
  imports Tree_Path Tree_Heap
begin

text \<open>
  Which part of the heap a tree depends on, and what the operations that write to the heap
  leave alone: a tree stands as long as its own nodes do and no value page disappears. A
  tree in the heap is taken apart along a path.
\<close>

section \<open>Value pages\<close>

text \<open>Every page is still there, with the header that readers use.\<close>

definition pages_le :: "value_pages \<Rightarrow> value_pages \<Rightarrow> bool" where
  "pages_le vh vh' \<longleftrightarrow> (\<forall>p x. vh p = Some x \<longrightarrow> (\<exists>y. vh' p = Some y \<and> len y = len x \<and> align y = align x))"

lemma pages_le_refl [simp]: "pages_le vh vh"
  by (simp add: pages_le_def)

lemma pages_le_trans: "pages_le u v \<Longrightarrow> pages_le v w \<Longrightarrow> pages_le u w"
  unfolding pages_le_def by metis

lemma pages_le_fresh: "vh p = None \<Longrightarrow> pages_le vh (vh(p \<mapsto> x))"
  by (auto simp: pages_le_def)

lemma value_at_mono: "pages_le vh vh' \<Longrightarrow> value_at vh v \<Longrightarrow> value_at vh' v"
  by (auto simp: pages_le_def value_at_def)

lemma value_view_mono:
  assumes "pages_le vh vh'" and "value_at vh v"
  shows "value_view vh' v = value_view vh v"
proof (cases "remove_ptr_flag v = v")
  case False
  then obtain x where "vh (remove_ptr_flag v) = Some x" using assms(2) by (auto simp: value_at_def)
  moreover from this obtain y where "vh' (remove_ptr_flag v) = Some y" "len y = len x" "align y = align x"
    using assms(1) unfolding pages_le_def by blast
  ultimately show ?thesis by (simp add: value_view_def get_body_def get_len_def Let_def)
qed (simp add: value_view_def get_body_def get_len_def Let_def)

section \<open>The pages of a tree\<close>

definition word_pages :: "64 word list \<Rightarrow> addr list" where
  "word_pages vs = map remove_ptr_flag (filter (\<lambda>v. remove_ptr_flag v \<noteq> v) vs)"

definition tree_pages :: "tree \<Rightarrow> addr list" where
  "tree_pages t = word_pages (map snd (tree_entries t))"

definition content_pages :: "content \<Rightarrow> addr list" where
  "content_pages c = (case c of Val v \<Rightarrow> word_pages [v] | Sub t \<Rightarrow> tree_pages t)"

lemma word_pages_concat: "word_pages (concat vss) = concat (map word_pages vss)"
  by (induction vss) (simp_all add: word_pages_def)

lemma word_pages_one [simp]: "word_pages [v] = (if remove_ptr_flag v = v then [] else [remove_ptr_flag v])"
  by (simp add: word_pages_def)

lemma content_entries_pages: "word_pages (map snd (content_entries s c)) = content_pages c"
  by (cases c) (simp_all add: content_pages_def tree_pages_def case_prod_beta' o_def)

lemma tree_pages_simps [simp]:
  "tree_pages (Leaf p es) = concat (map content_pages (map snd es))" "tree_pages (Branch p ks ts) = concat (map tree_pages ts)"
  by (simp_all add: tree_pages_def [abs_def] map_concat word_pages_concat o_def case_prod_beta' content_entries_pages)

lemma content_pages_simps [simp]: "content_pages (Val v) = word_pages [v]" "content_pages (Sub t) = tree_pages t"
  by (simp_all add: content_pages_def)

section \<open>Frames\<close>

lemma leaves_in_addrs: "fst ` set (layer_leaves t) \<subseteq> set (tree_addrs t)"
proof (induction t rule: tree_induct)
  case (Branch p ks ts)
  then show ?case by fastforce
qed simp

lemma linked_cong: "(\<And>p. p \<in> set ps \<Longrightarrow> nodes h' p = nodes h p) \<Longrightarrow> linked h' q ps = linked h q ps"
  by (induction ps arbitrary: q) simp_all

lemma set_concat_map: "x \<in> set xs \<Longrightarrow> set (f x) \<subseteq> set (concat (map f xs))"
  by auto

lemma content_addrs_sub: "c \<in> set (map snd es) \<Longrightarrow> set (content_addrs c) \<subseteq> set (tl (tree_addrs (Leaf p es)))"
  unfolding tree_addrs_Leaf list.sel by (rule set_concat_map)

lemma child_addrs_sub: "t \<in> set ts \<Longrightarrow> set (tree_addrs t) \<subseteq> set (tl (tree_addrs (Branch p ks ts)))"
  unfolding tree_addrs.simps list.sel by (rule set_concat_map)

lemma tl_addrs_sub: "set (tl (tree_addrs t)) \<subseteq> set (tree_addrs t)"
  by (cases t) auto

lemma tree_at_contents:
  "tree_at h par rt (Leaf p es) \<longleftrightarrow>
     (\<exists>b. nodes h p = Some (Border b) \<and> leaf_node par rt es b \<and> (\<forall>c \<in> set (map snd es). content_at h p c))"
  unfolding tree_at_Leaf by (simp add: case_prod_beta')

declare tree_at.simps(1) [simp del]

text \<open>A tree depends on its own nodes and on the pages of its values.\<close>

lemma tree_at_frame_values:
  assumes "tree_at h par rt t" and "\<And>q. q \<in> set (tree_addrs t) \<Longrightarrow> nodes h' q = nodes h q"
    and "\<And>q. q \<in> set (tree_pages t) \<Longrightarrow> pages h q \<noteq> None \<Longrightarrow> pages h' q \<noteq> None"
  shows "tree_at h' par rt t"
  using assms
proof (induction t arbitrary: par rt rule: tree_induct)
  case (Leaf p es)
  obtain b where b: "nodes h p = Some (Border b)" "leaf_node par rt es b" "\<forall>c \<in> set (map snd es). content_at h p c"
    using Leaf.prems(1) unfolding tree_at_contents by blast
  have "content_at h' p c" if m: "c \<in> set (map snd es)" for c
  proof (cases c)
    case (Val v)
    have "value_at (pages h) v" using m b(3) Val by force
    moreover have "remove_ptr_flag v \<in> set (tree_pages (Leaf p es))" if "remove_ptr_flag v \<noteq> v"
      using set_concat_map [OF m, of content_pages] Val that by simp
    ultimately show ?thesis using Leaf.prems(3) Val by (auto simp: value_at_def)
  next
    case (Sub t)
    have a: "nodes h' q = nodes h q" if "q \<in> set (tree_addrs t)" for q
    proof (rule Leaf.prems(2))
      show "q \<in> set (tree_addrs (Leaf p es))"
        using content_addrs_sub [OF m, of p] tl_addrs_sub [of "Leaf p es"] that
        unfolding Sub content_addrs.simps by blast
    qed
    have g: "pages h' q \<noteq> None" if "q \<in> set (tree_pages t)" "pages h q \<noteq> None" for q
      using Leaf.prems(3) [OF _ that(2)] set_concat_map [OF m, of content_pages] that(1) Sub by auto
    have t: "tree_at h p True t" "linked h nullptr (map fst (layer_leaves t))" using m b(3) Sub by force+
    have "linked h' nullptr (map fst (layer_leaves t)) = linked h nullptr (map fst (layer_leaves t))"
      using leaves_in_addrs [of t] a by (intro linked_cong) auto
    moreover obtain k where "(k, Sub t) \<in> set es" using m Sub by (metis (no_types) imageE list.set_map prod.collapse)
    ultimately show ?thesis using Sub Leaf.IH [of k t p True] t a g by simp
  qed
  then show ?case using b Leaf.prems(2) unfolding tree_at_contents by simp
next
  case (Branch p ks ts)
  have "tree_at h' p False t" if "t \<in> set ts" for t
  proof (rule Branch.IH [OF that])
    show "tree_at h p False t" using Branch.prems(1) that by (auto simp: tree_at_Branch)
  qed (use Branch.prems(2,3) that in auto)
  then show ?case using Branch.prems by simp
qed

lemma content_at_frame_values:
  assumes "content_at h p c" and "\<And>q. q \<in> set (content_addrs c) \<Longrightarrow> nodes h' q = nodes h q"
    and "\<And>q. q \<in> set (content_pages c) \<Longrightarrow> pages h q \<noteq> None \<Longrightarrow> pages h' q \<noteq> None"
  shows "content_at h' p c"
proof (cases c)
  case (Val v)
  then show ?thesis using assms(1) assms(3) [of "remove_ptr_flag v"] by (cases "remove_ptr_flag v = v") (auto simp: value_at_def)
next
  case (Sub t)
  then have "linked h' nullptr (map fst (layer_leaves t)) = linked h nullptr (map fst (layer_leaves t))"
    using assms(2) leaves_in_addrs [of t] by (intro linked_cong) auto
  then show ?thesis using Sub assms tree_at_frame_values [of h p True t h'] by simp
qed

lemma pages_le_some: "pages_le vh vh' \<Longrightarrow> vh q \<noteq> None \<Longrightarrow> vh' q \<noteq> None"
  unfolding pages_le_def by blast

lemma tree_at_frame:
  assumes "tree_at h par rt t" and "\<And>q. q \<in> set (tree_addrs t) \<Longrightarrow> nodes h' q = nodes h q"
    and "pages_le (pages h) (pages h')"
  shows "tree_at h' par rt t"
  by (rule tree_at_frame_values [OF assms(1,2) pages_le_some [OF assms(3)]])

lemma content_at_frame:
  assumes "content_at h p c" and "\<And>q. q \<in> set (content_addrs c) \<Longrightarrow> nodes h' q = nodes h q"
    and "pages_le (pages h) (pages h')"
  shows "content_at h' p c"
  by (rule content_at_frame_values [OF assms(1,2) pages_le_some [OF assms(3)]])

text \<open>A tree under another parent.\<close>

lemma base_wf_parent [simp]: "base_wf (b\<lparr>parent := p\<rparr>) = base_wf b" "base_keys (b\<lparr>parent := p\<rparr>) = base_keys b"
  "base_wf (b\<lparr>version := v\<rparr>) = base_wf b" "base_keys (b\<lparr>version := v\<rparr>) = base_keys b"
  by (simp_all add: base_wf_def base_keys_def)

lemma border_view_base [simp]:
  "base_keys base = base_keys (border_base b) \<Longrightarrow> border_entries (b\<lparr>border_base := base\<rparr>) = border_entries b"
  "base_keys base = base_keys (border_base b) \<Longrightarrow> border_keys (b\<lparr>border_base := base\<rparr>) = border_keys b"
  "base_keys base = base_keys (border_base b) \<Longrightarrow> base_wf base = base_wf (border_base b) \<Longrightarrow>
    border_wf (b\<lparr>border_base := base\<rparr>) = border_wf b"
  by (simp_all add: border_entries_def border_keys_def border_wf_def)

lemma interior_view_base [simp]:
  "base_keys base = base_keys (interior_base n) \<Longrightarrow> interior_keys (n\<lparr>interior_base := base\<rparr>) = interior_keys n"
  "interior_children (n\<lparr>interior_base := base\<rparr>) = interior_children n"
  "base_keys base = base_keys (interior_base n) \<Longrightarrow> base_wf base = base_wf (interior_base n) \<Longrightarrow>
    interior_wf (n\<lparr>interior_base := base\<rparr>) = interior_wf n"
  by (simp_all add: interior_keys_def interior_children_def interior_wf_def)

lemma leaf_node_parent: "leaf_node par rt es b \<Longrightarrow> leaf_node q rt es (set_border_base (set_parent q) b)"
  by (simp add: leaf_node_def set_border_base_def set_parent_def Let_def)

lemma branch_node_parent: "branch_node par rt ks cs n \<Longrightarrow> branch_node q rt ks cs (set_interior_base (set_parent q) n)"
  by (simp add: branch_node_def set_interior_base_def set_parent_def Let_def)

lemma tree_at_parent:
  assumes "tree_at h par rt t" and "nodes h' (addr_of t) = map_option (node_map_base (set_parent q)) (nodes h (addr_of t))"
    and "\<And>a. a \<in> set (tl (tree_addrs t)) \<Longrightarrow> nodes h' a = nodes h a" and "pages_le (pages h) (pages h')"
  shows "tree_at h' q rt t"
proof (cases t)
  case (Leaf p es)
  then obtain b where b: "nodes h p = Some (Border b)" "leaf_node par rt es b" "\<forall>c \<in> set (map snd es). content_at h p c"
    using assms(1) unfolding Leaf tree_at_contents by blast
  have "content_at h' p c" if "c \<in> set (map snd es)" for c
  proof (rule content_at_frame [OF _ _ assms(4)])
    show "content_at h p c" using b(3) that by blast
    show "nodes h' q = nodes h q" if "q \<in> set (content_addrs c)" for q
      using assms(3) [of q] content_addrs_sub [OF \<open>c \<in> set (map snd es)\<close>, of p] that Leaf by blast
  qed
  then show ?thesis using b assms(2) leaf_node_parent [OF b(2)] unfolding Leaf tree_at_contents by simp
next
  case (Branch p ks ts)
  then obtain n where n: "nodes h p = Some (Interior n)" "branch_node par rt ks (map addr_of ts) n"
    "\<forall>t \<in> set ts. tree_at h p False t"
    using assms(1) unfolding Branch tree_at_Branch by blast
  have "tree_at h' p False t" if "t \<in> set ts" for t
  proof (rule tree_at_frame [OF _ _ assms(4)])
    show "tree_at h p False t" using n(3) that by blast
    show "nodes h' q = nodes h q" if "q \<in> set (tree_addrs t)" for q
      using assms(3) [of q] child_addrs_sub [OF \<open>t \<in> set ts\<close>, of p ks] that Branch by blast
  qed
  then show ?thesis using n assms(2) branch_node_parent [OF n(2)] by (simp add: Branch)
qed

section \<open>Paths in the heap\<close>

fun ctx_parent :: "addr \<Rightarrow> frame list \<Rightarrow> addr" where
  "ctx_parent par [] = par"
| "ctx_parent par ((p, ks, ls, rs) # c) = p"

text \<open>The branches above a subtree at \<open>a\<close>, in a layer whose root has the parent \<open>par\<close>.\<close>

fun ctx_at :: "heap \<Rightarrow> addr \<Rightarrow> frame list \<Rightarrow> addr \<Rightarrow> bool" where
  "ctx_at h par [] a \<longleftrightarrow> True"
| "ctx_at h par ((p, ks, ls, rs) # c) a \<longleftrightarrow> (case nodes h p of
       Some (Interior n) \<Rightarrow> branch_node (ctx_parent par c) (c = []) ks (map addr_of ls @ a # map addr_of rs) n
     | _ \<Rightarrow> False) \<and> (\<forall>t \<in> set ls \<union> set rs. tree_at h p False t) \<and> ctx_at h par c p"

lemma tree_at_plug:
  "tree_at h par True (plug c t) \<longleftrightarrow> ctx_at h par c (addr_of t) \<and> tree_at h (ctx_parent par c) (c = []) t"
  by (induction c t rule: plug.induct) (auto split: option.splits node.splits)

lemma ctx_at_frame:
  assumes "ctx_at h par c a" and "\<And>q. q \<in> set (ctx_addrs c) \<Longrightarrow> nodes h' q = nodes h q"
    and "pages_le (pages h) (pages h')"
  shows "ctx_at h' par c a"
  using assms
proof (induction h par c a rule: ctx_at.induct)
  case (2 h par p ks ls rs c a)
  have a: "nodes h' q = nodes h q" if "q \<in> set (ctx_addrs ((p, ks, ls, rs) # c))" for q using 2 that by blast
  have "tree_at h' p False t" if t: "t \<in> set ls \<union> set rs" for t
  proof (rule tree_at_frame [OF _ _ "2.prems"(3)])
    show "tree_at h p False t" using "2.prems"(1) t by simp
    show "nodes h' q = nodes h q" if "q \<in> set (tree_addrs t)" for q
      using a [of q] set_concat_map [of t ls tree_addrs] set_concat_map [of t rs tree_addrs] t that by auto
  qed
  moreover have "ctx_at h' par c p" by (rule "2.IH") (use 2 a in simp_all)
  moreover have "nodes h' p = nodes h p" using a by simp
  ultimately show ?case using "2.prems"(1) by simp
qed simp

end
