(* ===== verification/Insert_Refinement.thy ===== *)
theory Insert_Refinement
  imports Tree_Frame
begin

text \<open>
  Running the operations that change one node, and \<^verbatim>\<open>insert_lv_at\<close>: inserting a key into a
  border node with room for it, with the new layers that a long key needs.
\<close>

section \<open>Running heap operations\<close>

named_theorems heap_run \<open>the effect of single heap operations\<close>

lemma upd_base_eq [heap_run]:
  "nodes h p = Some n \<Longrightarrow> upd_base p f h = Some (set_node p (node_map_base f n) h)"
  by (simp add: upd_base_def)

lemma upd_border_eq [heap_run]:
  "nodes h p = Some (Border b) \<Longrightarrow> upd_border p f h = map_option (\<lambda>b. set_node p (Border b) h) (f b)"
  by (simp add: upd_border_def get_border_def) (cases "f b"; simp)

lemma upd_interior_eq [heap_run]:
  "nodes h p = Some (Interior n) \<Longrightarrow> upd_interior p f h = map_option (\<lambda>n. set_node p (Interior n) h) (f n)"
  by (simp add: upd_interior_def get_interior_def) (cases "f n"; simp)

lemma get_node_eq [heap_run]:
  "nodes h p = Some n \<Longrightarrow> get_base p h = Some (node_base n)"
  "nodes h p = Some (Border b) \<Longrightarrow> get_border p h = Some b"
  "nodes h p = Some (Interior i) \<Longrightarrow> get_interior p h = Some i"
  by (simp_all add: get_base_def get_border_def get_interior_def)

lemma new_node_eq [heap_run]:
  "fresh h = p # ps \<Longrightarrow> new_node n h = Some (p, set_node p n (h\<lparr>fresh := ps\<rparr>))"
  by (simp add: new_node_def)

lemma lock_at_eq [heap_run]:
  "nodes h p = Some n \<Longrightarrow> \<not> locked (version (node_base n)) \<Longrightarrow>
   lock_at p h = Some (set_node p (node_map_base (\<lambda>b. b\<lparr>version := (version b)\<lparr>locked := True\<rparr>\<rparr>) n) h)"
  by (cases n) (simp_all add: lock_at_def lock_node_def lock_def set_border_base_def set_interior_base_def)

lemma unlock_at_eq [heap_run]:
  "nodes h p = Some n \<Longrightarrow> unlock_at p h = Some (set_node p (node_map_base version_unlock n) h)"
  by (simp add: unlock_at_def upd_base_def)

lemma node_map_base_comp [simp]: "node_map_base f (node_map_base g n) = node_map_base (f \<circ> g) n"
  by (cases n) (simp_all add: set_border_base_def set_interior_base_def)

lemma set_node_twice [simp]: "set_node p n (set_node p m h) = set_node p n h"
  by (simp add: set_node_def)

lemma set_node_fresh [simp]: "(set_node p n h)\<lparr>fresh := ps\<rparr> = set_node p n (h\<lparr>fresh := ps\<rparr>)"
  by (simp add: set_node_def)

lemma set_node_nodes [simp]: "(set_node p n h)\<lparr>nodes := N\<rparr> = h\<lparr>nodes := N\<rparr>"
  by (simp add: set_node_def)

text \<open>Everything but the nodes and the allocator.\<close>

definition same_static :: "heap \<Rightarrow> heap \<Rightarrow> bool" where
  "same_static h h' \<longleftrightarrow> pages h' = pages h \<and> storages_root h' = storages_root h \<and>
     thread_info_table h' = thread_info_table h \<and> epoch h' = epoch h \<and> gc_epoch h' = gc_epoch h"

lemma same_static_simps [simp]:
  "same_static h h" "same_static h (set_node p n h') = same_static h h'" "same_static (set_node p n h) h' = same_static h h'"
  "same_static h (h'\<lparr>fresh := ps\<rparr>) = same_static h h'" "same_static (h\<lparr>fresh := ps\<rparr>) h' = same_static h h'"
  by (simp_all add: same_static_def)

lemma same_static_trans: "same_static g h \<Longrightarrow> same_static h h' \<Longrightarrow> same_static g h'"
  by (simp add: same_static_def)

lemma same_static_root: "same_static h h' \<Longrightarrow> load_root_ptr ti h' = load_root_ptr ti h"
  by (simp add: same_static_def load_root_ptr_def)

section \<open>Unused slots\<close>

text \<open>
  What may stand in a slot that the permutation does not name: nothing, an old inline
  value, or an old link that leads to none of the nodes in \<open>X\<close>.
\<close>

definition slot_free :: "addr set \<Rightarrow> link_or_value \<Rightarrow> bool" where
  "slot_free X x \<longleftrightarrow> (if bit x 63 then get_next_layer x \<notin> X else x = init_lv \<or> \<not> bit x 62)"

definition unused_ok :: "addr set \<Rightarrow> border_node \<Rightarrow> bool" where
  "unused_ok X b \<longleftrightarrow> (\<forall>i < key_slice_length. i \<notin> set (perm_list (perm_body b)) \<longrightarrow> slot_free X (lv_arr b ! i))"

lemma slot_free_mono: "slot_free X x \<Longrightarrow> Y \<subseteq> X \<Longrightarrow> slot_free Y x"
  by (auto simp: slot_free_def split: if_splits)

lemma unused_ok_mono: "unused_ok X b \<Longrightarrow> Y \<subseteq> X \<Longrightarrow> unused_ok Y b"
  unfolding unused_ok_def using slot_free_mono by blast

lemma slot_free_init [simp]: "slot_free X init_lv"
  by (simp add: slot_free_def)

lemma set_value_free:
  assumes "slot_free X x" and "value_at vh v"
  shows "set_value vh x v cg False =
    Some (v, if cg then Some (fst (value_view vh v)) else None, None, vh)"
proof -
  have "(if get_value x \<noteq> nullptr then need_delete vh (get_value x) else Some False) = Some False"
    using assms(1) remove_ptr_flag_untagged [of x]
    by (auto simp: slot_free_def get_value_eq need_delete_def Let_def split: if_splits)
  then show ?thesis using value_at_read(1) [OF assms(2)] by (simp add: set_value_def Let_def)
qed

section \<open>One more entry\<close>

text \<open>\<open>b'\<close> is \<open>b\<close> with the entry \<open>(k, w)\<close> in slot \<open>i\<close>, at rank \<open>r\<close>.\<close>

definition entry_added :: "border_node \<Rightarrow> nat \<Rightarrow> nat \<Rightarrow> key \<Rightarrow> link_or_value \<Rightarrow> border_node \<Rightarrow> bool" where
  "entry_added b r i k w b' \<longleftrightarrow> border_wf b' \<and> border_entries b' = ins_at r (k, w) (border_entries b) \<and>
     perm_list (perm_body b') = ins_at r i (perm_list (perm_body b)) \<and> lv_arr b' = (lv_arr b)[i := w] \<and>
     base_keys (border_base b') = (base_keys (border_base b))[i := k] \<and>
     version (border_base b') = version (border_base b) \<and> parent (border_base b') = parent (border_base b) \<and>
     prev_node b' = prev_node b \<and> next_node b' = next_node b"

text \<open>A slot that takes a new key.\<close>

definition free_slot_for :: "addr set \<Rightarrow> border_node \<Rightarrow> key \<Rightarrow> nat \<Rightarrow> bool" where
  "free_slot_for X b k i \<longleftrightarrow> border_wf b \<and> get_permutation_cnk b < key_slice_length \<and> i < key_slice_length \<and>
     i \<notin> set (perm_list (perm_body b)) \<and> unused_ok X b \<and> canonical k \<and> k \<notin> set (border_keys b)"

lemma entry_added_link:
  assumes "free_slot_for X b k i" and "slot_written b i k w b1" and "r = rank_le k (border_keys b)"
    and "version (border_base b1) = version (border_base b)" and "parent (border_base b1) = parent (border_base b)"
    and "prev_node b1 = prev_node b" and "next_node b1 = next_node b"
  shows "entry_added b r i k w (link_slot r i b1)"
proof -
  have f: "border_wf b" "get_permutation_cnk b < 15" "i < 15" "i \<notin> set (perm_list (perm_body b))" "canonical k"
    "k \<notin> set (border_keys b)" using assms(1) by (simp_all add: free_slot_for_def)
  have r: "r \<le> get_permutation_cnk b" using rank_le_length [of k "border_keys b"] assms(3)
    by (simp add: length_border_keys)
  have "perm_list (perm_insert (inc_key_num (perm_body b)) r i) = ins_at r i (perm_list (perm_body b))"
    using f r by (intro perm.order_add) (simp_all add: get_permutation_cnk_def perm.count_order)
  then show ?thesis
    using link_slot_entries [OF f(1) assms(2) f(2) r f(3,4)] link_slot_wf [OF f(1) assms(2) f(2-6)] assms(2-7)
    by (simp add: entry_added_def slot_written_def) (simp add: link_slot_def)
qed

lemma unused_ok_added:
  assumes "entry_added b r i k w b'" and "unused_ok X b"
  shows "unused_ok X b'"
proof -
  have "slot_free X (lv_arr b' ! j)" if "j < 15" "j \<notin> set (perm_list (perm_body b'))" for j
  proof -
    have "j \<noteq> i" "j \<notin> set (perm_list (perm_body b))" using that assms(1) by (auto simp: entry_added_def)
    then show ?thesis using assms that by (auto simp: entry_added_def unused_ok_def)
  qed
  then show ?thesis by (simp add: unused_ok_def)
qed

lemma get_empty_slot_for:
  assumes "border_wf b" and "get_permutation_cnk b < key_slice_length" and "unused_ok X b" and "canonical k"
    and "k \<notin> set (border_keys b)"
  obtains i where "get_empty_slot (perm_body b) = Some i" "free_slot_for X b k i"
  using assms perm.free [of "perm_body b"] that
  by (auto simp: free_slot_for_def border_wf_def get_permutation_cnk_def perm.count_order)

text \<open>The border node that \<^verbatim>\<open>init_border\<close> makes.\<close>

definition empty_border :: border_node where
  "empty_border = \<lparr>border_base = \<lparr>key_slice_arr = replicate key_slice_length 0, parent = nullptr,
       version = body_init\<lparr>root := True, border := True\<rparr>, key_length_arr = replicate key_slice_length 0\<rparr>,
     perm_body = perm_init, lv_arr = replicate key_slice_length init_lv, prev_node = nullptr, next_node = nullptr\<rparr>"

lemma init_border_new: "init_border new_border_node = Some empty_border"
  by code_simp

lemma perm_list_init [simp]: "perm_list perm_init = []"
  by (simp add: perm_init_def) (metis list.size(3) length_0_conv length_perm_list nibble_zero)

lemma empty_border_view:
  "base_wf (border_base empty_border)" "border_entries empty_border = []" "border_keys empty_border = []"
  "border_wf empty_border" "get_permutation_cnk empty_border = 0" "unused_ok X empty_border"
  "perm_body empty_border = perm_init" "prev_node empty_border = nullptr" "next_node empty_border = nullptr"
  "version (border_base empty_border) = body_init\<lparr>root := True, border := True\<rparr>"
  "parent (border_base empty_border) = nullptr"
  by (simp_all add: empty_border_def base_wf_def border_entries_def border_keys_def border_wf_def
      get_permutation_cnk_def perm.count_order perm.invar_order unused_ok_def key_sorted_def)

section \<open>Inserting a key\<close>

text \<open>How many layers below the first one a key needs.\<close>

definition layers_of :: "byte list \<Rightarrow> nat" where
  "layers_of s = (length s - 1) div slice_size"

lemma layers_of_long: "slice_size < length s \<Longrightarrow> layers_of s = Suc (layers_of (drop slice_size s))"
  by (simp add: layers_of_def)

lemma layers_of_short: "length s \<le> slice_size \<Longrightarrow> layers_of s = 0"
  by (simp add: layers_of_def)

text \<open>
  The heap after the insertion: \<open>p\<close> holds the new entry, the nodes \<open>qs\<close> are the new layers,
  and nothing else has changed.
\<close>

definition inserted_at :: "addr set \<Rightarrow> heap \<Rightarrow> addr \<Rightarrow> border_node \<Rightarrow> nat \<Rightarrow> nat \<Rightarrow> byte list \<Rightarrow> 64 word \<Rightarrow>
    addr list \<Rightarrow> addr list \<Rightarrow> heap \<Rightarrow> content \<Rightarrow> bool" where
  "inserted_at X h p b r i s v qs fs h' c \<longleftrightarrow>
     (let k = prepare_key_slice s in
      (\<exists>b'. nodes h' p = Some (Border b') \<and> entry_added b r i k (lv_word c) b') \<and>
      content_wf k c \<and> content_at h' p c \<and> content_addrs c = qs \<and> content_entries (key_bytes k) c = [(s, v)] \<and>
      (\<forall>q \<in> set qs. \<exists>b. nodes h' q = Some (Border b) \<and> unused_ok X b) \<and>
      (\<forall>q. q \<noteq> p \<longrightarrow> q \<notin> set qs \<longrightarrow> nodes h' q = nodes h q) \<and>
      same_static h h' \<and> fresh h' = fs)"

lemma set_key_opt_eq:
  assumes "base_wf (border_base b)" and "i < key_slice_length"
  shows "set_border_base_opt (set_key_slice_at i x) b =
      Some (b\<lparr>border_base := (border_base b)\<lparr>key_slice_arr := (key_slice_arr (border_base b))[i := x]\<rparr>\<rparr>)"
    and "set_border_base_opt (set_key_length_at i l) b =
      Some (b\<lparr>border_base := (border_base b)\<lparr>key_length_arr := (key_length_arr (border_base b))[i := l]\<rparr>\<rparr>)"
  using assms by (simp_all add: set_border_base_opt_def set_key_slice_at_def set_key_length_at_def base_wf_def)

text \<open>The node with the key, but not yet the word, written to the slot.\<close>

definition key_written :: "border_node \<Rightarrow> nat \<Rightarrow> key \<Rightarrow> border_node" where
  "key_written b i k = b\<lparr>border_base := (border_base b)
     \<lparr>key_slice_arr := (key_slice_arr (border_base b))[i := fst k],
      key_length_arr := (key_length_arr (border_base b))[i := snd k]\<rparr>\<rparr>"

lemma key_written_slot:
  assumes "border_wf b" and "i < key_slice_length"
  shows "slot_written b i k w ((key_written b i k)\<lparr>lv_arr := (lv_arr b)[i := w]\<rparr>)"
  using assms by (auto simp: slot_written_def key_written_def border_wf_def base_wf_def base_keys_def update_zip)

lemma insert_lv_at_short:
  assumes "nodes h p = Some (Border b)" and "free_slot_for X b (prepare_key_slice s) i"
    and "r = rank_le (prepare_key_slice s) (border_keys b)" and "length s \<le> slice_size"
    and "value_word v" and "value_at (pages h) v"
  shows "\<exists>created h'. insert_lv_at p i s v cg r h = Some (created, h') \<and>
    inserted_at X h p b r i s v [] (fresh h) h' (Val v)"
proof -
  let ?k = "prepare_key_slice s"
  have f: "border_wf b" "i < 15" "slot_free X (lv_arr b ! i)" "length (lv_arr b) = 15" "base_wf (border_base b)"
    using assms(2) by (auto simp: free_slot_for_def unused_ok_def border_wf_def)
  have k: "?k = (memcpy_slice 0 s (length s), of_nat (length s))"
  proof (cases s)
    case Nil
    have "memcpy_slice 0 [] 0 = 0" by code_simp
    then show ?thesis using Nil by (simp add: prepare_key_slice_def)
  qed (use assms(4) in \<open>simp add: prepare_key_slice_def\<close>)
  let ?b1 = "(key_written b i ?k)\<lparr>lv_arr := (lv_arr b)[i := v]\<rparr>"
  have "entry_added b r i ?k (lv_word (Val v)) (link_slot r i ?b1)"
    using key_written_slot [OF f(1,2)] by (intro entry_added_link [OF assms(2) _ assms(3)]) (simp_all add: key_written_def)
  moreover have "insert_lv_at p i s v cg r h =
      Some (if cg then Some (fst (value_view (pages h) v)) else None, set_node p (Border (link_slot r i ?b1)) h)"
    using assms(1,4) f set_value_free [OF f(3) assms(6), of cg]
    by (simp add: insert_lv_at.simps heap_run set_key_opt_eq k key_written_def set_lv_value_def get_lv_at_def
        set_lv_def set_node_def base_wf_def link_slot_def)
  moreover have "content_wf ?k (Val v)" "content_entries (key_bytes ?k) (Val v) = [(s, v)]"
    using assms(4,5) by (simp_all add: unat_length_prepare key_bytes_prepare)
  ultimately show ?thesis using assms(6)
    by (intro exI [of _ "set_node p (Border (link_slot r i ?b1)) h"] exI conjI) (auto simp: inserted_at_def)
qed

text \<open>The first border node of a new layer, before its only entry is written.\<close>

definition first_border :: border_node where
  "first_border = set_border_base version_atomic_inc_vinsert empty_border"

lemma first_border_view:
  "border_entries first_border = []" "border_keys first_border = []" "perm_list (perm_body first_border) = []"
  "prev_node first_border = nullptr" "next_node first_border = nullptr" "parent (border_base first_border) = nullptr"
  "is_stable (version (border_base first_border))" "root (version (border_base first_border))"
  "border (version (border_base first_border))" "\<not> deleted (version (border_base first_border))"
  using empty_border_view(1-5,7-11)
  by (simp_all add: first_border_def set_border_base_def version_atomic_inc_vinsert_def version_simps is_stable_def
      body_init_def inc_vinsert_delete_def)

lemma first_border_free: "free_slot_for X first_border (prepare_key_slice s) 0"
  using empty_border_view(1-5,7-11) empty_border_view(6) [of X]
  by (simp add: free_slot_for_def first_border_def set_border_base_def version_atomic_inc_vinsert_def canonical_prepare
      unused_ok_def get_permutation_cnk_def)

lemma init_border_with_eq:
  assumes "nodes h q = Some (Border new_border_node)"
  shows "init_border_with q s v cg True h = insert_lv_at q 0 s v cg 0 (set_node q (Border first_border) h)"
proof -
  have "get_empty_slot perm_init = Some 0" by code_simp
  moreover have "set_version_root True (border_base empty_border) = border_base empty_border"
    by (simp add: set_version_root_def version_simps empty_border_def)
  ultimately show ?thesis using assms
    by (simp add: init_border_with.simps heap_run init_border_new set_border_base_def first_border_def
        empty_border_view)
qed

text \<open>A new layer with one entry.\<close>

lemma new_layer:
  assumes "inserted_at X h q first_border 0 0 s v qs fs h' c" and "valid_ptr q"
    and "nodes h2 q = map_option (node_map_base (set_parent p)) (nodes h' q)"
    and "\<And>a. a \<in> set qs \<Longrightarrow> nodes h2 a = nodes h' a" and "pages h2 = pages h'"
  defines "t \<equiv> Leaf q [(prepare_key_slice s, c)]"
  shows "tree_wf t" and "tree_at h2 p True t" and "linked h2 nullptr (map fst (layer_leaves t))"
    and "tree_addrs t = q # qs" and "tree_entries t = [(s, v)]" and "s \<noteq> [] \<Longrightarrow> 0 \<notin> snd ` tree_keys t"
    and "\<exists>b. nodes h2 q = Some (Border b) \<and> unused_ok X b"
proof -
  let ?k = "prepare_key_slice s"
  obtain b where b: "nodes h' q = Some (Border b)" "entry_added first_border 0 0 ?k (lv_word c) b"
    and c: "content_wf ?k c" "content_at h' q c" "content_addrs c = qs" "content_entries (key_bytes ?k) c = [(s, v)]"
    using assms(1) by (auto simp: inserted_at_def Let_def)
  let ?b = "set_border_base (set_parent p) b"
  have n: "nodes h2 q = Some (Border ?b)" using assms(3) b(1) by simp
  have "leaf_node nullptr True [(?k, c)] b"
    using b(2) first_border_view by (simp add: leaf_node_def entry_added_def ins_at_def Let_def)
  then have l: "leaf_node p True [(?k, c)] ?b" by (rule leaf_node_parent)
  have "content_at h2 q c" using assms(4,5) c(2,3) by - (rule content_at_frame [of h'], simp_all)
  then show "tree_at h2 p True t" using n l unfolding t_def tree_at_contents by simp
  show "tree_wf t" using assms(2) c(1) canonical_prepare by (simp add: t_def key_sorted_def)
  show "linked h2 nullptr (map fst (layer_leaves t))"
    using n b(2) first_border_view by (simp add: t_def entry_added_def set_border_base_def)
  show "tree_addrs t = q # qs" "tree_entries t = [(s, v)]" using c by (simp_all add: t_def)
  have "unat (snd ?k) \<noteq> 0" if "s \<noteq> []" using that by (simp add: unat_length_prepare)
  then show "s \<noteq> [] \<Longrightarrow> 0 \<notin> snd ` tree_keys t" by (auto simp: t_def)
  have "unused_ok X first_border" using first_border_free [of X s] by (simp add: free_slot_for_def)
  then have "unused_ok X b" using unused_ok_added [OF b(2)] by blast
  then show "\<exists>b. nodes h2 q = Some (Border b) \<and> unused_ok X b"
    using n by (simp add: set_border_base_def unused_ok_def)
qed

lemma insert_lv_at_spec:
  assumes "nodes h p = Some (Border b)" and "free_slot_for X b (prepare_key_slice s) i"
    and "r = rank_le (prepare_key_slice s) (border_keys b)" and "value_word v" and "value_at (pages h) v"
    and "fresh h = qs @ fs" and "length qs = layers_of s" and "distinct (p # qs)" and "\<forall>q \<in> set qs. valid_ptr q"
  shows "\<exists>created h' c. insert_lv_at p i s v cg r h = Some (created, h') \<and> inserted_at X h p b r i s v qs fs h' c"
  using assms
proof (induction "length s" arbitrary: s h p b i r qs rule: less_induct)
  case less
  let ?k = "prepare_key_slice s"
  show ?case
  proof (cases "length s \<le> slice_size")
    case True
    then have "qs = []" using less.prems(7) layers_of_short by simp
    then show ?thesis using insert_lv_at_short [OF less.prems(1-3) True less.prems(4,5), of cg] less.prems(6)
      by (simp only: append_Nil) blast
  next
    case False
    let ?s = "drop slice_size s"
    obtain q qs' where q: "qs = q # qs'" "length qs' = layers_of ?s"
      using less.prems(7) layers_of_long [of s] False by (cases qs) auto
    have f: "border_wf b" "i < 15" "length (lv_arr b) = 15" "base_wf (border_base b)"
      using less.prems(2) by (auto simp: free_slot_for_def border_wf_def)
    have k: "?k = (memcpy_slice 0 s 8, 9)" using False by (simp add: prepare_key_slice_def)
    have ne: "q \<noteq> p" "q \<notin> set qs'" "p \<notin> set qs'" using less.prems(8) q by auto
    have vq: "valid_ptr q" using less.prems(9) q by simp
    let ?b1 = "key_written b i ?k"
    define h1 where "h1 = set_node q (Border first_border) (set_node p (Border ?b1) (h\<lparr>fresh := qs' @ fs\<rparr>))"
    have "nodes h1 q = Some (Border first_border)" by (simp add: h1_def)
    moreover have "value_at (pages h1) v" "fresh h1 = qs' @ fs" "0 = rank_le (prepare_key_slice ?s) (border_keys first_border)"
      "length ?s < length s" "distinct (q # qs')" "\<forall>a \<in> set qs'. valid_ptr a"
      using less.prems(5,8,9) False q by (simp_all add: h1_def rank_le_def first_border_view)
    ultimately obtain created h2 c where i2: "insert_lv_at q 0 ?s v cg 0 h1 = Some (created, h2)"
        "inserted_at X h1 q first_border 0 0 ?s v qs' fs h2 c"
      using less.hyps [of ?s h1 q first_border 0 0 qs'] less.prems(4) q(2) first_border_free [of X ?s] by blast
    have h2: "nodes h2 p = Some (Border ?b1)" "same_static h1 h2" "fresh h2 = fs"
      and h2': "\<And>a. a \<noteq> q \<Longrightarrow> a \<notin> set qs' \<Longrightarrow> nodes h2 a = nodes h1 a"
      using i2(2) ne by (auto simp: inserted_at_def Let_def h1_def)
    obtain b2 where b2: "nodes h2 q = Some (Border b2)" using i2(2) by (auto simp: inserted_at_def Let_def)
    let ?w = "set_next_layer q"
    let ?b3 = "link_slot r i (?b1\<lparr>lv_arr := (lv_arr b)[i := ?w]\<rparr>)"
    define h3 where "h3 = set_node p (Border ?b3) (set_node q (node_map_base (set_parent p) (Border b2)) h2)"
    have "insert_lv_at p i s v cg r h = Some (created, h3)"
    proof -
      have "set_node q (Border first_border) (set_node q x (set_node p y g)) = set_node q (Border first_border) (set_node p y g)"
        for x y g by simp
      then have i2': "init_border_with q ?s v cg True
          (set_node q (Border new_border_node) (set_node p (Border ?b1) (h\<lparr>fresh := qs' @ fs\<rparr>))) = Some (created, h2)"
        using i2(1) by (subst init_border_with_eq) (simp_all add: h1_def)
      have b1: "?b1 = b\<lparr>border_base := (border_base b)
          \<lparr>key_slice_arr := (key_slice_arr (border_base b))[i := memcpy_slice 0 s 8],
           key_length_arr := (key_length_arr (border_base b))[i := 9]\<rparr>\<rparr>" by (simp add: key_written_def k)
      have "fresh h = q # qs' @ fs" using less.prems(6) q by simp
      then show ?thesis
        using False less.prems(1) f i2' h2(1) b2 ne
        by (simp add: insert_lv_at.simps [of p] heap_run set_key_opt_eq base_wf_def b1 h3_def set_lv_next_layer_def set_lv_def link_slot_def)
    qed
    moreover have "inserted_at X h p b r i s v qs fs h3 (Sub (Leaf q [(prepare_key_slice ?s, c)]))"
    proof -
      let ?t = "Leaf q [(prepare_key_slice ?s, c)]"
      have n: "nodes h3 q = map_option (node_map_base (set_parent p)) (nodes h2 q)" using b2 ne by (simp add: h3_def)
      have o: "nodes h3 a = nodes h2 a" if "a \<in> set qs'" for a using ne that by (auto simp: h3_def)
      have sn: "?s \<noteq> []" using False by simp
      note nl = new_layer [OF i2(2) vq n o, simplified h3_def set_node_fields, OF _ refl, folded h3_def]
      have "snd ?k = 9" using k by simp
      then have w: "content_wf ?k (Sub ?t)" using nl(1,6) sn by simp
      have "take 8 s @ drop 8 s = s" by simp
      then have e: "content_entries (key_bytes ?k) (Sub ?t) = [(s, v)]"
        using nl(5) key_bytes_long [OF \<open>snd ?k = 9\<close>] False by (simp add: slice_bytes_prepare del: append_take_drop_id)
      have "entry_added b r i ?k ?w ?b3"
        using key_written_slot [OF f(1,2)] by (intro entry_added_link [OF less.prems(2) _ less.prems(3)]) (simp_all add: key_written_def)
      moreover have "nodes h3 p = Some (Border ?b3)" by (simp add: h3_def)
      moreover have "\<forall>a \<in> set qs. \<exists>b. nodes h3 a = Some (Border b) \<and> unused_ok X b"
        using nl(7) o i2(2) by (auto simp: q inserted_at_def Let_def)
      moreover have "nodes h3 a = nodes h a" if "a \<noteq> p" "a \<notin> set qs" for a
        using that h2' [of a] q by (simp add: h3_def h1_def)
      moreover have "same_static h h3" "fresh h3 = fs"
        using h2(2,3) by (simp_all add: h3_def h1_def)
      ultimately show ?thesis using w e nl(2-4) q by (auto simp: inserted_at_def)
    qed
    ultimately show ?thesis by blast
  qed
qed

end
