(* ===== verification/Split_State.thy ===== *)
theory Split_State
  imports Insert_Refinement
begin

text \<open>
  The states that a split passes through. While nodes are being written, what they hold is
  separate from their flags: \<open>tree_shape\<close> is the content of a tree, \<open>node_flags\<close> what its root
  node says about its place. The owner of a layer is the tree instance or the slot of a
  border node in the layer above.
\<close>

section \<open>Content and flags\<close>

text \<open>The same node with another parent or version.\<close>

definition rebased :: "node \<Rightarrow> node \<Rightarrow> bool" where
  "rebased n n' \<longleftrightarrow> (\<exists>b. n' = node_map_base (\<lambda>_. b) n \<and> base_keys b = base_keys (node_base n) \<and>
     base_wf b = base_wf (node_base n))"

lemma node_map_base_const [simp]: "node_map_base (\<lambda>_. node_base n) n = n"
  by (cases n) (simp_all add: set_border_base_def set_interior_base_def)

lemma rebased_refl [simp]: "rebased n n"
  unfolding rebased_def by (intro exI [of _ "node_base n"]) simp

lemma rebased_trans: "rebased n n' \<Longrightarrow> rebased n' n'' \<Longrightarrow> rebased n n''"
  by (auto simp: rebased_def o_def)

lemma node_map_base_eq: "node_map_base f n = node_map_base (\<lambda>_. f (node_base n)) n"
  by (cases n) (simp_all add: set_border_base_def set_interior_base_def)

lemma rebased_map:
  assumes "base_keys (f (node_base n')) = base_keys (node_base n')" and "base_wf (f (node_base n')) = base_wf (node_base n')"
    and "rebased n n'"
  shows "rebased n (node_map_base f n')"
proof -
  have "rebased n' (node_map_base f n')" unfolding rebased_def
    using assms(1,2) node_map_base_eq [of f n'] by blast
  then show ?thesis by (rule rebased_trans [OF assms(3)])
qed

lemma rebased_Border: "rebased (Border b) n' \<longleftrightarrow>
  (\<exists>base. n' = Border (b\<lparr>border_base := base\<rparr>) \<and> base_keys base = base_keys (border_base b) \<and>
     base_wf base = base_wf (border_base b))"
  by (simp add: rebased_def set_border_base_def)

lemma rebased_Interior: "rebased (Interior n) n' \<longleftrightarrow>
  (\<exists>base. n' = Interior (n\<lparr>interior_base := base\<rparr>) \<and> base_keys base = base_keys (interior_base n) \<and>
     base_wf base = base_wf (interior_base n))"
  by (simp add: rebased_def set_interior_base_def)

definition tree_shape :: "heap \<Rightarrow> tree \<Rightarrow> bool" where
  "tree_shape h t \<longleftrightarrow> (case t of
      Leaf p es \<Rightarrow> (\<exists>b. nodes h p = Some (Border b) \<and> border_wf b \<and>
        border_entries b = map (\<lambda>(k, c). (k, lv_word c)) es \<and> (\<forall>c \<in> set (map snd es). content_at h p c))
    | Branch p ks ts \<Rightarrow> (\<exists>n. nodes h p = Some (Interior n) \<and> interior_wf n \<and> interior_keys n = ks \<and>
        interior_children n = map addr_of ts \<and> (\<forall>t \<in> set ts. tree_at h p False t)))"

fun is_leaf :: "tree \<Rightarrow> bool" where
  "is_leaf (Leaf p es) = True"
| "is_leaf (Branch p ks ts) = False"

definition node_flags :: "addr \<Rightarrow> bool \<Rightarrow> bool \<Rightarrow> base_node \<Rightarrow> bool" where
  "node_flags par rt lf b \<longleftrightarrow> parent b = par \<and> root (version b) = rt \<and> border (version b) = lf \<and> \<not> deleted (version b)"

lemma tree_at_shape:
  assumes "layer_entries t \<noteq> []"
  shows "tree_at h par rt t \<longleftrightarrow> tree_shape h t \<and>
    (\<exists>b. get_base (addr_of t) h = Some b \<and> node_flags par rt (is_leaf t) b \<and> is_stable (version b))"
proof (cases t)
  case (Leaf p es)
  show ?thesis using assms unfolding Leaf tree_at_contents
    by (auto simp: tree_shape_def leaf_node_def node_flags_def get_base_def Let_def)
next
  case (Branch p ks ts)
  show ?thesis unfolding Branch tree_at_Branch
    by (auto simp: tree_shape_def branch_node_def node_flags_def get_base_def Let_def)
qed

lemma tree_shape_rebased:
  assumes "tree_shape h t" and "nodes h (addr_of t) = Some n" and "nodes h' (addr_of t) = Some n'" and "rebased n n'"
    and "\<And>a. a \<in> set (tl (tree_addrs t)) \<Longrightarrow> nodes h' a = nodes h a" and "pages_le (pages h) (pages h')"
  shows "tree_shape h' t"
proof (cases t)
  case (Leaf p es)
  then obtain b where b: "n = Border b" "border_wf b" "border_entries b = map (\<lambda>(k, c). (k, lv_word c)) es"
    "\<forall>c \<in> set (map snd es). content_at h p c" using assms(1,2) by (auto simp: tree_shape_def)
  have "content_at h' p c" if "c \<in> set (map snd es)" for c
  proof (rule content_at_frame [OF _ _ assms(6)])
    show "content_at h p c" using b(4) that by blast
    show "nodes h' q = nodes h q" if "q \<in> set (content_addrs c)" for q
      using assms(5) [of q] content_addrs_sub [OF \<open>c \<in> set (map snd es)\<close>, of p] that Leaf by blast
  qed
  then show ?thesis using b assms(3,4) by (auto simp: Leaf tree_shape_def rebased_Border)
next
  case (Branch p ks ts)
  then obtain m where m: "n = Interior m" "interior_wf m" "interior_keys m = ks" "interior_children m = map addr_of ts"
    "\<forall>t \<in> set ts. tree_at h p False t" using assms(1,2) by (auto simp: tree_shape_def)
  have "tree_at h' p False t" if "t \<in> set ts" for t
  proof (rule tree_at_frame [OF _ _ assms(6)])
    show "tree_at h p False t" using m(5) that by blast
    show "nodes h' q = nodes h q" if "q \<in> set (tree_addrs t)" for q
      using assms(5) [of q] child_addrs_sub [OF \<open>t \<in> set ts\<close>, of p ks] that Branch by blast
  qed
  then show ?thesis using m assms(3,4) by (auto simp: Branch tree_shape_def rebased_Interior)
qed

lemma tree_shape_node: "tree_shape h t \<Longrightarrow> \<exists>n. nodes h (addr_of t) = Some n"
  by (cases t) (auto simp: tree_shape_def)

section \<open>Owners\<close>

text \<open>
  \<open>owned\<close>: the tree instance \<open>ti\<close>, or a slot of the border node \<open>par\<close>, points to the layer
  whose root is \<open>a\<close>. \<open>reowned\<close>: it points to \<open>a'\<close> now, and nothing but that has changed there.
\<close>

definition owned :: "heap \<Rightarrow> addr \<Rightarrow> addr \<Rightarrow> addr \<Rightarrow> bool" where
  "owned h ti par a \<longleftrightarrow>
     (if par = nullptr then load_root_ptr ti h = Some a
      else \<exists>b i. nodes h par = Some (Border b) \<and> border (version (border_base b)) \<and>
        is_stable (version (border_base b)) \<and> length (lv_arr b) = key_slice_length \<and> get_lv b a = Some i)"

definition slot_changed :: "border_node \<Rightarrow> addr \<Rightarrow> addr \<Rightarrow> border_node \<Rightarrow> bool" where
  "slot_changed b a a' b' \<longleftrightarrow> (\<exists>i v. get_lv b a = Some i \<and>
     b' = b\<lparr>border_base := (border_base b)\<lparr>version := v\<rparr>, lv_arr := (lv_arr b)[i := set_next_layer a']\<rparr> \<and>
     is_stable v \<and> root v = root (version (border_base b)) \<and> border v = border (version (border_base b)) \<and>
     deleted v = deleted (version (border_base b)))"

definition reowned :: "heap \<Rightarrow> addr \<Rightarrow> addr \<Rightarrow> addr \<Rightarrow> addr \<Rightarrow> heap \<Rightarrow> bool" where
  "reowned h ti par a a' h' \<longleftrightarrow>
     (if par = nullptr then \<exists>g. store_root_ptr ti a' h = Some g \<and> same_static g h'
      else same_static h h' \<and> (\<exists>b b'. nodes h par = Some (Border b) \<and> nodes h' par = Some (Border b') \<and>
        slot_changed b a a' b'))"

lemma find_next_layer_spec:
  "find_next_layer xs a j = Some i \<Longrightarrow> j \<le> i \<and> i - j < length xs \<and> get_next_layer (xs ! (i - j)) = a"
proof (induction xs arbitrary: j)
  case (Cons x xs)
  show ?case
  proof (cases "get_next_layer x = a")
    case False
    then have "Suc j \<le> i \<and> i - Suc j < length xs \<and> get_next_layer (xs ! (i - Suc j)) = a" using Cons by simp
    moreover from this have "i - j = Suc (i - Suc j)" by linarith
    ultimately show ?thesis by simp
  qed (use Cons.prems in simp)
qed simp

lemma find_next_layer_least:
  assumes "i < length xs" and "get_next_layer (xs ! i) = a" and "\<And>j. j < i \<Longrightarrow> get_next_layer (xs ! j) \<noteq> a"
  shows "find_next_layer xs a n = Some (n + i)"
  using assms
proof (induction xs arbitrary: i n)
  case (Cons x xs)
  show ?case
  proof (cases i)
    case (Suc j)
    have "get_next_layer (xs ! j') \<noteq> a" if "j' < j" for j' using Cons.prems(3) [of "Suc j'"] that Suc by simp
    then have "find_next_layer xs a (Suc n) = Some (Suc n + j)" using Cons.prems(1,2) Suc by (intro Cons.IH) simp_all
    then show ?thesis using Cons.prems(3) [of 0] Suc by simp
  qed (use Cons.prems in simp)
qed simp

lemma get_lv_slot: "get_lv b a = Some i \<Longrightarrow> i < length (lv_arr b) \<and> get_next_layer (lv_arr b ! i) = a"
  using find_next_layer_spec [of "lv_arr b" a 0 i] by (simp add: get_lv_def)

lemma set_next_layer_get:
  assumes "get_next_layer x \<noteq> nullptr"
  shows "set_next_layer (get_next_layer x) = x"
proof -
  have b: "bit x 63" using assms by (auto intro: ccontr)
  then have "get_next_layer x = x AND NOT kChildFlag" by (simp add: get_next_layer_def and_kChildFlag)
  then show ?thesis unfolding set_next_layer_def
    by (intro bit_word_eqI) (use b in \<open>auto simp: bit_simps bit_kChildFlag\<close>)
qed

lemma store_root_nodes [simp]:
  "store_root_ptr ti a (set_node p n h) = map_option (set_node p n) (store_root_ptr ti a h)"
  "store_root_ptr ti a (h\<lparr>fresh := ps\<rparr>) = map_option (\<lambda>h. h\<lparr>fresh := ps\<rparr>) (store_root_ptr ti a h)"
  by (simp_all add: store_root_ptr_def set_node_def split: option.splits)

lemma store_root_some:
  assumes "load_root_ptr ti h = Some a"
  obtains g where "store_root_ptr ti a' h = Some g"
  using assms by (auto simp: load_root_ptr_def store_root_ptr_def split: option.splits if_splits)

lemma store_root_spec:
  assumes "store_root_ptr ti a h = Some g"
  shows "nodes g = nodes h" and "fresh g = fresh h" and "load_root_ptr ti g = Some a"
    and "pages_le (pages h) (pages g)" and "thread_info_table g = thread_info_table h"
    and "epoch g = epoch h" and "gc_epoch g = gc_epoch h" and "dom (pages g) = dom (pages h)"
  using assms slice_bytes_inj [of "slice_of_bytes (slice_bytes a)" a]
  by (auto simp: load_root_ptr_def store_root_ptr_def pages_le_def slice_bytes_of_bytes split: option.splits if_splits)

lemma store_root_same:
  assumes "load_root_ptr ti h = Some a"
  shows "store_root_ptr ti a h = Some h"
  using assms by (auto simp: load_root_ptr_def store_root_ptr_def slice_bytes_of_bytes fun_upd_idem split: option.splits if_splits)

lemma reowned_same:
  assumes "owned h ti par a" and "a \<noteq> nullptr" and "same_static h h'" and "par \<noteq> nullptr \<longrightarrow> nodes h' par = nodes h par"
  shows "reowned h ti par a a h'"
proof (cases "par = nullptr")
  case True
  then show ?thesis using assms(1,3) store_root_same [of ti h a] by (simp add: owned_def reowned_def)
next
  case False
  then obtain b i where b: "nodes h par = Some (Border b)" "is_stable (version (border_base b))" "get_lv b a = Some i"
    using assms(1) by (auto simp: owned_def)
  have "set_next_layer a = lv_arr b ! i"
    using get_lv_slot [OF b(3)] set_next_layer_get [of "lv_arr b ! i"] assms(2) by simp
  then have "slot_changed b a a b"
    unfolding slot_changed_def using b(2,3) by (intro exI [of _ i] exI [of _ "version (border_base b)"]) simp
  then show ?thesis using False b(1) assms(3,4) by (auto simp: reowned_def)
qed

section \<open>A new root\<close>

text \<open>The interior node above the two halves of a split root, still locked.\<close>

definition pair_branch :: "addr \<Rightarrow> addr \<Rightarrow> key \<Rightarrow> interior_node" where
  "pair_branch l r k = \<lparr>interior_base = \<lparr>key_slice_arr = fst k # replicate 14 0, parent = nullptr,
       version = body_init\<lparr>root := True, inserting_deleting := True, locked := True\<rparr>,
       key_length_arr = snd k # replicate 14 0\<rparr>,
     n_keys = 1, children = l # r # replicate 14 nullptr\<rparr>"

lemma pair_branch_view:
  assumes "canonical k" and "l \<noteq> nullptr" and "r \<noteq> nullptr"
  shows "interior_wf (pair_branch l r k)" and "interior_keys (pair_branch l r k) = [k]"
    and "interior_children (pair_branch l r k) = [l, r]"
  using assms by (simp_all add: interior_wf_def interior_keys_def interior_children_def pair_branch_def base_wf_def
      base_keys_def key_sorted_def)

lemma replicate_15_update: "(replicate 15 z)[0 := x] = x # replicate 14 z"
  "(replicate 16 z)[0 := x] = x # replicate 15 z" "(x # replicate 15 z)[Suc 0 := y] = x # y # replicate 14 z"
  by (simp_all add: numeral_eq_Suc)

text \<open>The two halves and the new root after \<^verbatim>\<open>create_interior_parent_of_*\<close>.\<close>

definition paired :: "heap \<Rightarrow> addr \<Rightarrow> node \<Rightarrow> addr \<Rightarrow> node \<Rightarrow> key \<Rightarrow> addr \<Rightarrow> addr list \<Rightarrow> heap" where
  "paired h l L r R k ni fs = set_node r (node_map_base (set_parent ni \<circ> set_version_root False) R)
     (set_node l (node_map_base (set_parent ni \<circ> set_version_root False) L)
       (set_node ni (Interior (pair_branch l r k)) (h\<lparr>fresh := fs\<rparr>)))"

lemma set_node_commute: "p \<noteq> q \<Longrightarrow> set_node p m (set_node q n h) = set_node q n (set_node p m h)"
  by (simp add: set_node_def fun_upd_twist)

lemmas new_branch_run = new_interior_node_def new_base_node_def set_interior_base_def set_version_root_def
  set_version_inserting_deleting_def version_simps set_interior_base_opt_def set_key_def set_key_slice_at_def
  set_key_length_at_def n_keys_increment_def set_child_at_def replicate_15_update pair_branch_def body_init_def
  init_interior_def init_base_def set_version_border_def set_n_keys_def

lemma create_interior_parent_of_interior_eq:
  assumes "nodes h l = Some L" and "nodes h r = Some R" and "fresh h = ni # fs" and "distinct [l, r, ni]"
  shows "create_interior_parent_of_interior l r k h = Some (ni, paired h l L r R k ni fs)"
proof -
  have ne: "l \<noteq> r" "r \<noteq> l" "l \<noteq> ni" "ni \<noteq> l" "r \<noteq> ni" "ni \<noteq> r" using assms(4) by auto
  then show ?thesis
    using assms(1-3) set_node_commute [OF ne(4)] set_node_commute [OF ne(6)] set_node_commute [OF ne(1)]
    by (simp add: create_interior_parent_of_interior_def heap_run paired_def new_branch_run)
qed

lemma create_interior_parent_of_border_eq:
  assumes "nodes h l = Some L" and "nodes h r = Some R" and "fresh h = ni # fs" and "distinct [l, r, ni]"
    and "get_key_slice_at (node_base R) 0 = Some (fst k)" and "get_key_length_at (node_base R) 0 = Some (snd k)"
  shows "create_interior_parent_of_border l r h = Some (ni, paired h l L r R k ni fs)"
proof -
  have ne: "l \<noteq> r" "r \<noteq> l" "l \<noteq> ni" "ni \<noteq> l" "r \<noteq> ni" "ni \<noteq> r" using assms(4) by auto
  have "get_key_slice_at (set_version_root False b) 0 = get_key_slice_at b 0"
    "get_key_length_at (set_version_root False b) 0 = get_key_length_at b 0" for b
    by (simp_all add: get_key_slice_at_def get_key_length_at_def set_version_root_def)
  then show ?thesis
    using ne assms(1-3,5,6) set_node_commute [OF ne(4)] set_node_commute [OF ne(6)] set_node_commute [OF ne(1)]
    by (simp add: create_interior_parent_of_border_def heap_run paired_def new_branch_run)
qed

text \<open>The end of a split of a root: both halves and the new root are unlocked, the owner is told.\<close>

definition unlock_half :: "addr \<Rightarrow> node \<Rightarrow> node" where
  "unlock_half ni = node_map_base (version_unlock \<circ> (set_parent ni \<circ> set_version_root False))"

definition unlocked_pair :: "addr \<Rightarrow> addr \<Rightarrow> addr \<Rightarrow> key \<Rightarrow> node" where
  "unlocked_pair par l r k = node_map_base (version_unlock \<circ> set_parent par) (Interior (pair_branch l r k))"

definition closed :: "heap \<Rightarrow> addr \<Rightarrow> node \<Rightarrow> addr \<Rightarrow> node \<Rightarrow> key \<Rightarrow> addr \<Rightarrow> addr list \<Rightarrow> addr \<Rightarrow> heap" where
  "closed h l L r R k ni fs par = set_node ni (unlocked_pair par l r k)
     (set_node r (unlock_half ni R) (set_node l (unlock_half ni L) (h\<lparr>fresh := fs\<rparr>)))"

lemma close_null:
  assumes "distinct [l, r, ni]" and "store_root_ptr ti ni h = Some g"
  shows "do { h \<leftarrow> unlock_at l (paired h l L r R k ni fs); h \<leftarrow> unlock_at r h; h \<leftarrow> store_root_ptr ti ni h; unlock_at ni h } =
    Some (closed g l L r R k ni fs nullptr)"
proof -
  have ne: "l \<noteq> r" "r \<noteq> l" "l \<noteq> ni" "ni \<noteq> l" "r \<noteq> ni" "ni \<noteq> r" using assms(1) by auto
  have "set_parent nullptr (interior_base (pair_branch l r k)) = interior_base (pair_branch l r k)"
    by (simp add: set_parent_def pair_branch_def)
  then show ?thesis using ne assms(2) set_node_commute [OF ne(4)] set_node_commute [OF ne(6)] set_node_commute [OF ne(1)]
    by (simp add: heap_run paired_def closed_def unlock_half_def unlocked_pair_def set_interior_base_def)
qed

definition slot_replaced :: "border_node \<Rightarrow> nat \<Rightarrow> addr \<Rightarrow> border_node" where
  "slot_replaced b i a = set_border_base version_unlock (b\<lparr>lv_arr := (lv_arr b)[i := set_next_layer a]\<rparr>)"

lemma replace_layer_eq:
  assumes "nodes h p = Some (Border b)" and "get_lv b a = Some i"
  shows "replace_layer p a a' h = Some (set_node p (Border (b\<lparr>lv_arr := (lv_arr b)[i := set_next_layer a']\<rparr>)) h)"
  using assms get_lv_slot [OF assms(2)] by (simp add: replace_layer_def heap_run set_lv_def)

lemma close_border:
  assumes "distinct [l, r, ni, par]" and "nodes h par = Some (Border b)" and "get_lv b l = Some i"
  shows "do { h \<leftarrow> unlock_at l (paired h l L r R k ni fs); h \<leftarrow> unlock_at r h; h \<leftarrow> replace_layer par l ni h;
      h \<leftarrow> upd_base ni (set_parent par) h; h \<leftarrow> unlock_at ni h; unlock_at par h } =
    Some (set_node par (Border (slot_replaced b i ni)) (closed h l L r R k ni fs par))"
    and "do { h \<leftarrow> unlock_at l (paired h l L r R k ni fs); h \<leftarrow> unlock_at r h; h \<leftarrow> upd_base ni (set_parent par) h;
      h \<leftarrow> unlock_at ni h; h \<leftarrow> replace_layer par l ni h; unlock_at par h } = Some (set_node par (Border (slot_replaced b i ni)) (closed h l L r R k ni fs par))"
proof -
  have ne: "l \<noteq> r" "r \<noteq> l" "l \<noteq> ni" "ni \<noteq> l" "r \<noteq> ni" "ni \<noteq> r" "par \<noteq> l" "par \<noteq> r" "par \<noteq> ni" "l \<noteq> par" "r \<noteq> par" "ni \<noteq> par"
    using assms(1) by auto
  note c = set_node_commute [OF ne(4)] set_node_commute [OF ne(6)] set_node_commute [OF ne(1)]
    set_node_commute [OF ne(10)] set_node_commute [OF ne(11)] set_node_commute [OF ne(12)]
  have g: "get_lv (b\<lparr>lv_arr := x, border_base := y\<rparr>) a = get_lv (b\<lparr>lv_arr := x\<rparr>) a" for x y a by (simp add: get_lv_def)
  show "do { h \<leftarrow> unlock_at l (paired h l L r R k ni fs); h \<leftarrow> unlock_at r h; h \<leftarrow> replace_layer par l ni h;
      h \<leftarrow> upd_base ni (set_parent par) h; h \<leftarrow> unlock_at ni h; unlock_at par h } =
    Some (set_node par (Border (slot_replaced b i ni)) (closed h l L r R k ni fs par))"
    using ne assms(2,3) by (simp add: heap_run replace_layer_eq paired_def closed_def unlock_half_def unlocked_pair_def
        slot_replaced_def c set_interior_base_def)
  show "do { h \<leftarrow> unlock_at l (paired h l L r R k ni fs); h \<leftarrow> unlock_at r h; h \<leftarrow> upd_base ni (set_parent par) h;
      h \<leftarrow> unlock_at ni h; h \<leftarrow> replace_layer par l ni h; unlock_at par h } = Some (set_node par (Border (slot_replaced b i ni)) (closed h l L r R k ni fs par))"
    using ne assms(2,3) by (simp add: heap_run replace_layer_eq paired_def closed_def unlock_half_def unlocked_pair_def
        slot_replaced_def c set_interior_base_def)
qed

lemma unlocked_half_tree:
  assumes "tree_shape h t" and "nodes h (addr_of t) = Some n" and "border (version (node_base n)) = is_leaf t"
    and "\<not> deleted (version (node_base n))" and "layer_entries t \<noteq> []"
    and "nodes h' (addr_of t) = Some (unlock_half ni n)"
    and "\<And>a. a \<in> set (tl (tree_addrs t)) \<Longrightarrow> nodes h' a = nodes h a" and "pages_le (pages h) (pages h')"
  shows "tree_at h' ni False t"
proof -
  have "rebased n (unlock_half ni n)" unfolding unlock_half_def by (rule rebased_map) simp_all
  then have "tree_shape h' t" using tree_shape_rebased [OF assms(1,2,6) _ assms(7,8)] by blast
  moreover have "node_flags ni False (is_leaf t) (node_base (unlock_half ni n))" "is_stable (version (node_base (unlock_half ni n)))"
    using assms(3,4) by (simp_all add: node_flags_def unlock_half_def set_parent_def set_version_root_def
        version_unlock_def version_simps)
  ultimately show ?thesis using assms(6) unfolding tree_at_shape [OF assms(5)] by (simp add: get_base_def)
qed

lemma new_root_tree:
  assumes "nodes h' ni = Some (unlocked_pair par (addr_of l) (addr_of r) k)" and "canonical k"
    and "tree_at h' ni False l" and "tree_at h' ni False r" and "addr_of l \<noteq> nullptr" and "addr_of r \<noteq> nullptr"
  shows "tree_at h' par True (Branch ni [k] [l, r])"
proof -
  note p = pair_branch_view [OF assms(2,5,6)]
  have "version_unlock (set_parent par (interior_base (pair_branch (addr_of l) (addr_of r) k))) =
      (interior_base (pair_branch (addr_of l) (addr_of r) k))\<lparr>parent := par,
        version := unlock_body (version (interior_base (pair_branch (addr_of l) (addr_of r) k)))\<rparr>"
    by (simp add: version_unlock_def set_parent_def version_simps)
  then show ?thesis using assms(1,3,4) p unfolding tree_at_Branch
    by (simp add: unlocked_pair_def branch_node_def set_interior_base_def version_simps)
      (simp add: pair_branch_def body_init_def)
qed

end
