(* ===== verification/Stale_Links.thy ===== *)
theory Stale_Links
  imports Split_State
begin

text \<open>
  A link that \<^verbatim>\<open>delete_at\<close> leaves in an unused slot, and \<^verbatim>\<open>get_lv\<close>, which looks at every slot.
\<close>

section \<open>Properties\<close>

text \<open>
  C39. Deleting the entry of a next layer leaves its link in the slot, and a later change of
  the root of another layer can go there: when the address of the removed root is used again
  for the root of a layer whose entry has a higher slot, \<^verbatim>\<open>get_lv\<close> finds the unused slot first,
  the new root is written to it, and the entry still links to the old one.
\<close>

theorem stale_link_takes_root:
  assumes "i < j" and "j < length (lv_arr b)" and "valid_ptr a" and "lv_arr b ! i = set_next_layer a"
    and "\<And>s. s < i \<Longrightarrow> get_next_layer (lv_arr b ! s) \<noteq> a"
    and "delete_at tinfo rank i False b vh = Some (tinfo', b', vh')"
    and "nodes h p = Some (Border (b'\<lparr>lv_arr := (lv_arr b')[j := set_next_layer a]\<rparr>))"
  shows "\<exists>b2 h'. replace_layer p a a' h = Some h' \<and> nodes h' p = Some (Border b2) \<and>
    lv_arr b2 ! i = set_next_layer a' \<and> lv_arr b2 ! j = set_next_layer a"
proof -
  let ?b = "b'\<lparr>lv_arr := (lv_arr b')[j := set_next_layer a]\<rparr>"
  have lv: "lv_arr b' = lv_arr b" using assms(6) by (auto simp: delete_at_def)
  have r: "get_next_layer (set_next_layer a) = a" by (rule set_next_layer_roundtrip(1) [OF assms(3)])
  have "find_next_layer (lv_arr ?b) a 0 = Some (0 + i)"
    by (rule find_next_layer_least) (use assms(1,2,4,5) r in \<open>simp_all add: lv\<close>)
  then have "get_lv ?b a = Some i" by (simp add: get_lv_def)
  from replace_layer_eq [OF assms(7) this, of a'] show ?thesis using assms(1,2) by (auto simp: lv)
qed

text \<open>Two layers in the slots 0 and 1; the first is deleted and its address used for the second.\<close>

definition two_layers :: border_node where
  "two_layers = new_border_node\<lparr>lv_arr := [set_next_layer 64, set_next_layer 128] @ replicate 13 init_lv, perm_body := split_dest 2\<rparr>"

theorem stale_link_takes_root_witness:
  "\<exists>tinfo' b' vh' b2 h'. delete_at new_thread_info 0 0 False two_layers Map.empty = Some (tinfo', b', vh') \<and>
     replace_layer 4096 64 192 (set_node 4096 (Border (b'\<lparr>lv_arr := (lv_arr b')[1 := set_next_layer 64]\<rparr>)) (initial_heap 1 [])) = Some h' \<and>
     nodes h' 4096 = Some (Border b2) \<and> lv_arr b2 ! 0 = set_next_layer 192 \<and> lv_arr b2 ! 1 = set_next_layer 64"
proof -
  obtain tinfo' b' vh' where d: "delete_at new_thread_info 0 0 False two_layers Map.empty = Some (tinfo', b', vh')"
    by (simp add: delete_at_def)
  have v: "valid_ptr 64" by code_simp
  have "\<exists>b2 h'. replace_layer 4096 64 192 (set_node 4096 (Border (b'\<lparr>lv_arr := (lv_arr b')[1 := set_next_layer 64]\<rparr>)) (initial_heap 1 [])) = Some h' \<and>
     nodes h' 4096 = Some (Border b2) \<and> lv_arr b2 ! 0 = set_next_layer 192 \<and> lv_arr b2 ! 1 = set_next_layer 64"
    by (rule stale_link_takes_root [OF _ _ v _ _ d]) (simp_all add: two_layers_def)
  then show ?thesis using d by blast
qed

end
