(* ===== verification/Interior_Halves.thy ===== *)
theory Interior_Halves
  imports Split_State
begin

text \<open>
  The first part of \<^verbatim>\<open>interior_split\<close>: a full interior node gives the upper half of its keys and
  children to a new one. The states before and after are those of a tree whose branch has
  got one child too many, and of a path whose end has been split in two.
\<close>

lemma foldM_snoc: "start \<le> j \<Longrightarrow> foldM f [start..<j] s = Some s' \<Longrightarrow> foldM f [start..<Suc j] s = f j s'"
  by (simp add: foldM_append) (cases "f j s'"; simp)

section \<open>Moving children\<close>

text \<open>The nodes in \<open>S\<close> under the new parent \<open>q\<close>.\<close>

definition adopt :: "addr set \<Rightarrow> addr \<Rightarrow> (addr \<rightharpoonup> node) \<Rightarrow> addr \<rightharpoonup> node" where
  "adopt S q N = (\<lambda>a. if a \<in> S then map_option (node_map_base (set_parent q)) (N a) else N a)"

lemma adopt_empty [simp]: "adopt {} q N = N"
  by (simp add: adopt_def)

lemma adopt_other [simp]: "a \<notin> S \<Longrightarrow> adopt S q N a = N a"
  by (simp add: adopt_def)

lemma adopt_in: "a \<in> S \<Longrightarrow> adopt S q N a = map_option (node_map_base (set_parent q)) (N a)"
  by (simp add: adopt_def)

lemma adopt_insert: "a \<notin> S \<Longrightarrow> N a = Some n \<Longrightarrow> adopt (insert a S) q N = (adopt S q N)(a \<mapsto> node_map_base (set_parent q) n)"
  by (auto simp: adopt_def)

lemma move_children_eq:
  assumes "nodes h p = Some (Interior n)" and "nodes h q = Some (Interior m)" and "p \<noteq> q"
    and "length (children n) = 16" and "length (children m) = 16" and "start \<le> 16"
    and "cs = drop start (children n)" and "distinct cs" and "p \<notin> set cs" and "q \<notin> set cs"
    and "\<forall>c \<in> set cs. nodes h c \<noteq> None"
  shows "move_children_to_interior_range p q start h = Some (h\<lparr>nodes := (adopt (set cs) q (nodes h))
    (p \<mapsto> Interior (n\<lparr>children := take start (children n) @ replicate (16 - start) nullptr\<rparr>),
     q \<mapsto> Interior (m\<lparr>children := cs @ drop (16 - start) (children m)\<rparr>))\<rparr>)"
proof -
  define f where "f = (\<lambda>i h. do {
         n \<leftarrow> get_interior p h;
         c \<leftarrow> get_child_at n i;
         h \<leftarrow> upd_interior q (set_child_at (i - start) c) h;
         h \<leftarrow> upd_base c (set_parent q) h;
         upd_interior p (set_child_at i nullptr) h
       })"
  let ?C = "children n" and ?D = "children m"
  have "foldM f [start..<j] h = Some (h\<lparr>nodes := (adopt (set (take (j - start) cs)) q (nodes h))
    (p \<mapsto> Interior (n\<lparr>children := take start ?C @ replicate (j - start) nullptr @ drop j ?C\<rparr>),
     q \<mapsto> Interior (m\<lparr>children := take (j - start) cs @ drop (j - start) ?D\<rparr>))\<rparr>)"
    if "start \<le> j" "j \<le> 16" for j
    using that
  proof (induction j rule: dec_induct)
    case base
    show ?case using assms(1,2) by (simp add: fun_upd_idem)
  next
    case (step j)
    let ?l = "take start ?C @ replicate (j - start) nullptr @ drop j ?C" and ?r = "take (j - start) cs @ drop (j - start) ?D"
    have j: "j < 16" "start \<le> j" using step by simp_all
    have c: "cs ! (j - start) = ?C ! j" using assms(4,6,7) j by simp
    have l: "length ?l = 16" "?l ! j = ?C ! j" "length ?r = 16" using assms j by (simp_all add: nth_append)
    have d: "drop j ?C = ?C ! j # drop (Suc j) ?C" "drop (j - start) ?D = ?D ! (j - start) # drop (Suc (j - start)) ?D"
      using assms(4,5) j by (simp_all add: Cons_nth_drop_Suc)
    have sj: "Suc j - start = Suc (j - start)" using j by simp
    have t: "take (Suc (j - start)) cs = take (j - start) cs @ [?C ! j]"
      using assms(4,6,7) j c by (simp add: take_Suc_conv_app_nth)
    have ul: "?l[j := nullptr] = take start ?C @ replicate (Suc j - start) nullptr @ drop (Suc j) ?C"
      unfolding sj d(1) using assms(4) j by (simp add: list_update_append replicate_app_Cons_same)
    have ur: "?r[j - start := ?C ! j] = take (Suc j - start) cs @ drop (Suc j - start) ?D"
      unfolding sj d(2) t using assms(4,7) j by (simp add: list_update_append)
    have in_cs: "?C ! j \<in> set cs" using assms(4,7) j c by (metis diff_less_mono length_drop nth_mem)
    have new: "?C ! j \<notin> set (take (j - start) cs)"
    proof -
      have "distinct (take (Suc (j - start)) cs)" using assms(8) by simp
      then show ?thesis unfolding t by simp
    qed
    have ne: "?C ! j \<noteq> p" "?C ! j \<noteq> q" using in_cs assms(9,10) by auto
    obtain x where x: "nodes h (?C ! j) = Some x" using assms(11) in_cs by auto
    have s: "set (take (Suc j - start) cs) = insert (?C ! j) (set (take (j - start) cs))" unfolding sj t by simp
    let ?N = "adopt (set (take (j - start) cs)) q (nodes h)"
    let ?h = "h\<lparr>nodes := ?N(p \<mapsto> Interior (n\<lparr>children := ?l\<rparr>), q \<mapsto> Interior (m\<lparr>children := ?r\<rparr>))\<rparr>"
    have "f j ?h = Some (h\<lparr>nodes := (?N(?C ! j \<mapsto> node_map_base (set_parent q) x))
        (p \<mapsto> Interior (n\<lparr>children := ?l[j := nullptr]\<rparr>), q \<mapsto> Interior (m\<lparr>children := ?r[j - start := ?C ! j]\<rparr>))\<rparr>)"
      using assms(3) ne new x l j
      by (simp add: f_def heap_run get_child_at_def set_child_at_def set_node_def fun_upd_twist)
    moreover have "foldM f [start..<Suc j] h = f j ?h" using j by (intro foldM_snoc step.IH) simp_all
    ultimately show ?case
      using adopt_insert [of "?C ! j" _ "nodes h" x q, OF new x] unfolding ul ur s by (simp only:)
  qed
  from this [of 16] show ?thesis unfolding move_children_to_interior_range_def f_def [symmetric]
    using assms(4,5,6,7) by simp
qed

section \<open>The two halves of an interior node\<close>

definition lower_half :: "interior_node \<Rightarrow> interior_node" where
  "lower_half n = n\<lparr>n_keys := 7, children := take 8 (children n) @ replicate 8 nullptr,
     interior_base := key_arrays (take 7 (base_keys (interior_base n)) @ replicate 8 (0, 0))
       (set_version_splitting True (interior_base n))\<rparr>"

definition upper_half :: "interior_node \<Rightarrow> interior_node" where
  "upper_half n = \<lparr>interior_base = key_arrays (drop 8 (base_keys (interior_base n)) @ replicate 8 (0, 0))
       (set_version (version (set_version_splitting True (interior_base n))) new_base_node),
     n_keys = 7, children = drop 8 (children n) @ replicate 8 nullptr\<rparr>"

lemma halves_view:
  assumes "interior_wf n" and "interior_keys n = ks" and "interior_children n = cs" and "length ks = 15"
  shows "interior_wf (lower_half n)" and "interior_keys (lower_half n) = take 7 ks" and "interior_children (lower_half n) = take 8 cs"
    and "interior_wf (upper_half n)" and "interior_keys (upper_half n) = drop 8 ks" and "interior_children (upper_half n) = drop 8 cs"
    and "n_keys (lower_half n) = 7" and "n_keys (upper_half n) = 7" and "children n = cs" and "base_keys (interior_base n) = ks"
proof -
  have w: "base_wf (interior_base n)" "length (children n) = 16" "unat (n_keys n) = 15" "key_sorted ks" "nullptr \<notin> set cs"
    using assms length_interior(1) [OF assms(1)] by (auto simp: interior_wf_def)
  show ks: "base_keys (interior_base n) = ks" and cs: "children n = cs"
    using assms(2,3) w by (simp_all add: interior_keys_def interior_children_def)
  have l: "length cs = 16" using cs w(2) by simp
  show k: "interior_keys (lower_half n) = take 7 ks" "interior_children (lower_half n) = take 8 cs"
    "interior_keys (upper_half n) = drop 8 ks" "interior_children (upper_half n) = drop 8 cs"
    "n_keys (lower_half n) = 7" "n_keys (upper_half n) = 7"
    using assms(4) l by (simp_all add: lower_half_def upper_half_def interior_keys_def interior_children_def ks cs)
  have "base_wf (interior_base (lower_half n))" "base_wf (interior_base (upper_half n))"
    "length (children (lower_half n)) = 16" "length (children (upper_half n)) = 16"
    using assms(4) l by (simp_all add: lower_half_def upper_half_def ks cs)
  then show "interior_wf (lower_half n)" "interior_wf (upper_half n)"
    using w(4,5) key_sorted_take [OF w(4)] key_sorted_drop [OF w(4)] k
    by (auto simp: interior_wf_def dest: in_set_takeD in_set_dropD)
qed

text \<open>The end of \<^verbatim>\<open>interior_split\<close>, from \<^verbatim>\<open>lock_parent\<close> on.\<close>

definition split_end :: "addr \<Rightarrow> addr \<Rightarrow> addr \<Rightarrow> key \<Rightarrow> heap \<Rightarrow> heap option" where
  "split_end ti interior new_interior pivot h = do {
     (p, h) \<leftarrow> lock_parent interior h;
     if p = nullptr then do {
       (p, h) \<leftarrow> create_interior_parent_of_interior interior new_interior pivot h;
       h \<leftarrow> unlock_at interior h;
       h \<leftarrow> unlock_at new_interior h;
       h \<leftarrow> store_root_ptr ti p h;
       unlock_at p h
     } else do {
       pbase \<leftarrow> get_base p h;
       if border (version pbase) then do {
         h \<leftarrow> upd_base p (set_version_inserting_deleting True) h;
         (new_p, h) \<leftarrow> create_interior_parent_of_interior interior new_interior pivot h;
         h \<leftarrow> unlock_at interior h;
         h \<leftarrow> unlock_at new_interior h;
         h \<leftarrow> replace_layer p interior new_p h;
         h \<leftarrow> upd_base new_p (set_parent p) h;
         h \<leftarrow> unlock_at new_p h;
         unlock_at p h
       } else do {
         h \<leftarrow> unlock_at interior h;
         h \<leftarrow> upd_base new_interior (set_parent p) h;
         h \<leftarrow> unlock_at new_interior h;
         pi \<leftarrow> get_interior p h;
         if unat (n_keys pi) = key_slice_length
         then interior_split ti p new_interior pivot h
         else do {
           h \<leftarrow> upd_interior p (insert_child new_interior pivot) h;
           unlock_at p h
         }
       }
     }
   }"

definition halved :: "heap \<Rightarrow> addr \<Rightarrow> interior_node \<Rightarrow> addr \<Rightarrow> addr list \<Rightarrow> heap" where
  "halved h p n q fs = h\<lparr>fresh := fs, nodes := (adopt (set (drop 8 (children n))) q (nodes h))
     (p \<mapsto> Interior (lower_half n), q \<mapsto> Interior (upper_half n))\<rparr>"

definition place_child :: "addr \<Rightarrow> addr \<Rightarrow> key \<Rightarrow> heap \<Rightarrow> heap option" where
  "place_child i child k h = do {
     h \<leftarrow> upd_base child (set_parent i) h;
     upd_interior i (insert_child child k) h
   }"

lemma interior_split_unfold:
  "interior_split ti interior child_node inserting_key h = do {
     h \<leftarrow> upd_base interior (set_version_splitting True) h;
     (new_interior, h) \<leftarrow> new_node (Interior new_interior_node) h;
     h \<leftarrow> upd_interior new_interior (Some \<circ> init_interior) h;
     ib \<leftarrow> get_base interior h;
     h \<leftarrow> upd_base new_interior (set_version (version ib)) h;
     h \<leftarrow> move_keys interior new_interior 8 h;
     h \<leftarrow> upd_interior interior (Some \<circ> set_n_keys 7) h;
     h \<leftarrow> upd_interior new_interior (Some \<circ> set_n_keys 7) h;
     h \<leftarrow> move_children_to_interior_range interior new_interior 8 h;
     ib \<leftarrow> get_base interior h;
     pivot_key \<leftarrow> get_key_slice_at ib 7;
     pivot_length \<leftarrow> get_key_length_at ib 7;
     h \<leftarrow> upd_interior interior (set_interior_base_opt (set_key 7 0 0)) h;
     h \<leftarrow> (if pivot_before inserting_key (pivot_key, pivot_length) then place_child interior child_node inserting_key h
           else place_child new_interior child_node inserting_key h);
     split_end ti interior new_interior (pivot_key, pivot_length) h
   }"
  unfolding interior_split.simps [of ti interior] split_end_def place_child_def Let_def by (simp cong: if_cong)

lemma interior_split_eq:
  assumes "nodes h p = Some (Interior n)" and "interior_wf n" and "interior_keys n = ks" and "length ks = 15"
    and "fresh h = q # fs" and "p \<noteq> q" and "distinct (drop 8 (children n))" and "p \<notin> set (drop 8 (children n))"
    and "q \<notin> set (drop 8 (children n))" and "\<forall>c \<in> set (drop 8 (children n)). nodes h c \<noteq> None"
  shows "interior_split ti p child k h = do {
     h \<leftarrow> place_child (if pivot_before k (ks ! 7) then p else q) child k (halved h p n q fs);
     split_end ti p q (ks ! 7) h
   }"
proof -
  have w: "base_wf (interior_base n)" "length (children n) = 16" "base_keys (interior_base n) = ks"
    using halves_view [OF assms(2,3) refl assms(4)] assms(2) by (simp_all add: interior_wf_def)
  let ?b = "set_version_splitting True (interior_base n)"
  let ?nc = "n\<lparr>interior_base := key_arrays (take 8 ks @ replicate 7 (0, 0)) ?b, n_keys := 7\<rparr>"
  let ?nd = "\<lparr>interior_base = key_arrays (drop 8 ks @ replicate 8 (0, 0)) (set_version (version ?b) new_base_node),
      n_keys = 7, children = replicate 16 nullptr\<rparr>"
  let ?h3 = "h\<lparr>fresh := fs, nodes := (nodes h)(p \<mapsto> Interior ?nc, q \<mapsto> Interior ?nd)\<rparr>"
  have i: "init_interior \<lparr>interior_base = new_base_node, n_keys = 0, children = replicate 16 nullptr\<rparr> =
      \<lparr>interior_base = new_base_node, n_keys = 0, children = replicate 16 nullptr\<rparr>" by code_simp
  have nb: "base_keys new_base_node = replicate 15 (0, 0)" by (simp add: new_base_node_def base_keys_def zip_replicate)
  have mk: "move_key_to_base_range 8 ?b (set_version (version ?b) new_base_node) =
      Some (key_arrays (take 8 ks @ replicate 7 (0, 0)) ?b, key_arrays (drop 8 ks @ replicate 8 (0, 0)) (set_version (version ?b) new_base_node))"
    using w by (simp add: move_key_to_base_range_eq nb)
  have mv: "move_children_to_interior_range p q 8 ?h3 = Some (h\<lparr>fresh := fs, nodes := (adopt (set (drop 8 (children n))) q (nodes ?h3))
      (p \<mapsto> Interior (?nc\<lparr>children := take 8 (children n) @ replicate 8 nullptr\<rparr>),
       q \<mapsto> Interior (?nd\<lparr>children := drop 8 (children n) @ replicate 8 nullptr\<rparr>))\<rparr>)"
    using assms(6-10) w move_children_eq [of ?h3 p ?nc q ?nd 8 "drop 8 (children n)"] by auto
  have ad: "(adopt S q ((nodes h)(p \<mapsto> a, q \<mapsto> b)))(p \<mapsto> c, q \<mapsto> d) = (adopt S q (nodes h))(p \<mapsto> c, q \<mapsto> d)"
    for S a b c d by (auto simp: adopt_def)
  have k: "get_key_slice_at (key_arrays (take 8 ks @ replicate 7 (0, 0)) ?b) 7 = Some (fst (ks ! 7))"
    "get_key_length_at (key_arrays (take 8 ks @ replicate 7 (0, 0)) ?b) 7 = Some (snd (ks ! 7))"
    "set_key 7 0 0 (key_arrays (take 8 ks @ replicate 7 (0, 0)) ?b) = Some (key_arrays (take 7 ks @ replicate 8 (0, 0)) ?b)"
  proof -
    let ?l = "take 8 ks @ replicate 7 (0, 0)"
    have l: "length ?l = 15" "?l ! 7 = ks ! 7" using assms(4) by (simp_all add: nth_append)
    have t: "take 8 ks = take 7 ks @ [ks ! 7]" using take_Suc_conv_app_nth [of 7 ks] assms(4) by simp
    have "?l[7 := (0, 0)] = take 7 ks @ (0, 0) # replicate 7 (0, 0)" unfolding t using assms(4) by (simp add: list_update_append)
    also have "(0, 0) # replicate 7 (0, 0) = replicate 8 (0, 0)" by (simp add: numeral_eq_Suc)
    finally show "set_key 7 0 0 (key_arrays ?l ?b) = Some (key_arrays (take 7 ks @ replicate 8 (0, 0)) ?b)"
      using set_key_arrays [OF l(1), of 7 0 0 ?b] by simp
    show "get_key_slice_at (key_arrays ?l ?b) 7 = Some (fst (ks ! 7))" "get_key_length_at (key_arrays ?l ?b) 7 = Some (snd (ks ! 7))"
      using l by (simp_all add: get_key_at)
  qed
  show ?thesis
    unfolding interior_split_unfold using assms(1,5,6) mk mv k
    by (simp add: heap_run i move_keys_def set_interior_base_def new_interior_node_def set_n_keys_def set_node_def
        fun_upd_twist set_interior_base_opt_def ad halved_def lower_half_def upper_half_def w(3))
qed

section \<open>Trees side by side\<close>

lemma forest_same:
  "distinct (concat (map tree_addrs us)) \<Longrightarrow> t \<in> set us \<Longrightarrow> t' \<in> set us \<Longrightarrow>
   a \<in> set (tree_addrs t) \<Longrightarrow> a \<in> set (tree_addrs t') \<Longrightarrow> t = t'"
  by (induction us) auto

lemma forest_distinct: "distinct (concat (map tree_addrs us)) \<Longrightarrow> distinct us"
proof (induction us)
  case (Cons t us)
  then have "t \<notin> set us" using addr_of_in_addrs [of t] by (auto simp del: addr_of_in_addrs)
  then show ?case using Cons by simp
qed simp

lemma forest_tree: "distinct (concat (map tree_addrs us)) \<Longrightarrow> t \<in> set us \<Longrightarrow> distinct (tree_addrs t)"
  by (induction us) auto

lemma forest_roots:
  assumes "distinct (concat (map tree_addrs us))" and "t \<in> set us" and "a \<in> set (tl (tree_addrs t))"
  shows "a \<notin> addr_of ` set us"
proof
  assume "a \<in> addr_of ` set us"
  then obtain t' where t': "t' \<in> set us" "a = addr_of t'" by blast
  then have "t = t'" using forest_same [OF assms(1,2) t'(1), of a] assms(3) tl_addrs_sub [of t] by auto
  moreover have "distinct (addr_of t # tl (tree_addrs t))"
    using forest_tree [OF assms(1,2)] tree_addrs_Cons [of t] by simp
  ultimately show False using assms(3) t'(2) by simp
qed

lemma forest_inj: "distinct (concat (map tree_addrs us)) \<Longrightarrow> inj_on addr_of (set us)"
  using forest_same by (metis addr_of_in_addrs inj_onI)

lemma forest_take_drop:
  assumes "distinct (concat (map tree_addrs us))" and "t \<in> set (take n us)"
  shows "addr_of t \<notin> addr_of ` set (drop n us)"
proof
  assume "addr_of t \<in> addr_of ` set (drop n us)"
  then obtain t' where t': "t' \<in> set (drop n us)" "addr_of t = addr_of t'" by blast
  then have "t = t'" using forest_inj [OF assms(1)] assms(2) by (auto dest: inj_onD in_set_takeD in_set_dropD)
  then show False using t'(1) assms(2) set_take_disj_set_drop_if_distinct [OF forest_distinct [OF assms(1)], of n n] by blast
qed

section \<open>The states of a split\<close>

text \<open>Before: the branch \<open>p\<close> is full, its child \<open>l\<close> has got a right neighbour \<open>r\<close>.\<close>

fun attach_state :: "heap \<Rightarrow> addr \<Rightarrow> frame list \<Rightarrow> tree \<Rightarrow> tree \<Rightarrow> bool" where
  "attach_state h par [] l r \<longleftrightarrow> False"
| "attach_state h par ((p, ks, ls, rs) # c) l r \<longleftrightarrow>
     (\<exists>n. nodes h p = Some (Interior n) \<and> interior_wf n \<and> interior_keys n = ks \<and>
        interior_children n = map addr_of (ls @ l # rs) \<and> node_flags (ctx_parent par c) (c = []) False (interior_base n)) \<and>
     (\<forall>t \<in> set (ls @ l # rs). tree_at h p False t) \<and> (\<exists>x. tree_at h x False r) \<and> ctx_at h par c p"

text \<open>After: two halves, both still locked, that the branches above do not know of yet.\<close>

definition split_state :: "heap \<Rightarrow> addr \<Rightarrow> frame list \<Rightarrow> tree \<Rightarrow> tree \<Rightarrow> bool" where
  "split_state h par c l r \<longleftrightarrow> tree_shape h l \<and> tree_shape h r \<and>
     (\<exists>b. get_base (addr_of l) h = Some b \<and> node_flags (ctx_parent par c) (c = []) (is_leaf l) b) \<and>
     (\<exists>b x. get_base (addr_of r) h = Some b \<and> node_flags x (c = []) (is_leaf r) b) \<and> ctx_at h par c (addr_of l)"

text \<open>What a step may do to the nodes outside \<open>S\<close> and inside.\<close>

definition only_rebases :: "addr set \<Rightarrow> addr set \<Rightarrow> heap \<Rightarrow> heap \<Rightarrow> bool" where
  "only_rebases S T h h' \<longleftrightarrow> (\<forall>x. x \<notin> S \<longrightarrow> nodes h' x = nodes h x) \<and>
     (\<forall>x n. x \<notin> T \<longrightarrow> nodes h x = Some n \<longrightarrow> (\<exists>n'. nodes h' x = Some n' \<and> rebased n n'))"

lemma only_rebases_trans:
  "only_rebases S T h h' \<Longrightarrow> only_rebases S' T' h' h'' \<Longrightarrow> S \<subseteq> U \<Longrightarrow> S' \<subseteq> U \<Longrightarrow> T \<subseteq> V \<Longrightarrow> T' \<subseteq> V \<Longrightarrow> only_rebases U V h h''"
proof -
  assume a: "only_rebases S T h h'" "only_rebases S' T' h' h''" "S \<subseteq> U" "S' \<subseteq> U" "T \<subseteq> V" "T' \<subseteq> V"
  have "nodes h'' x = nodes h x" if "x \<notin> U" for x
  proof -
    have "x \<notin> S" "x \<notin> S'" using a(3,4) that by blast+
    then show ?thesis using a(1,2) by (simp add: only_rebases_def)
  qed
  moreover have "\<exists>n''. nodes h'' x = Some n'' \<and> rebased n n''" if x: "x \<notin> V" "nodes h x = Some n" for x n
  proof -
    obtain n' where n': "nodes h' x = Some n'" "rebased n n'"
      using a(1,5) x unfolding only_rebases_def by blast
    then obtain n'' where "nodes h'' x = Some n''" "rebased n' n''"
      using a(2,6) x unfolding only_rebases_def by blast
    then show ?thesis using rebased_trans [OF n'(2)] by blast
  qed
  ultimately show ?thesis by (simp add: only_rebases_def)
qed

lemma length_takeWhile_take: "length (takeWhile P (take n xs)) = min n (length (takeWhile P xs))"
  by (induction xs arbitrary: n) (auto split: nat.splits simp: take_Cons)

lemma takeWhile_drop_prefix: "n \<le> length (takeWhile P xs) \<Longrightarrow> takeWhile P (drop n xs) = drop n (takeWhile P xs)"
  by (induction xs arbitrary: n) (auto simp: drop_Cons split: nat.splits if_splits)

lemma rank_le_take_drop:
  assumes "rank_le k ks = a"
  shows "a \<le> n \<Longrightarrow> rank_le k (take n ks) = a" and "n \<le> a \<Longrightarrow> rank_le k (drop n ks) = a - n"
  using assms by (auto simp: rank_le_def length_takeWhile_take takeWhile_drop_prefix)

lemma take_ins_at: "a \<le> n \<Longrightarrow> n \<le> length xs \<Longrightarrow> take (Suc n) (ins_at a x xs) = ins_at a x (take n xs)"
  "n \<le> a \<Longrightarrow> a \<le> length xs \<Longrightarrow> take n (ins_at a x xs) = take n xs"
  by (auto simp: ins_at_def min_def take_Cons' drop_take Suc_diff_le)

lemma drop_ins_at: "a \<le> n \<Longrightarrow> n \<le> length xs \<Longrightarrow> drop (Suc n) (ins_at a x xs) = drop n xs"
  "n \<le> a \<Longrightarrow> a \<le> length xs \<Longrightarrow> drop n (ins_at a x xs) = ins_at (a - n) x (drop n xs)"
  by (auto simp: ins_at_def min_def drop_Cons' Suc_diff_le drop_take)

section \<open>From one state to the next\<close>

text \<open>The nodes with the two halves and the children under their parents.\<close>

lemma place_child_eq:
  assumes "nodes h child = Some x" and "child \<noteq> i" and "nodes h i = Some (Interior n)"
    and "interior_wf n" and "unat (n_keys n) < 15" and "canonical k"
  shows "\<exists>n'. place_child i child k h =
      Some (set_node i (Interior n') (set_node child (node_map_base (set_parent i) x) h)) \<and>
    child_inserted (set_interior_base (set_version_inserting_deleting True) n) child k n'"
  using insert_child_spec [OF assms(4-6), of child] assms(1-3) by (auto simp: place_child_def heap_run)

end
