(* ===== verification/Interior_Split.thy ===== *)
theory Interior_Split
  imports Interior_Halves
begin

text \<open>
  \<^verbatim>\<open>interior_split\<close> on the trees of the heap: a full interior node gives the upper half of its
  keys and children to a new one, takes the waiting child on the side it belongs to, and
  hands the middle key to its parent, which may be full itself.
\<close>

section \<open>The two halves with the new child\<close>

text \<open>What the two nodes hold afterwards; \<open>a\<close> is the place of the new key.\<close>

definition half_node :: "interior_node \<Rightarrow> key list \<Rightarrow> addr list \<Rightarrow> interior_node \<Rightarrow> bool" where
  "half_node n ks cs n' \<longleftrightarrow> interior_wf n' \<and> interior_keys n' = ks \<and> interior_children n' = cs \<and>
     root (version (interior_base n')) = root (version (interior_base n)) \<and>
     border (version (interior_base n')) = border (version (interior_base n)) \<and>
     deleted (version (interior_base n')) = deleted (version (interior_base n))"

lemma lower_half_node:
  assumes "interior_wf n" and "interior_keys n = ks" and "interior_children n = cs" and "length ks = 15"
  shows "half_node n (take 7 ks) (take 8 cs) (lower_half n)" and "parent (interior_base (lower_half n)) = parent (interior_base n)"
    and "half_node n (drop 8 ks) (drop 8 cs) (upper_half n)"
  using halves_view [OF assms]
  by (simp_all add: half_node_def) (simp_all add: lower_half_def upper_half_def set_version_splitting_def set_version_def version_simps)

lemma half_node_insert:
  assumes "half_node n ks cs n'" and "child_inserted (set_interior_base (set_version_inserting_deleting True) n') child k n''"
    and "canonical k" and "k \<notin> set ks" and "length ks < 15" and "child \<noteq> nullptr"
  shows "half_node n (ins_at (rank_le k ks) k ks) (ins_at (rank_le k ks + 1) child cs) n''"
    and "parent (interior_base n'') = parent (interior_base n')"
proof -
  let ?n = "set_interior_base (set_version_inserting_deleting True) n'"
  have w: "interior_wf n'" "interior_keys n' = ks" "interior_children n' = cs" using assms(1) by (simp_all add: half_node_def)
  have e: "interior_wf ?n" "interior_keys ?n = ks" "interior_children ?n = cs" "n_keys ?n = n_keys n'"
    using w by (simp_all add: set_interior_base_def)
  have "unat (n_keys ?n) < 15" using length_interior(1) [OF w(1)] w(2) assms(5) e(4) by simp
  then have "interior_wf n''" using child_inserted_wf [OF e(1) _ assms(3) _ assms(6,2)] assms(4) e(2) by simp
  then show "half_node n (ins_at (rank_le k ks) k ks) (ins_at (rank_le k ks + 1) child cs) n''"
    using assms(1,2) e by (simp add: half_node_def child_inserted_def)
      (simp add: set_interior_base_def set_version_inserting_deleting_def version_simps)
  show "parent (interior_base n'') = parent (interior_base n')"
    using assms(2) by (simp add: child_inserted_def set_interior_base_def set_version_inserting_deleting_def)
qed

lemma halves_placed:
  assumes n: "nodes h p = Some (Interior n)" "interior_wf n" "interior_keys n = ks" "interior_children n = cs"
    and len: "length ks = 15" "length cs = 16" and f: "fresh h = q # fs" and k: "canonical k" "k \<notin> set ks" "rank_le k ks = a"
    and d: "distinct (p # q # child # cs)" and ex: "\<forall>c \<in> set cs. nodes h c \<noteq> None" "nodes h child \<noteq> None"
    and nn: "child \<noteq> nullptr"
    and m: "m = (if a \<le> 7 then 8 else 7)"
  shows "\<exists>h1 n1 n2. interior_split ti p child k h = split_end ti p q (ins_at a k ks ! m) h1 \<and>
    nodes h1 p = Some (Interior n1) \<and> nodes h1 q = Some (Interior n2) \<and>
    half_node n (take m (ins_at a k ks)) (take (Suc m) (ins_at (a + 1) child cs)) n1 \<and>
    parent (interior_base n1) = parent (interior_base n) \<and>
    half_node n (drop (Suc m) (ins_at a k ks)) (drop (Suc m) (ins_at (a + 1) child cs)) n2 \<and>
    (\<forall>x. x \<noteq> p \<longrightarrow> x \<noteq> q \<longrightarrow> nodes h1 x = adopt (set (drop (Suc m) (ins_at (a + 1) child cs))) q
       (adopt (if m = 8 then {child} else {}) p (nodes h)) x) \<and> same_static h h1 \<and> fresh h1 = fs"
proof -
  have C: "children n = cs" using halves_view(9) [OF n(2-4) len(1)] .
  have ks: "key_sorted ks" using n(2,3) by (simp add: interior_wf_def)
  have sub: "set (drop 8 cs) \<subseteq> set cs" by (rule set_drop_subset)
  have e: "interior_split ti p child k h =
      place_child (if pivot_before k (ks ! 7) then p else q) child k (halved h p n q fs) \<bind> split_end ti p q (ks ! 7)"
    using d ex(1) sub C by (intro interior_split_eq [OF n(1-3) len(1) f]) auto
  have al: "a \<le> 15" using k(3) rank_le_length [of k ks] len by simp
  have c7: "canonical (ks ! 7)" using ks len by (simp add: key_sorted_def)
  have piv: "pivot_before k (ks ! 7) \<longleftrightarrow> a \<le> 7"
    using rank_le_above [OF ks, of k 7] rank_le_below [of 7 k ks] k(3) len pivot_before_iff [OF k(1) c7]
    by (cases "a \<le> 7") (auto simp: not_le)
  obtain x where x: "nodes h child = Some x" using ex(2) by auto
  have ch: "child \<notin> set (drop 8 cs)" "child \<noteq> p" "child \<noteq> q" "p \<noteq> q" using d sub by auto
  note lh = lower_half_node [OF n(2-4) len(1)]
  let ?h0 = "halved h p n q fs"
  have h0: "nodes ?h0 p = Some (Interior (lower_half n))" "nodes ?h0 q = Some (Interior (upper_half n))"
    "nodes ?h0 child = Some x" "same_static h ?h0" "fresh ?h0 = fs"
    "\<And>y. y \<noteq> p \<Longrightarrow> y \<noteq> q \<Longrightarrow> nodes ?h0 y = adopt (set (drop 8 cs)) q (nodes h) y"
    using ch x C by (simp_all add: halved_def same_static_def)
  show ?thesis
  proof (cases "a \<le> 7")
    case True
    then have m8: "m = 8" using m by simp
    have nk: "unat (n_keys (lower_half n)) < 15" using halves_view(7) [OF n(2-4) len(1)] by simp
    obtain n1 where n1: "place_child p child k ?h0 = Some (set_node p (Interior n1) (set_node child (node_map_base (set_parent p) x) ?h0))"
      "child_inserted (set_interior_base (set_version_inserting_deleting True) (lower_half n)) child k n1"
      using place_child_eq [OF h0(3) ch(2) h0(1) halves_view(1) [OF n(2-4) len(1)] nk k(1)] by blast
    let ?h1 = "set_node p (Interior n1) (set_node child (node_map_base (set_parent p) x) ?h0)"
    have r: "rank_le k (take 7 ks) = a" using rank_le_take_drop(1) [OF k(3) True] .
    have i: "half_node n (ins_at a k (take 7 ks)) (ins_at (a + 1) child (take 8 cs)) n1"
      "parent (interior_base n1) = parent (interior_base n)"
      using half_node_insert [OF lh(1) n1(2) k(1) _ _ nn] k(2) len r lh(2) by (auto dest: in_set_takeD)
    have t: "take 8 (ins_at a k ks) = ins_at a k (take 7 ks)" "take 9 (ins_at (a + 1) child cs) = ins_at (a + 1) child (take 8 cs)"
      "drop 9 (ins_at a k ks) = drop 8 ks" "drop 9 (ins_at (a + 1) child cs) = drop 8 cs" "ins_at a k ks ! 8 = ks ! 7"
      using True len take_ins_at(1) [of a 7 ks k] take_ins_at(1) [of "a + 1" 8 cs child]
        drop_ins_at(1) [of a 8 ks k] drop_ins_at(1) [of "a + 1" 8 cs child] by (simp_all add: nth_ins_at)
    have "nodes ?h1 y = adopt (set (drop 8 cs)) q (adopt {child} p (nodes h)) y" if "y \<noteq> p" "y \<noteq> q" for y
      using that h0(6) [OF that] x ch by (auto simp: adopt_def)
    then show ?thesis
      using e piv True n1(1) i t m8 lh(3) ch h0(2,4,5) by (intro exI [of _ ?h1] exI [of _ n1] exI [of _ "upper_half n"]) simp
  next
    case False
    then have m7: "m = 7" "8 \<le> a" using m by simp_all
    have nk: "unat (n_keys (upper_half n)) < 15" using halves_view(8) [OF n(2-4) len(1)] by simp
    obtain n2 where n2: "place_child q child k ?h0 = Some (set_node q (Interior n2) (set_node child (node_map_base (set_parent q) x) ?h0))"
      "child_inserted (set_interior_base (set_version_inserting_deleting True) (upper_half n)) child k n2"
      using place_child_eq [OF h0(3) ch(3) h0(2) halves_view(4) [OF n(2-4) len(1)] nk k(1)] by blast
    let ?h1 = "set_node q (Interior n2) (set_node child (node_map_base (set_parent q) x) ?h0)"
    have r: "rank_le k (drop 8 ks) = a - 8" using rank_le_take_drop(2) [OF k(3) m7(2)] .
    have i: "half_node n (ins_at (a - 8) k (drop 8 ks)) (ins_at (a - 8 + 1) child (drop 8 cs)) n2"
      using half_node_insert [OF lh(3) n2(2) k(1) _ _ nn] k(2) len r by (auto dest: in_set_dropD)
    have t: "take 7 (ins_at a k ks) = take 7 ks" "take 8 (ins_at (a + 1) child cs) = take 8 cs"
      "drop 8 (ins_at a k ks) = ins_at (a - 8) k (drop 8 ks)"
      "ins_at a k ks ! 7 = ks ! 7"
      using m7(2) len al take_ins_at(2) [of 7 a ks k] take_ins_at(2) [of 8 "a + 1" cs child]
        drop_ins_at(2) [of 8 a ks k] by (simp_all add: nth_ins_at)
    have "a + 1 - 8 = a - 8 + 1" "8 \<le> a + 1" "a + 1 \<le> length cs" using m7(2) al len by linarith+
    then have t': "drop 8 (ins_at (a + 1) child cs) = ins_at (a - 8 + 1) child (drop 8 cs)"
      using drop_ins_at(2) [of 8 "a + 1" cs child] by (simp only:)
    have "nodes ?h1 y = adopt (insert child (set (drop 8 cs))) q (nodes h) y" if "y \<noteq> p" "y \<noteq> q" for y
      using that h0(6) [OF that] x ch by (auto simp: adopt_def)
    then show ?thesis
      using e piv False n2(1) i t t' m7(1) lh(1,2) ch h0(1,4,5)
      by (intro exI [of _ ?h1] exI [of _ "lower_half n"] exI [of _ n2]) simp
  qed
qed

lemma adopt_rebased: "N x = Some n \<Longrightarrow> \<exists>n'. adopt S q N x = Some n' \<and> rebased n n'"
  using rebased_map [of "set_parent q" n n] by (auto simp: adopt_def)

lemma adopt_twice_rebased: "N x = Some n \<Longrightarrow> \<exists>n'. adopt S q (adopt T p N) x = Some n' \<and> rebased n n'"
proof -
  assume "N x = Some n"
  then obtain n1 where n1: "adopt T p N x = Some n1" "rebased n n1" using adopt_rebased by blast
  obtain n2 where "adopt S q (adopt T p N) x = Some n2" "rebased n1 n2"
    using adopt_rebased [of "adopt T p N", OF n1(1)] by blast
  then show ?thesis using rebased_trans [OF n1(2)] by blast
qed

lemma interior_split_halves:
  assumes a: "attach_state h par ((p, ks, ls, rs) # c) l r" and s: "split_ok ((p, ks, ls, rs) # c) l k r"
    and full: "\<not> length ks < key_slice_length" and f: "fresh h = q # fs" and vq: "valid_ptr q"
    and d: "distinct (ctx_addrs ((p, ks, ls, rs) # c) @ tree_addrs l @ tree_addrs r @ fresh h)"
    and ks': "ks' = ins_at (length ls) k ks" and ts': "ts' = ls @ l # r # rs"
    and m: "m = (if length ls \<le> 7 then 8 else 7)"
  shows "\<exists>h1. interior_split ti p (addr_of r) k h = split_end ti p q (ks' ! m) h1 \<and>
    split_state h1 par c (Branch p (take m ks') (take (Suc m) ts')) (Branch q (drop (Suc m) ks') (drop (Suc m) ts')) \<and>
    only_rebases (insert p (insert q (addr_of ` set ts'))) {p, q} h h1 \<and> same_static h h1 \<and> fresh h1 = fs"
proof -
  let ?cs = "map addr_of (ls @ l # rs)"
  obtain n x where n: "nodes h p = Some (Interior n)" "interior_wf n" "interior_keys n = ks"
      "interior_children n = ?cs" "node_flags (ctx_parent par c) (c = []) False (interior_base n)"
    and t: "\<forall>t \<in> set (ls @ l # rs). tree_at h p False t" "tree_at h x False r" and c: "ctx_at h par c p"
    using a by auto
  have len: "length ks = 15" and ck: "canonical k" using s full by (simp_all add: split_ok_def)
  have le: "length ls + length rs = 15" using s len by (simp add: split_ok_def pivots_ok_def)
  have ds: "distinct (concat (map tree_addrs ts'))" "p \<notin> set (concat (map tree_addrs ts'))" "q \<notin> set (concat (map tree_addrs ts'))"
    "p \<noteq> q" "\<And>a. a \<in> set (ctx_addrs c) \<Longrightarrow> a \<notin> set (concat (map tree_addrs ts')) \<and> a \<noteq> p \<and> a \<noteq> q"
    using d unfolding ts' f by auto
  have in_forest: "set (tree_addrs t) \<subseteq> set (concat (map tree_addrs ts'))" if "t \<in> set ts'" for t
    using that by (rule set_concat_map)
  have rin: "r \<in> set ts'" by (simp add: ts')
  have roots: "addr_of ` set ts' \<subseteq> set (concat (map tree_addrs ts'))" using in_forest addr_of_in_addrs by blast
  have all: "\<exists>y. tree_at h y False t" if "t \<in> set ts'" for t using that t by (auto simp: ts')
  have some: "nodes h (addr_of t) \<noteq> None" if "t \<in> set ts'" for t
    using all [OF that] by (metis get_base_def option.distinct(1) option.simps(8) tree_at_base)
  have ins: "ins_at (length ls + 1) (addr_of r) ?cs = map addr_of ts'" by (simp add: ins_at_def ts')
  have dr: "distinct (p # q # addr_of r # ?cs)"
  proof -
    have "distinct (map addr_of ts')" using forest_inj [OF ds(1)] forest_distinct [OF ds(1)] by (simp add: distinct_map)
    then have "distinct (addr_of r # ?cs)" by (auto simp: ts')
    moreover have "p \<notin> set (map addr_of ts')" "q \<notin> set (map addr_of ts')" using ds(2,3) roots by auto
    ultimately show ?thesis using ds(4) by (auto simp: ts')
  qed
  have "addr_of r \<noteq> nullptr" using s tree_wf_valid_ptr [of r] by (simp add: split_ok_def valid_ptr_def)
  moreover have "\<forall>a \<in> set ?cs. nodes h a \<noteq> None" "nodes h (addr_of r) \<noteq> None" using some by (auto simp: ts')
  moreover note frame_insert(3,4) [OF s]
  ultimately obtain h1 n1 n2 where h1: "interior_split ti p (addr_of r) k h = split_end ti p q (ks' ! m) h1"
    "nodes h1 p = Some (Interior n1)" "nodes h1 q = Some (Interior n2)"
    "half_node n (take m ks') (take (Suc m) (map addr_of ts')) n1" "parent (interior_base n1) = parent (interior_base n)"
    "half_node n (drop (Suc m) ks') (drop (Suc m) (map addr_of ts')) n2"
    and o: "\<And>x. x \<noteq> p \<Longrightarrow> x \<noteq> q \<Longrightarrow> nodes h1 x = adopt (set (drop (Suc m) (map addr_of ts'))) q
       (adopt (if m = 8 then {addr_of r} else {}) p (nodes h)) x" and st: "same_static h h1" "fresh h1 = fs"
    using halves_placed [OF n(1-4) len _ f ck _ _ dr _ _ _ m, of ti] le unfolding ks' ins by auto
  have D: "set (drop (Suc m) (map addr_of ts')) = addr_of ` set (drop (Suc m) ts')" by (simp add: drop_map)
  have pg: "pages_le (pages h) (pages h1)" using st(1) by (simp add: same_static_def)
  have out: "nodes h1 y = nodes h y" if "y \<noteq> p" "y \<noteq> q" "y \<notin> addr_of ` set ts'" for y
  proof -
    have "y \<notin> addr_of ` set (drop (Suc m) ts')" using that(3) set_drop_subset [of "Suc m" ts'] by blast
    moreover have "y \<noteq> addr_of r" using that(3) rin by blast
    ultimately show ?thesis using o [OF that(1,2)] by (simp add: D)
  qed
  have tops: "nodes h1 y = nodes h y" if "t \<in> set ts'" "y \<in> set (tl (tree_addrs t))" for t y
  proof (rule out)
    show "y \<notin> addr_of ` set ts'" using forest_roots [OF ds(1) that] .
    show "y \<noteq> p" "y \<noteq> q" using ds(2,3) in_forest [OF that(1)] tl_addrs_sub [of t] that(2) by blast+
  qed
  have ne: "addr_of t \<noteq> p" "addr_of t \<noteq> q" if "t \<in> set ts'" for t using roots ds(2,3) that by blast+
  have rpos: "r \<in> set (take (Suc m) ts')" if "m = 8"
  proof -
    have "length ls \<le> 7" using that m by (simp split: if_splits)
    then have "Suc (length ls) < length (take (Suc m) ts')" "take (Suc m) ts' ! Suc (length ls) = r"
      using that le by (simp_all add: ts' nth_append)
    then show ?thesis using nth_mem by metis
  qed
  have L: "tree_at h1 p False t" if t': "t \<in> set (take (Suc m) ts')" for t
  proof -
    have i: "t \<in> set ts'" using t' by (rule in_set_takeD)
    have u: "addr_of t \<notin> addr_of ` set (drop (Suc m) ts')" using forest_take_drop [OF ds(1) t'] .
    show ?thesis
    proof (cases "t = r")
      case True
      have "m = 8"
      proof (rule ccontr)
        assume "m \<noteq> 8"
        then have "m = 7" "8 \<le> length ls" using m by (simp_all split: if_splits)
        then have "set (take (Suc m) ts') \<subseteq> set ls" by (simp add: ts' set_take_subset)
        moreover have "r \<notin> set ls" using forest_distinct [OF ds(1)] by (simp add: ts')
        ultimately show False using t' True by blast
      qed
      then have "nodes h1 (addr_of r) = map_option (node_map_base (set_parent p)) (nodes h (addr_of r))"
        using o [OF ne [OF i]] u True by (simp add: drop_map adopt_in)
      then show ?thesis using tree_at_parent [OF t(2), of h1 p] tops [OF i] pg True by blast
    next
      case False
      then have "addr_of t \<noteq> addr_of r" using forest_inj [OF ds(1)] i rin by (auto dest: inj_onD)
      then have top: "nodes h1 (addr_of t) = nodes h (addr_of t)" using o [OF ne [OF i]] u by (simp add: D)
      have "tree_at h p False t" using t(1) i False by (auto simp: ts')
      then show ?thesis
      proof (rule tree_at_frame [OF _ _ pg])
        show "nodes h1 y = nodes h y" if "y \<in> set (tree_addrs t)" for y
          using that tree_addrs_Cons [of t] top tops [OF i, of y] by (metis set_ConsD)
      qed
    qed
  qed
  have R: "tree_at h1 q False t" if t': "t \<in> set (drop (Suc m) ts')" for t
  proof -
    have i: "t \<in> set ts'" using t' by (rule in_set_dropD)
    have "addr_of t \<noteq> addr_of r" if "m = 8" using forest_take_drop [OF ds(1) rpos [OF that]] t' by (metis imageI)
    then have "nodes h1 (addr_of t) = map_option (node_map_base (set_parent q)) (nodes h (addr_of t))"
      using o [OF ne [OF i]] t' by (simp add: D adopt_in)
    moreover obtain y where "tree_at h y False t" using all [OF i] by blast
    ultimately show ?thesis using tree_at_parent [of h y False t h1 q] tops [OF i] pg by blast
  qed
  have "split_state h1 par c (Branch p (take m ks') (take (Suc m) ts')) (Branch q (drop (Suc m) ks') (drop (Suc m) ts'))"
  proof -
    have "ctx_at h1 par c p"
    proof (rule ctx_at_frame [OF c _ pg])
      show "nodes h1 y = nodes h y" if "y \<in> set (ctx_addrs c)" for y using out [of y] ds(5) [OF that] roots by blast
    qed
    then show ?thesis using h1(2-6) n(5) L R
      by (simp add: split_state_def tree_shape_def half_node_def take_map drop_map get_base_def node_flags_def)
  qed
  moreover have "only_rebases (insert p (insert q (addr_of ` set ts'))) {p, q} h h1"
    using out o adopt_twice_rebased [of "nodes h"] by (simp add: only_rebases_def)
  ultimately show ?thesis using h1(1) st by blast
qed

end
