(* ===== verification/Split_End.thy ===== *)
theory Split_End
  imports Interior_Split
begin

text \<open>
  The end of a split: the two halves go to the parent. Without a parent they get a new root,
  which the tree instance or the slot of a border node above is told of; a branch with room
  takes the new half; a full branch is split in turn. The layer then is \<open>grow\<close> of the
  layer before.
\<close>

section \<open>The parent\<close>

lemma lock_parent_null: "nodes h a = Some n \<Longrightarrow> parent (node_base n) = nullptr \<Longrightarrow> lock_parent a h = Some (nullptr, h)"
  by (simp add: lock_parent_def get_parent_at_def heap_run lock_parent_loop.simps)

definition locked_base :: "base_node \<Rightarrow> base_node" where
  "locked_base b = b\<lparr>version := (version b)\<lparr>locked := True\<rparr>\<rparr>"

lemma locked_base_simps [simp]:
  "parent (locked_base b) = parent b" "base_keys (locked_base b) = base_keys b" "base_wf (locked_base b) = base_wf b"
  "root (version (locked_base b)) = root (version b)" "border (version (locked_base b)) = border (version b)"
  "deleted (version (locked_base b)) = deleted (version b)"
  by (simp_all add: locked_base_def)

lemma lock_parent_eq:
  assumes "nodes h a = Some n" and "parent (node_base n) = p" and "p \<noteq> nullptr" and "p \<noteq> a"
    and "nodes h p = Some m" and "\<not> locked (version (node_base m))"
  shows "lock_parent a h = Some (p, set_node p (node_map_base locked_base m) h)"
  using assms by (simp add: lock_parent_def get_parent_at_def heap_run lock_parent_loop.simps locked_base_def [abs_def])

section \<open>What a split leaves alone\<close>

text \<open>Nodes outside \<open>S\<close> are the same; border nodes outside \<open>X\<close> get at most a new parent or version.\<close>

definition border_frame :: "addr set \<Rightarrow> addr set \<Rightarrow> heap \<Rightarrow> heap \<Rightarrow> bool" where
  "border_frame S X h h' \<longleftrightarrow> (\<forall>x. x \<notin> S \<longrightarrow> nodes h' x = nodes h x) \<and>
     (\<forall>x b. x \<notin> X \<longrightarrow> nodes h x = Some (Border b) \<longrightarrow> (\<exists>n. nodes h' x = Some n \<and> rebased (Border b) n))"

lemma border_frame_refl [simp]: "border_frame S X h h"
  by (auto simp: border_frame_def)

lemma border_frame_mono: "border_frame S X h h' \<Longrightarrow> S \<subseteq> S' \<Longrightarrow> X \<subseteq> X' \<Longrightarrow> border_frame S' X' h h'"
  unfolding border_frame_def by blast

lemma border_frame_trans:
  assumes "border_frame S X h h'" and "border_frame S X h' h''"
  shows "border_frame S X h h''"
proof -
  have "\<exists>n. nodes h'' x = Some n \<and> rebased (Border b) n" if x: "x \<notin> X" "nodes h x = Some (Border b)" for x b
  proof -
    obtain n' where n': "nodes h' x = Some n'" "rebased (Border b) n'" using assms(1) x unfolding border_frame_def by blast
    then obtain b' where "n' = Border b'" by (auto simp: rebased_Border)
    then obtain n'' where "nodes h'' x = Some n''" "rebased n' n''" using assms(2) x n'(1) unfolding border_frame_def by blast
    then show ?thesis using rebased_trans [OF n'(2)] by blast
  qed
  then show ?thesis using assms by (simp add: border_frame_def)
qed

lemma border_frame_set:
  assumes "border_frame S X h h'" and "p \<in> S"
    and "p \<in> X \<or> (\<exists>m. nodes h p = Some m \<and> (rebased m n \<or> (\<exists>i. m = Interior i)))"
  shows "border_frame S X h (set_node p n h')"
  using assms by (auto simp: border_frame_def)

lemma only_rebases_frame:
  assumes "only_rebases S {p, q} h h'" and "nodes h p = Some (Interior n)" and "q \<in> X" and "S \<subseteq> S'"
  shows "border_frame S' X h h'"
proof -
  have "\<exists>n. nodes h' x = Some n \<and> rebased (Border b) n" if "x \<notin> X" "nodes h x = Some (Border b)" for x b
  proof -
    have "x \<noteq> p" "x \<noteq> q" using that assms(2,3) by auto
    then show ?thesis using assms(1) that(2) by (simp add: only_rebases_def)
  qed
  moreover have "nodes h' x = nodes h x" if "x \<notin> S'" for x using assms(1,4) that unfolding only_rebases_def by blast
  ultimately show ?thesis by (simp add: border_frame_def)
qed

lemma owned_cong: "same_static h h' \<Longrightarrow> nodes h' par = nodes h par \<Longrightarrow> owned h' ti par a = owned h ti par a"
  by (simp add: owned_def same_static_root)

lemma reowned_cong:
  assumes "same_static h h1" and "nodes h1 par = nodes h par" and "reowned h1 ti par a a' h'"
  shows "reowned h ti par a a' h'"
proof (cases "par = nullptr")
  case True
  then obtain g where g: "store_root_ptr ti a' h1 = Some g" "same_static g h'" using assms(3) by (auto simp: reowned_def)
  have "\<exists>g0. store_root_ptr ti a' h = Some g0 \<and> same_static g0 g"
    using g(1) assms(1) by (auto simp: store_root_ptr_def same_static_def split: option.splits if_splits)
  then show ?thesis using True g(2) same_static_trans by (auto simp: reowned_def)
next
  case False
  then show ?thesis using assms same_static_trans by (auto simp: reowned_def)
qed

section \<open>A grown layer\<close>

definition split_ready :: "heap \<Rightarrow> addr \<Rightarrow> addr \<Rightarrow> frame list \<Rightarrow> tree \<Rightarrow> key \<Rightarrow> tree \<Rightarrow> bool" where
  "split_ready h ti par c l k r \<longleftrightarrow> split_ok c l k r \<and>
     distinct (par # ctx_addrs c @ tree_addrs l @ tree_addrs r @ fresh h) \<and> (\<forall>q \<in> set (fresh h). valid_ptr q) \<and>
     grown c \<le> length (fresh h) \<and> owned h ti par (addr_of (plug c l))"

definition footprint :: "heap \<Rightarrow> addr \<Rightarrow> frame list \<Rightarrow> tree \<Rightarrow> tree \<Rightarrow> addr set" where
  "footprint h par c l r = insert par (set (ctx_addrs c @ tree_addrs l @ tree_addrs r @ fresh h))"

definition grown_to :: "heap \<Rightarrow> addr \<Rightarrow> addr \<Rightarrow> frame list \<Rightarrow> tree \<Rightarrow> key \<Rightarrow> tree \<Rightarrow> heap \<Rightarrow> bool" where
  "grown_to h ti par c l k r h' \<longleftrightarrow> (let t = grow c l k r (fresh h) in
     tree_at h' par True t \<and> reowned h ti par (addr_of (plug c l)) (addr_of t) h' \<and>
     fresh h' = drop (grown c) (fresh h) \<and>
     border_frame (footprint h par c l r) (insert par (set (fresh h))) h h')"

subsection \<open>A new root\<close>

lemma split_ready_Nil:
  assumes "split_ready h ti par [] l k r"
  obtains ni fs where "fresh h = ni # fs" "distinct [addr_of l, addr_of r, ni, par]" "canonical k"
    "addr_of l \<noteq> nullptr" "addr_of r \<noteq> nullptr" "layer_entries l \<noteq> []" "layer_entries r \<noteq> []"
    "\<And>a. a \<in> set (tl (tree_addrs l)) \<union> set (tl (tree_addrs r)) \<Longrightarrow> a \<noteq> addr_of l \<and> a \<noteq> addr_of r \<and> a \<noteq> ni \<and> a \<noteq> par"
proof -
  obtain ni fs where f: "fresh h = ni # fs" using assms by (cases "fresh h") (auto simp: split_ready_def)
  have d: "distinct (par # (addr_of l # tl (tree_addrs l)) @ (addr_of r # tl (tree_addrs r)) @ ni # fs)"
    using assms f tree_addrs_Cons [of l] tree_addrs_Cons [of r] by (simp add: split_ready_def)
  have "valid_ptr (addr_of l)" "valid_ptr (addr_of r)" using assms tree_wf_valid_ptr by (auto simp: split_ready_def split_ok_def)
  then show thesis using f d assms by (intro that) (auto simp: split_ready_def split_ok_def valid_ptr_def)
qed

lemma closed_tree:
  assumes "split_ready h ti par [] l k r" and "split_state h par [] l r" and "fresh h = ni # fs"
    and "nodes h (addr_of l) = Some L" and "nodes h (addr_of r) = Some R"
    and "\<And>x. x \<noteq> par \<Longrightarrow> nodes h' x = nodes (closed h (addr_of l) L (addr_of r) R k ni fs par) x"
    and "pages_le (pages h) (pages h')"
  shows "tree_at h' par True (Branch ni [k] [l, r])"
proof -
  obtain ni' fs' where "fresh h = ni' # fs'" and d: "distinct [addr_of l, addr_of r, ni', par]" and k: "canonical k"
    "addr_of l \<noteq> nullptr" "addr_of r \<noteq> nullptr" "layer_entries l \<noteq> []" "layer_entries r \<noteq> []"
    and t: "\<And>a. a \<in> set (tl (tree_addrs l)) \<union> set (tl (tree_addrs r)) \<Longrightarrow> a \<noteq> addr_of l \<and> a \<noteq> addr_of r \<and> a \<noteq> ni' \<and> a \<noteq> par"
    using split_ready_Nil [OF assms(1)] by blast
  then have ni: "ni' = ni" using assms(3) by simp
  have f: "border (version (node_base L)) = is_leaf l" "\<not> deleted (version (node_base L))"
    "border (version (node_base R)) = is_leaf r" "\<not> deleted (version (node_base R))" "tree_shape h l" "tree_shape h r"
    using assms(2,4,5) by (auto simp: split_state_def node_flags_def get_base_def)
  have n: "nodes h' ni = Some (unlocked_pair par (addr_of l) (addr_of r) k)"
    "nodes h' (addr_of l) = Some (unlock_half ni L)" "nodes h' (addr_of r) = Some (unlock_half ni R)"
    using d assms(6) by (auto simp: ni closed_def)
  have o: "nodes h' a = nodes h a" if "a \<in> set (tl (tree_addrs l)) \<union> set (tl (tree_addrs r))" for a
    using t [OF that] assms(6) by (simp add: ni closed_def)
  have "tree_at h' ni False l" "tree_at h' ni False r"
    using unlocked_half_tree [OF f(5) assms(4) f(1,2) k(4) n(2) _ assms(7)]
      unlocked_half_tree [OF f(6) assms(5) f(3,4) k(5) n(3) _ assms(7)] o by blast+
  then show ?thesis using new_root_tree [OF n(1) k(1) _ _ k(2,3)] by blast
qed

lemma rebased_unlock_half [simp]: "rebased n (unlock_half ni n)"
  unfolding unlock_half_def by (rule rebased_map) simp_all

lemma closed_frame:
  assumes "nodes g = nodes h" and "nodes h (addr_of l) = Some L" and "nodes h (addr_of r) = Some R" and "fresh h = ni # fs"
  shows "border_frame (footprint h par c l r) (insert par (set (fresh h))) h (closed g (addr_of l) L (addr_of r) R k ni fs par')"
proof -
  have "border_frame S X h (g\<lparr>fresh := fs\<rparr>)" for S X using assms(1) by (auto simp: border_frame_def)
  then show ?thesis unfolding closed_def using assms(2-4)
    by (intro border_frame_set) (auto simp: footprint_def)
qed

lemma grown_null:
  assumes "split_ready h ti nullptr [] l k r" and "split_state h nullptr [] l r" and "fresh h = ni # fs"
    and "nodes h (addr_of l) = Some L" and "nodes h (addr_of r) = Some R" and "store_root_ptr ti ni h = Some g"
  shows "grown_to h ti nullptr [] l k r (closed g (addr_of l) L (addr_of r) R k ni fs nullptr)" (is "grown_to _ _ _ _ _ _ _ ?h")
proof -
  note g = store_root_spec [OF assms(6)]
  have "tree_at ?h nullptr True (Branch ni [k] [l, r])"
    using g(1,4) by (intro closed_tree [OF assms(1-5)]) (simp_all add: closed_def)
  moreover have "reowned h ti nullptr (addr_of l) ni ?h" using assms(6) by (simp add: reowned_def closed_def)
  ultimately show ?thesis using closed_frame [OF g(1) assms(4,5,3)] assms(3) by (simp add: grown_to_def closed_def)
qed

definition owner_busy :: "border_node \<Rightarrow> border_node" where
  "owner_busy = set_border_base (set_version_inserting_deleting True \<circ> locked_base)"

lemma owner_busy_simps [simp]: "get_lv (owner_busy b) a = get_lv b a" "lv_arr (owner_busy b) = lv_arr b"
  by (simp_all add: owner_busy_def set_border_base_def get_lv_def)

lemma slot_changed_replaced: "get_lv b a = Some i \<Longrightarrow> slot_changed b a a' (slot_replaced (owner_busy b) i a')"
  unfolding slot_changed_def
  by (intro exI [of _ i] exI [of _ "version (border_base (slot_replaced (owner_busy b) i a'))"])
    (simp add: slot_replaced_def owner_busy_def set_border_base_def set_version_inserting_deleting_def locked_base_def
      version_unlock_def version_simps)

lemma grown_border:
  assumes "split_ready h ti par [] l k r" and "split_state h par [] l r" and "fresh h = ni # fs"
    and "nodes h (addr_of l) = Some L" and "nodes h (addr_of r) = Some R" and "par \<noteq> nullptr"
    and "nodes h par = Some (Border b)" and "get_lv b (addr_of l) = Some i"
  shows "grown_to h ti par [] l k r (set_node par (Border (slot_replaced (owner_busy b) i ni))
    (closed (set_node par (Border (owner_busy b)) h) (addr_of l) L (addr_of r) R k ni fs par))" (is "grown_to _ _ _ _ _ _ _ ?h")
proof -
  have ne: "par \<noteq> addr_of l" "par \<noteq> addr_of r" "par \<noteq> ni" using split_ready_Nil [OF assms(1)] assms(3) by auto
  have "nodes ?h x = nodes (closed h (addr_of l) L (addr_of r) R k ni fs par) x" if "x \<noteq> par" for x
    using that by (simp add: closed_def)
  then have "tree_at ?h par True (Branch ni [k] [l, r])"
    by (intro closed_tree [OF assms(1-5)]) (simp_all add: closed_def)
  moreover have "reowned h ti par (addr_of l) ni ?h"
    using assms(6,7) slot_changed_replaced [OF assms(8)] by (simp add: reowned_def closed_def)
  moreover have "border_frame (footprint h par [] l r) (insert par (set (fresh h))) h ?h"
  proof (rule border_frame_set)
    have "border_frame (footprint h par [] l r) (insert par (set (fresh h))) h
      (set_node par (Border (owner_busy b)) (closed h (addr_of l) L (addr_of r) R k ni fs par))"
      by (intro border_frame_set closed_frame [OF refl assms(4,5,3)]) (simp_all add: footprint_def)
    moreover have "set_node par (Border (owner_busy b)) (closed h (addr_of l) L (addr_of r) R k ni fs par) =
        closed (set_node par (Border (owner_busy b)) h) (addr_of l) L (addr_of r) R k ni fs par"
      unfolding closed_def using ne by (simp add: set_node_commute)
    ultimately show "border_frame (footprint h par [] l r) (insert par (set (fresh h))) h
      (closed (set_node par (Border (owner_busy b)) h) (addr_of l) L (addr_of r) R k ni fs par)" by simp
  qed (simp_all add: footprint_def)
  ultimately show ?thesis using assms(3) by (simp add: grown_to_def closed_def)
qed

subsection \<open>A branch with room\<close>

lemma split_ready_Cons:
  assumes "split_ready h ti par ((p, ks, ls, rs) # c) l k r"
  shows "p \<noteq> nullptr" and "p \<noteq> addr_of l" and "p \<noteq> addr_of r" and "addr_of l \<noteq> addr_of r" and "par \<noteq> p"
    and "par \<noteq> addr_of l" and "par \<noteq> addr_of r"
    and "\<And>t. t \<in> set ls \<union> set rs \<Longrightarrow> set (tree_addrs t) \<inter> {p, addr_of l, addr_of r} = {}"
    and "\<And>a. a \<in> set (tl (tree_addrs l)) \<union> set (tl (tree_addrs r)) \<union> set (ctx_addrs c) \<Longrightarrow> a \<noteq> p \<and> a \<noteq> addr_of l \<and> a \<noteq> addr_of r"
    and "layer_entries l \<noteq> []" and "layer_entries r \<noteq> []"
proof -
  have d: "distinct (par # p # concat (map tree_addrs ls) @ concat (map tree_addrs rs) @ ctx_addrs c @
      (addr_of l # tl (tree_addrs l)) @ (addr_of r # tl (tree_addrs r)) @ fresh h)"
    using assms tree_addrs_Cons [of l] tree_addrs_Cons [of r] by (simp add: split_ready_def)
  then show "p \<noteq> addr_of l" "p \<noteq> addr_of r" "addr_of l \<noteq> addr_of r" "par \<noteq> p" "par \<noteq> addr_of l" "par \<noteq> addr_of r"
    and "\<And>a. a \<in> set (tl (tree_addrs l)) \<union> set (tl (tree_addrs r)) \<union> set (ctx_addrs c) \<Longrightarrow> a \<noteq> p \<and> a \<noteq> addr_of l \<and> a \<noteq> addr_of r"
    by auto
  show "set (tree_addrs t) \<inter> {p, addr_of l, addr_of r} = {}" if "t \<in> set ls \<union> set rs" for t
    using d that set_concat_map [of t ls tree_addrs] set_concat_map [of t rs tree_addrs] by auto
  show "p \<noteq> nullptr" "layer_entries l \<noteq> []" "layer_entries r \<noteq> []"
    using assms by (auto simp: split_ready_def split_ok_def valid_ptr_def)
qed

lemma attach_room:
  assumes "attach_state h par ((p, ks, ls, rs) # c) l r" and "split_ok ((p, ks, ls, rs) # c) l k r"
    and "length ks < key_slice_length" and "tree_at h p False r"
    and "distinct (ctx_addrs ((p, ks, ls, rs) # c) @ tree_addrs l @ tree_addrs r)"
  shows "\<exists>n n'. nodes h p = Some (Interior n) \<and> insert_child (addr_of r) k n = Some n' \<and>
    tree_at (set_node p (Interior (set_interior_base version_unlock n')) h) par True
      (plug c (Branch p (ins_at (length ls) k ks) (ls @ l # r # rs)))" (is "\<exists>n n'. _ \<and> _ \<and> tree_at (?h n') _ _ _")
proof -
  obtain n where n: "nodes h p = Some (Interior n)" "interior_wf n" "interior_keys n = ks"
      "interior_children n = map addr_of (ls @ l # rs)" "node_flags (ctx_parent par c) (c = []) False (interior_base n)"
    and t: "\<forall>t \<in> set (ls @ l # rs). tree_at h p False t" and c: "ctx_at h par c p"
    using assms(1) by auto
  have k: "canonical k" "rank_le k ks = length ls" "k \<notin> set ks" "addr_of r \<noteq> nullptr"
    using assms(2) frame_insert(3,4) [OF assms(2)] tree_wf_valid_ptr [of r] by (simp_all add: split_ok_def valid_ptr_def)
  have nk: "unat (n_keys n) < 15" using length_interior(1) [OF n(2)] n(3) assms(3) by simp
  let ?n = "set_interior_base (set_version_inserting_deleting True) n"
  obtain n' where n': "insert_child (addr_of r) k n = Some n'" "child_inserted ?n (addr_of r) k n'"
    using insert_child_spec [OF n(2) nk k(1)] by blast
  have "half_node n ks (map addr_of (ls @ l # rs)) n" using n by (simp add: half_node_def)
  note hn = half_node_insert [OF this n'(2) k(1,3) _ k(4), unfolded k(2)]
  have cs: "ins_at (length ls + 1) (addr_of r) (map addr_of (ls @ l # rs)) = map addr_of (ls @ l # r # rs)"
    by (simp add: ins_at_def)
  have d: "p \<notin> set (tree_addrs t)" if "t \<in> set (ls @ l # r # rs)" for t
    using assms(5) that by auto
  have o: "nodes (?h n') x = nodes h x" if "x \<noteq> p" for x using that by simp
  have "tree_at (?h n') p False t" if "t \<in> set (ls @ l # r # rs)" for t
  proof (rule tree_at_frame)
    show "tree_at h p False t" using that t assms(4) by auto
    show "nodes (?h n') x = nodes h x" if "x \<in> set (tree_addrs t)" for x
      using o [of x] d [OF \<open>t \<in> set (ls @ l # r # rs)\<close>] that by blast
  qed simp
  moreover have "branch_node (ctx_parent par c) (c = []) (ins_at (length ls) k ks) (map addr_of (ls @ l # r # rs))
      (set_interior_base version_unlock n')"
    using hn n(5) assms(3) unfolding cs
    by (simp add: branch_node_def half_node_def node_flags_def set_interior_base_def version_unlock_def version_simps Let_def)
  ultimately have "tree_at (?h n') (ctx_parent par c) (c = []) (Branch p (ins_at (length ls) k ks) (ls @ l # r # rs))"
    by (simp add: tree_at_Branch)
  moreover have "ctx_at (?h n') par c p"
  proof (rule ctx_at_frame [OF c])
    show "nodes (?h n') x = nodes h x" if "x \<in> set (ctx_addrs c)" for x
      using o [of x] assms(5) that by auto
  qed simp
  ultimately show ?thesis using n(1) n'(1) by (intro exI conjI) (simp_all add: tree_at_plug)
qed

lemma grown_room:
  assumes "attach_state h par ((p, ks, ls, rs) # c) l r" and "split_ready h ti par ((p, ks, ls, rs) # c) l k r"
    and "length ks < key_slice_length" and "tree_at h p False r"
  shows "\<exists>h'. do { h \<leftarrow> upd_interior p (insert_child (addr_of r) k) h; unlock_at p h } = Some h' \<and>
    grown_to h ti par ((p, ks, ls, rs) # c) l k r h'"
proof -
  let ?c = "(p, ks, ls, rs) # c"
  have r: "split_ok ?c l k r" "owned h ti par (addr_of (plug ?c l))" "distinct (ctx_addrs ?c @ tree_addrs l @ tree_addrs r)"
    using assms(2) by (simp_all add: split_ready_def del: ctx_addrs.simps) blast
  have "par \<noteq> p" using split_ready_Cons(5) [OF assms(2)] .
  obtain n n' where n: "nodes h p = Some (Interior n)" "insert_child (addr_of r) k n = Some n'"
    and t: "tree_at (set_node p (Interior (set_interior_base version_unlock n')) h) par True
      (plug c (Branch p (ins_at (length ls) k ks) (ls @ l # r # rs)))"
    using attach_room [OF assms(1) r(1) assms(3,4) r(3)] by blast
  let ?h = "set_node p (Interior (set_interior_base version_unlock n')) h"
  have g: "grow ?c l k r (fresh h) = plug c (Branch p (ins_at (length ls) k ks) (ls @ l # r # rs))"
    using assms(3) by (simp add: grow.simps(2))
  have a: "addr_of (grow ?c l k r (fresh h)) = addr_of (plug ?c l)"
    unfolding g plug.simps by (rule addr_of_plug) simp
  have "tree_wf (plug ?c l)" using r(1) unfolding tree_wf_plug by (simp add: split_ok_def del: ctx_wf.simps fits_simps)
  then have "addr_of (plug ?c l) \<noteq> nullptr" using tree_wf_valid_ptr [of "plug ?c l"] by (simp add: valid_ptr_def)
  then have "reowned h ti par (addr_of (plug ?c l)) (addr_of (plug ?c l)) ?h"
    using \<open>par \<noteq> p\<close> by (intro reowned_same [OF r(2)]) simp_all
  moreover have "border_frame (footprint h par ?c l r) (insert par (set (fresh h))) h ?h"
    using n(1) by (intro border_frame_set) (simp_all add: footprint_def)
  ultimately have "grown_to h ti par ?c l k r ?h" using t a g assms(3) by (simp add: grown_to_def)
  then show ?thesis using n by (simp add: heap_run)
qed

subsection \<open>A full branch\<close>

lemma grown_to_step:
  assumes "border_frame (footprint h par c l r) (insert par (set (fresh h))) h h1" and "same_static h h1"
    and "nodes h1 par = nodes h par" and "grown_to h1 ti par c1 l1 k1 r1 h'"
    and "footprint h1 par c1 l1 r1 \<subseteq> footprint h par c l r" and "set (fresh h1) \<subseteq> set (fresh h)"
    and "grow c1 l1 k1 r1 (fresh h1) = grow c l k r (fresh h)" and "addr_of (plug c1 l1) = addr_of (plug c l)"
    and "drop (grown c1) (fresh h1) = drop (grown c) (fresh h)"
  shows "grown_to h ti par c l k r h'"
proof -
  have g: "tree_at h' par True (grow c l k r (fresh h))"
    "reowned h1 ti par (addr_of (plug c l)) (addr_of (grow c l k r (fresh h))) h'"
    "fresh h' = drop (grown c) (fresh h)"
    "border_frame (footprint h1 par c1 l1 r1) (insert par (set (fresh h1))) h1 h'"
    using assms(4,7-9) by (simp_all add: grown_to_def Let_def)
  have "insert par (set (fresh h1)) \<subseteq> insert par (set (fresh h))" using assms(6) by blast
  then have "border_frame (footprint h par c l r) (insert par (set (fresh h))) h h'"
    using border_frame_trans [OF assms(1) border_frame_mono [OF g(4) assms(5)]] by blast
  then show ?thesis using g(1,3) reowned_cong [OF assms(2,3) g(2)] by (simp add: grown_to_def)
qed

text \<open>The halves of a split below a branch are unlocked; the branch is locked and has not got the new one yet.\<close>

lemma attach_state_intro:
  assumes "split_ready h ti par ((p, ks, ls, rs) # c) l k r" and "split_state h par ((p, ks, ls, rs) # c) l r"
    and "nodes h (addr_of l) = Some L" and "nodes h (addr_of r) = Some R" and "nodes h p = Some P"
    and "nodes h' p = Some (node_map_base locked_base P)"
    and "nodes h' (addr_of l) = Some (node_map_base (version_unlock \<circ> f) L)"
    and "nodes h' (addr_of r) = Some (node_map_base (version_unlock \<circ> g) R)"
    and f: "f = set_version_root False \<or> f = id" and g: "g = set_version_root False \<or> g = set_parent p \<or> g = set_parent p \<circ> set_version_root False"
    and "\<And>x. x \<noteq> p \<Longrightarrow> x \<noteq> addr_of l \<Longrightarrow> x \<noteq> addr_of r \<Longrightarrow> nodes h' x = nodes h x" and "same_static h h'"
  shows "attach_state h' par ((p, ks, ls, rs) # c) l r"
    and "tree_at h' (parent (g (node_base R))) False r"
proof -
  note d = split_ready_Cons [OF assms(1)]
  have pg: "pages_le (pages h) (pages h')" using assms(12) by (simp add: same_static_def)
  have L: "node_flags p False (is_leaf l) (node_base L)" "tree_shape h l"
    and R: "\<exists>x. node_flags x False (is_leaf r) (node_base R)" "tree_shape h r" and c: "ctx_at h par ((p, ks, ls, rs) # c) (addr_of l)"
    using assms(2-4) by (auto simp: split_state_def get_base_def)
  have o: "nodes h' a = nodes h a" if "a \<in> set (tl (tree_addrs l)) \<union> set (tl (tree_addrs r)) \<union> set (ctx_addrs c)" for a
    using d(9) [OF that] assms(11) by blast
  have keep: "base_keys (version_unlock (f b)) = base_keys b" "base_wf (version_unlock (f b)) = base_wf b"
    "base_keys (version_unlock (g b)) = base_keys b" "base_wf (version_unlock (g b)) = base_wf b" for b
    using f g by auto
  have "tree_shape h' l"
  proof (rule tree_shape_rebased [OF L(2) assms(3,7) _ _ pg])
    show "rebased L (node_map_base (version_unlock \<circ> f) L)" using keep by (intro rebased_map) simp_all
    show "nodes h' a = nodes h a" if "a \<in> set (tl (tree_addrs l))" for a using o that by blast
  qed
  moreover have "node_flags p False (is_leaf l) (version_unlock (f (node_base L)))"
    "is_stable (version (version_unlock (f (node_base L))))"
    using L(1) f by (auto simp: node_flags_def version_unlock_def version_simps set_version_root_def)
  ultimately have l: "tree_at h' p False l" unfolding tree_at_shape [OF d(10)] using assms(7) by (simp add: get_base_def)
  have "tree_shape h' r"
  proof (rule tree_shape_rebased [OF R(2) assms(4,8) _ _ pg])
    show "rebased R (node_map_base (version_unlock \<circ> g) R)" using keep by (intro rebased_map) simp_all
    show "nodes h' a = nodes h a" if "a \<in> set (tl (tree_addrs r))" for a using o that by blast
  qed
  moreover have "node_flags (parent (g (node_base R))) False (is_leaf r) (version_unlock (g (node_base R)))"
    "is_stable (version (version_unlock (g (node_base R))))"
    using R(1) g by (auto simp: node_flags_def version_unlock_def version_simps set_version_root_def set_parent_def)
  ultimately show r: "tree_at h' (parent (g (node_base R))) False r"
    unfolding tree_at_shape [OF d(11)] using assms(8) by (simp add: get_base_def)
  obtain n where n: "P = Interior n" "branch_node (ctx_parent par c) (c = []) ks (map addr_of ls @ addr_of l # map addr_of rs) n"
    and t: "\<forall>t \<in> set ls \<union> set rs. tree_at h p False t" and cc: "ctx_at h par c p"
    using c assms(5) by (auto split: node.splits)
  have "tree_at h' p False t" if u: "t \<in> set ls \<union> set rs" for t
  proof (rule tree_at_frame [OF _ _ pg])
    show "tree_at h p False t" using t u by blast
    show "nodes h' a = nodes h a" if "a \<in> set (tree_addrs t)" for a using d(8) [OF u] assms(11) that by blast
  qed
  moreover have "ctx_at h' par c p" using o by (intro ctx_at_frame [OF cc _ pg]) blast
  ultimately show "attach_state h' par ((p, ks, ls, rs) # c) l r"
    using l r n assms(6) by (auto simp: branch_node_def node_flags_def set_interior_base_def Let_def)
qed

text \<open>The branch that a split comes to next is full.\<close>

fun ctx_full :: "frame list \<Rightarrow> bool" where
  "ctx_full [] \<longleftrightarrow> False"
| "ctx_full ((p, ks, ls, rs) # c) \<longleftrightarrow> \<not> length ks < key_slice_length"

lemma attached_ready:
  assumes "split_ready h ti par c l k r" and "same_static h h'" and "nodes h' par = nodes h par" and "fresh h' = fresh h"
  shows "split_ready h' ti par c l k r"
  using assms owned_cong [OF assms(2,3)] by (simp add: split_ready_def)

lemma attached_grown:
  assumes "border_frame (footprint h par c l r) (insert par (set (fresh h))) h h1" and "same_static h h1"
    and "nodes h1 par = nodes h par" and "fresh h1 = fresh h" and "grown_to h1 ti par c l k r h'"
  shows "grown_to h ti par c l k r h'"
  using assms by (intro grown_to_step [OF assms(1-3,5)]) (simp_all add: footprint_def)

lemma split_state_nodes:
  assumes "split_state h par c l r"
  obtains L R where "nodes h (addr_of l) = Some L" "nodes h (addr_of r) = Some R"
  using assms tree_shape_node [of h l] tree_shape_node [of h r] by (auto simp: split_state_def)

lemma split_end_top:
  assumes s: "split_ready h ti par [] l k r" "split_state h par [] l r"
  shows "\<exists>h'. split_end ti (addr_of l) (addr_of r) k h = Some h' \<and> grown_to h ti par [] l k r h'"
proof -
  obtain ni fs where f: "fresh h = ni # fs" "distinct [addr_of l, addr_of r, ni, par]"
    using split_ready_Nil [OF s(1)] by metis
  obtain L R where n: "nodes h (addr_of l) = Some L" "nodes h (addr_of r) = Some R"
    using split_state_nodes [OF s(2)] .
  have p: "parent (node_base L) = par" using s(2) n by (auto simp: split_state_def get_base_def node_flags_def)
  have o: "owned h ti par (addr_of l)" using s(1) by (simp add: split_ready_def)
  show ?thesis
  proof (cases "par = nullptr")
    case True
    then obtain g where g: "store_root_ptr ti ni h = Some g" using o store_root_some [of ti h "addr_of l"] by (auto simp: owned_def)
    have "split_end ti (addr_of l) (addr_of r) k h = Some (closed g (addr_of l) L (addr_of r) R k ni fs nullptr)"
      using close_null [OF _ g] create_interior_parent_of_interior_eq [OF n f(1)] f(2) lock_parent_null [OF n(1)] p True
      by (simp add: split_end_def)
    then show ?thesis using grown_null [of h ti l k r ni fs L R g] s f(1) n g True by simp
  next
    case False
    then obtain b i where b: "nodes h par = Some (Border b)" "border (version (border_base b))"
      "is_stable (version (border_base b))" "get_lv b (addr_of l) = Some i" using o by (auto simp: owned_def)
    let ?h = "set_node par (Border (owner_busy b)) h"
    have ne: "addr_of l \<noteq> par" "addr_of r \<noteq> par" using f(2) by auto
    have "lock_parent (addr_of l) h = Some (par, set_node par (node_map_base locked_base (Border b)) h)"
      using lock_parent_eq [OF n(1) p False _ b(1)] b(3) ne by (auto simp: is_stable_def)
    moreover have "create_interior_parent_of_interior (addr_of l) (addr_of r) k ?h =
        Some (ni, paired ?h (addr_of l) L (addr_of r) R k ni fs)"
      using f n ne by (intro create_interior_parent_of_interior_eq) simp_all
    moreover have "do { h \<leftarrow> unlock_at (addr_of l) (paired ?h (addr_of l) L (addr_of r) R k ni fs); h \<leftarrow> unlock_at (addr_of r) h;
        h \<leftarrow> replace_layer par (addr_of l) ni h; h \<leftarrow> upd_base ni (set_parent par) h; h \<leftarrow> unlock_at ni h; unlock_at par h } =
      Some (set_node par (Border (slot_replaced (owner_busy b) i ni)) (closed ?h (addr_of l) L (addr_of r) R k ni fs par))"
      using f(2) b(4) by (intro close_border(1)) simp_all
    ultimately have "split_end ti (addr_of l) (addr_of r) k h =
        Some (set_node par (Border (slot_replaced (owner_busy b) i ni)) (closed ?h (addr_of l) L (addr_of r) R k ni fs par))"
      using False b(2) by (simp add: split_end_def heap_run owner_busy_def set_border_base_def)
    then show ?thesis using grown_border [OF s f(1) n False b(1,4)] by blast
  qed
qed

lemma split_end_grows:
  assumes s: "split_ready h ti par c l k r" "split_state h par c l r"
    and rec: "\<And>h'. attach_state h' par c l r \<Longrightarrow> split_ready h' ti par c l k r \<Longrightarrow> ctx_full c \<Longrightarrow> fresh h' = fresh h \<Longrightarrow>
      \<exists>h''. interior_split ti (ctx_parent par c) (addr_of r) k h' = Some h'' \<and> grown_to h' ti par c l k r h''"
  shows "\<exists>h'. split_end ti (addr_of l) (addr_of r) k h = Some h' \<and> grown_to h ti par c l k r h'"
proof (cases c)
  case Nil
  then show ?thesis using split_end_top s by blast
next
  case (Cons fr c')
  obtain p ks ls rs where c: "c = (p, ks, ls, rs) # c'" using Cons by (cases fr) auto
  note d = split_ready_Cons [OF s(1) [unfolded c]]
  obtain L R where n: "nodes h (addr_of l) = Some L" "nodes h (addr_of r) = Some R"
    using split_state_nodes [OF s(2)] .
  have pl: "parent (node_base L) = p" using s(2) n by (auto simp: c split_state_def get_base_def node_flags_def)
  obtain i where i: "nodes h p = Some (Interior i)" "is_stable (version (interior_base i))"
    "\<not> border (version (interior_base i))" "interior_wf i" "interior_keys i = ks"
    using s(2) by (auto simp: c split_state_def branch_node_def Let_def split: option.splits node.splits)
  let ?P = "node_map_base locked_base (Interior i)"
  let ?h = "set_node (addr_of r) (node_map_base (version_unlock \<circ> set_parent p) R)
    (set_node (addr_of l) (node_map_base version_unlock L) (set_node p ?P h))"
  have "lock_parent (addr_of l) h = Some (p, set_node p ?P h)"
    using lock_parent_eq [OF n(1) pl d(1,2) i(1)] i(2) by (simp add: is_stable_def)
  then have e: "split_end ti (addr_of l) (addr_of r) k h =
      (if length ks = key_slice_length then interior_split ti p (addr_of r) k ?h
       else do { h \<leftarrow> upd_interior p (insert_child (addr_of r) k) ?h; unlock_at p h })"
    using d(1-4) i(3) n length_interior(1) [OF i(4)] i(5)
    by (simp add: split_end_def heap_run) (simp add: set_interior_base_def)
  have same: "same_static h ?h" "nodes ?h par = nodes h par" "fresh ?h = fresh h" using d(5-7) by simp_all
  have L': "node_map_base version_unlock L = node_map_base (version_unlock \<circ> id) L" by simp
  have a: "attach_state ?h par c l r" "tree_at ?h p False r"
    using attach_state_intro [OF s(1)[unfolded c] s(2)[unfolded c] n i(1), of ?h id "set_parent p"] d(2-4) same(1)
    by (auto simp: c set_parent_def [of p "node_base R"] simp del: attach_state.simps)
  have r: "split_ready ?h ti par c l k r" using attached_ready [OF s(1) same] .
  have bf: "border_frame (footprint h par c l r) (insert par (set (fresh h))) h ?h"
    using n i(1) by (intro border_frame_set) (auto simp: footprint_def c intro: rebased_map)
  have le: "length ks \<le> key_slice_length" using s(1) by (simp add: c split_ready_def split_ok_def)
  show ?thesis
  proof (cases "length ks = key_slice_length")
    case True
    then obtain h'' where "interior_split ti p (addr_of r) k ?h = Some h''" "grown_to ?h ti par c l k r h''"
      using rec [OF a(1) r _ same(3)] by (auto simp: c)
    then show ?thesis using attached_grown [OF bf same, of ti k h''] e True by simp
  next
    case False
    then obtain h'' where "do { h \<leftarrow> upd_interior p (insert_child (addr_of r) k) ?h; unlock_at p h } = Some h''" "grown_to ?h ti par c l k r h''"
      using grown_room [OF a(1) [unfolded c] r [unfolded c] _ a(2)] le unfolding c by fastforce
    then show ?thesis using attached_grown [OF bf same, of ti k h''] e False by simp
  qed
qed

text \<open>\<^verbatim>\<open>interior_split\<close>, through all the full branches above.\<close>

lemma interior_split_grows:
  assumes "attach_state h par c l r" and "split_ready h ti par c l k r" and "ctx_full c" and "fresh h = qs"
  shows "\<exists>h'. interior_split ti (ctx_parent par c) (addr_of r) k h = Some h' \<and> grown_to h ti par c l k r h'"
  using assms
proof (induction c l k r qs arbitrary: h rule: grow_induct)
  case (Full p ks ls rs c l k r qs ks' ts' m)
  let ?c = "(p, ks, ls, rs) # c"
  let ?l = "Branch p (take m ks') (take (Suc m) ts')" and ?r = "Branch (hd qs) (drop (Suc m) ks') (drop (Suc m) ts')"
  note a = Full.prems(1) and s = Full.prems(2)
  have s': "split_ok ?c l k r" "owned h ti par (addr_of (plug ?c l))" "\<forall>q \<in> set (fresh h). valid_ptr q"
    "grown ?c \<le> length (fresh h)" and dd: "distinct (par # ctx_addrs ?c @ tree_addrs l @ tree_addrs r @ fresh h)"
    using s unfolding split_ready_def by blast+
  obtain q fs where q: "qs = q # fs" using s'(4) Full.hyps(1) Full.prems(4) by (cases qs) auto
  have f: "fresh h = q # fs" "valid_ptr q" using q Full.prems(4) s'(3) by auto
  have d: "distinct (ctx_addrs ?c @ tree_addrs l @ tree_addrs r @ fresh h)" using dd by simp
  obtain h1 where h1: "interior_split ti p (addr_of r) k h = split_end ti p q (ks' ! m) h1"
    "split_state h1 par c ?l ?r" "only_rebases (insert p (insert q (addr_of ` set ts'))) {p, q} h h1" "same_static h h1" "fresh h1 = fs"
    using interior_split_halves [OF a s'(1) Full.hyps(1) f d Full.hyps(2-4), of ti] q by auto
  have td: "mset (concat (map tree_addrs (take (Suc m) ts'))) + mset (concat (map tree_addrs (drop (Suc m) ts'))) =
      mset (concat (map tree_addrs (ls @ l # r # rs)))"
    unfolding mset_append [symmetric] take_drop_concat Full.hyps(3) ..
  have ms: "mset (par # ctx_addrs c @ tree_addrs ?l @ tree_addrs ?r @ fresh h1) =
      mset (par # ctx_addrs ?c @ tree_addrs l @ tree_addrs r @ fresh h)"
    using td h1(5) f(1) q by (simp add: ac_simps)
  have fp: "footprint h1 par c ?l ?r = footprint h par ?c l r"
    using arg_cong [OF ms, of set_mset] by (simp add: footprint_def del: ctx_addrs.simps tree_addrs.simps)
  have roots: "addr_of ` set ts' \<subseteq> set (concat (map tree_addrs ts'))" by (auto intro: addr_of_in_addrs)
  have tsf: "set (concat (map tree_addrs ts')) \<subseteq> set (ctx_addrs ?c @ tree_addrs l @ tree_addrs r)"
    unfolding Full.hyps(3) by auto
  have S: "insert p (insert q (addr_of ` set ts')) \<subseteq> set (ctx_addrs ?c @ tree_addrs l @ tree_addrs r @ fresh h)"
    using roots tsf f(1) by auto
  have "par \<notin> set (ctx_addrs ?c @ tree_addrs l @ tree_addrs r @ fresh h)" using dd unfolding distinct.simps by blast
  then have "par \<notin> insert p (insert q (addr_of ` set ts'))" using S by blast
  then have par: "nodes h1 par = nodes h par" using h1(3) unfolding only_rebases_def by blast
  obtain n where n: "nodes h p = Some (Interior n)" using a by auto
  have bf: "border_frame (footprint h par ?c l r) (insert par (set (fresh h))) h h1"
    using S f(1) unfolding footprint_def by (intro only_rebases_frame [OF h1(3) n]) (simp, blast)
  have root: "addr_of (plug c ?l) = addr_of (plug ?c l)" unfolding plug.simps by (rule addr_of_plug) simp
  have "split_ready h1 ti par c ?l (ks' ! m) ?r"
    unfolding split_ready_def
  proof (intro conjI)
    show "split_ok c ?l (ks' ! m) ?r" using split_ok_Full [OF s'(1) Full.hyps(1-4) f(2)] q by simp
    show "distinct (par # ctx_addrs c @ tree_addrs ?l @ tree_addrs ?r @ fresh h1)" using dd mset_eq_imp_distinct_iff [OF ms] by blast
    show "\<forall>q \<in> set (fresh h1). valid_ptr q" using s'(3) f(1) h1(5) by simp
    show "grown c \<le> length (fresh h1)" using s'(4) f(1) h1(5) Full.hyps(1) by simp
    show "owned h1 ti par (addr_of (plug c ?l))" using owned_cong [OF h1(4) par] s'(2) root by simp
  qed
  then have "\<exists>h'. split_end ti (addr_of ?l) (addr_of ?r) (ks' ! m) h1 = Some h' \<and> grown_to h1 ti par c ?l (ks' ! m) ?r h'"
  proof (rule split_end_grows [OF _ h1(2)])
    fix h'' assume "attach_state h'' par c ?l ?r" "split_ready h'' ti par c ?l (ks' ! m) ?r" "ctx_full c" "fresh h'' = fresh h1"
    then show "\<exists>h'. interior_split ti (ctx_parent par c) (addr_of ?r) (ks' ! m) h'' = Some h' \<and> grown_to h'' ti par c ?l (ks' ! m) ?r h'"
      using h1(5) q by (intro Full.IH) simp_all
  qed
  then obtain h' where h': "split_end ti (addr_of ?l) (addr_of ?r) (ks' ! m) h1 = Some h'" "grown_to h1 ti par c ?l (ks' ! m) ?r h'" by blast
  have "grown_to h ti par ?c l k r h'"
  proof (rule grown_to_step [OF bf h1(4) par h'(2)])
    show "grow c ?l (ks' ! m) ?r (fresh h1) = grow ?c l k r (fresh h)" using Full.hyps(5) h1(5) q Full.prems(4) by simp
    show "drop (grown c) (fresh h1) = drop (grown ?c) (fresh h)" using Full.hyps(1) h1(5) f(1) by simp
  qed (use fp root h1(5) f(1) in auto)
  then show ?case using h1(1) h'(1) q by simp
qed simp_all

end
