(* ===== verification/Border_Halves.thy ===== *)
theory Border_Halves
  imports Split_End
begin

text \<open>
  The first part of \<^verbatim>\<open>border_split\<close>: a full border node gives its upper seven entries to a new
  one, which becomes its right neighbour; the layers that those entries link to follow.
\<close>

section \<open>Moving entries\<close>

lemma adopt_again: "adopt S q (adopt T q N) = adopt (S \<union> T) q N"
proof -
  have "node_map_base (set_parent q) (node_map_base (set_parent q) n) = node_map_base (set_parent q) n" for n
    by (cases n) (simp_all add: set_border_base_def set_interior_base_def set_parent_def)
  then show ?thesis by (auto simp: adopt_def option.map_comp comp_def)
qed

text \<open>The node that has given away the slots that are not in the order \<open>pl\<close> any more.\<close>

definition emptied :: "border_node \<Rightarrow> nat list \<Rightarrow> border_node \<Rightarrow> bool" where
  "emptied b pl b' \<longleftrightarrow> base_wf (border_base b') \<and> length (lv_arr b') = key_slice_length \<and> perm_list (perm_body b') = pl \<and>
     (\<forall>i < key_slice_length. if i \<in> set pl then base_keys (border_base b') ! i = base_keys (border_base b) ! i \<and> lv_arr b' ! i = lv_arr b ! i
       else lv_arr b' ! i = init_lv) \<and>
     version (border_base b') = version (border_base b) \<and> parent (border_base b') = parent (border_base b) \<and>
     prev_node b' = prev_node b \<and> next_node b' = next_node b"

text \<open>The node with the entries \<open>es\<close> in its first slots.\<close>

definition filled :: "border_node \<Rightarrow> (key \<times> link_or_value) list \<Rightarrow> border_node \<Rightarrow> bool" where
  "filled b es b' \<longleftrightarrow> base_wf (border_base b') \<and> length (lv_arr b') = key_slice_length \<and>
     (\<forall>i < key_slice_length. if i < length es then (base_keys (border_base b') ! i, lv_arr b' ! i) = es ! i else lv_arr b' ! i = init_lv) \<and>
     perm_body b' = perm_body b \<and> version (border_base b') = version (border_base b) \<and> parent (border_base b') = parent (border_base b) \<and>
     prev_node b' = prev_node b \<and> next_node b' = next_node b"

definition links :: "(key \<times> link_or_value) list \<Rightarrow> addr set" where
  "links es = get_next_layer ` snd ` set es - {nullptr}"

lemma links_simps [simp]: "links [] = {}"
  "links (es @ [e]) = (if get_next_layer (snd e) = nullptr then {} else {get_next_layer (snd e)}) \<union> links es"
  by (auto simp: links_def)

lemma emptied_clear:
  assumes "emptied b pl b'" and "distinct pl" and "r < length pl" and "\<forall>i \<in> set pl. i < key_slice_length"
  shows "\<exists>b''. init_border_at (pl ! r) b' = Some b'' \<and>
    emptied b (del_at r pl) (b''\<lparr>perm_body := dec_key_num (delete_rank (perm_body b'') r)\<rparr>)"
proof -
  let ?i = "pl ! r"
  have i: "?i < 15" using assms(3,4) by simp
  let ?b = "b'\<lparr>border_base := key_arrays ((base_keys (border_base b'))[?i := (0, 0)]) (border_base b'), lv_arr := (lv_arr b')[?i := init_lv]\<rparr>"
  have w: "base_wf (border_base b')" "length (lv_arr b') = 15" "perm_list (perm_body b') = pl"
    using assms(1) by (simp_all add: emptied_def)
  have "set_key ?i 0 0 (border_base b') = Some (key_arrays ((base_keys (border_base b'))[?i := (0, 0)]) (border_base b'))"
    using set_key_arrays [of "base_keys (border_base b')" ?i 0 0 "border_base b'"] key_arrays_base_keys [OF w(1)] w(1) i by simp
  then have e: "init_border_at ?i b' = Some ?b"
    using i w(2) by (simp add: init_border_at_def init_base_at_def set_border_base_opt_def set_lv_def)
  have s: "set (del_at r pl) = set pl - {?i}" using set_del_at [OF assms(2,3)] .
  have "perm_list (dec_key_num (delete_rank (perm_body b') r)) = del_at r pl" using perm.order_drop [of r "perm_body b'"] w(3) assms(3) by simp
  then have "emptied b (del_at r pl) (?b\<lparr>perm_body := dec_key_num (delete_rank (perm_body ?b) r)\<rparr>)"
    using assms(1) i w unfolding emptied_def s by (auto simp: nth_list_update)
  then show ?thesis using e by blast
qed

lemma filled_add:
  assumes "filled b es b'" and "length es < key_slice_length"
  shows "\<exists>b''. set_border_base_opt (set_key_slice_at (length es) (fst k)) b' \<bind> set_border_base_opt (set_key_length_at (length es) (snd k))
      \<bind> set_lv (length es) x = Some b'' \<and> filled b (es @ [(k, x)]) b''"
proof -
  have w: "base_wf (border_base b')" "length (lv_arr b') = 15" "length es < 15" using assms by (simp_all add: filled_def)
  let ?b = "(key_written b' (length es) k)\<lparr>lv_arr := (lv_arr b')[length es := x]\<rparr>"
  have w': "base_wf (border_base (key_written b' (length es) k))" using w(1) by (simp add: key_written_def base_wf_def)
  have bk: "base_keys (border_base ?b) = (base_keys (border_base b'))[length es := k]"
    using w(1) by (simp add: key_written_def base_wf_def base_keys_def update_zip)
  have "filled b (es @ [(k, x)]) ?b"
    unfolding filled_def
  proof (intro conjI allI impI)
    fix i :: nat assume i: "i < key_slice_length"
    show "if i < length (es @ [(k, x)]) then (base_keys (border_base ?b) ! i, lv_arr ?b ! i) = (es @ [(k, x)]) ! i else lv_arr ?b ! i = init_lv"
      using assms(1) i w unfolding filled_def bk by (auto simp: nth_append nth_list_update less_Suc_eq)
  qed (use assms(1) w' in \<open>simp_all add: filled_def key_written_def\<close>)
  moreover have "set_border_base_opt (set_key_slice_at (length es) (fst k)) b' \<bind> set_border_base_opt (set_key_length_at (length es) (snd k))
      \<bind> set_lv (length es) x = Some ?b"
    using w by (simp add: set_key_opt_eq key_written_def set_lv_def base_wf_def)
  ultimately show ?thesis by blast
qed

text \<open>One step of the loop.\<close>

lemma move_entry_eq:
  assumes "nodes h bd = Some (Border c)" and "emptied b pl c" and "distinct pl" and "\<forall>i \<in> set pl. i < key_slice_length"
    and "r < length pl" and "e = (base_keys (border_base b) ! (pl ! r), lv_arr b ! (pl ! r))"
    and "nodes h q = Some (Border d)" and "filled b2 es d" and "length es < key_slice_length" and "bd \<noteq> q"
    and "\<And>a. a \<in> links [e] \<Longrightarrow> a \<noteq> bd \<and> a \<noteq> q \<and> nodes h a \<noteq> None"
  shows "\<exists>c' d'. move_entry bd q r (length es) h = Some (h\<lparr>nodes := (adopt (links [e]) q (nodes h))(bd \<mapsto> Border c', q \<mapsto> Border d')\<rparr>) \<and>
    emptied b (del_at r pl) c' \<and> filled b2 (es @ [e]) d'"
proof -
  let ?i = "pl ! r"
  have w: "base_wf (border_base c)" "length (lv_arr c) = 15" "perm_list (perm_body c) = pl" "?i < 15" "?i \<in> set pl"
    using assms(2,4,5) by (simp_all add: emptied_def)
  have s: "get_index_of_rank (perm_body c) r = ?i" using perm.index_order [of r "perm_body c"] w(3) assms(5) by simp
  have e: "base_keys (border_base c) ! ?i = fst e" "lv_arr c ! ?i = snd e" using assms(2,6) w by (auto simp: emptied_def)
  have k: "get_key_slice_at (border_base c) ?i = Some (fst (fst e))" "get_key_length_at (border_base c) ?i = Some (snd (fst e))"
    "get_lv_at c ?i = Some (snd e)" using w e by (simp_all add: get_key_at get_lv_at_def)
  obtain d' where d': "set_border_base_opt (set_key_slice_at (length es) (fst (fst e))) d \<bind>
      set_border_base_opt (set_key_length_at (length es) (snd (fst e))) \<bind> set_lv (length es) (snd e) = Some d'" "filled b2 (es @ [e]) d'"
    using filled_add [OF assms(8,9), of "fst e" "snd e"] by auto
  then obtain d1 d2 where d: "set_border_base_opt (set_key_slice_at (length es) (fst (fst e))) d = Some d1"
    "set_border_base_opt (set_key_length_at (length es) (snd (fst e))) d1 = Some d2" "set_lv (length es) (snd e) d2 = Some d'"
    by (auto simp: bind_eq_Some_conv)
  obtain c1 where c1: "init_border_at ?i c = Some c1" "emptied b (del_at r pl) (c1\<lparr>perm_body := dec_key_num (delete_rank (perm_body c1) r)\<rparr>)"
    using emptied_clear [OF assms(2,3,5,4)] by blast
  let ?c = "c1\<lparr>perm_body := dec_key_num (delete_rank (perm_body c1) r)\<rparr>"
  let ?nl = "get_next_layer (snd e)"
  have "move_entry bd q r (length es) h = Some (h\<lparr>nodes := (adopt (links [e]) q (nodes h))(bd \<mapsto> Border ?c, q \<mapsto> Border d')\<rparr>)"
  proof (cases "?nl = nullptr")
    case True
    then have "links [e] = {}" by (simp add: links_def)
    then show ?thesis using True assms(1,7,10) s k d c1(1)
      by (simp add: move_entry_def Let_def heap_run) (simp add: set_node_def fun_upd_twist)
  next
    case False
    then have l: "links [e] = {?nl}" by (auto simp: links_def)
    then obtain x where x: "nodes h ?nl = Some x" "?nl \<noteq> bd" "?nl \<noteq> q" using assms(11) by auto
    have "adopt {?nl} q (nodes h) = (nodes h)(?nl \<mapsto> node_map_base (set_parent q) x)" using x(1) by (auto simp: adopt_def)
    then show ?thesis using False assms(1,7,10) s k d c1(1) x l
      by (simp add: move_entry_def Let_def heap_run) (simp add: set_node_def fun_upd_twist)
  qed
  then show ?thesis using c1(2) d'(2) by blast
qed

lemma move_entries_eq:
  assumes "nodes h bd = Some (Border b)" and "border_wf b" and "get_permutation_cnk b = key_slice_length"
    and "nodes h q = Some (Border d)" and "filled d [] d" and "bd \<noteq> q" and "E = border_entries b"
    and "\<And>a. a \<in> links (drop 8 E) \<Longrightarrow> a \<noteq> bd \<and> a \<noteq> q \<and> nodes h a \<noteq> None"
  shows "\<exists>b' d'. foldM (move_entry bd q 8) [0..<7] h =
      Some (h\<lparr>nodes := (adopt (links (drop 8 E)) q (nodes h))(bd \<mapsto> Border b', q \<mapsto> Border d')\<rparr>) \<and>
    emptied b (take 8 (perm_list (perm_body b))) b' \<and> filled d (drop 8 E) d'"
proof -
  define pl where "pl = perm_list (perm_body b)"
  have pl: "length pl = 15" "distinct pl" "\<forall>i \<in> set pl. i < 15"
    using assms(2,3) by (simp_all add: pl_def border_wf_def get_permutation_cnk_def perm.count_order perm.invar_order)
  have E: "E = map (\<lambda>i. (base_keys (border_base b) ! i, lv_arr b ! i)) pl" "length E = 15"
    using pl(1) by (simp_all add: assms(7) border_entries_def pl_def)
  let ?L = "\<lambda>j. take 8 pl @ drop (8 + j) pl"
  have "\<exists>b' d'. foldM (move_entry bd q 8) [0..<j] h =
      Some (h\<lparr>nodes := (adopt (links (take j (drop 8 E))) q (nodes h))(bd \<mapsto> Border b', q \<mapsto> Border d')\<rparr>) \<and>
    emptied b (?L j) b' \<and> filled d (take j (drop 8 E)) d'" if "j \<le> 7" for j
    using that
  proof (induction j)
    case 0
    have "set pl = {..<15}"
      using pl by (intro card_subset_eq) (auto simp: distinct_card)
    then have "emptied b (?L 0) b" using assms(2) by (simp add: emptied_def border_wf_def pl_def)
    then show ?case using assms(1,4,5) by (intro exI [of _ b] exI [of _ d]) (simp add: fun_upd_idem)
  next
    case (Suc j)
    then obtain b' d' where r: "foldM (move_entry bd q 8) [0..<j] h =
        Some (h\<lparr>nodes := (adopt (links (take j (drop 8 E))) q (nodes h))(bd \<mapsto> Border b', q \<mapsto> Border d')\<rparr>)"
      "emptied b (?L j) b'" "filled d (take j (drop 8 E)) d'"
      using Suc_leD [of j 7] by blast
    let ?h = "h\<lparr>nodes := (adopt (links (take j (drop 8 E))) q (nodes h))(bd \<mapsto> Border b', q \<mapsto> Border d')\<rparr>"
    have j: "j < 7" using Suc.prems by simp
    have L: "distinct (?L j)" "8 < length (?L j)" "?L j ! 8 = pl ! (8 + j)" "del_at 8 (?L j) = ?L (Suc j)"
      using pl j by (auto simp: nth_append del_at_def min_def set_take_disj_set_drop_if_distinct)
    have "set (?L j) \<subseteq> set pl" using set_take_subset [of 8 pl] set_drop_subset [of "8 + j" pl] by auto
    then have b: "\<forall>i \<in> set (?L j). i < key_slice_length" using pl(3) by auto
    have e: "E ! (8 + j) = (base_keys (border_base b) ! (?L j ! 8), lv_arr b ! (?L j ! 8))" using E L(3) pl(1) j by simp
    have t: "take (Suc j) (drop 8 E) = take j (drop 8 E) @ [E ! (8 + j)]" using E(2) j by (simp add: take_Suc_conv_app_nth)
    have s: "links [E ! (8 + j)] \<union> links (take j (drop 8 E)) = links (take (Suc j) (drop 8 E))" unfolding t by (auto simp: links_def)
    have "links (take (Suc j) (drop 8 E)) \<subseteq> links (drop 8 E)" by (auto simp: links_def dest: in_set_takeD)
    then have p: "a \<noteq> bd \<and> a \<noteq> q \<and> nodes ?h a \<noteq> None" if "a \<in> links [E ! (8 + j)]" for a
      using assms(8) [of a] that s by (auto simp: adopt_def)
    have n: "nodes ?h bd = Some (Border b')" "nodes ?h q = Some (Border d')" using assms(6) by simp_all
    have l: "length (take j (drop 8 E)) = j" "length (take j (drop 8 E)) < key_slice_length" using E(2) j by simp_all
    obtain b'' d'' where m: "move_entry bd q 8 j ?h =
        Some (?h\<lparr>nodes := (adopt (links [E ! (8 + j)]) q (nodes ?h))(bd \<mapsto> Border b'', q \<mapsto> Border d'')\<rparr>)"
      "emptied b (?L (Suc j)) b''" "filled d (take (Suc j) (drop 8 E)) d''"
      using move_entry_eq [OF n(1) r(2) L(1) b L(2) e n(2) r(3) l(2) assms(6) p] unfolding l(1) L(4) t [symmetric] by blast
    have "(adopt S q (N(bd \<mapsto> x, q \<mapsto> y)))(bd \<mapsto> x', q \<mapsto> y') = (adopt S q N)(bd \<mapsto> x', q \<mapsto> y')" for S N x y x' y'
      by (auto simp: adopt_def)
    then have "move_entry bd q 8 j ?h =
        Some (h\<lparr>nodes := (adopt (links (take (Suc j) (drop 8 E))) q (nodes h))(bd \<mapsto> Border b'', q \<mapsto> Border d'')\<rparr>)"
      using m(1) by (simp add: adopt_again s)
    moreover have "foldM (move_entry bd q 8) [0..<Suc j] h = move_entry bd q 8 j ?h" using r(1) by (intro foldM_snoc) simp_all
    ultimately have "foldM (move_entry bd q 8) [0..<Suc j] h =
        Some (h\<lparr>nodes := (adopt (links (take (Suc j) (drop 8 E))) q (nodes h))(bd \<mapsto> Border b'', q \<mapsto> Border d'')\<rparr>)" by (simp only:)
    then show ?case using m(2,3) by blast
  qed
  from this [of 7] show ?thesis using pl(1) E(2) by (simp add: pl_def)
qed

text \<open>The two nodes as sorted lists of entries.\<close>

lemma emptied_view:
  assumes "border_wf b" and "emptied b (take n (perm_list (perm_body b))) b'"
  shows "border_wf b'" and "border_entries b' = take n (border_entries b)" and "unused_ok X b'"
proof -
  let ?pl = "perm_list (perm_body b)"
  have p: "distinct ?pl" "\<forall>i \<in> set ?pl. i < 15" and s: "key_sorted (border_keys b)"
    using assms(1) by (simp_all add: border_wf_def perm.invar_order)
  have e: "base_keys (border_base b') ! i = base_keys (border_base b) ! i \<and> lv_arr b' ! i = lv_arr b ! i" if "i \<in> set (take n ?pl)" for i
    using assms(2) p(2) that in_set_takeD [OF that] by (auto simp: emptied_def)
  have pb: "perm_list (perm_body b') = take n ?pl" using assms(2) by (simp add: emptied_def)
  show "border_entries b' = take n (border_entries b)"
    using e by (simp add: border_entries_def pb take_map)
  then have "border_keys b' = take n (border_keys b)" unfolding map_fst_entries [symmetric] by (simp add: take_map)
  then have "key_sorted (border_keys b')" using key_sorted_take [OF s] by simp
  moreover have "perm_wf (perm_body b')" using p by (auto simp: perm.invar_order pb dest: in_set_takeD)
  ultimately show "border_wf b'" using assms(2) by (simp add: border_wf_def emptied_def)
  show "unused_ok X b'" using assms(2) pb by (auto simp: unused_ok_def emptied_def)
qed

lemma filled_view:
  assumes "filled b es b'" and "key_sorted (map fst es)" and "1 \<le> length es" and "length es \<le> key_slice_length"
  shows "border_wf (b'\<lparr>perm_body := split_dest (length es)\<rparr>)" (is "border_wf ?b")
    and "border_entries (b'\<lparr>perm_body := split_dest (length es)\<rparr>) = es"
    and "unused_ok X (b'\<lparr>perm_body := split_dest (length es)\<rparr>)"
proof -
  have p: "perm_list (perm_body ?b) = [0..<length es]" using perm_list_split_dest [OF assms(3,4)] by simp
  show e: "border_entries ?b = es"
    using assms(1,4) unfolding border_entries_def p by (intro nth_equalityI) (auto simp: filled_def)
  then have "border_keys ?b = map fst es" unfolding map_fst_entries [symmetric] by simp
  then show "border_wf ?b" using assms p by (simp add: border_wf_def filled_def perm.invar_order)
  show "unused_ok X ?b" using assms(1) p by (auto simp: unused_ok_def filled_def)
qed

end
