(* ===== verification/Border_Moved.thy ===== *)
theory Border_Moved
  imports Border_Halves
begin

text \<open>
  \<^verbatim>\<open>border_split\<close> up to the insertion: the new node stands to the right of the old one in the
  list of border nodes, with the upper half of its entries.
\<close>

section \<open>The parts of a border split\<close>

text \<open>The insertion on one of the two sides.\<close>

definition place_entry :: "addr \<Rightarrow> addr \<Rightarrow> byte list \<Rightarrow> 64 word \<Rightarrow> bool \<Rightarrow> nat \<Rightarrow> heap \<Rightarrow> (addr option \<times> heap) option" where
  "place_entry bd new_border key_view v cg rank h = do {
     nb \<leftarrow> get_border new_border h;
     ts \<leftarrow> get_key_slice_at (border_base nb) 0;
     tl \<leftarrow> get_key_length_at (border_base nb) 0;
     if goes_lower (prepare_key_slice key_view) (ts, tl) rank 8 then do {
       b \<leftarrow> get_border bd h;
       slot \<leftarrow> get_empty_slot (perm_body b);
       insert_lv_at bd slot key_view v cg rank h
     } else do {
       slot \<leftarrow> get_empty_slot (perm_body nb);
       if rank < 8 then None
       else insert_lv_at new_border slot key_view v cg (rank - 8) h
     }
   }"

text \<open>The end, from \<^verbatim>\<open>lock_parent\<close> on.\<close>

definition border_end :: "addr \<Rightarrow> addr \<Rightarrow> addr \<Rightarrow> heap \<Rightarrow> heap option" where
  "border_end ti bd new_border h = do {
     (p, h) \<leftarrow> lock_parent bd h;
     if p = nullptr then do {
       (p, h) \<leftarrow> create_interior_parent_of_border bd new_border h;
       h \<leftarrow> unlock_at bd h;
       h \<leftarrow> unlock_at new_border h;
       h \<leftarrow> store_root_ptr ti p h;
       unlock_at p h
     } else do {
       pbase \<leftarrow> get_base p h;
       if border (version pbase) then do {
         h \<leftarrow> upd_base p (set_version_inserting_deleting True) h;
         (pi, h) \<leftarrow> create_interior_parent_of_border bd new_border h;
         h \<leftarrow> unlock_at bd h;
         h \<leftarrow> unlock_at new_border h;
         h \<leftarrow> upd_base pi (set_parent p) h;
         h \<leftarrow> unlock_at pi h;
         h \<leftarrow> replace_layer p bd pi h;
         unlock_at p h
       } else do {
         h \<leftarrow> upd_base bd (set_version_root False) h;
         h \<leftarrow> upd_base new_border (set_version_root False) h;
         h \<leftarrow> unlock_at bd h;
         h \<leftarrow> unlock_at new_border h;
         pi \<leftarrow> get_interior p h;
         nb \<leftarrow> get_border new_border h;
         ts \<leftarrow> get_key_slice_at (border_base nb) 0;
         tl \<leftarrow> get_key_length_at (border_base nb) 0;
         if unat (n_keys pi) = key_slice_length
         then interior_split ti p new_border (ts, tl) h
         else do {
           h \<leftarrow> upd_base new_border (set_parent p) h;
           h \<leftarrow> upd_interior p (insert_child new_border (ts, tl)) h;
           unlock_at p h
         }
       }
     }
   }"

text \<open>The new node before it gets its entries, and the old one.\<close>

definition right_border :: "border_node \<Rightarrow> addr \<Rightarrow> border_node" where
  "right_border b bd = empty_border\<lparr>next_node := next_node b, prev_node := bd,
     border_base := set_version (version (set_version_splitting True (border_base b))) (border_base empty_border)\<rparr>"

definition left_border :: "border_node \<Rightarrow> addr \<Rightarrow> border_node" where
  "left_border b q = b\<lparr>border_base := set_version_splitting True (border_base b), next_node := q\<rparr>"

text \<open>The right neighbour, told of its new neighbour.\<close>

definition relinked :: "addr \<Rightarrow> addr \<Rightarrow> (addr \<rightharpoonup> node) \<Rightarrow> addr \<rightharpoonup> node" where
  "relinked q nx N = (case N nx of Some (Border n) \<Rightarrow> if nx = nullptr then N else N(nx \<mapsto> Border (set_prev q n)) | _ \<Rightarrow> N)"

lemma relinked_other: "a \<noteq> nx \<or> nx = nullptr \<Longrightarrow> relinked q nx N a = N a"
  by (auto simp: relinked_def split: option.splits node.splits)

lemma filled_right: "filled (right_border b bd) [] (right_border b bd)"
  by (simp add: filled_def right_border_def empty_border_def base_wf_def set_version_def)

definition linked_new :: "heap \<Rightarrow> addr \<Rightarrow> border_node \<Rightarrow> addr \<Rightarrow> addr list \<Rightarrow> heap" where
  "linked_new h bd b q fs = h\<lparr>fresh := fs, nodes := (relinked q (next_node b) (nodes h))
     (bd \<mapsto> Border (left_border b q), q \<mapsto> Border (right_border b bd))\<rparr>"

lemma if_bind: "Option.bind (if c then a else b) f = (if c then Option.bind a f else Option.bind b f)"
  by simp

lemma border_split_unfold:
  assumes "nodes h bd = Some (Border b)" and "fresh h = q # fs" and "bd \<noteq> q" and "next_node b \<noteq> bd" and "next_node b \<noteq> q"
    and "next_node b \<noteq> nullptr \<Longrightarrow> \<exists>n. nodes h (next_node b) = Some (Border n)"
  shows "border_split ti bd s v cg rank h = do {
     h \<leftarrow> foldM (move_entry bd q 8) [0..<7] (linked_new h bd b q fs);
     h \<leftarrow> upd_border q (\<lambda>nb. Some (nb\<lparr>perm_body := split_dest 7\<rparr>)) h;
     (created, h) \<leftarrow> place_entry bd q s v cg rank h;
     h \<leftarrow> border_end ti bd q h;
     Some (created, bd, h)
   }"
proof -
  have split: "border_split ti bd s v cg rank h = do {
     h \<leftarrow> upd_base bd (set_version_splitting True) h;
     (new_border, h) \<leftarrow> new_node (Border new_border_node) h;
     h \<leftarrow> upd_border new_border init_border h;
     b \<leftarrow> get_border bd h;
     h \<leftarrow> upd_border new_border (Some \<circ> set_next (next_node b)) h;
     h \<leftarrow> upd_border new_border (Some \<circ> set_prev bd) h;
     h \<leftarrow> upd_base new_border (set_version (version (border_base b))) h;
     h \<leftarrow> upd_border bd (Some \<circ> set_next new_border) h;
     nb \<leftarrow> get_border new_border h;
     h \<leftarrow> (if next_node nb \<noteq> nullptr
           then upd_border (next_node nb) (Some \<circ> set_prev new_border) h else Some h);
     h \<leftarrow> foldM (move_entry bd new_border 8) [0..<7] h;
     h \<leftarrow> upd_border new_border (\<lambda>nb. Some (nb\<lparr>perm_body := split_dest 7\<rparr>)) h;
     (created, h) \<leftarrow> place_entry bd new_border s v cg rank h;
     h \<leftarrow> border_end ti bd new_border h;
     Some (created, bd, h)
   }"
    unfolding border_split_def place_entry_def border_end_def Let_def
    by (simp cong: if_cong add: case_prod_beta' if_bind)
  show ?thesis
  proof (cases "next_node b = nullptr")
    case True
    then have "relinked q (next_node b) (nodes h) = nodes h" by (auto simp: relinked_def split: option.splits node.splits)
    then show ?thesis unfolding split using True assms(1-3)
      by (simp add: heap_run init_border_new) (simp add: set_next_def set_prev_def linked_new_def left_border_def right_border_def
        set_border_base_def set_node_def fun_upd_twist)
  next
    case False
    then obtain n where n: "nodes h (next_node b) = Some (Border n)" using assms(6) by blast
    then have "relinked q (next_node b) (nodes h) = (nodes h)(next_node b \<mapsto> Border (set_prev q n))" using False by (simp add: relinked_def)
    then show ?thesis unfolding split using False n assms(1-5)
      by (simp add: heap_run init_border_new set_next_def set_border_base_def set_prev_def) (simp add: set_next_def set_prev_def linked_new_def left_border_def right_border_def
        set_border_base_def set_node_def fun_upd_twist)
  qed
qed

section \<open>The two halves\<close>

definition half_border :: "border_node \<Rightarrow> (key \<times> link_or_value) list \<Rightarrow> border_node \<Rightarrow> bool" where
  "half_border b es b' \<longleftrightarrow> border_wf b' \<and> border_entries b' = es \<and> unused_ok UNIV b' \<and>
     root (version (border_base b')) = root (version (border_base b)) \<and>
     border (version (border_base b')) = border (version (border_base b)) \<and>
     deleted (version (border_base b')) = deleted (version (border_base b))"

text \<open>Both nodes after the entries have been moved, or after the insertion.\<close>

definition border_halves :: "heap \<Rightarrow> addr \<Rightarrow> border_node \<Rightarrow> addr \<Rightarrow> (key \<times> link_or_value) list \<Rightarrow>
    (key \<times> link_or_value) list \<Rightarrow> key \<Rightarrow> bool" where
  "border_halves h bd b q es1 es2 k \<longleftrightarrow> (\<exists>b1 d1. nodes h bd = Some (Border b1) \<and> nodes h q = Some (Border d1) \<and>
     half_border b es1 b1 \<and> half_border b es2 d1 \<and> parent (border_base b1) = parent (border_base b) \<and>
     prev_node b1 = prev_node b \<and> next_node b1 = q \<and> prev_node d1 = bd \<and> next_node d1 = next_node b \<and>
     base_keys (border_base d1) ! 0 = k \<and> 0 \<in> set (perm_list (perm_body d1)))"

lemma border_split_moved:
  assumes "nodes h bd = Some (Border b)" and "border_wf b" and "border_entries b = E" and "length E = key_slice_length"
    and "fresh h = q # fs" and "bd \<noteq> q" and "next_node b \<noteq> bd" and "next_node b \<noteq> q"
    and "next_node b \<noteq> nullptr \<Longrightarrow> \<exists>n. nodes h (next_node b) = Some (Border n)"
    and "\<And>a. a \<in> links (drop 8 E) \<Longrightarrow> a \<noteq> bd \<and> a \<noteq> q \<and> nodes h a \<noteq> None"
  shows "\<exists>h1. border_split ti bd s v cg rank h = do {
       (created, h) \<leftarrow> place_entry bd q s v cg rank h1;
       h \<leftarrow> border_end ti bd q h;
       Some (created, bd, h)
     } \<and> border_halves h1 bd b q (take 8 E) (drop 8 E) (fst (E ! 8)) \<and>
    (\<forall>x. x \<noteq> bd \<longrightarrow> x \<noteq> q \<longrightarrow> nodes h1 x = adopt (links (drop 8 E)) q (relinked q (next_node b) (nodes h)) x) \<and>
    same_static h h1 \<and> fresh h1 = fs"
proof -
  let ?h = "linked_new h bd b q fs" and ?b = "left_border b q" and ?d = "right_border b bd"
  have v: "border_wf ?b" "border_entries ?b = E" "get_permutation_cnk ?b = key_slice_length"
    "perm_body ?b = perm_body b" "border_keys ?b = border_keys b"
    using assms(2-4) length_border_entries [of b]
    by (simp_all add: left_border_def border_wf_def border_entries_def border_keys_def get_permutation_cnk_def)
  have n: "nodes ?h bd = Some (Border ?b)" "nodes ?h q = Some (Border ?d)" using assms(6) by (simp_all add: linked_new_def)
  have p: "a \<noteq> bd \<and> a \<noteq> q \<and> nodes ?h a \<noteq> None" if "a \<in> links (drop 8 E)" for a
    using assms(10) [OF that] by (auto simp: linked_new_def relinked_def split: option.splits node.splits)
  obtain b' d' where m: "foldM (move_entry bd q 8) [0..<7] ?h =
      Some (?h\<lparr>nodes := (adopt (links (drop 8 E)) q (nodes ?h))(bd \<mapsto> Border b', q \<mapsto> Border d')\<rparr>)"
    "emptied ?b (take 8 (perm_list (perm_body b))) b'" "filled ?d (drop 8 E) d'"
    using move_entries_eq [OF n(1) v(1,3) n(2) filled_right assms(6) v(2) [symmetric] p] v(4) by auto
  let ?d' = "d'\<lparr>perm_body := split_dest 7\<rparr>"
  let ?h1 = "set_node q (Border ?d') (?h\<lparr>nodes := (adopt (links (drop 8 E)) q (nodes ?h))(bd \<mapsto> Border b', q \<mapsto> Border d')\<rparr>)"
  have l: "length (drop 8 E) = 7" using assms(4) by simp
  have s: "key_sorted (map fst (drop 8 E))"
    using assms(2,3) map_fst_entries [of b] key_sorted_drop [of "border_keys b" 8] by (simp add: border_wf_def flip: drop_map)
  have b': "border_wf b'" "border_entries b' = take 8 E" "unused_ok UNIV b'"
    using emptied_view(1,2) [OF v(1), of 8 b'] emptied_view(3) [OF v(1), of 8 b' UNIV] m(2) v(2,4) by simp_all
  have d': "border_wf ?d'" "border_entries ?d' = drop 8 E" "unused_ok UNIV ?d'"
    using filled_view [OF m(3) s] l by simp_all
  have d0: "base_keys (border_base d') ! 0 = fst (E ! 8)" "0 \<in> set (perm_list (split_dest 7))"
  proof -
    have "(base_keys (border_base d') ! 0, lv_arr d' ! 0) = drop 8 E ! 0"
      using m(3) l unfolding filled_def by (metis (full_types) zero_less_numeral)
    then show "base_keys (border_base d') ! 0 = fst (E ! 8)" using assms(4) by (simp add: prod_eq_iff)
    show "0 \<in> set (perm_list (split_dest 7))" by (simp add: perm_list_split_dest)
  qed
  have "border_halves ?h1 bd b q (take 8 E) (drop 8 E) (fst (E ! 8))"
    unfolding border_halves_def half_border_def
    using b' d' d0 m(2,3) assms(6) by (intro exI [of _ b'] exI [of _ ?d'])
      (simp add: emptied_def filled_def left_border_def right_border_def set_version_splitting_def set_version_def version_simps)
  moreover have "nodes ?h1 x = adopt (links (drop 8 E)) q (relinked q (next_node b) (nodes h)) x" if "x \<noteq> bd" "x \<noteq> q" for x
    using that by (simp add: linked_new_def adopt_def)
  moreover have "border_split ti bd s v cg rank h = do {
       (created, h) \<leftarrow> place_entry bd q s v cg rank ?h1;
       h \<leftarrow> border_end ti bd q h;
       Some (created, bd, h)
     }" using border_split_unfold [OF assms(1,5-9), of ti s v cg rank] m(1) assms(6) by (simp add: heap_run)
  ultimately show ?thesis by (intro exI [of _ ?h1]) (simp add: linked_new_def same_static_def)
qed

end
