(* ===== verification/Border_Placed.thy ===== *)
theory Border_Placed
  imports Border_Moved
begin

text \<open>
  The insertion of \<^verbatim>\<open>border_split\<close>: the key goes to the half it belongs to. Together the two
  nodes then hold the entries of the old one and the new one, in order.
\<close>

section \<open>The choice of the side\<close>

lemma goes_lower_iff:
  assumes "canonical k" and "canonical t" and "k \<noteq> t" and "rank < n \<Longrightarrow> key_ord k < key_ord t"
  shows "goes_lower k t rank n \<longleftrightarrow> key_ord k < key_ord t"
proof -
  have "pivot_before k t" if "snd k = 0"
  proof -
    have "snd t \<noteq> 0" using that assms(1-3) canonical_zero [of k] canonical_zero [of t] by (auto simp: prod_eq_iff)
    then have "snd k < snd t" using that by (simp add: word_neq_0_conv)
    then show ?thesis using that by (simp add: pivot_before_def memcmp_sign)
  qed
  then show ?thesis
    using assms(4) pivot_before_iff [OF assms(1,2)] unfolding goes_lower_def pivot_before_def Let_def by blast
qed

lemma half_border_added:
  assumes "half_border b es b'" and "entry_added b' r i k w b''"
  shows "half_border b (ins_at r (k, w) es) b''"
  using assms unused_ok_added [OF assms(2)] by (simp add: half_border_def entry_added_def)

definition entry_placed :: "heap \<Rightarrow> addr \<Rightarrow> byte list \<Rightarrow> 64 word \<Rightarrow> addr list \<Rightarrow> addr list \<Rightarrow> addr set \<Rightarrow> heap \<Rightarrow> content \<Rightarrow> bool" where
  "entry_placed h p s v qs fs S h' c \<longleftrightarrow>
     content_wf (prepare_key_slice s) c \<and> content_at h' p c \<and> content_addrs c = qs \<and>
     content_entries (key_bytes (prepare_key_slice s)) c = [(s, v)] \<and>
     (\<forall>q \<in> set qs. \<exists>b. nodes h' q = Some (Border b) \<and> unused_ok UNIV b) \<and>
     (\<forall>q. q \<notin> S \<longrightarrow> q \<notin> set qs \<longrightarrow> nodes h' q = nodes h q) \<and> same_static h h' \<and> fresh h' = fs"

lemma inserted_entry_placed:
  "inserted_at UNIV h p b r i s v qs fs h' c \<Longrightarrow> p \<in> S \<Longrightarrow> entry_placed h p s v qs fs S h' c"
  by (auto simp: inserted_at_def entry_placed_def Let_def)

text \<open>Where the entries are cut: after the ninth one, if the new one is among them, or after the eighth.\<close>

definition cut_at :: "nat \<Rightarrow> nat" where
  "cut_at rank = (if rank \<le> 8 then 9 else 8)"

lemma place_entry_spec:
  assumes b: "border_halves h bd b q (take 8 E) (drop 8 E) (fst (E ! 8))" and E: "length E = key_slice_length" "key_sorted (map fst E)"
    and k: "k = prepare_key_slice s" "k \<notin> set (map fst E)" "rank = rank_le k (map fst E)"
    and v: "value_word v" "value_at (pages h) v"
    and f: "fresh h = qs @ fs" "length qs = layers_of s" "distinct (bd # q # qs)" "\<forall>q \<in> set qs. valid_ptr q"
  shows "\<exists>created h' c. place_entry bd q s v cg rank h = Some (created, h') \<and>
    border_halves h' bd b q (take (cut_at rank) (ins_at rank (k, lv_word c) E)) (drop (cut_at rank) (ins_at rank (k, lv_word c) E)) (fst (E ! 8)) \<and>
    entry_placed h (if rank \<le> 8 then bd else q) s v qs fs {bd, q} h' c"
proof -
  obtain b1 d1 where n: "nodes h bd = Some (Border b1)" "nodes h q = Some (Border d1)"
    and hb: "half_border b (take 8 E) b1" "half_border b (drop 8 E) d1"
    and o: "parent (border_base b1) = parent (border_base b)" "prev_node b1 = prev_node b" "next_node b1 = q" "prev_node d1 = bd"
      "next_node d1 = next_node b" "base_keys (border_base d1) ! 0 = fst (E ! 8)" "0 \<in> set (perm_list (perm_body d1))"
    using b unfolding border_halves_def by blast
  let ?t = "fst (E ! 8)"
  have w: "border_wf b1" "border_wf d1" "base_wf (border_base d1)" "unused_ok UNIV b1" "unused_ok UNIV d1"
    using hb by (simp_all add: half_border_def border_wf_def)
  have bk: "border_keys b1 = take 8 (map fst E)" "border_keys d1 = drop 8 (map fst E)"
    using hb map_fst_entries [of b1] map_fst_entries [of d1] by (simp_all add: half_border_def take_map drop_map)
  have cnk: "get_permutation_cnk b1 < key_slice_length" "get_permutation_cnk d1 < key_slice_length"
    using length_border_keys [of b1] length_border_keys [of d1] bk E(1) by simp_all
  have t: "?t = map fst E ! 8" "canonical ?t" "?t \<in> set (map fst E)" using E by (simp_all add: key_sorted_def)
  have ck: "canonical k" using k(1) canonical_prepare by simp
  have sub: "k \<notin> set (border_keys b1)" "k \<notin> set (border_keys d1)" using k(2) unfolding bk by (meson in_set_takeD in_set_dropD)+
  have side: "key_ord k < key_ord ?t \<longleftrightarrow> rank \<le> 8"
    unfolding t(1) using rank_le_above [OF E(2), of k 8] rank_le_below [of 8 k "map fst E"] k(3) E(1)
    by (cases "rank \<le> 8") (simp_all del: nth_map)
  have gl: "goes_lower k ?t rank 8 \<longleftrightarrow> rank \<le> 8"
  proof -
    have "k \<noteq> ?t" using t(3) k(2) by metis
    then show ?thesis unfolding side [symmetric] by (rule goes_lower_iff [OF ck t(2)]) (simp add: side)
  qed
  have z: "get_key_slice_at (border_base d1) 0 = Some (fst ?t)" "get_key_length_at (border_base d1) 0 = Some (snd ?t)"
    using w(3) o(6) by (simp_all add: get_key_at)
  have re: "rank_le k (map fst E) = rank" using k(3) by simp
  show ?thesis
  proof (cases "rank \<le> 8")
    case True
    obtain i where i: "get_empty_slot (perm_body b1) = Some i" "free_slot_for UNIV b1 k i"
      using get_empty_slot_for [OF w(1) cnk(1) w(4) ck sub(1)] .
    have r: "rank = rank_le k (border_keys b1)" unfolding bk(1) using rank_le_take_drop(1) [OF re True] by simp
    have "distinct (bd # qs)" using f(3) by simp
    then obtain created h' c where h': "insert_lv_at bd i s v cg rank h = Some (created, h')" "inserted_at UNIV h bd b1 rank i s v qs fs h' c"
      using insert_lv_at_spec [OF n(1) i(2) [unfolded k(1)] r [unfolded k(1)] v f(1,2) _ f(4)] by blast
    obtain b2 where b2: "nodes h' bd = Some (Border b2)" "entry_added b1 rank i k (lv_word c) b2"
      using h'(2) by (auto simp: inserted_at_def k(1) Let_def)
    have nq: "nodes h' q = Some (Border d1)" using h'(2) n(2) f(3) by (auto simp: inserted_at_def Let_def)
    have "take 9 (ins_at rank (k, lv_word c) E) = ins_at rank (k, lv_word c) (take 8 E)" "drop 9 (ins_at rank (k, lv_word c) E) = drop 8 E"
      using take_ins_at(1) [OF True, of E] drop_ins_at(1) [OF True, of E] E(1) by simp_all
    then have "border_halves h' bd b q (take (cut_at rank) (ins_at rank (k, lv_word c) E)) (drop (cut_at rank) (ins_at rank (k, lv_word c) E)) ?t"
      unfolding border_halves_def using True b2 nq hb(2) half_border_added [OF hb(1) b2(2)] o
      by (simp add: cut_at_def entry_added_def)
    moreover have "entry_placed h bd s v qs fs {bd, q} h' c" using inserted_entry_placed [OF h'(2)] by simp
    moreover have "place_entry bd q s v cg rank h = Some (created, h')"
      using n z gl True i(1) h'(1) by (simp add: place_entry_def heap_run k(1))
    ultimately show ?thesis using True by auto
  next
    case False
    then have ge: "8 \<le> rank" by simp
    obtain i where i: "get_empty_slot (perm_body d1) = Some i" "free_slot_for UNIV d1 k i"
      using get_empty_slot_for [OF w(2) cnk(2) w(5) ck sub(2)] .
    have r: "rank - 8 = rank_le k (border_keys d1)" unfolding bk(2) using rank_le_take_drop(2) [OF re ge] by simp
    have "distinct (q # qs)" using f(3) by simp
    then obtain created h' c where h': "insert_lv_at q i s v cg (rank - 8) h = Some (created, h')" "inserted_at UNIV h q d1 (rank - 8) i s v qs fs h' c"
      using insert_lv_at_spec [OF n(2) i(2) [unfolded k(1)] r [unfolded k(1)] v f(1,2) _ f(4)] by blast
    obtain d2 where d2: "nodes h' q = Some (Border d2)" "entry_added d1 (rank - 8) i k (lv_word c) d2"
      using h'(2) by (auto simp: inserted_at_def k(1) Let_def)
    have nb: "nodes h' bd = Some (Border b1)" using h'(2) n(1) f(3) by (auto simp: inserted_at_def Let_def)
    have "rank \<le> length E" using rank_le_length [of k "map fst E"] k(3) by simp
    then have "take 8 (ins_at rank (k, lv_word c) E) = take 8 E" "drop 8 (ins_at rank (k, lv_word c) E) = ins_at (rank - 8) (k, lv_word c) (drop 8 E)"
      using take_ins_at(2) [OF ge, of E] drop_ins_at(2) [OF ge, of E] by simp_all
    moreover have "i \<noteq> 0" using i(2) o(7) unfolding free_slot_for_def by metis
    ultimately have "border_halves h' bd b q (take (cut_at rank) (ins_at rank (k, lv_word c) E)) (drop (cut_at rank) (ins_at rank (k, lv_word c) E)) ?t"
      unfolding border_halves_def using False d2 nb hb(1) half_border_added [OF hb(2) d2(2)] o
      by (simp add: cut_at_def entry_added_def)
    moreover have "entry_placed h q s v qs fs {bd, q} h' c" using inserted_entry_placed [OF h'(2)] by simp
    moreover have "place_entry bd q s v cg rank h = Some (created, h')"
      using n z gl False i(1) h'(1) by (simp add: place_entry_def heap_run k(1))
    ultimately show ?thesis using False by auto
  qed
qed

end
