(* ===== verification/Border_End.thy ===== *)
theory Border_End
  imports Border_Placed
begin

text \<open>
  The end of \<^verbatim>\<open>border_split\<close>: as for interior nodes, the two halves go to the parent.
\<close>

text \<open>The key in the first slot of the new node is the pivot.\<close>

definition first_key :: "node \<Rightarrow> key \<Rightarrow> bool" where
  "first_key n k \<longleftrightarrow> get_key_slice_at (node_base n) 0 = Some (fst k) \<and> get_key_length_at (node_base n) 0 = Some (snd k)"

lemma border_end_top:
  assumes s: "split_ready h ti par [] l k r" "split_state h par [] l r"
    and R: "nodes h (addr_of r) = Some R" "first_key R k"
  shows "\<exists>h'. border_end ti (addr_of l) (addr_of r) h = Some h' \<and> grown_to h ti par [] l k r h'"
proof -
  obtain ni fs where f: "fresh h = ni # fs" "distinct [addr_of l, addr_of r, ni, par]"
    using split_ready_Nil [OF s(1)] by metis
  obtain L where n: "nodes h (addr_of l) = Some L" using split_state_nodes [OF s(2)] .
  have p: "parent (node_base L) = par" using s(2) n by (auto simp: split_state_def get_base_def node_flags_def)
  have o: "owned h ti par (addr_of l)" using s(1) by (simp add: split_ready_def)
  have d3: "distinct [addr_of l, addr_of r, ni]" using f(2) by simp
  have fk: "get_key_slice_at (node_base R) 0 = Some (fst k)" "get_key_length_at (node_base R) 0 = Some (snd k)"
    using R(2) by (simp_all add: first_key_def)
  show ?thesis
  proof (cases "par = nullptr")
    case True
    then obtain g where g: "store_root_ptr ti ni h = Some g" using o store_root_some [of ti h "addr_of l"] by (auto simp: owned_def)
    have "border_end ti (addr_of l) (addr_of r) h = Some (closed g (addr_of l) L (addr_of r) R k ni fs nullptr)"
      using close_null [OF d3 g] create_interior_parent_of_border_eq [OF n R(1) f(1) d3 fk] lock_parent_null [OF n] p True
      by (simp add: border_end_def)
    then show ?thesis using grown_null [of h ti l k r ni fs L R g] s f(1) n R(1) g True by simp
  next
    case False
    then obtain b i where b: "nodes h par = Some (Border b)" "border (version (border_base b))"
      "is_stable (version (border_base b))" "get_lv b (addr_of l) = Some i" using o by (auto simp: owned_def)
    let ?h = "set_node par (Border (owner_busy b)) h"
    have ne: "addr_of l \<noteq> par" "addr_of r \<noteq> par" using f(2) by auto
    have "lock_parent (addr_of l) h = Some (par, set_node par (node_map_base locked_base (Border b)) h)"
      using lock_parent_eq [OF n p False _ b(1)] b(3) ne by (auto simp: is_stable_def)
    moreover have "create_interior_parent_of_border (addr_of l) (addr_of r) ?h =
        Some (ni, paired ?h (addr_of l) L (addr_of r) R k ni fs)"
      using f n R(1) ne fk by (intro create_interior_parent_of_border_eq) simp_all
    moreover have "do { h \<leftarrow> unlock_at (addr_of l) (paired ?h (addr_of l) L (addr_of r) R k ni fs); h \<leftarrow> unlock_at (addr_of r) h;
        h \<leftarrow> upd_base ni (set_parent par) h; h \<leftarrow> unlock_at ni h; h \<leftarrow> replace_layer par (addr_of l) ni h; unlock_at par h } =
      Some (set_node par (Border (slot_replaced (owner_busy b) i ni)) (closed ?h (addr_of l) L (addr_of r) R k ni fs par))"
      using f(2) b(4) by (intro close_border(2)) simp_all
    ultimately have "border_end ti (addr_of l) (addr_of r) h =
        Some (set_node par (Border (slot_replaced (owner_busy b) i ni)) (closed ?h (addr_of l) L (addr_of r) R k ni fs par))"
      using False b(2) by (simp add: border_end_def heap_run owner_busy_def set_border_base_def)
    then show ?thesis using grown_border [OF s f(1) n R(1) False b(1,4)] by blast
  qed
qed

text \<open>The halves below a branch: first both are unlocked, then the new one gets its parent.\<close>

lemma border_end_attached:
  assumes s: "split_ready h ti par ((p, ks, ls, rs) # c) l k r" "split_state h par ((p, ks, ls, rs) # c) l r"
    and n: "nodes h (addr_of l) = Some L" "nodes h (addr_of r) = Some (Border d)" and k: "first_key (Border d) k"
  shows "\<exists>h1 h2. border_end ti (addr_of l) (addr_of r) h =
      (if length ks = key_slice_length then interior_split ti p (addr_of r) k h1
       else do { h \<leftarrow> upd_interior p (insert_child (addr_of r) k) h2; unlock_at p h }) \<and>
    (\<forall>h' \<in> {h1, h2}. attach_state h' par ((p, ks, ls, rs) # c) l r \<and> same_static h h' \<and> nodes h' par = nodes h par \<and>
      fresh h' = fresh h \<and> border_frame (footprint h par ((p, ks, ls, rs) # c) l r) (insert par (set (fresh h))) h h') \<and>
    tree_at h2 p False r"
proof -
  note d = split_ready_Cons [OF s(1)]
  have pl: "parent (node_base L) = p" using s(2) n(1) by (auto simp: split_state_def get_base_def node_flags_def)
  obtain i where i: "nodes h p = Some (Interior i)" "is_stable (version (interior_base i))"
    "\<not> border (version (interior_base i))" "interior_wf i" "interior_keys i = ks"
    using s(2) by (auto simp: split_state_def branch_node_def Let_def split: option.splits node.splits)
  let ?P = "node_map_base locked_base (Interior i)"
  let ?f = "set_version_root False"
  let ?h = "\<lambda>g. set_node (addr_of r) (node_map_base (version_unlock \<circ> g) (Border d))
    (set_node (addr_of l) (node_map_base (version_unlock \<circ> ?f) L) (set_node p ?P h))"
  let ?g = "set_parent p \<circ> ?f"
  have "lock_parent (addr_of l) h = Some (p, set_node p ?P h)"
    using lock_parent_eq [OF n(1) pl d(1,2) i(1)] i(2) by (simp add: is_stable_def)
  moreover have "get_key_slice_at (version_unlock (?f (border_base d))) 0 = Some (fst k)"
    "get_key_length_at (version_unlock (?f (border_base d))) 0 = Some (snd k)"
    using k by (simp_all add: first_key_def version_unlock_def set_version_root_def get_key_slice_at_def get_key_length_at_def)
  moreover have "set_parent p (version_unlock (?f b)) = version_unlock (set_parent p (?f b))" for b
    by (simp add: version_unlock_def set_parent_def)
  ultimately have e: "border_end ti (addr_of l) (addr_of r) h =
      (if length ks = key_slice_length then interior_split ti p (addr_of r) k (?h ?f)
       else do { h \<leftarrow> upd_interior p (insert_child (addr_of r) k) (?h ?g); unlock_at p h })"
    using d(1-4) i(3) n length_interior(1) [OF i(4)] i(5)
    by (simp add: border_end_def heap_run set_node_commute comp_def) (simp add: heap_run set_node_commute set_interior_base_def set_border_base_def comp_def)
  have ok: "attach_state (?h g) par ((p, ks, ls, rs) # c) l r \<and> same_static h (?h g) \<and> nodes (?h g) par = nodes h par \<and>
      fresh (?h g) = fresh h \<and> border_frame (footprint h par ((p, ks, ls, rs) # c) l r) (insert par (set (fresh h))) h (?h g)"
      "tree_at (?h g) (parent (g (border_base d))) False r"
    if "g = ?f \<or> g = set_parent p \<or> g = ?g" for g
  proof -
    have "rebased (Border d) (Border (set_border_base (version_unlock \<circ> g) d))"
      using rebased_map [of "version_unlock \<circ> g" "Border d" "Border d"] that by auto
    then have "border_frame (footprint h par ((p, ks, ls, rs) # c) l r) (insert par (set (fresh h))) h (?h g)"
      using n i(1) by (intro border_frame_set) (auto simp: footprint_def intro!: rebased_map)
    moreover have "attach_state (?h g) par ((p, ks, ls, rs) # c) l r"
      using attach_state_intro(1) [OF s n i(1), of "?h g" ?f g] d(2-4) that by (auto simp del: attach_state.simps)
    ultimately show "attach_state (?h g) par ((p, ks, ls, rs) # c) l r \<and> same_static h (?h g) \<and> nodes (?h g) par = nodes h par \<and>
      fresh (?h g) = fresh h \<and> border_frame (footprint h par ((p, ks, ls, rs) # c) l r) (insert par (set (fresh h))) h (?h g)"
      using d(5-7) by (simp del: attach_state.simps)
    show "tree_at (?h g) (parent (g (border_base d))) False r"
      using attach_state_intro(2) [OF s n i(1), of "?h g" ?f g] d(2-4) that by auto
  qed
  have "tree_at (?h ?g) p False r" using ok(2) [of ?g] by (simp add: set_parent_def)
  then show ?thesis using e ok(1) [of ?f] ok(1) [of ?g] by (intro exI [of _ "?h ?f"] exI [of _ "?h ?g"]) blast
qed

lemma border_end_grows:
  assumes s: "split_ready h ti par c l k r" "split_state h par c l r"
    and R: "nodes h (addr_of r) = Some (Border d)" "first_key (Border d) k"
  shows "\<exists>h'. border_end ti (addr_of l) (addr_of r) h = Some h' \<and> grown_to h ti par c l k r h'"
proof (cases c)
  case Nil
  then show ?thesis using border_end_top s R by blast
next
  case (Cons fr c')
  obtain p ks ls rs where c: "c = (p, ks, ls, rs) # c'" using Cons by (cases fr) auto
  obtain L where n: "nodes h (addr_of l) = Some L" using split_state_nodes [OF s(2)] .
  obtain h1 h2 where e: "border_end ti (addr_of l) (addr_of r) h =
      (if length ks = key_slice_length then interior_split ti p (addr_of r) k h1
       else do { h \<leftarrow> upd_interior p (insert_child (addr_of r) k) h2; unlock_at p h })"
    and a: "\<forall>h' \<in> {h1, h2}. attach_state h' par c l r \<and> same_static h h' \<and> nodes h' par = nodes h par \<and>
      fresh h' = fresh h \<and> border_frame (footprint h par c l r) (insert par (set (fresh h))) h h'" and r: "tree_at h2 p False r"
    using border_end_attached [OF s(1) [unfolded c] s(2) [unfolded c] n R] unfolding c [symmetric] by blast
  have le: "length ks \<le> key_slice_length" using s(1) by (simp add: c split_ready_def split_ok_def)
  have h1: "attach_state h1 par c l r" "same_static h h1" "nodes h1 par = nodes h par" "fresh h1 = fresh h"
      "border_frame (footprint h par c l r) (insert par (set (fresh h))) h h1"
    and h2: "attach_state h2 par c l r" "same_static h h2" "nodes h2 par = nodes h par" "fresh h2 = fresh h"
      "border_frame (footprint h par c l r) (insert par (set (fresh h))) h h2" using a by blast+
  show ?thesis
  proof (cases "length ks = key_slice_length")
    case True
    then obtain h' where "interior_split ti p (addr_of r) k h1 = Some h'" "grown_to h1 ti par c l k r h'"
      using interior_split_grows [OF h1(1) attached_ready [OF s(1) h1(2-4)] _ refl] by (auto simp: c)
    then show ?thesis using attached_grown [OF h1(5,2-4), of ti k h'] e True by simp
  next
    case False
    then obtain h' where "do { h \<leftarrow> upd_interior p (insert_child (addr_of r) k) h2; unlock_at p h } = Some h'" "grown_to h2 ti par c l k r h'"
      using grown_room [OF h2(1) [unfolded c] attached_ready [OF s(1) h2(2-4), unfolded c] _ r] le unfolding c by fastforce
    then show ?thesis using attached_grown [OF h2(5,2-4), of ti k h'] e False by simp
  qed
qed

end
