(* ===== verification/Leaf_Links.thy ===== *)
theory Leaf_Links
  imports Border_End
begin

text \<open>
  The links between the leaves of a layer, and what else an insertion leaves of the border
  nodes it does not touch: their slots and their order.
\<close>

section \<open>Leaves of all layers\<close>

fun leaf_addrs :: "tree \<Rightarrow> addr list" and content_leaves :: "content \<Rightarrow> addr list" where
  "leaf_addrs (Leaf p es) = p # concat (map (\<lambda>(k, c). content_leaves c) es)"
| "leaf_addrs (Branch p ks ts) = concat (map leaf_addrs ts)"
| "content_leaves (Val v) = []"
| "content_leaves (Sub t) = leaf_addrs t"

lemma leaf_addrs_Leaf [simp]: "leaf_addrs (Leaf p es) = p # concat (map content_leaves (map snd es))"
  by (simp add: leaf_addrs.simps(1) o_def case_prod_beta')

declare leaf_addrs.simps(1) [simp del]

lemma leaf_addrs_sub: "set (leaf_addrs t) \<subseteq> set (tree_addrs t)"
proof (induction t rule: tree_induct)
  case (Leaf p es)
  have "set (content_leaves c) \<subseteq> set (content_addrs c)" if c: "c \<in> set (map snd es)" for c
  proof (cases c)
    case (Sub t)
    then obtain k where "(k, Sub t) \<in> set es" using c by force
    then show ?thesis using Leaf [of k t] Sub by simp
  qed simp
  then show ?case unfolding leaf_addrs_Leaf tree_addrs_Leaf set_concat set_map list.set by blast
next
  case (Branch p ks ts)
  then show ?case by fastforce
qed

lemma leaves_distinct: "distinct (tree_addrs t) \<Longrightarrow> distinct (map fst (layer_leaves t))"
proof (induction t rule: tree_induct)
  case (Branch p ks ts)
  have "distinct (concat (map tree_addrs us)) \<Longrightarrow> set us \<subseteq> set ts \<Longrightarrow> distinct (map fst (concat (map layer_leaves us)))" for us
  proof (induction us)
    case (Cons u us)
    have sub: "set (map fst (concat (map layer_leaves us))) \<subseteq> set (concat (map tree_addrs us))" using leaves_in_addrs by fastforce
    have "set (map fst (layer_leaves u)) \<subseteq> set (tree_addrs u)" using leaves_in_addrs by simp
    moreover have d: "distinct (tree_addrs u)" "distinct (concat (map tree_addrs us))"
        "set (tree_addrs u) \<inter> set (concat (map tree_addrs us)) = {}" using Cons.prems(1) by simp_all
    ultimately have "set (map fst (layer_leaves u)) \<inter> set (map fst (concat (map layer_leaves us))) = {}" using sub by blast
    moreover have "distinct (map fst (layer_leaves u))" using Branch.IH Cons.prems(2) d(1) by simp
    ultimately show ?case using Cons.IH [OF d(2)] Cons.prems(2) by simp
  qed simp
  from this [of ts] show ?case using Branch.prems by simp
qed simp

lemma leaves_valid: "tree_wf t \<Longrightarrow> a \<in> fst ` set (layer_leaves t) \<Longrightarrow> valid_ptr a"
proof (induction t rule: tree_induct)
  case (Branch p ks ts)
  obtain t where t: "t \<in> set ts" "a \<in> fst ` set (layer_leaves t)" using Branch.prems(2) by auto
  then show ?case using Branch.IH [OF t(1)] Branch.prems(1) by simp
qed simp

lemma concat_plug:
  assumes "\<And>p ks ts. f (Branch p ks ts) = concat (map f ts)"
  shows "f (plug c t) = ctx_left f c @ f t @ ctx_right f c"
  using assms by (induction c t rule: plug.induct) simp_all

lemma concat_grow:
  assumes "\<And>p ks ts. f (Branch p ks ts) = concat (map f ts)"
  shows "f (grow c l k r qs) = ctx_left f c @ f l @ f r @ ctx_right f c"
proof (induction c l k r qs rule: grow_induct)
  case (Full p ks ls rs c l k r qs ks' ts' m)
  have "concat (map f (take (Suc m) ts')) @ concat (map f (drop (Suc m) ts')) @ X =
      concat (map f ls) @ f l @ f r @ concat (map f rs) @ X" for X
    using take_drop_concat [of f "Suc m" ts'] by (simp add: Full(3) flip: append_assoc)
  then show ?case using Full(6) assms unfolding Full(5) by simp
next
  case (Room p ks ls rs c l k r qs)
  show ?case unfolding Room(2) concat_plug [OF assms] using assms by simp
qed (simp add: assms)

section \<open>Border nodes that keep their slots\<close>

definition keeps_slots :: "heap \<Rightarrow> heap \<Rightarrow> addr \<Rightarrow> bool" where
  "keeps_slots h h' a \<longleftrightarrow> (\<forall>b. nodes h a = Some (Border b) \<longrightarrow>
     (\<exists>b'. nodes h' a = Some (Border b') \<and> lv_arr b' = lv_arr b \<and> perm_body b' = perm_body b))"

definition keeps_links :: "heap \<Rightarrow> heap \<Rightarrow> addr \<Rightarrow> bool" where
  "keeps_links h h' a \<longleftrightarrow> (\<forall>b. nodes h a = Some (Border b) \<longrightarrow>
     (\<exists>b'. nodes h' a = Some (Border b') \<and> prev_node b' = prev_node b \<and> next_node b' = next_node b))"

lemma keeps_same: "nodes h' a = nodes h a \<Longrightarrow> keeps_slots h h' a \<and> keeps_links h h' a"
  by (simp add: keeps_slots_def keeps_links_def)

lemma keeps_rebased: "(\<And>b. nodes h a = Some (Border b) \<Longrightarrow> \<exists>n'. nodes h' a = Some n' \<and> rebased (Border b) n') \<Longrightarrow>
  keeps_slots h h' a \<and> keeps_links h h' a"
  by (fastforce simp: keeps_slots_def keeps_links_def rebased_Border)

lemma border_frame_keeps: "border_frame S X h h' \<Longrightarrow> a \<notin> X \<Longrightarrow> keeps_slots h h' a \<and> keeps_links h h' a"
  by (rule keeps_rebased) (simp add: border_frame_def)

lemma keeps_adopt: "nodes h' a = adopt S q (nodes h) a \<Longrightarrow> keeps_slots h h' a \<and> keeps_links h h' a"
  by (auto simp: keeps_slots_def keeps_links_def adopt_def set_border_base_def)

lemma keeps_trans:
  "keeps_slots h h' a \<Longrightarrow> keeps_slots h' h'' a \<Longrightarrow> keeps_slots h h'' a"
  "keeps_links h h' a \<Longrightarrow> keeps_links h' h'' a \<Longrightarrow> keeps_links h h'' a"
  unfolding keeps_slots_def keeps_links_def by metis+

definition unused_in :: "addr set \<Rightarrow> heap \<Rightarrow> addr list \<Rightarrow> bool" where
  "unused_in X h as \<longleftrightarrow> (\<forall>a \<in> set as. \<exists>b. nodes h a = Some (Border b) \<and> unused_ok X b)"

lemma unused_in_simps [simp]: "unused_in X h (as @ bs) \<longleftrightarrow> unused_in X h as \<and> unused_in X h bs"
  "unused_in X h (a # as) \<longleftrightarrow> (\<exists>b. nodes h a = Some (Border b) \<and> unused_ok X b) \<and> unused_in X h as"
  "unused_in X h []"
  by (auto simp: unused_in_def)

lemma unused_in_keeps:
  assumes "unused_in X h as" and "\<And>a. a \<in> set as \<Longrightarrow> keeps_slots h h' a"
  shows "unused_in X h' as"
  unfolding unused_in_def
proof
  fix a assume a: "a \<in> set as"
  obtain b where "nodes h a = Some (Border b)" "unused_ok X b" using assms(1) a unfolding unused_in_def by blast
  moreover from this obtain b' where "nodes h' a = Some (Border b')" "lv_arr b' = lv_arr b" "perm_body b' = perm_body b"
    using assms(2) [OF a] unfolding keeps_slots_def by blast
  ultimately show "\<exists>b. nodes h' a = Some (Border b) \<and> unused_ok X b" by (simp add: unused_ok_def)
qed

section \<open>A new leaf in the list\<close>

lemma linked_Cons: "linked h q (p # ps) \<longleftrightarrow> (\<exists>b. nodes h p = Some (Border b) \<and> prev_node b = q \<and>
    next_node b = (case ps of [] \<Rightarrow> nullptr | p' # _ \<Rightarrow> p')) \<and> linked h p ps"
  by (auto split: option.splits node.splits)

declare linked.simps(2) [simp del]

lemma linked_keeps: "linked h q ps \<Longrightarrow> (\<And>a. a \<in> set ps \<Longrightarrow> keeps_links h h' a) \<Longrightarrow> linked h' q ps"
proof (induction ps arbitrary: q)
  case (Cons p ps)
  have "keeps_links h h' p" using Cons.prems(2) by simp
  then show ?case using Cons.IH [of p] Cons.prems unfolding linked_Cons keeps_links_def by force
qed simp

lemma linked_next:
  assumes "linked h q0 (A @ p # B)" and "nodes h p = Some (Border b)"
  shows "next_node b = (case B of [] \<Rightarrow> nullptr | p' # _ \<Rightarrow> p')"
  using assms by (induction A arbitrary: q0) (auto simp: linked_Cons)

lemma linked_insert:
  assumes "linked h q0 (A @ p # B)" and "nodes h p = Some (Border b)"
    and "nodes h' p = Some (Border b1)" "prev_node b1 = prev_node b" "next_node b1 = q"
    and "nodes h' q = Some (Border d1)" "prev_node d1 = p" "next_node d1 = next_node b"
    and "\<And>a. a \<in> set A \<Longrightarrow> keeps_links h h' a" and "\<And>a. a \<in> set (tl B) \<Longrightarrow> keeps_links h h' a"
    and "\<And>x n. B = x # tl B \<Longrightarrow> nodes h x = Some (Border n) \<Longrightarrow>
      \<exists>n'. nodes h' x = Some (Border n') \<and> prev_node n' = q \<and> next_node n' = next_node n"
  shows "linked h' q0 (A @ p # q # B)"
  using assms(1,9)
proof (induction A arbitrary: q0)
  case Nil
  have n: "next_node b = (case B of [] \<Rightarrow> nullptr | x # _ \<Rightarrow> x)" using linked_next [OF Nil(1) assms(2)] .
  have "linked h' q B"
  proof (cases B)
    case (Cons x B')
    obtain m where m: "linked h x B'" "nodes h x = Some (Border m)" "next_node m = (case B' of [] \<Rightarrow> nullptr | p' # _ \<Rightarrow> p')"
      using Nil(1) Cons by (auto simp: linked_Cons)
    have "linked h' x B'" using linked_keeps [OF m(1)] assms(10) Cons by simp
    then show ?thesis using Cons assms(11) [of x m] m by (auto simp: linked_Cons)
  qed simp
  then show ?case using Nil(1) n assms(2-8) by (auto simp: linked_Cons)
next
  case (Cons a A)
  have "linked h' a (A @ p # q # B)" using Cons by (auto simp: linked_Cons)
  moreover have "keeps_links h h' a" using Cons.prems(2) by simp
  ultimately show ?case using Cons.prems(1) by (cases A) (auto simp: linked_Cons keeps_links_def)
qed

section \<open>A leaf with a new neighbour\<close>

definition same_but_links :: "border_node \<Rightarrow> border_node \<Rightarrow> bool" where
  "same_but_links b b' \<longleftrightarrow> (\<exists>p q. b' = b\<lparr>prev_node := p, next_node := q\<rparr>)"

lemma same_but_links_simps [simp]: "same_but_links b (b\<lparr>prev_node := p\<rparr>)" "same_but_links b (b\<lparr>next_node := q\<rparr>)"
proof -
  have "b\<lparr>prev_node := p\<rparr> = b\<lparr>prev_node := p, next_node := next_node b\<rparr>" "b\<lparr>next_node := q\<rparr> = b\<lparr>prev_node := prev_node b, next_node := q\<rparr>"
    by simp_all
  then show "same_but_links b (b\<lparr>prev_node := p\<rparr>)" "same_but_links b (b\<lparr>next_node := q\<rparr>)" unfolding same_but_links_def by blast+
qed

lemma same_but_links_leaf: "leaf_node par rt es b \<Longrightarrow> same_but_links b b' \<Longrightarrow> leaf_node par rt es b'"
  by (auto simp: same_but_links_def leaf_node_def border_wf_def border_entries_def border_keys_def Let_def)

lemma tree_at_relink:
  assumes "tree_at h par rt t" and "distinct (tree_addrs t)" and "x \<in> set (tree_addrs t) \<Longrightarrow> x \<in> fst ` set (layer_leaves t)"
    and "nodes h x = Some (Border n)" and "\<exists>n'. nodes h' x = Some (Border n') \<and> same_but_links n n'"
    and "\<And>a. a \<in> set (tree_addrs t) \<Longrightarrow> a \<noteq> x \<Longrightarrow> nodes h' a = nodes h a" and "pages_le (pages h) (pages h')"
  shows "tree_at h' par rt t"
proof (cases "x \<in> set (tree_addrs t)")
  case False
  then show ?thesis using tree_at_frame [OF assms(1) _ assms(7)] assms(6) by metis
next
  case True
  show ?thesis using assms(1-3,6) True
  proof (induction t arbitrary: par rt rule: tree_induct)
    case (Leaf p es)
    then have x: "x = p" by simp
    obtain b where b: "nodes h p = Some (Border b)" "leaf_node par rt es b" "\<forall>c \<in> set (map snd es). content_at h p c"
      using Leaf.prems(1) unfolding tree_at_contents by blast
    have "content_at h' p c" if c: "c \<in> set (map snd es)" for c
    proof (rule content_at_frame [OF _ _ assms(7)])
      show "content_at h p c" using b(3) c by blast
      show "nodes h' a = nodes h a" if "a \<in> set (content_addrs c)" for a
      proof (rule Leaf.prems(4))
        have a: "a \<in> set (tl (tree_addrs (Leaf p es)))" using content_addrs_sub [OF c] that by blast
        then show "a \<in> set (tree_addrs (Leaf p es))" using tl_addrs_sub [of "Leaf p es"] by blast
        have "p \<notin> set (tl (tree_addrs (Leaf p es)))" using Leaf.prems(2) by simp
        then show "a \<noteq> x" using a x by metis
      qed
    qed
    then show ?case using assms(4,5) b(1) x same_but_links_leaf [OF b(2)] unfolding tree_at_contents by auto
  next
    case (Branch p ks ts)
    have d: "distinct (concat (map tree_addrs ts))" "p \<notin> set (concat (map tree_addrs ts))" using Branch.prems(2) by simp_all
    obtain u where u: "u \<in> set ts" "x \<in> fst ` set (layer_leaves u)" using Branch.prems(3,5) by auto
    then have xu: "x \<in> set (tree_addrs u)" using leaves_in_addrs [of u] by blast
    have px: "p \<noteq> x" using d(2) set_concat_map [OF u(1), of tree_addrs] xu by blast
    have "tree_at h' p False t" if t: "t \<in> set ts" for t
    proof -
      have a: "tree_at h p False t" using Branch.prems(1) t by (auto simp: tree_at_Branch)
      have sub: "nodes h' a = nodes h a" if "a \<in> set (tree_addrs t)" "a \<noteq> x" for a
        using Branch.prems(4) [of a] child_addrs_sub [OF t, of p ks] tl_addrs_sub [of "Branch p ks ts"] that by blast
      show ?thesis
      proof (cases "x \<in> set (tree_addrs t)")
        case True
        then have "t = u" using forest_same [OF d(1) t u(1) _ xu] by blast
        then show ?thesis using Branch.IH [OF t a forest_tree [OF d(1) t] _ sub True] u(2) by blast
      next
        case False
        then show ?thesis using tree_at_frame [OF a _ assms(7)] sub by metis
      qed
    qed
    moreover have "nodes h' p = nodes h p" using Branch.prems(4) px by simp
    ultimately show ?case using Branch.prems(1) by (auto simp: tree_at_Branch)
  qed
qed

lemma ctx_leaves_sub: "fst ` set (ctx_left layer_leaves c @ ctx_right layer_leaves c) \<subseteq> set (ctx_addrs c)"
proof (induction c)
  case (Cons g c)
  obtain p ks ls rs where g: "g = (p, ks, ls, rs)" by (cases g) auto
  have "fst ` set (concat (map layer_leaves ts)) \<subseteq> set (concat (map tree_addrs ts))" for ts
    using leaves_in_addrs by fastforce
  from this [of ls] this [of rs] show ?case using Cons
    unfolding g ctx_left.simps ctx_right.simps ctx_addrs.simps set_append image_Un list.set by blast
qed simp

lemma ctx_at_relink:
  assumes "ctx_at h par c a" and "distinct (ctx_addrs c)"
    and "x \<in> set (ctx_addrs c) \<Longrightarrow> x \<in> fst ` set (ctx_left layer_leaves c @ ctx_right layer_leaves c)"
    and "nodes h x = Some (Border n)" and "\<exists>n'. nodes h' x = Some (Border n') \<and> same_but_links n n'"
    and "\<And>y. y \<in> set (ctx_addrs c) \<Longrightarrow> y \<noteq> x \<Longrightarrow> nodes h' y = nodes h y" and "pages_le (pages h) (pages h')"
  shows "ctx_at h' par c a"
  using assms(1-3,6)
proof (induction c arbitrary: a)
  case (Cons f c)
  obtain p ks ls rs where f: "f = (p, ks, ls, rs)" by (cases f) auto
  let ?F = "map tree_addrs (ls @ rs)"
  have d: "distinct (p # concat ?F @ ctx_addrs c)" using Cons.prems(2) by (simp add: f)
  have at: "ctx_at h par c p" "\<And>t. t \<in> set (ls @ rs) \<Longrightarrow> tree_at h p False t" using Cons.prems(1) by (auto simp: f)
  have sub: "set (tree_addrs t) \<subseteq> set (concat ?F)" if "t \<in> set (ls @ rs)" for t using set_concat_map [OF that, of tree_addrs] by simp
  have leaf: "x = fst y \<Longrightarrow> y \<in> set (layer_leaves t) \<Longrightarrow> x \<in> set (tree_addrs t)" for y t using leaves_in_addrs [of t] by blast
  note lc = ctx_leaves_sub [of c]
  have xl: "x \<in> set (concat ?F) \<or> x \<in> set (ctx_addrs c) \<Longrightarrow>
      x \<in> fst ` set (concat (map layer_leaves (ls @ rs))) \<or> x \<in> fst ` set (ctx_left layer_leaves c @ ctx_right layer_leaves c)"
    using Cons.prems(3) by (auto simp: f)
  have lF: "fst ` set (concat (map layer_leaves (ls @ rs))) \<subseteq> set (concat ?F)"
    using leaves_in_addrs by fastforce
  have px: "nodes h' p = nodes h p"
  proof (cases "x = p")
    case True
    then have "x \<in> fst ` set (concat (map layer_leaves (ls @ rs))) \<or> x \<in> fst ` set (ctx_left layer_leaves c @ ctx_right layer_leaves c)"
      using Cons.prems(3) by (auto simp: f)
    then have "p \<in> set (concat ?F @ ctx_addrs c)" using True lF lc unfolding set_append by blast
    then show ?thesis using d unfolding distinct.simps by blast
  qed (use Cons.prems(4) in \<open>simp add: f\<close>)
  have "ctx_at h' par c p"
  proof (rule Cons.IH [OF at(1)])
    show "distinct (ctx_addrs c)" using d by simp
    show "nodes h' y = nodes h y" if "y \<in> set (ctx_addrs c)" "y \<noteq> x" for y using Cons.prems(4) that by (simp add: f)
    show "x \<in> fst ` set (ctx_left layer_leaves c @ ctx_right layer_leaves c)" if "x \<in> set (ctx_addrs c)"
    proof -
      have "x \<notin> set (concat ?F)" using d that by auto
      then show ?thesis using xl that lF by blast
    qed
  qed
  moreover have "tree_at h' p False t" if t: "t \<in> set (ls @ rs)" for t
  proof (rule tree_at_relink [OF at(2) [OF t] _ _ assms(4,5) _ assms(7)])
    have dF: "distinct (concat ?F)" using d unfolding distinct.simps distinct_append by blast
    show "distinct (tree_addrs t)" using forest_tree [OF dF t] .
    show "nodes h' y = nodes h y" if "y \<in> set (tree_addrs t)" "y \<noteq> x" for y
    proof (rule Cons.prems(4) [OF _ that(2)])
      have "y \<in> set (concat ?F)" using sub [OF t] that(1) by blast
      then show "y \<in> set (ctx_addrs (f # c))" by (auto simp: f)
    qed
    show "x \<in> fst ` set (layer_leaves t)" if x: "x \<in> set (tree_addrs t)"
    proof -
      have xF: "x \<in> set (concat ?F)" using sub [OF t] x by blast
      then have "x \<notin> set (ctx_addrs c)" using d by auto
      then have "x \<in> fst ` set (concat (map layer_leaves (ls @ rs)))" using xl xF lc by blast
      then obtain u where u: "u \<in> set (ls @ rs)" "x \<in> fst ` set (layer_leaves u)" by auto
      then have "x \<in> set (tree_addrs u)" using leaves_in_addrs [of u] by blast
      then have "t = u" using forest_same [OF dF t u(1) x] by blast
      then show ?thesis using u by blast
    qed
  qed
  ultimately show ?case using Cons.prems(1) px by (auto simp: f)
qed simp

end
