(* ===== verification/Tree_Prune.thy ===== *)
theory Tree_Prune
  imports Leaf_Links
begin

text \<open>
  A layer without the leaf at the end of a path: the branch above it loses a child and a
  pivot, and a branch that would be left with one child makes place for that child.
\<close>

fun prune :: "frame list \<Rightarrow> tree" where
  "prune ((p, ks, ls, rs) # c) = plug c (if length ks = 1 then hd (ls @ rs) else Branch p (del_at (length ls - 1) ks) (ls @ rs))"
| "prune [] = Leaf nullptr []"

text \<open>The branches that disappear.\<close>

fun pruned :: "frame list \<Rightarrow> addr list" where
  "pruned ((p, ks, ls, rs) # c) = (if length ks = 1 then [p] else [])"
| "pruned [] = []"

lemma frame_lengths: "frame_wf (p, ks, ls, rs) \<Longrightarrow> length ls + length rs = length ks"
  by (simp add: pivots_ok_def)

lemma single_child: "frame_wf (p, ks, ls, rs) \<Longrightarrow> length ks = 1 \<Longrightarrow> ls @ rs = [hd (ls @ rs)]"
  using frame_lengths [of p ks ls rs] by (cases "ls @ rs") (auto simp flip: length_append)

lemma concat_prune:
  assumes "\<And>p ks ts. f (Branch p ks ts) = concat (map f ts)" and "ctx_wf (g # c)"
  shows "f (prune (g # c)) = ctx_left f (g # c) @ ctx_right f (g # c)"
proof -
  obtain p ks ls rs where g: "g = (p, ks, ls, rs)" by (cases g) auto
  have w: "frame_wf (p, ks, ls, rs)" using assms(2) g by simp
  let ?t = "if length ks = 1 then hd (ls @ rs) else Branch p (del_at (length ls - 1) ks) (ls @ rs)"
  have "f ?t = concat (map f (ls @ rs))"
  proof (cases "length ks = 1")
    case True
    then have "concat (map f (ls @ rs)) = f (hd (ls @ rs))" by (subst single_child [OF w]) simp_all
    then show ?thesis using True by simp
  qed (simp only: assms(1) if_False)
  then show ?thesis using concat_plug [of f c ?t] assms(1) by (simp add: g)
qed

lemma prune_addrs:
  assumes "ctx_wf (g # c)"
  shows "mset (tree_addrs (prune (g # c))) + mset (pruned (g # c)) = mset (ctx_addrs (g # c))"
proof -
  obtain p ks ls rs where g: "g = (p, ks, ls, rs)" by (cases g) auto
  have w: "frame_wf (p, ks, ls, rs)" using assms g by simp
  have "mset (concat (map tree_addrs (ls @ rs))) = mset (tree_addrs (hd (ls @ rs)))" if "length ks = 1"
    by (subst single_child [OF w that]) simp
  then show ?thesis by (simp add: g tree_addrs_plug)
qed

lemma pivots_ok_del:
  assumes "pivots_ok ks (A @ {} # B)" and "2 \<le> length ks"
  shows "pivots_ok (del_at (length A - 1) ks) (A @ B)"
proof -
  let ?m = "length A"
  have l: "length A + length B = length ks"
    and o: "\<And>i j k. i < length ks \<Longrightarrow> j \<le> length ks \<Longrightarrow> k \<in> (A @ {} # B) ! j \<Longrightarrow>
      if i < j then key_ord (ks ! i) \<le> key_ord k else key_ord k < key_ord (ks ! i)"
    using assms(1) unfolding pivots_ok_iff by auto
  have d: "length (del_at (?m - 1) ks) = length ks - 1" using l assms(2) by (intro length_del_at) linarith
  have "if i < j then key_ord (del_at (?m - 1) ks ! i) \<le> key_ord k else key_ord k < key_ord (del_at (?m - 1) ks ! i)"
    if i: "i < length ks - 1" and j: "j \<le> length ks - 1" and k: "k \<in> (A @ B) ! j" for i j k
  proof -
    let ?i = "if i < ?m - 1 then i else Suc i" and ?j = "if j < ?m then j else Suc j"
    have e: "del_at (?m - 1) ks ! i = ks ! ?i" using i l assms(2) nth_del_at [of "?m - 1" ks i] by auto
    have "(A @ {} # B) ! ?j = (A @ B) ! j" by (auto simp: nth_append Suc_diff_le)
    then have "if ?i < ?j then key_ord (ks ! ?i) \<le> key_ord k else key_ord k < key_ord (ks ! ?i)"
      using i j k l by (intro o) auto
    moreover have "?i < ?j \<longleftrightarrow> i < j" by auto
    ultimately show ?thesis unfolding e by simp
  qed
  moreover have "length (A @ B) = Suc (length ks - 1)" using l assms(2) by simp
  ultimately show ?thesis unfolding pivots_ok_iff d by blast
qed

lemma prune_wf:
  assumes "ctx_wf (g # c)"
  shows "tree_wf (prune (g # c))" and "layer_entries (prune (g # c)) \<noteq> []" and "tree_keys (prune (g # c)) \<subseteq> \<Union> (frame_keys ` set (g # c))"
proof -
  obtain p ks ls rs where g: "g = (p, ks, ls, rs)" by (cases g) auto
  have w: "frame_wf (p, ks, ls, rs)" and fit: "\<forall>k \<in> frame_keys g. fits c k" and c: "ctx_wf c" using assms g by simp_all
  let ?t = "if length ks = 1 then hd (ls @ rs) else Branch p (del_at (length ls - 1) ks) (ls @ rs)"
  have f: "valid_ptr p" "ks \<noteq> []" "length ks \<le> key_slice_length" "key_sorted ks" "pivots_ok ks (map tree_keys ls @ {} # map tree_keys rs)"
    "\<And>t. t \<in> set (ls @ rs) \<Longrightarrow> layer_entries t \<noteq> [] \<and> tree_wf t" using w by auto
  have "tree_wf ?t \<and> layer_entries ?t \<noteq> [] \<and> tree_keys ?t \<subseteq> frame_keys g"
  proof (cases "length ks = 1")
    case True
    have "hd (ls @ rs) \<in> set (ls @ rs)" using single_child [OF w True] hd_in_set by (metis list.discI)
    then show ?thesis using True f(6) g by auto
  next
    case False
    then have l: "2 \<le> length ks" using f(2) by (cases ks) (auto simp: Suc_le_eq)
    then have ne: "ls @ rs \<noteq> []" using frame_lengths [OF w] by auto
    have "pivots_ok (del_at (length ls - 1) ks) (map tree_keys (ls @ rs))" using pivots_ok_del [OF f(5) l] by simp
    moreover have "length (del_at (length ls - 1) ks) = length ks - 1" using frame_lengths [OF w] l by (intro length_del_at) linarith
    moreover from this have "del_at (length ls - 1) ks \<noteq> []" using l by (cases "del_at (length ls - 1) ks") auto
    ultimately have "tree_wf (Branch p (del_at (length ls - 1) ks) (ls @ rs))"
      using f(1,3,6) key_sorted_del_at [OF f(4)] l by simp
    moreover have "concat (map layer_entries (ls @ rs)) \<noteq> []" using ne f(6) by (cases "ls @ rs") auto
    ultimately show ?thesis using False set_del_at_subset [of "length ls - 1" ks] by (auto simp: g)
  qed
  then obtain t where t: "prune (g # c) = plug c t" "tree_wf t" "layer_entries t \<noteq> []" "tree_keys t \<subseteq> frame_keys g" unfolding g by auto
  have "\<forall>k \<in> tree_keys t. fits c k" using t(4) fit by blast
  then show "tree_wf (prune (g # c))" unfolding t(1) tree_wf_plug using t(2,3) c by blast
  show "layer_entries (prune (g # c)) \<noteq> []" using t(3) by (simp add: t(1) layer_plug)
  show "tree_keys (prune (g # c)) \<subseteq> \<Union> (frame_keys ` set (g # c))" using t(4) unfolding t(1) tree_keys_plug list.set image_insert Union_insert by blast
qed

end
