(* ===== verification/Border_Split.thy ===== *)
theory Border_Split
  imports Leaf_Links
begin

text \<open>
  \<^verbatim>\<open>border_split\<close> on the trees of the heap: the layer grows by a leaf, the new key is in it,
  the list of leaves is intact and the sublayers have moved with their entries.
\<close>

section \<open>Sublayers\<close>

fun subs :: "content list \<Rightarrow> tree list" where
  "subs [] = []"
| "subs (Val v # cs) = subs cs"
| "subs (Sub t # cs) = t # subs cs"

lemma set_subs: "t \<in> set (subs cs) \<longleftrightarrow> Sub t \<in> set cs"
  by (induction cs rule: subs.induct) auto

lemma concat_subs: "concat (map content_addrs cs) = concat (map tree_addrs (subs cs))"
  by (induction cs rule: subs.induct) simp_all

text \<open>A leaf that is locked and being changed.\<close>

definition lv_entries :: "(key \<times> content) list \<Rightarrow> (key \<times> link_or_value) list" where
  "lv_entries es = map (\<lambda>(k, c). (k, lv_word c)) es"

lemma lv_entries_simps [simp]: "length (lv_entries es) = length es" "map fst (lv_entries es) = map fst es"
  "lv_entries (take n es) = take n (lv_entries es)" "lv_entries (drop n es) = drop n (lv_entries es)"
  "lv_entries (ins_at r (k, c) es) = ins_at r (k, lv_word c) (lv_entries es)"
  by (simp_all add: lv_entries_def take_map drop_map case_prod_beta' comp_def ins_at_def)

lemma fst_lv_entries: "i < length es \<Longrightarrow> fst (lv_entries es ! i) = fst (es ! i)"
  by (simp add: lv_entries_def case_prod_beta')

lemma links_entries:
  assumes "\<And>k c. (k, c) \<in> set es \<Longrightarrow> content_wf k c"
  shows "links (lv_entries es) = addr_of ` set (subs (map snd es))"
proof -
  have v: "get_next_layer (lv_word (Val v)) = nullptr" if "(k, Val v) \<in> set es" for k v
    using assms [OF that] by (simp add: value_word_def)
  have t: "get_next_layer (lv_word (Sub t)) = addr_of t" "addr_of t \<noteq> nullptr" if "(k, Sub t) \<in> set es" for k t
    using assms [OF that] tree_wf_valid_ptr [of t] set_next_layer_roundtrip(1) by (auto simp: valid_ptr_def)
  have e: "get_next_layer ` snd ` set (lv_entries es) = (\<lambda>c. get_next_layer (lv_word c)) ` set (map snd es)"
    by (simp add: lv_entries_def image_image case_prod_beta')
  show ?thesis
  proof (intro equalityI subsetI)
    fix a assume "a \<in> links (lv_entries es)"
    then obtain c where c: "c \<in> set (map snd es)" "a = get_next_layer (lv_word c)" "a \<noteq> nullptr" unfolding links_def e by blast
    then obtain k where "(k, c) \<in> set es" by force
    then show "a \<in> addr_of ` set (subs (map snd es))" using c v t by (cases c) (auto simp: set_subs intro!: imageI)
  next
    fix a assume "a \<in> addr_of ` set (subs (map snd es))"
    then obtain t where c: "Sub t \<in> set (map snd es)" "a = addr_of t" by (auto simp: set_subs)
    then obtain k where "(k, Sub t) \<in> set es" by force
    then have "a = get_next_layer (lv_word (Sub t))" "a \<noteq> nullptr" using t c(2) by auto
    then show "a \<in> links (lv_entries es)" unfolding links_def e using c(1) by blast
  qed
qed

definition leaf_busy :: "heap \<Rightarrow> addr \<Rightarrow> frame list \<Rightarrow> addr \<Rightarrow> (key \<times> content) list \<Rightarrow> border_node \<Rightarrow> bool" where
  "leaf_busy h par C p es b \<longleftrightarrow> nodes h p = Some (Border b) \<and> border_wf b \<and> border_entries b = lv_entries es \<and>
     node_flags (ctx_parent par C) (C = []) True (border_base b) \<and> (\<forall>c \<in> set (map snd es). content_at h p c) \<and> ctx_at h par C p"

section \<open>What the split does to the other nodes\<close>

text \<open>
  The sublayers of the moved entries have the new parent \<open>q\<close>, the right neighbour \<open>x\<close> has the
  new left neighbour, and the nodes in \<open>N\<close> are written.
\<close>

definition moved :: "heap \<Rightarrow> addr set \<Rightarrow> addr set \<Rightarrow> addr \<Rightarrow> addr \<Rightarrow> heap \<Rightarrow> bool" where
  "moved h N L q x h' \<longleftrightarrow> (\<forall>a. a \<notin> N \<longrightarrow> nodes h' a = adopt L q (relinked q x (nodes h)) a) \<and> same_static h h'"

lemma moved_same: "moved h N L q x h' \<Longrightarrow> a \<notin> N \<Longrightarrow> a \<notin> L \<Longrightarrow> a \<noteq> x \<or> x = nullptr \<Longrightarrow> nodes h' a = nodes h a"
  by (simp add: moved_def relinked_other)

lemma moved_adopted:
  "moved h N L q x h' \<Longrightarrow> a \<notin> N \<Longrightarrow> a \<in> L \<Longrightarrow> a \<noteq> x \<or> x = nullptr \<Longrightarrow>
   nodes h' a = map_option (node_map_base (set_parent q)) (nodes h a)"
  by (simp add: moved_def relinked_other adopt_in)

lemma moved_neighbour:
  "moved h N L q x h' \<Longrightarrow> x \<notin> N \<Longrightarrow> x \<notin> L \<Longrightarrow> x \<noteq> nullptr \<Longrightarrow> nodes h x = Some (Border n) \<Longrightarrow>
   nodes h' x = Some (Border (n\<lparr>prev_node := q\<rparr>))"
  by (simp add: moved_def relinked_def set_prev_def)

lemma moved_keeps:
  assumes "moved h N L q x h'" and "a \<notin> N"
  shows "keeps_slots h h' a" and "a \<noteq> x \<or> x = nullptr \<Longrightarrow> keeps_links h h' a"
proof -
  have e: "nodes h' a = adopt L q (relinked q x (nodes h)) a" using assms by (simp add: moved_def)
  show "keeps_slots h h' a"
    using e by (auto simp: keeps_slots_def adopt_def relinked_def set_border_base_def set_prev_def split: if_splits option.splits node.splits)
  show "keeps_links h h' a" if "a \<noteq> x \<or> x = nullptr"
    using e that by (auto simp: keeps_links_def adopt_def relinked_def set_border_base_def split: if_splits option.splits node.splits)
qed

lemma pages_le_static: "same_static h h' \<Longrightarrow> pages_le (pages h) (pages h')"
  by (simp add: same_static_def)

lemma content_adopted:
  assumes m: "moved h N L q x h'" and c: "content_at h p c"
    and a: "set (content_addrs c) \<inter> N = {}" "x \<in> set (content_addrs c) \<Longrightarrow> x = nullptr"
    and L: "\<And>t. c = Sub t \<Longrightarrow> addr_of t \<in> L \<and> set (tl (tree_addrs t)) \<inter> L = {}"
  shows "content_at h' q c"
proof (cases c)
  case (Val v)
  then show ?thesis using c m by (simp add: moved_def same_static_def)
next
  case (Sub t)
  have st: "pages_le (pages h) (pages h')" using m by (intro pages_le_static) (simp add: moved_def)
  have t: "tree_at h p True t" "linked h nullptr (map fst (layer_leaves t))" using c Sub by simp_all
  have out: "b \<notin> N \<and> (b \<noteq> x \<or> x = nullptr)" if "b \<in> set (tree_addrs t)" for b using a that Sub by auto
  have "tree_at h' q True t"
  proof (rule tree_at_parent [OF t(1) _ _ st])
    show "nodes h' (addr_of t) = map_option (node_map_base (set_parent q)) (nodes h (addr_of t))"
      using moved_adopted [OF m] out [of "addr_of t"] L [OF Sub] by simp
    show "nodes h' b = nodes h b" if b: "b \<in> set (tl (tree_addrs t))" for b
    proof -
      have "b \<in> set (tree_addrs t)" using b tl_addrs_sub [of t] by blast
      moreover have "b \<notin> L" using L [OF Sub] b by blast
      ultimately show ?thesis using moved_same [OF m] out by blast
    qed
  qed
  moreover have "linked h' nullptr (map fst (layer_leaves t))"
  proof (rule linked_keeps [OF t(2)])
    fix b assume "b \<in> set (map fst (layer_leaves t))"
    then have "b \<in> set (tree_addrs t)" using leaves_in_addrs [of t] by auto
    then show "keeps_links h h' b" using moved_keeps(2) [OF m] out by blast
  qed
  ultimately show ?thesis using Sub by simp
qed

lemma content_kept:
  assumes m: "moved h N L q x h'" and c: "content_at h p c"
    and a: "set (content_addrs c) \<inter> (N \<union> L) = {}" "x \<in> set (content_addrs c) \<Longrightarrow> x = nullptr"
  shows "content_at h' p c"
proof (rule content_at_frame [OF c])
  show "nodes h' b = nodes h b" if "b \<in> set (content_addrs c)" for b
    using moved_same [OF m, of b] a that by blast
  show "pages_le (pages h) (pages h')" using m by (intro pages_le_static) (simp add: moved_def)
qed

section \<open>The state after the insertion\<close>

lemma contents_apart:
  assumes "distinct (concat (map content_addrs (cs1 @ cs2)))" and "L = addr_of ` set (subs cs2)"
  shows "c \<in> set cs1 \<Longrightarrow> set (content_addrs c) \<inter> L = {}"
    and "Sub t \<in> set cs2 \<Longrightarrow> addr_of t \<in> L \<and> set (tl (tree_addrs t)) \<inter> L = {}"
    and "L \<subseteq> set (concat (map content_addrs cs2))"
proof -
  have d: "distinct (concat (map tree_addrs (subs cs2)))" "set (concat (map content_addrs cs1)) \<inter> set (concat (map content_addrs cs2)) = {}"
    using assms(1) by (simp_all add: concat_subs)
  show L: "L \<subseteq> set (concat (map content_addrs cs2))" unfolding assms(2) concat_subs by (auto intro: addr_of_in_addrs)
  show "set (content_addrs c) \<inter> L = {}" if "c \<in> set cs1"
    using d(2) L set_concat_map [OF that, of content_addrs] by blast
  show "addr_of t \<in> L \<and> set (tl (tree_addrs t)) \<inter> L = {}" if "Sub t \<in> set cs2"
    using that forest_roots [OF d(1), of t] unfolding assms(2) by (auto simp: set_subs)
qed

text \<open>The right neighbour.\<close>

lemma right_neighbour:
  assumes "linked h nullptr (map fst (layer_leaves (plug C (Leaf p es))))" and "nodes h p = Some (Border b)"
  shows "next_node b = (case map fst (ctx_right layer_leaves C) of [] \<Rightarrow> nullptr | x # _ \<Rightarrow> x)"
    and "next_node b \<noteq> nullptr \<Longrightarrow> next_node b \<in> fst ` set (ctx_right layer_leaves C) \<and> (\<exists>n. nodes h (next_node b) = Some (Border n))"
proof -
  have l: "linked h nullptr (map fst (ctx_left layer_leaves C) @ p # map fst (ctx_right layer_leaves C))"
    using assms(1) by (simp add: layer_plug)
  show e: "next_node b = (case map fst (ctx_right layer_leaves C) of [] \<Rightarrow> nullptr | x # _ \<Rightarrow> x)"
    using linked_next [OF l assms(2)] .
  show "next_node b \<in> fst ` set (ctx_right layer_leaves C) \<and> (\<exists>n. nodes h (next_node b) = Some (Border n))" if "next_node b \<noteq> nullptr"
  proof (cases "ctx_right layer_leaves C")
    case (Cons y ys)
    obtain q where "linked h q (p # fst y # map fst ys)" using linked_suffix [OF l] Cons by auto
    then show ?thesis using e Cons by (auto simp: linked_Cons)
  qed (use e that in simp)
qed

text \<open>The entries of the two leaves.\<close>

lemma cut_entries:
  assumes "length es = key_slice_length" and "rank \<le> key_slice_length"
  shows "rank \<le> 8 \<Longrightarrow> take (cut_at rank) (ins_at rank e es) = ins_at rank e (take 8 es)"
    and "rank \<le> 8 \<Longrightarrow> drop (cut_at rank) (ins_at rank e es) = drop 8 es"
    and "\<not> rank \<le> 8 \<Longrightarrow> take (cut_at rank) (ins_at rank e es) = take 8 es"
    and "\<not> rank \<le> 8 \<Longrightarrow> drop (cut_at rank) (ins_at rank e es) = ins_at (rank - 8) e (drop 8 es)"
    and "ins_at rank e es ! cut_at rank = es ! 8"
  using assms take_ins_at(1) [of rank 8 es e] drop_ins_at(1) [of rank 8 es e] take_ins_at(2) [of 8 rank es e] drop_ins_at(2) [of 8 rank es e]
  by (simp_all add: cut_at_def nth_ins_at)

text \<open>The assumptions of an insertion into a full leaf.\<close>

definition full_leaf :: "heap \<Rightarrow> addr \<Rightarrow> frame list \<Rightarrow> addr \<Rightarrow> (key \<times> content) list \<Rightarrow> border_node \<Rightarrow> byte list \<Rightarrow> nat \<Rightarrow> bool" where
  "full_leaf h par C p es b s rank \<longleftrightarrow> leaf_busy h par C p es b \<and> tree_wf (plug C (Leaf p es)) \<and> fits C (prepare_key_slice s) \<and>
     prepare_key_slice s \<notin> set (map fst es) \<and> length es = key_slice_length \<and> rank = rank_le (prepare_key_slice s) (map fst es) \<and>
     linked h nullptr (map fst (layer_leaves (plug C (Leaf p es)))) \<and>
     distinct (par # ctx_addrs C @ tree_addrs (Leaf p es) @ fresh h) \<and> (\<forall>q \<in> set (fresh h). valid_ptr q)"

text \<open>After the insertion, before the parent is told.\<close>

definition split_placed :: "heap \<Rightarrow> addr \<Rightarrow> frame list \<Rightarrow> addr \<Rightarrow> (key \<times> content) list \<Rightarrow> border_node \<Rightarrow> byte list \<Rightarrow> 64 word \<Rightarrow> nat \<Rightarrow>
    addr \<Rightarrow> addr list \<Rightarrow> addr list \<Rightarrow> heap \<Rightarrow> content \<Rightarrow> bool" where
  "split_placed h par C p es b s v rank q qs fs h' c \<longleftrightarrow>
     border_halves h' p b q (take (cut_at rank) (lv_entries (ins_at rank (prepare_key_slice s, c) es)))
       (drop (cut_at rank) (lv_entries (ins_at rank (prepare_key_slice s, c) es))) (fst (es ! 8)) \<and>
     moved h ({p, q} \<union> set qs) (addr_of ` set (subs (map snd (drop 8 es)))) q (next_node b) h' \<and>
     content_wf (prepare_key_slice s) c \<and> content_at h' (if rank \<le> 8 then p else q) c \<and> content_addrs c = qs \<and>
     content_entries (key_bytes (prepare_key_slice s)) c = [(s, v)] \<and>
     (\<forall>a \<in> set qs. \<exists>b. nodes h' a = Some (Border b) \<and> unused_ok UNIV b) \<and> fresh h' = fs"

lemma full_leaf_sorted:
  assumes "full_leaf h par C p es b s rank"
  shows "key_sorted (map fst es)" and "\<And>k c. (k, c) \<in> set es \<Longrightarrow> content_wf k c" and "rank \<le> key_slice_length" and "tree_wf (Leaf p es)"
proof -
  show w: "tree_wf (Leaf p es)" using assms unfolding full_leaf_def tree_wf_plug by blast
  then show "key_sorted (map fst es)" "\<And>k c. (k, c) \<in> set es \<Longrightarrow> content_wf k c" by auto
  show "rank \<le> key_slice_length" using assms rank_le_length [of "prepare_key_slice s" "map fst es"] by (simp add: full_leaf_def)
qed

lemma border_split_placed:
  assumes a: "full_leaf h par C p es b s rank" and v: "value_word v" "value_at (pages h) v"
    and f: "fresh h = q # qs @ fs" "length qs = layers_of s"
  shows "\<exists>created h' c. border_split ti p s v cg rank h = do { h \<leftarrow> border_end ti p q h'; Some (created, p, h) } \<and>
    split_placed h par C p es b s v rank q qs fs h' c"
proof -
  have n: "nodes h p = Some (Border b)" "border_wf b" "border_entries b = lv_entries es" "\<forall>c \<in> set (map snd es). content_at h p c"
    and len: "length es = key_slice_length" and k: "prepare_key_slice s \<notin> set (map fst es)" "rank = rank_le (prepare_key_slice s) (map fst es)"
    and lk: "linked h nullptr (map fst (layer_leaves (plug C (Leaf p es))))"
    and d: "distinct (ctx_addrs C @ tree_addrs (Leaf p es) @ q # qs @ fs)" and vq: "\<forall>q \<in> set (fresh h). valid_ptr q"
    using a f(1) by (simp_all add: full_leaf_def leaf_busy_def)
  note w = full_leaf_sorted [OF a]
  let ?E = "lv_entries es" and ?L = "addr_of ` set (subs (map snd (drop 8 es)))"
  have E: "length ?E = key_slice_length" "key_sorted (map fst ?E)" "fst (?E ! 8) = fst (es ! 8)" using len w(1) fst_lv_entries [of 8 es] by simp_all
  have L: "links (drop 8 ?E) = ?L" unfolding lv_entries_simps(4) [symmetric] using w(2) by (intro links_entries) (meson in_set_dropD)
  have dsub: "set (map snd (drop 8 es)) \<subseteq> set (map snd es)" unfolding drop_map [symmetric] by (rule set_drop_subset)
  have sub: "?L \<subseteq> set (concat (map content_addrs (map snd es)))"
  proof
    fix y assume "y \<in> ?L"
    then obtain t where "Sub t \<in> set (map snd es)" "y = addr_of t" 
      using dsub set_subs [of _ "map snd (drop 8 es)"] by blast
    then show "y \<in> set (concat (map content_addrs (map snd es)))"
      using set_concat_map [of "Sub t" "map snd es" content_addrs] addr_of_in_addrs [of t] unfolding content_addrs.simps by blast
  qed
  have ex: "y \<noteq> p \<and> y \<noteq> q \<and> nodes h y \<noteq> None" if "y \<in> links (drop 8 ?E)" for y
  proof -
    have "y \<in> ?L" using that L by (simp only:)
    then obtain t where t: "Sub t \<in> set (map snd es)" "y = addr_of t" using dsub set_subs [of _ "map snd (drop 8 es)"] by blast
    have "content_at h p (Sub t)" using n(4) t(1) by (rule bspec)
    then have "tree_at h p True t" by simp
    then have "nodes h y \<noteq> None" using t(2) by (metis get_base_def option.distinct(1) option.simps(8) tree_at_base)
    moreover have "y \<in> set (concat (map content_addrs (map snd es)))" using sub that L by blast
    moreover have "p \<notin> set (concat (map content_addrs (map snd es)))" "q \<notin> set (concat (map content_addrs (map snd es)))"
      using d unfolding tree_addrs_Leaf by auto
    ultimately show ?thesis by metis
  qed
  have nx: "next_node b \<in> set (ctx_addrs C) \<or> next_node b = nullptr"
    using right_neighbour(2) [OF lk n(1)] ctx_leaves_sub [of C] by auto
  have wf: "valid_ptr p" "valid_ptr q" using w(4) vq f(1) by simp_all
  have "p \<notin> set (ctx_addrs C)" "q \<notin> set (ctx_addrs C)" using d by auto
  then have ne: "next_node b \<noteq> p" "next_node b \<noteq> q" using nx wf by (auto simp: valid_ptr_def)
  have pq: "p \<noteq> q" using d by auto
  obtain h1 where h1: "border_split ti p s v cg rank h = do {
       (created, h) \<leftarrow> place_entry p q s v cg rank h1;
       h \<leftarrow> border_end ti p q h;
       Some (created, p, h)
     }" "border_halves h1 p b q (take 8 ?E) (drop 8 ?E) (fst (?E ! 8))"
    "\<forall>x. x \<noteq> p \<longrightarrow> x \<noteq> q \<longrightarrow> nodes h1 x = adopt (links (drop 8 ?E)) q (relinked q (next_node b) (nodes h)) x"
    "same_static h h1" "fresh h1 = qs @ fs"
    using border_split_moved [OF n(1-3) E(1) f(1) pq ne _ ex, of ti s v cg rank] right_neighbour(2) [OF lk n(1)] by blast
  have "value_at (pages h1) v" using v(2) h1(4) by (simp add: same_static_def)
  moreover have "distinct (p # q # qs)" "\<forall>q \<in> set qs. valid_ptr q" using d vq f(1) by auto
  ultimately obtain created h' c where h': "place_entry p q s v cg rank h1 = Some (created, h')"
    "border_halves h' p b q (take (cut_at rank) (ins_at rank (prepare_key_slice s, lv_word c) ?E))
       (drop (cut_at rank) (ins_at rank (prepare_key_slice s, lv_word c) ?E)) (fst (?E ! 8))"
    "entry_placed h1 (if rank \<le> 8 then p else q) s v qs fs {p, q} h' c"
    using place_entry_spec [OF h1(2) E(1,2) refl _ _ v(1) _ h1(5) f(2), of rank cg] k by auto
  have "moved h ({p, q} \<union> set qs) ?L q (next_node b) h'"
    using h'(3) h1(3,4) same_static_trans [OF h1(4)] unfolding moved_def entry_placed_def L [symmetric] by auto
  then have "split_placed h par C p es b s v rank q qs fs h' c"
    using h'(2,3) E(3) unfolding split_placed_def entry_placed_def by simp
  then show ?thesis using h1(1) h'(1) by (intro exI [of _ created] exI [of _ h'] exI [of _ c]) simp
qed

section \<open>The state as a split of a path\<close>

text \<open>Which addresses are apart.\<close>

lemma full_leaf_apart:
  assumes a: "full_leaf h par C p es b s rank" and f: "fresh h = q # qs @ fs"
    and N: "N = {p, q} \<union> set qs" and L: "L = addr_of ` set (subs (map snd (drop 8 es)))" and x: "x = next_node b"
  shows "c \<in> set (map snd (take 8 es)) \<Longrightarrow> set (content_addrs c) \<inter> (N \<union> L) = {} \<and> (x \<in> set (content_addrs c) \<longrightarrow> x = nullptr)"
    and "c \<in> set (map snd (drop 8 es)) \<Longrightarrow> set (content_addrs c) \<inter> N = {} \<and> (x \<in> set (content_addrs c) \<longrightarrow> x = nullptr)"
    and "set (ctx_addrs C) \<inter> (N \<union> L) = {}" and "par \<notin> N \<union> L" and "par \<noteq> x \<or> x = nullptr"
    and "x \<noteq> nullptr \<Longrightarrow> x \<in> fst ` set (ctx_right layer_leaves C) \<and> x \<in> set (ctx_addrs C) \<and> (\<exists>n. nodes h x = Some (Border n))"
    and "L \<subseteq> set (tl (tree_addrs (Leaf p es)))"
proof -
  have d: "distinct (par # ctx_addrs C @ p # concat (map content_addrs (map snd es)) @ q # qs @ fs)"
    and n: "nodes h p = Some (Border b)" and lk: "linked h nullptr (map fst (layer_leaves (plug C (Leaf p es))))"
    using a f by (simp_all add: full_leaf_def leaf_busy_def)
  let ?A = "concat (map content_addrs (map snd es))"
  have td: "map snd es = map snd (take 8 es) @ map snd (drop 8 es)" by (simp flip: map_append)
  have dA: "distinct (concat (map content_addrs (map snd (take 8 es) @ map snd (drop 8 es))))" using d unfolding td [symmetric] by auto
  note ap = contents_apart [OF dA L]
  have sub: "set (content_addrs c) \<subseteq> set ?A" if "c \<in> set (map snd (take 8 es)) \<or> c \<in> set (map snd (drop 8 es))"
    using that set_concat_map [of c "map snd es" content_addrs] unfolding td by auto
  have LA: "L \<subseteq> set ?A" using ap(3) unfolding td by auto
  then show "L \<subseteq> set (tl (tree_addrs (Leaf p es)))" by simp
  have sep: "set ?A \<inter> N = {}" "set (ctx_addrs C) \<inter> N = {}" "set (ctx_addrs C) \<inter> set ?A = {}" "par \<notin> N" "par \<notin> set ?A" "par \<notin> set (ctx_addrs C)"
    using d N by auto
  show nx: "x \<in> fst ` set (ctx_right layer_leaves C) \<and> x \<in> set (ctx_addrs C) \<and> (\<exists>n. nodes h x = Some (Border n))" if "x \<noteq> nullptr"
  proof -
    have "x \<in> fst ` set (ctx_right layer_leaves C) \<and> (\<exists>n. nodes h x = Some (Border n))" using right_neighbour(2) [OF lk n] that x by blast
    moreover from this have "x \<in> set (ctx_addrs C)" using ctx_leaves_sub [of C] unfolding set_append image_Un by blast
    ultimately show ?thesis by blast
  qed
  have xA: "x \<in> set ?A \<longrightarrow> x = nullptr" using nx sep(3) by blast
  show "set (content_addrs c) \<inter> (N \<union> L) = {} \<and> (x \<in> set (content_addrs c) \<longrightarrow> x = nullptr)" if "c \<in> set (map snd (take 8 es))"
    using ap(1) [OF that] sub sep(1) xA that by blast
  show "set (content_addrs c) \<inter> N = {} \<and> (x \<in> set (content_addrs c) \<longrightarrow> x = nullptr)" if "c \<in> set (map snd (drop 8 es))"
    using sub sep(1) xA that by blast
  show "set (ctx_addrs C) \<inter> (N \<union> L) = {}" "par \<notin> N \<union> L" "par \<noteq> x \<or> x = nullptr" using sep LA nx by blast+
qed

lemma placed_contents:
  assumes a: "full_leaf h par C p es b s rank" and f: "fresh h = q # qs @ fs"
    and pl: "split_placed h par C p es b s v rank q qs fs h' c"
    and es': "es' = ins_at rank (prepare_key_slice s, c) es" and m: "m = cut_at rank"
  shows "\<forall>d \<in> set (map snd (take m es')). content_at h' p d" and "\<forall>d \<in> set (map snd (drop m es')). content_at h' q d"
proof -
  let ?N = "{p, q} \<union> set qs" and ?L = "addr_of ` set (subs (map snd (drop 8 es)))"
  have mv: "moved h ?N ?L q (next_node b) h'" and c: "content_at h' (if rank \<le> 8 then p else q) c" using pl by (simp_all add: split_placed_def)
  have at: "\<forall>d \<in> set (map snd es). content_at h p d" and len: "length es = key_slice_length" using a by (simp_all add: full_leaf_def leaf_busy_def)
  note ap = full_leaf_apart [OF a f refl refl refl]
  have sub: "set (map snd (take 8 es)) \<subseteq> set (map snd es)" "set (map snd (drop 8 es)) \<subseteq> set (map snd es)"
    unfolding take_map [symmetric] drop_map [symmetric] by (rule set_take_subset set_drop_subset)+
  have lo: "content_at h' p d" if "d \<in> set (map snd (take 8 es))" for d
    using content_kept [OF mv] ap(1) [OF that] at sub(1) that by blast
  have hi: "content_at h' q d" if "d \<in> set (map snd (drop 8 es))" for d
  proof (rule content_adopted [OF mv])
    have dA: "distinct (concat (map content_addrs (map snd (take 8 es) @ map snd (drop 8 es))))"
      using a unfolding map_append [symmetric] append_take_drop_id by (auto simp: full_leaf_def)
    show "addr_of t \<in> ?L \<and> set (tl (tree_addrs t)) \<inter> ?L = {}" if "d = Sub t" for t
      using contents_apart(2) [OF dA refl] \<open>d \<in> set (map snd (drop 8 es))\<close> that by blast
    show "content_at h p d" using at sub(2) that by blast
    show "set (content_addrs d) \<inter> ?N = {}" "next_node b \<in> set (content_addrs d) \<Longrightarrow> next_node b = nullptr" using ap(2) [OF that] by blast+
  qed
  note cut = cut_entries [OF len full_leaf_sorted(3) [OF a], of "(prepare_key_slice s, c)"]
  show "\<forall>d \<in> set (map snd (take m es')). content_at h' p d"
    using lo c cut(1,3) unfolding es' m by (cases "rank \<le> 8") auto
  show "\<forall>d \<in> set (map snd (drop m es')). content_at h' q d"
    using hi c cut(2,4) unfolding es' m by (cases "rank \<le> 8") auto
qed

lemma placed_split_state:
  assumes a: "full_leaf h par C p es b s rank" and f: "fresh h = q # qs @ fs"
    and pl: "split_placed h par C p es b s v rank q qs fs h' c"
    and es': "es' = ins_at rank (prepare_key_slice s, c) es" and m: "m = cut_at rank"
  shows "split_state h' par C (Leaf p (take m es')) (Leaf q (drop m es'))"
    and "\<exists>d. nodes h' q = Some (Border d) \<and> first_key (Border d) (fst (es ! 8))"
    and "unused_in X h' [p, q]" and "linked h' nullptr (map fst (ctx_left layer_leaves C) @ p # q # map fst (ctx_right layer_leaves C))"
proof -
  let ?N = "{p, q} \<union> set qs" and ?L = "addr_of ` set (subs (map snd (drop 8 es)))"
  have mv: "moved h ?N ?L q (next_node b) h'" and hb: "border_halves h' p b q (take m (lv_entries es')) (drop m (lv_entries es')) (fst (es ! 8))"
    using pl by (simp_all add: split_placed_def es' m)
  obtain b1 d1 where n: "nodes h' p = Some (Border b1)" "nodes h' q = Some (Border d1)"
    "half_border b (take m (lv_entries es')) b1" "half_border b (drop m (lv_entries es')) d1"
    "parent (border_base b1) = parent (border_base b)" "prev_node b1 = prev_node b" "next_node b1 = q" "prev_node d1 = p"
    "next_node d1 = next_node b" "base_keys (border_base d1) ! 0 = fst (es ! 8)" "0 \<in> set (perm_list (perm_body d1))"
    using hb unfolding border_halves_def by blast
  have b: "nodes h p = Some (Border b)" "node_flags (ctx_parent par C) (C = []) True (border_base b)" "ctx_at h par C p"
    and lk: "linked h nullptr (map fst (ctx_left layer_leaves C) @ p # map fst (ctx_right layer_leaves C))"
    and dC: "distinct (ctx_addrs C)"
    using a by (simp_all add: full_leaf_def leaf_busy_def layer_plug)
  note ap = full_leaf_apart [OF a f refl refl refl]
  have pg: "pages_le (pages h) (pages h')" using mv by (intro pages_le_static) (simp add: moved_def)
  have same: "nodes h' y = nodes h y" if "y \<in> set (ctx_addrs C)" "y \<noteq> next_node b \<or> next_node b = nullptr" for y
    using moved_same [OF mv _ _ that(2)] ap(3) that(1) by blast
  have "ctx_at h' par C p"
  proof (cases "next_node b = nullptr")
    case True
    then show ?thesis using ctx_at_frame [OF b(3) _ pg] same by blast
  next
    case False
    then obtain x where x: "nodes h (next_node b) = Some (Border x)" "next_node b \<in> fst ` set (ctx_right layer_leaves C)" "next_node b \<in> set (ctx_addrs C)"
      using ap(6) by blast
    have out: "next_node b \<notin> ?N" "next_node b \<notin> ?L" using ap(3) x(3) by blast+
    have "nodes h' (next_node b) = Some (Border (x\<lparr>prev_node := q\<rparr>))" using moved_neighbour [OF mv out False x(1)] .
    then show ?thesis using x same by (intro ctx_at_relink [OF b(3) dC _ x(1) _ _ pg]) auto
  qed
  moreover note placed_contents [OF a f pl es' m]
  ultimately show "split_state h' par C (Leaf p (take m es')) (Leaf q (drop m es'))"
    using n(1-5) b(2) unfolding split_state_def tree_shape_def
    by (simp add: half_border_def get_base_def node_flags_def flip: lv_entries_def)
  have "base_wf (border_base d1)" using n(4) by (simp add: half_border_def border_wf_def)
  then show "\<exists>d. nodes h' q = Some (Border d) \<and> first_key (Border d) (fst (es ! 8))"
    using n(2,10) by (auto simp: first_key_def get_key_at)
  show "unused_in X h' [p, q]" using n(1-4) unused_ok_mono by (auto simp: half_border_def)
  show "linked h' nullptr (map fst (ctx_left layer_leaves C) @ p # q # map fst (ctx_right layer_leaves C))"
  proof (rule linked_insert [OF lk b(1) n(1,6,7,2,8,9)])
    let ?A = "map fst (ctx_left layer_leaves C)" and ?B = "map fst (ctx_right layer_leaves C)"
    have out: "y \<notin> ?N" "y \<notin> ?L" if "y \<in> set ?A \<or> y \<in> set ?B" for y using ap(3) ctx_leaves_sub [of C] that by auto
    have "distinct (map fst (layer_leaves (plug C (Leaf p es))))"
    proof (rule leaves_distinct)
      have "distinct (ctx_addrs C @ tree_addrs (Leaf p es) @ [])"
        using a unfolding full_leaf_def distinct.simps distinct_append set_append append_Nil2 by blast
      then show "distinct (tree_addrs (plug C (Leaf p es)))" using distinct_plug [of C "Leaf p es" "[]"] by simp
    qed
    then have dl: "distinct (?A @ ?B)" by (simp add: layer_plug)
    have v: "valid_ptr y" if "y \<in> set ?B" for y
    proof (rule leaves_valid)
      show "tree_wf (plug C (Leaf p es))" using a by (simp add: full_leaf_def)
      show "y \<in> fst ` set (layer_leaves (plug C (Leaf p es)))" using that by (auto simp: layer_plug)
    qed
    have lk': "linked h nullptr (map fst (layer_leaves (plug C (Leaf p es))))" using a by (simp add: full_leaf_def)
    have nx: "next_node b = (case ?B of [] \<Rightarrow> nullptr | x # _ \<Rightarrow> x)" using right_neighbour(1) [OF lk' b(1)] .
    have ne: "y \<noteq> next_node b \<or> next_node b = nullptr" if "y \<in> set ?A \<or> y \<in> set (tl ?B)" for y
    proof (cases "next_node b = nullptr")
      case False
      have "?B = next_node b # tl ?B" using nx False by (cases ?B) simp_all
      from subst [OF this, of "\<lambda>B. distinct (?A @ B)", OF dl] show ?thesis using that by auto
    qed simp
    show "keeps_links h h' y" if "y \<in> set ?A" for y
      using moved_keeps(2) [OF mv out(1) ne] that by blast
    show "keeps_links h h' y" if "y \<in> set (tl ?B)" for y
      using moved_keeps(2) [OF mv out(1) ne] that list.set_sel(2) [of ?B y] by (cases "?B = []") auto
    show "\<exists>n'. nodes h' y = Some (Border n') \<and> prev_node n' = q \<and> next_node n' = next_node n"
      if "?B = y # tl ?B" "nodes h y = Some (Border n)" for y n
    proof -
      have y: "y \<in> set ?B" "next_node b = y" using that(1) nx by (metis list.set_intros(1), metis list.simps(5))
      have "nodes h' y = Some (Border (n\<lparr>prev_node := q\<rparr>))"
        using moved_neighbour [OF mv, of n] y out [of y] v [OF y(1)] that(2) by (simp add: valid_ptr_def)
      then show ?thesis by simp
    qed
  qed
qed

end
