(* ===== verification/Layer_Put.thy ===== *)
theory Layer_Put
  imports Border_Split
begin

text \<open>
  One layer before and after an insertion: the tree is well-formed and in the heap, its
  owner points to it, and nodes that belong to nobody here are as they were.
\<close>

section \<open>A step of one layer\<close>

definition layer_step :: "addr set \<Rightarrow> heap \<Rightarrow> addr \<Rightarrow> addr \<Rightarrow> tree \<Rightarrow> heap \<Rightarrow> tree \<Rightarrow> bool" where
  "layer_step X h ti par t h' t' \<longleftrightarrow> tree_wf t' \<and> tree_at h' par True t' \<and> linked h' nullptr (map fst (layer_leaves t')) \<and>
     reowned h ti par (addr_of t) (addr_of t') h' \<and> mset (tree_addrs t' @ fresh h') = mset (tree_addrs t @ fresh h) \<and>
     set (fresh h') \<subseteq> set (fresh h) \<and>
     (\<forall>x. x \<notin> insert par (set (tree_addrs t @ fresh h)) \<longrightarrow> nodes h' x = nodes h x) \<and> unused_in X h' (leaf_addrs t')"

text \<open>The layer has got the entry \<open>c\<close> at the key \<open>k\<close>.\<close>

definition entry_put :: "tree \<Rightarrow> key \<Rightarrow> content \<Rightarrow> tree \<Rightarrow> bool" where
  "entry_put t k c t' \<longleftrightarrow> map_of (layer_entries t') = (map_of (layer_entries t))(k \<mapsto> c) \<and>
     tree_keys t' \<subseteq> insert k (tree_keys t) \<and> layer_entries t' \<noteq> []"

lemma map_of_insert_absent:
  "distinct (map fst (A @ (k, c) # B)) \<Longrightarrow> map_of (A @ (k, c) # B) = (map_of (A @ B))(k \<mapsto> c)"
  by (induction A) (auto simp: fun_upd_twist)

lemma entry_put_new:
  assumes "layer_entries t = A @ es @ B" and "layer_entries t' = A @ ins_at r (k, c) es @ B" and "tree_wf t'"
    and "tree_keys t' \<subseteq> insert k (tree_keys t)"
  shows "entry_put t k c t'"
proof -
  have e: "layer_entries t' = (A @ take r es) @ (k, c) # (drop r es @ B)" using assms(2) by (simp add: ins_at_def)
  have "distinct (map fst (layer_entries t'))" by (rule key_sorted_distinct [OF layer_sorted [OF assms(3)]])
  then have "map_of (layer_entries t') = (map_of ((A @ take r es) @ drop r es @ B))(k \<mapsto> c)" unfolding e by (rule map_of_insert_absent)
  moreover have "(A @ take r es) @ drop r es @ B = layer_entries t" using assms(1) by (metis append.assoc append_take_drop_id)
  ultimately have "map_of (layer_entries t') = (map_of (layer_entries t))(k \<mapsto> c)" by (simp only:)
  then show ?thesis using assms(4) e by (simp add: entry_put_def)
qed

section \<open>A full leaf\<close>

lemma placed_split_ok:
  assumes a: "full_leaf h par C p es b s rank" and q: "valid_ptr q" and c: "content_wf (prepare_key_slice s) c"
    and es': "es' = ins_at rank (prepare_key_slice s, c) es" and m: "m = cut_at rank"
  shows "split_ok C (Leaf p (take m es')) (fst (es ! 8)) (Leaf q (drop m es'))"
proof -
  note w = full_leaf_sorted [OF a]
  let ?k = "prepare_key_slice s"
  have len: "length es = key_slice_length" and ctx: "ctx_wf C" "\<forall>k \<in> fst ` set es. fits C k" "valid_ptr p"
    and k: "fits C ?k" "?k \<notin> set (map fst es)" "rank = rank_le ?k (map fst es)"
    using a unfolding full_leaf_def tree_wf_plug tree_keys.simps tree_wf.simps by blast+
  have kc: "canonical ?k" by (rule canonical_prepare)
  have me: "map fst es' = ins_at rank ?k (map fst es)" unfolding es' by (simp flip: ins_at_map)
  have ks: "key_sorted (map fst es')" unfolding me k(3) using w(1) kc k(2) by (intro key_sorted_ins_at)
  have ml: "0 < m" "m < length es'" "length es' = 16" using len w(3) by (auto simp: m cut_at_def es')
  have piv: "fst (es ! 8) = map fst es' ! m" using cut_entries(5) [OF len w(3), of "(?k, c)"] ml by (simp add: es' m)
  have fit: "fits C x" if "x \<in> set (map fst es')" for x
    using that ctx(2) k(1) unfolding me by auto
  have cw: "content_wf k' c'" if "(k', c') \<in> set es'" for k' c' using that w(2) [of k' c'] c unfolding es' set_ins_at by blast
  have td: "map fst (take m es') = take m (map fst es')" "map fst (drop m es') = drop m (map fst es')" by (simp_all add: take_map drop_map)
  have pin: "map fst es' ! m \<in> set (map fst es')" "map fst es' ! m \<in> set (drop m (map fst es'))"
    using ml by (auto simp: Cons_nth_drop_Suc [symmetric])
  have lo: "key_ord x < key_ord (map fst es' ! m)" if "x \<in> set (take m (map fst es'))" for x
    using key_sorted_split [OF ks that pin(2)] .
  have hi: "key_ord (map fst es' ! m) \<le> key_ord x" if x: "x \<in> set (drop m (map fst es'))" for x
  proof -
    have "drop m (map fst es') = map fst es' ! m # drop (Suc m) (map fst es')" using Cons_nth_drop_Suc [of m "map fst es'"] ml by simp
    then consider "x = map fst es' ! m" | "x \<in> set (drop (Suc m) (map fst es'))" using x by (metis set_ConsD)
    then show ?thesis
    proof cases
      case 2
      have "map fst es' ! m \<in> set (take (Suc m) (map fst es'))" using ml by (simp add: take_Suc_conv_app_nth)
      then show ?thesis using key_sorted_split [OF ks _ 2] by (simp add: less_imp_le)
    qed simp
  qed
  have "key_sorted (map fst (take m es'))" "key_sorted (map fst (drop m es'))"
    unfolding td using key_sorted_take [OF ks] key_sorted_drop [OF ks] by blast+
  moreover have "length (take m es') \<le> key_slice_length" "length (drop m es') \<le> key_slice_length" using ml by (auto simp: m cut_at_def)
  moreover have "\<forall>(k', c') \<in> set (take m es'). content_wf k' c'" "\<forall>(k', c') \<in> set (drop m es'). content_wf k' c'"
    using cw by (auto dest: in_set_takeD in_set_dropD)
  ultimately have "tree_wf (Leaf p (take m es'))" "tree_wf (Leaf q (drop m es'))" using ctx(3) q unfolding tree_wf.simps by blast+
  moreover have "canonical (map fst es' ! m)" using ks ml by (simp add: key_sorted_def)
  moreover have "take m es' \<noteq> []" "drop m es' \<noteq> []" using ml by auto
  moreover have "\<forall>x \<in> fst ` set (take m es'). fits C x \<and> key_ord x < key_ord (map fst es' ! m)"
    using lo fit [OF in_set_takeD] by (simp add: take_map)
  moreover have "\<forall>x \<in> fst ` set (drop m es'). fits C x \<and> key_ord (map fst es' ! m) \<le> key_ord x"
    using hi fit [OF in_set_dropD] by (simp add: drop_map)
  ultimately show ?thesis unfolding split_ok_def piv tree_keys.simps layer_entries.simps
    using ctx(1) fit [OF pin(1)] by blast
qed

lemma mset_concat_addrs_ins:
  "mset (concat (map f (map snd (ins_at r (k, c) es)))) = mset (f c) + mset (concat (map f (map snd es)))"
proof -
  have "mset (concat (map f (map snd es))) = mset (concat (map f (map snd (take r es @ drop r es))))" by simp
  then show ?thesis unfolding ins_at_def map_append concat_append mset_append by (simp add: ac_simps)
qed

lemma leaves_of_content: "set (content_leaves c) \<subseteq> set (content_addrs c)"
  using leaf_addrs_sub by (cases c) auto

lemma ctx_sub:
  assumes "\<And>t. set (f t) \<subseteq> set (tree_addrs t)"
  shows "set (ctx_left f c @ ctx_right f c) \<subseteq> set (ctx_addrs c)"
proof (induction c)
  case (Cons g c)
  obtain p ks ls rs where g: "g = (p, ks, ls, rs)" by (cases g) auto
  have "set (concat (map f ts)) \<subseteq> set (concat (map tree_addrs ts))" for ts using assms by (induction ts) auto
  from this [of ls] this [of rs] show ?case using Cons
    unfolding g ctx_left.simps ctx_right.simps ctx_addrs.simps set_append list.set by blast
qed simp

lemma halves_mset:
  assumes "es' = ins_at rank (k, c) es"
  shows "mset (concat (map f (map snd (take m es')))) + mset (concat (map f (map snd (drop m es')))) =
    mset (f c) + mset (concat (map f (map snd es)))"
proof -
  have "mset (concat (map f (map snd (take m es')))) + mset (concat (map f (map snd (drop m es')))) = mset (concat (map f (map snd es')))"
    using take_drop_concat [of "f \<circ> snd" m es'] by (simp flip: mset_append)
  then show ?thesis unfolding assms mset_concat_addrs_ins .
qed

lemma placed_unused:
  assumes a: "full_leaf h par C p es b s rank" and f: "fresh h = q # qs @ fs"
    and pl: "split_placed h par C p es b s v rank q qs fs h' c"
    and es': "es' = ins_at rank (prepare_key_slice s, c) es" and m: "m = cut_at rank"
    and u: "unused_in X h (leaf_addrs (plug C (Leaf p es)))"
  shows "unused_in X h' (ctx_left leaf_addrs C @ leaf_addrs (Leaf p (take m es')) @ leaf_addrs (Leaf q (drop m es')) @ ctx_right leaf_addrs C)"
proof -
  let ?N = "{p, q} \<union> set qs" and ?D = "concat (map content_leaves (map snd es))"
  let ?old = "(ctx_left leaf_addrs C @ ctx_right leaf_addrs C) @ ?D"
  have mv: "moved h ?N (addr_of ` set (subs (map snd (drop 8 es)))) q (next_node b) h'" and c: "content_addrs c = qs"
    and uq: "\<forall>a \<in> set qs. \<exists>b. nodes h' a = Some (Border b) \<and> unused_ok UNIV b" using pl by (simp_all add: split_placed_def)
  have "leaf_addrs (plug C (Leaf p es)) = ctx_left leaf_addrs C @ leaf_addrs (Leaf p es) @ ctx_right leaf_addrs C"
    by (rule concat_plug) simp
  then have "unused_in X h ?old" using u by simp
  moreover have "keeps_slots h h' y" if y: "y \<in> set ?old" for y
  proof -
    have "set ?D \<subseteq> set (concat (map content_addrs (map snd es)))"
      using leaves_of_content by (induction es) auto
    moreover have "set (ctx_left leaf_addrs C @ ctx_right leaf_addrs C) \<subseteq> set (ctx_addrs C)" by (rule ctx_sub [OF leaf_addrs_sub])
    ultimately have "y \<in> set (ctx_addrs C) \<union> set (concat (map content_addrs (map snd es)))" using y unfolding set_append by blast
    moreover have "distinct (ctx_addrs C @ p # concat (map content_addrs (map snd es)) @ q # qs @ fs)" using a f by (simp add: full_leaf_def)
    ultimately have "y \<notin> ?N" by auto
    then show ?thesis by (rule moved_keeps(1) [OF mv])
  qed
  ultimately have "unused_in X h' ?old" by (rule unused_in_keeps)
  moreover have "unused_in X h' (content_leaves c)"
    using leaves_of_content [of c] uq c unused_ok_mono [of UNIV _ X] unfolding unused_in_def by blast
  moreover note placed_split_state(3) [OF a f pl es' m, of X]
  moreover have "set (concat (map content_leaves (map snd (take m es')))) \<union> set (concat (map content_leaves (map snd (drop m es')))) =
      set (content_leaves c) \<union> set ?D"
    using arg_cong [OF halves_mset [OF es', of content_leaves m], of set_mset] by (simp only: set_mset_union set_mset_mset)
  ultimately show ?thesis unfolding unused_in_simps leaf_addrs_Leaf unfolding unused_in_def by blast
qed

lemma border_split_step:
  assumes a: "full_leaf h par C p es b s rank" and v: "value_word v" "value_at (pages h) v"
    and f: "Suc (layers_of s) + grown C \<le> length (fresh h)" and own: "owned h ti par (addr_of (plug C (Leaf p es)))"
    and u: "unused_in X h (leaf_addrs (plug C (Leaf p es)))"
  shows "\<exists>created h' t' c. border_split ti p s v cg rank h = Some (created, p, h') \<and>
    layer_step X h ti par (plug C (Leaf p es)) h' t' \<and> entry_put (plug C (Leaf p es)) (prepare_key_slice s) c t' \<and>
    content_entries (key_bytes (prepare_key_slice s)) c = [(s, v)] \<and> content_wf (prepare_key_slice s) c"
proof -
  let ?k = "prepare_key_slice s" and ?t = "plug C (Leaf p es)"
  obtain q qs fs where fr: "fresh h = q # qs @ fs" "length qs = layers_of s" "grown C \<le> length fs"
  proof -
    obtain q r where q: "fresh h = q # r" using f by (cases "fresh h") auto
    have "fresh h = q # take (layers_of s) r @ drop (layers_of s) r" using q by simp
    then show thesis using that [of q "take (layers_of s) r" "drop (layers_of s) r"] f q by simp
  qed
  obtain created h2 c where bs: "border_split ti p s v cg rank h = do { h \<leftarrow> border_end ti p q h2; Some (created, p, h) }"
    and pl: "split_placed h par C p es b s v rank q qs fs h2 c"
    using border_split_placed [OF a v fr(1,2), of ti cg] by blast
  define es' m where "es' = ins_at rank (?k, c) es" and "m = cut_at rank"
  let ?l = "Leaf p (take m es')" and ?r = "Leaf q (drop m es')" and ?piv = "fst (es ! 8)"
  let ?N = "{p, q} \<union> set qs" and ?L = "addr_of ` set (subs (map snd (drop 8 es)))"
  have mv: "moved h ?N ?L q (next_node b) h2" and c: "content_wf ?k c" "content_addrs c = qs" "content_entries (key_bytes ?k) c = [(s, v)]"
    and f2: "fresh h2 = fs" and uq: "\<forall>a \<in> set qs. \<exists>b. nodes h2 a = Some (Border b) \<and> unused_ok UNIV b"
    using pl by (simp_all add: split_placed_def)
  note st = placed_split_state [OF a fr(1) pl es'_def m_def]
  note ap = full_leaf_apart [OF a fr(1) refl refl refl]
  have vf: "\<forall>q \<in> set (fresh h). valid_ptr q" and d: "distinct (par # ctx_addrs C @ tree_addrs (Leaf p es) @ fresh h)"
    using a by (simp_all add: full_leaf_def)
  have par: "nodes h2 par = nodes h par" using moved_same [OF mv] ap(4,5) by blast
  have ss: "same_static h h2" using mv by (simp add: moved_def)
  have lr: "mset (tree_addrs ?l) + mset (tree_addrs ?r) = mset (tree_addrs (Leaf p es)) + mset (q # qs)"
    using halves_mset [OF es'_def, of content_addrs m] c(2) unfolding tree_addrs_Leaf by (simp add: ac_simps)
  have ms: "mset (par # ctx_addrs C @ tree_addrs ?l @ tree_addrs ?r @ fresh h2) = mset (par # ctx_addrs C @ tree_addrs (Leaf p es) @ fresh h)"
    using lr unfolding f2 fr(1) mset.simps mset_append by (simp add: ac_simps)
  have root: "addr_of (plug C ?l) = addr_of ?t" by (rule addr_of_plug) simp
  have ok: "split_ok C ?l ?piv ?r" using placed_split_ok [OF a _ c(1) es'_def m_def] vf fr(1) by simp
  have ready: "split_ready h2 ti par C ?l ?piv ?r"
    unfolding split_ready_def
  proof (intro conjI)
    show "split_ok C ?l ?piv ?r" by (rule ok)
    show "distinct (par # ctx_addrs C @ tree_addrs ?l @ tree_addrs ?r @ fresh h2)" using d mset_eq_imp_distinct_iff [OF ms] by blast
    show "\<forall>q \<in> set (fresh h2). valid_ptr q" using vf f2 fr(1) by simp
    show "grown C \<le> length (fresh h2)" using f2 fr(3) by simp
    show "owned h2 ti par (addr_of (plug C ?l))" using owned_cong [OF ss par] own root by simp
  qed
  obtain d' where d': "nodes h2 (addr_of ?r) = Some (Border d')" "first_key (Border d') ?piv" using st(2) by auto
  obtain h' where h': "border_end ti p q h2 = Some h'" "grown_to h2 ti par C ?l ?piv ?r h'"
    using border_end_grows [OF ready st(1) d'] by auto
  let ?t' = "grow C ?l ?piv ?r fs"
  have g: "tree_at h' par True ?t'" "reowned h2 ti par (addr_of ?t) (addr_of ?t') h'" "fresh h' = drop (grown C) fs"
    "border_frame (footprint h2 par C ?l ?r) (insert par (set fs)) h2 h'"
    using h'(2) root unfolding grown_to_def Let_def f2 by auto
  have wf: "tree_wf ?t'" using grow_wf [OF ok fr(3)] vf fr(1) by simp
  have ad: "mset (tree_addrs ?t' @ fresh h') = mset (tree_addrs ?t @ fresh h)"
  proof -
    have "mset (tree_addrs ?t' @ fresh h') = mset (ctx_addrs C) + (mset (tree_addrs ?l) + mset (tree_addrs ?r)) + mset (take (grown C) fs @ drop (grown C) fs)"
      unfolding mset_append grow_addrs [OF fr(3)] g(3) by (simp only: ac_simps)
    then show ?thesis unfolding lr append_take_drop_id mset_append tree_addrs_plug fr(1) by (simp add: ac_simps)
  qed
  have fp: "footprint h2 par C ?l ?r = insert par (set (tree_addrs ?t @ fresh h))"
  proof -
    have "set_mset (mset (par # ctx_addrs C @ tree_addrs ?l @ tree_addrs ?r @ fresh h2)) = set_mset (mset (par # ctx_addrs C @ tree_addrs (Leaf p es) @ fresh h))"
      using ms by (rule arg_cong)
    then show ?thesis unfolding footprint_def set_append set_addrs_plug set_mset_mset list.set(2) by (simp only: Un_assoc)
  qed
  have out: "nodes h' x = nodes h x" if x: "x \<notin> insert par (set (tree_addrs ?t @ fresh h))" for x
  proof -
    have "x \<notin> set (ctx_addrs C)" "x \<notin> set (tree_addrs (Leaf p es))" "x \<notin> set (fresh h)" using x by (auto simp: set_addrs_plug)
    moreover from this have "x \<noteq> next_node b \<or> next_node b = nullptr" using ap(6) by blast
    moreover have "?L \<subseteq> set (tree_addrs (Leaf p es))" using ap(7) tl_addrs_sub [of "Leaf p es"] by blast
    ultimately have "nodes h2 x = nodes h x" using fr(1) by (intro moved_same [OF mv]) auto
    moreover have "nodes h' x = nodes h2 x" using g(4) x unfolding fp border_frame_def by blast
    ultimately show ?thesis by simp
  qed
  have kept: "keeps_slots h2 h' x \<and> keeps_links h2 h' x" if "x \<in> set (ctx_addrs C @ tree_addrs ?l @ tree_addrs ?r)" for x
  proof (rule border_frame_keeps [OF g(4)])
    show "x \<notin> insert par (set fs)" using that ready unfolding split_ready_def f2 distinct.simps distinct_append set_append by blast
  qed
  have "unused_in X h' (leaf_addrs ?t')"
  proof -
    have l: "leaf_addrs ?t' = ctx_left leaf_addrs C @ leaf_addrs ?l @ leaf_addrs ?r @ ctx_right leaf_addrs C" by (rule concat_grow) simp
    show ?thesis unfolding l
    proof (rule unused_in_keeps [OF placed_unused [OF a fr(1) pl es'_def m_def u]])
      fix x assume "x \<in> set (ctx_left leaf_addrs C @ leaf_addrs ?l @ leaf_addrs ?r @ ctx_right leaf_addrs C)"
      then show "keeps_slots h2 h' x"
        using kept [of x] ctx_sub [OF leaf_addrs_sub, of C] leaf_addrs_sub [of ?l] leaf_addrs_sub [of ?r] unfolding set_append by blast
    qed
  qed
  moreover have "linked h' nullptr (map fst (layer_leaves ?t'))"
  proof -
    have l: "map fst (layer_leaves ?t') = map fst (ctx_left layer_leaves C) @ p # q # map fst (ctx_right layer_leaves C)"
      using grow_layer [of C ?l ?piv ?r fs] by simp
    show ?thesis unfolding l
    proof (rule linked_keeps [OF st(4)])
      fix x assume "x \<in> set (map fst (ctx_left layer_leaves C) @ p # q # map fst (ctx_right layer_leaves C))"
      then have "x \<in> set (ctx_addrs C @ tree_addrs ?l @ tree_addrs ?r)" using ctx_leaves_sub [of C] by auto
      then show "keeps_links h2 h' x" using kept by blast
    qed
  qed
  moreover have "entry_put ?t ?k c ?t'"
  proof (rule entry_put_new [OF _ _ wf])
    show "layer_entries ?t = ctx_left layer_entries C @ es @ ctx_right layer_entries C" by (simp add: layer_plug)
    have "take m es' @ drop m es' @ X = es' @ X" for X by (metis append.assoc append_take_drop_id)
    then show "layer_entries ?t' = ctx_left layer_entries C @ ins_at rank (?k, c) es @ ctx_right layer_entries C"
      using grow_layer [of C ?l ?piv ?r fs] by (simp add: es'_def)
    have "tree_keys ?l \<union> tree_keys ?r = fst ` set es'" by (simp flip: image_Un set_append)
    moreover have "fst ` set es' = insert ?k (fst ` set es)" by (simp add: es'_def)
    moreover have "?piv \<in> fst ` set es" using a by (simp add: full_leaf_def)
    moreover have "T \<subseteq> insert k (U \<union> K)" if "L \<union> R = K'" "K' = insert k K" "x \<in> K" "T \<subseteq> U \<union> L \<union> R \<union> {x}"
      for T U L R K K' :: "'b set" and k x using that by blast
    ultimately show "tree_keys ?t' \<subseteq> insert ?k (tree_keys ?t)"
      unfolding tree_keys_plug tree_keys.simps(1) [of p es] using grow_keys [of C ?l ?piv ?r fs] by metis
  qed
  moreover have "set (fresh h') \<subseteq> set (fresh h)" using g(3) fr(1) set_drop_subset [of "grown C" fs] by auto
  moreover have "reowned h ti par (addr_of ?t) (addr_of ?t') h'" using reowned_cong [OF ss par g(2)] .
  ultimately show ?thesis using bs h'(1) c(1,3) wf g(1) ad out
    by (intro exI [of _ created] exI [of _ h'] exI [of _ ?t'] exI [of _ c]) (simp add: layer_step_def)
qed

end
