(* ===== verification/Insert_Step.thy ===== *)
theory Insert_Step
  imports Layer_Put
begin

text \<open>
  \<^verbatim>\<open>insert_lv\<close> on the locked leaf of a layer, with or without a split.
\<close>

section \<open>A leaf with room\<close>

text \<open>A leaf as the search finds it, and the path to it.\<close>

definition found_leaf :: "heap \<Rightarrow> addr \<Rightarrow> frame list \<Rightarrow> addr \<Rightarrow> (key \<times> content) list \<Rightarrow> border_node \<Rightarrow> bool" where
  "found_leaf h par C p es b \<longleftrightarrow> nodes h p = Some (Border b) \<and> leaf_node (ctx_parent par C) (C = []) es b \<and>
     (\<forall>c \<in> set (map snd es). content_at h p c) \<and> ctx_at h par C p"

lemma found_leaf_tree: "tree_at h par True (plug C (Leaf p es)) \<longleftrightarrow> (\<exists>b. found_leaf h par C p es b)"
  unfolding tree_at_plug tree_at_contents found_leaf_def by auto

text \<open>What an insertion into a leaf needs to know.\<close>

definition insert_ready :: "heap \<Rightarrow> addr \<Rightarrow> addr \<Rightarrow> frame list \<Rightarrow> addr \<Rightarrow> (key \<times> content) list \<Rightarrow> border_node \<Rightarrow> byte list \<Rightarrow> addr set \<Rightarrow> bool" where
  "insert_ready h ti par C p es b s X \<longleftrightarrow> found_leaf h par C p es b \<and> tree_wf (plug C (Leaf p es)) \<and> fits C (prepare_key_slice s) \<and>
     prepare_key_slice s \<notin> set (map fst es) \<and> linked h nullptr (map fst (layer_leaves (plug C (Leaf p es)))) \<and>
     distinct (par # ctx_addrs C @ tree_addrs (Leaf p es) @ fresh h) \<and> (\<forall>q \<in> set (fresh h). valid_ptr q) \<and>
     owned h ti par (addr_of (plug C (Leaf p es))) \<and> unused_in X h (leaf_addrs (plug C (Leaf p es))) \<and>
     Suc (layers_of s) + grown C \<le> length (fresh h)"

text \<open>The leaf, locked and marked.\<close>

definition busy_border :: "border_node \<Rightarrow> border_node" where
  "busy_border b = set_border_base (if get_permutation_cnk b = 0
     then set_version_deleted False \<circ> (set_version_inserting_deleting True \<circ> locked_base)
     else set_version_inserting_deleting True \<circ> locked_base) b"

lemma busy_border_view [simp]:
  "border_wf (busy_border b) = border_wf b" "border_entries (busy_border b) = border_entries b"
  "border_keys (busy_border b) = border_keys b" "perm_body (busy_border b) = perm_body b" "lv_arr (busy_border b) = lv_arr b"
  "prev_node (busy_border b) = prev_node b" "next_node (busy_border b) = next_node b"
  "parent (border_base (busy_border b)) = parent (border_base b)"
  "root (version (border_base (busy_border b))) = root (version (border_base b))"
  "border (version (border_base (busy_border b))) = border (version (border_base b))"
  "unused_ok X (busy_border b) = unused_ok X b" "get_permutation_cnk (busy_border b) = get_permutation_cnk b"
  by (simp_all add: busy_border_def set_border_base_def unused_ok_def set_version_deleted_def set_version_inserting_deleting_def
      version_simps get_permutation_cnk_def)

lemma busy_border_live:
  "leaf_node par rt es b \<Longrightarrow> \<not> deleted (version (border_base (busy_border b)))"
  using length_border_entries [of b]
  by (auto simp: busy_border_def leaf_node_def set_border_base_def set_version_deleted_def set_version_inserting_deleting_def
      version_simps Let_def)

lemma leaf_busy_found:
  assumes "found_leaf h par C p es b" and "p \<notin> set (ctx_addrs C)" and "p \<notin> set (concat (map content_addrs (map snd es)))"
  shows "leaf_busy (set_node p (Border (busy_border b)) h) par C p es (busy_border b)"
proof -
  let ?h = "set_node p (Border (busy_border b)) h"
  have f: "leaf_node (ctx_parent par C) (C = []) es b" "\<forall>c \<in> set (map snd es). content_at h p c" "ctx_at h par C p"
    using assms(1) by (simp_all add: found_leaf_def)
  have "content_at ?h p c" if c: "c \<in> set (map snd es)" for c
  proof (rule content_at_frame)
    show "content_at h p c" using f(2) c by blast
    show "nodes ?h a = nodes h a" if "a \<in> set (content_addrs c)" for a
      using assms(3) set_concat_map [OF c, of content_addrs] that by auto
  qed simp
  moreover have "ctx_at ?h par C p" by (rule ctx_at_frame [OF f(3)]) (use assms(2) in auto)
  ultimately show ?thesis using f(1) busy_border_live [OF f(1)]
    by (simp add: leaf_busy_def leaf_node_def node_flags_def lv_entries_def Let_def)
qed

lemma insert_lv_unfold:
  assumes "nodes h p = Some (Border (set_border_base locked_base b))"
  shows "insert_lv ti p s v cg rank h = (let h = set_node p (Border (busy_border b)) h in
    if get_permutation_cnk b = key_slice_length then border_split ti p s v cg rank h
    else do {
      slot \<leftarrow> get_empty_slot (perm_body b);
      (created, h) \<leftarrow> insert_lv_at p slot s v cg rank h;
      h \<leftarrow> unlock_at p h;
      Some (created, p, h)
    })"
  using assms by (simp add: insert_lv_def heap_run busy_border_def set_border_base_def get_permutation_cnk_def Let_def comp_def)

text \<open>Nothing but the marks has changed.\<close>

lemma layer_step_cong:
  assumes "layer_step X h1 ti par t h' t'" and "h1 = set_node p n h" and "p \<noteq> par" and "p \<in> set (tree_addrs t)"
  shows "layer_step X h ti par t h' t'"
proof -
  have "same_static h h1" "nodes h1 par = nodes h par" "fresh h1 = fresh h" using assms(2,3) by simp_all
  moreover have "nodes h1 x = nodes h x" if "x \<notin> set (tree_addrs t)" for x using assms(2,4) that by auto
  ultimately show ?thesis using assms(1) reowned_cong [of h h1 par ti "addr_of t" "addr_of t'" h'] by (simp add: layer_step_def)
qed

lemma insert_room_step:
  assumes a: "insert_ready h ti par C p es b s X" and room: "length es < key_slice_length"
    and i: "inserted_at X (set_node p (Border (busy_border b)) h) p (busy_border b) rank i s v qs fs h2 c"
    and f: "fresh h = qs @ fs" and rank: "rank = rank_le (prepare_key_slice s) (map fst es)"
    and b2: "nodes h2 p = Some (Border b2)"
  defines "t' \<equiv> plug C (Leaf p (ins_at rank (prepare_key_slice s, c) es))" and "h' \<equiv> set_node p (Border (set_border_base version_unlock b2)) h2"
  shows "layer_step X h ti par (plug C (Leaf p es)) h' t'" and "entry_put (plug C (Leaf p es)) (prepare_key_slice s) c t'"
proof -
  let ?k = "prepare_key_slice s" and ?t = "plug C (Leaf p es)" and ?es = "ins_at rank (prepare_key_slice s, c) es"
  let ?A = "concat (map content_addrs (map snd es))"
  have fl: "nodes h p = Some (Border b)" "leaf_node (ctx_parent par C) (C = []) es b" "\<forall>c \<in> set (map snd es). content_at h p c" "ctx_at h par C p"
    and tw: "tree_wf ?t" and k: "fits C ?k" "?k \<notin> set (map fst es)"
    and lk: "linked h nullptr (map fst (layer_leaves ?t))" and d0: "distinct (par # ctx_addrs C @ tree_addrs (Leaf p es) @ fresh h)"
    and own: "owned h ti par (addr_of ?t)" and u: "unused_in X h (leaf_addrs ?t)"
    using a unfolding insert_ready_def found_leaf_def by - (elim conjE, assumption)+
  have wf: "ctx_wf C" "tree_wf (Leaf p es)" "\<forall>k \<in> fst ` set es. fits C k" 
    using tw unfolding tree_wf_plug tree_keys.simps by - (elim conjE, assumption)+
  have d: "distinct (par # ctx_addrs C @ p # ?A @ qs @ fs)" using d0 f by simp
  have e: "entry_added (busy_border b) rank i ?k (lv_word c) b2" and c: "content_wf ?k c" "content_at h2 p c" "content_addrs c = qs"
    and uq: "\<forall>q \<in> set qs. \<exists>b. nodes h2 q = Some (Border b) \<and> unused_ok X b"
    and o: "\<And>q. q \<noteq> p \<Longrightarrow> q \<notin> set qs \<Longrightarrow> nodes h2 q = nodes h q" and ss: "same_static h h2" and f2: "fresh h2 = fs"
    using i b2 by (auto simp: inserted_at_def Let_def)
  have o': "nodes h' q = nodes h q" if "q \<noteq> p" "q \<notin> set qs" for q using o [OF that] that by (simp add: h'_def)
  have ss': "same_static h h'" "fresh h' = fs" and pg: "pages_le (pages h) (pages h')" using ss f2 by (simp_all add: h'_def same_static_def)
  have sep: "set (ctx_addrs C) \<inter> insert p (set qs) = {}" "set ?A \<inter> insert p (set qs) = {}" "p \<notin> set qs" "par \<noteq> p" "par \<notin> set qs"
    using d by auto
  have "tree_at h' (ctx_parent par C) (C = []) (Leaf p ?es)"
  proof -
    have "leaf_node (ctx_parent par C) (C = []) ?es (set_border_base version_unlock b2)"
      using e fl(2) busy_border_live [OF fl(2)]
      by (simp add: leaf_node_def entry_added_def set_border_base_def version_unlock_def version_simps Let_def flip: lv_entries_def)
    moreover have "content_at h' p d" if "d \<in> set (map snd ?es)" for d
    proof -
      consider "d = c" | "d \<in> set (map snd es)" using \<open>d \<in> set (map snd ?es)\<close> by auto
      then show ?thesis
      proof cases
        case 1
        have "content_at h' p c" using sep(3) c(3) by (intro content_at_frame [OF c(2)]) (auto simp: h'_def)
        then show ?thesis using 1 by simp
      next
        case 2
        show ?thesis
        proof (rule content_at_frame [OF _ _ pg])
          show "content_at h p d" using fl(3) 2 by blast
          show "nodes h' q = nodes h q" if "q \<in> set (content_addrs d)" for q
            using o' [of q] set_concat_map [OF 2, of content_addrs] sep(2) that by blast
        qed
      qed
    qed
    ultimately show ?thesis unfolding tree_at_contents by (simp add: h'_def)
  qed
  moreover have "ctx_at h' par C p" using o' sep(1) by (intro ctx_at_frame [OF fl(4) _ pg]) blast
  ultimately have at: "tree_at h' par True t'" by (simp add: t'_def tree_at_plug)
  have wf': "tree_wf t'"
  proof -
    have "key_sorted (map fst ?es)" using wf(2) k(2) canonical_prepare [of s] rank by (simp add: key_sorted_ins_at flip: ins_at_map)
    moreover have "rank \<le> length es" using rank rank_le_length [of ?k "map fst es"] by simp
    ultimately have "tree_wf (Leaf p ?es)" using wf(2) room c(1) by auto
    moreover have "fits C x" if "x \<in> tree_keys (Leaf p ?es)" for x using that wf(3) k(1) by auto
    ultimately show ?thesis unfolding t'_def tree_wf_plug using wf(1) by (simp add: ins_at_def)
  qed
  have lv: "map fst (layer_leaves t') = map fst (layer_leaves ?t)" by (simp add: t'_def layer_plug)
  have kp: "keeps_links h h' p" using fl(1) e by (simp add: keeps_links_def h'_def entry_added_def set_border_base_def)
  have tq: "set (tree_addrs ?t) \<inter> set qs = {}" unfolding set_addrs_plug tree_addrs_Leaf using sep by auto
  have leaf_out: "q \<notin> set qs" if "q \<in> set (map fst (layer_leaves ?t))" for q
    using leaves_in_addrs [of ?t] that tq unfolding set_map by blast
  have "linked h' nullptr (map fst (layer_leaves t'))" unfolding lv
  proof (rule linked_keeps [OF lk])
    fix q assume "q \<in> set (map fst (layer_leaves ?t))"
    then show "keeps_links h h' q" using kp keeps_same [OF o', of q] leaf_out by (cases "q = p") auto
  qed
  moreover have "unused_in X h' (leaf_addrs t')"
  proof -
    let ?L = "ctx_left leaf_addrs C" and ?R = "ctx_right leaf_addrs C" and ?D = "concat (map content_leaves (map snd es))"
    have l: "leaf_addrs ?t = ?L @ leaf_addrs (Leaf p es) @ ?R" "leaf_addrs t' = ?L @ leaf_addrs (Leaf p ?es) @ ?R"
      unfolding t'_def by (rule concat_plug, simp)+
    have up: "unused_ok X (set_border_base version_unlock b2)"
    proof -
      have "p \<in> set (leaf_addrs ?t)" unfolding l(1) by simp
      then have "unused_ok X b" using u fl(1) unfolding unused_in_def by fastforce
      then show ?thesis using unused_ok_added [OF e] by (simp add: unused_ok_def set_border_base_def)
    qed
    have old: "\<exists>b. nodes h' q = Some (Border b) \<and> unused_ok X b" if "q \<in> set (leaf_addrs ?t)" for q
    proof (cases "q = p")
      case False
      moreover have "q \<notin> set qs" using leaf_addrs_sub [of ?t] tq that by blast
      ultimately show ?thesis using o' [of q] u that unfolding unused_in_def by simp
    qed (use up in \<open>simp add: h'_def\<close>)
    have new: "\<exists>b. nodes h' q = Some (Border b) \<and> unused_ok X b" if "q \<in> set (content_leaves c)" for q
    proof -
      have "q \<in> set qs" using leaves_of_content [of c] c(3) that by blast
      then show ?thesis using uq sep(3) by (auto simp: h'_def)
    qed
    have "set (leaf_addrs t') \<subseteq> set (leaf_addrs ?t) \<union> set (content_leaves c)"
      unfolding l leaf_addrs_Leaf using arg_cong [OF mset_concat_addrs_ins [of content_leaves rank ?k c es], of set_mset] by auto
    then show ?thesis unfolding unused_in_def using old new by blast
  qed
  moreover have "mset (tree_addrs t' @ fresh h') = mset (tree_addrs ?t @ fresh h)"
    using c(3) f ss'(2) mset_concat_addrs_ins [of content_addrs rank ?k c es] by (simp add: t'_def tree_addrs_plug)
  moreover have root: "addr_of t' = addr_of ?t" unfolding t'_def by (rule addr_of_plug) simp
  moreover have "reowned h ti par (addr_of ?t) (addr_of t') h'"
  proof -
    have "tree_wf ?t" using a by (simp add: insert_ready_def)
    then have "addr_of ?t \<noteq> nullptr" using tree_wf_valid_ptr [of ?t] by (simp add: valid_ptr_def)
    then show ?thesis unfolding root using reowned_same [OF own] ss'(1) o' [of par] sep(4,5) by blast
  qed
  moreover have "nodes h' x = nodes h x" if "x \<notin> insert par (set (tree_addrs ?t @ fresh h))" for x
    using o' [of x] that f by (auto simp: set_addrs_plug)
  ultimately show "layer_step X h ti par ?t h' t'" using wf' at f ss'(2) by (simp add: layer_step_def)
  show "entry_put ?t ?k c t'"
    by (rule entry_put_new [OF _ _ wf', of _ "ctx_left layer_entries C" es "ctx_right layer_entries C" rank])
      (auto simp: t'_def layer_plug tree_keys_plug)
qed

section \<open>Both cases\<close>

lemma insert_lv_step:
  assumes a: "insert_ready h ti par C p es b s X" and v: "value_word v" "value_at (pages h) v"
    and rank: "rank = rank_le (prepare_key_slice s) (map fst es)"
  shows "\<exists>created h' t' c. insert_lv ti p s v cg rank (set_node p (Border (set_border_base locked_base b)) h) = Some (created, p, h') \<and>
    layer_step X h ti par (plug C (Leaf p es)) h' t' \<and> entry_put (plug C (Leaf p es)) (prepare_key_slice s) c t' \<and>
    content_entries (key_bytes (prepare_key_slice s)) c = [(s, v)] \<and> content_wf (prepare_key_slice s) c"
proof -
  let ?k = "prepare_key_slice s" and ?t = "plug C (Leaf p es)" and ?h1 = "set_node p (Border (busy_border b)) h"
  have fl: "found_leaf h par C p es b" and tw: "tree_wf ?t" and k: "fits C ?k" "?k \<notin> set (map fst es)"
    and lk: "linked h nullptr (map fst (layer_leaves ?t))" and d: "distinct (par # ctx_addrs C @ tree_addrs (Leaf p es) @ fresh h)"
    and vf: "\<forall>q \<in> set (fresh h). valid_ptr q" and own: "owned h ti par (addr_of ?t)" and u: "unused_in X h (leaf_addrs ?t)"
    and fr: "Suc (layers_of s) + grown C \<le> length (fresh h)"
    using a unfolding insert_ready_def by - (elim conjE, assumption)+
  have b: "nodes h p = Some (Border b)" "border_wf b" "border_entries b = lv_entries es"
    using fl by (simp_all add: found_leaf_def leaf_node_def lv_entries_def)
  have cnk: "get_permutation_cnk b = length es" "border_keys b = map fst es"
    using length_border_entries [of b] map_fst_entries [of b] b(3) by simp_all
  have sep: "p \<notin> set (ctx_addrs C)" "p \<notin> set (concat (map content_addrs (map snd es)))" "p \<noteq> par" "p \<in> set (tree_addrs ?t)"
    using d by (auto simp: set_addrs_plug)
  have keep: "keeps_slots h ?h1 q \<and> keeps_links h ?h1 q" for q
    using b(1) by (cases "q = p") (auto simp: keeps_slots_def keeps_links_def)
  have u1: "unused_in X ?h1 (leaf_addrs ?t)" using unused_in_keeps [OF u] keep by blast
  have e: "insert_lv ti p s v cg rank (set_node p (Border (set_border_base locked_base b)) h) =
      (if length es = key_slice_length then border_split ti p s v cg rank ?h1
       else do {
         slot \<leftarrow> get_empty_slot (perm_body b);
         (created, h) \<leftarrow> insert_lv_at p slot s v cg rank ?h1;
         h \<leftarrow> unlock_at p h;
         Some (created, p, h)
       })"
    using insert_lv_unfold [of "set_node p (Border (set_border_base locked_base b)) h" p b ti s v cg rank] by (simp add: cnk)
  show ?thesis
  proof (cases "length es = key_slice_length")
    case True
    have "full_leaf ?h1 par C p es (busy_border b) s rank"
      unfolding full_leaf_def using leaf_busy_found [OF fl sep(1,2)] tw k True rank linked_keeps [OF lk, of ?h1] keep d vf by simp
    moreover have "owned ?h1 ti par (addr_of ?t)" using owned_cong [of h ?h1 par ti] own sep(3) by simp
    ultimately obtain created h' t' c where st: "border_split ti p s v cg rank ?h1 = Some (created, p, h')"
      "layer_step X ?h1 ti par ?t h' t'" "entry_put ?t ?k c t'" "content_entries (key_bytes ?k) c = [(s, v)]" "content_wf ?k c"
      using border_split_step [of ?h1 par C p es "busy_border b" s rank v ti X cg] v fr u1 by auto
    moreover have "insert_lv ti p s v cg rank (set_node p (Border (set_border_base locked_base b)) h) = Some (created, p, h')"
      using e True st(1) by simp
    ultimately show ?thesis using layer_step_cong [OF st(2) refl sep(3,4)] by blast
  next
    case False
    moreover have "length es \<le> key_slice_length" using tw unfolding tree_wf_plug by simp
    ultimately have room: "length es < key_slice_length" by simp
    have "p \<in> set (leaf_addrs ?t)" using concat_plug [of leaf_addrs C "Leaf p es"] by simp
    then have ub: "unused_ok X b" using u b(1) unfolding unused_in_def by fastforce
    have kb: "?k \<notin> set (border_keys b)" using k(2) cnk(2) by simp
    have cr: "get_permutation_cnk b < key_slice_length" using room cnk(1) by simp
    obtain i where i: "get_empty_slot (perm_body b) = Some i" "free_slot_for X b ?k i"
      using get_empty_slot_for [OF b(2) cr ub canonical_prepare kb] .
    have i': "free_slot_for X (busy_border b) ?k i" using i(2) by (simp add: free_slot_for_def)
    define qs fs where "qs = take (layers_of s) (fresh h)" and "fs = drop (layers_of s) (fresh h)"
    have q: "fresh ?h1 = qs @ fs" "fresh h = qs @ fs" "length qs = layers_of s" using fr by (simp_all add: qs_def fs_def)
    have "p \<notin> set (fresh h)" "distinct (fresh h)" using d by auto
    then have q': "distinct (p # qs)" "\<forall>q \<in> set qs. valid_ptr q" using vf unfolding qs_def by (auto dest: in_set_takeD)
    have n1: "nodes ?h1 p = Some (Border (busy_border b))" and r1: "rank = rank_le ?k (border_keys (busy_border b))"
      and v1: "value_at (pages ?h1) v" using rank v(2) by (simp_all add: cnk)
    obtain created h2 c where h2: "insert_lv_at p i s v cg rank ?h1 = Some (created, h2)"
      "inserted_at X ?h1 p (busy_border b) rank i s v qs fs h2 c"
      using insert_lv_at_spec [OF n1 i' r1 v(1) v1 q(1,3) q'] by blast
    obtain b2 where b2: "nodes h2 p = Some (Border b2)" and c: "content_entries (key_bytes ?k) c = [(s, v)]" "content_wf ?k c"
      using h2(2) by (auto simp: inserted_at_def Let_def)
    have "insert_lv ti p s v cg rank (set_node p (Border (set_border_base locked_base b)) h) =
        Some (created, p, set_node p (Border (set_border_base version_unlock b2)) h2)"
      unfolding e using False i(1) h2(1) b2 by (simp add: heap_run)
    then show ?thesis using insert_room_step [OF a room h2(2) q(2) rank b2] c by blast
  qed
qed

end
