(* ===== verification/Layer_Lift.thy ===== *)
theory Layer_Lift
  imports Insert_Step
begin

text \<open>
  An entry of a leaf gets another value or another next layer: what this means for the layer
  the leaf is in.
\<close>

section \<open>Finding the slot of a next layer\<close>

lemma distinct_concat_nth:
  "distinct (concat xss) \<Longrightarrow> i < length xss \<Longrightarrow> j < length xss \<Longrightarrow> i \<noteq> j \<Longrightarrow> set (xss ! i) \<inter> set (xss ! j) = {}"
proof (induction xss arbitrary: i j)
  case (Cons xs xss)
  have "set xs \<inter> set (xss ! n) = {}" if "n < length xss" for n
    using Cons.prems(1) nth_mem [OF that] by auto
  then show ?case using Cons by (cases i; cases j) auto
qed simp

lemma get_lv_entry:
  assumes b: "border_wf b" "border_entries b = lv_entries es" "unused_ok X b" and r: "r < length es" "es ! r = (k, Sub u)"
    and X: "addr_of u \<in> X" and d: "distinct (concat (map content_addrs (map snd es)))"
    and w: "\<And>k c. (k, c) \<in> set es \<Longrightarrow> content_wf k c"
  shows "get_lv b (addr_of u) = Some (perm_list (perm_body b) ! r)"
proof -
  let ?pl = "perm_list (perm_body b)"
  have cnk: "get_permutation_cnk b = length es" using length_border_entries [of b] b(2) by simp
  have len: "length ?pl = length es" using cnk by (simp add: get_permutation_cnk_def perm.count_order)
  have slot: "?pl ! j < 15" "lv_arr b ! (?pl ! j) = lv_word (snd (es ! j))" if "j < length es" for j
    using border_slot(2,4) [OF b(1), of j] b(2) cnk that by (auto simp: lv_entries_def case_prod_beta')
  have nl: "get_next_layer (lv_word (snd (es ! j))) = (case snd (es ! j) of Val v \<Rightarrow> nullptr | Sub t \<Rightarrow> addr_of t)" if "j < length es" for j
  proof -
    have "content_wf (fst (es ! j)) (snd (es ! j))" using w [of "fst (es ! j)" "snd (es ! j)"] that by simp
    then show ?thesis using set_next_layer_roundtrip(1) tree_wf_valid_ptr by (auto simp: value_word_def split: content.splits)
  qed
  have "content_wf k (Sub u)" using w [of k "Sub u"] r nth_mem [OF r(1)] by simp
  then have nn: "addr_of u \<noteq> nullptr" using tree_wf_valid_ptr [of u] by (simp add: valid_ptr_def)
  have only: "j = ?pl ! r" if j: "j < length (lv_arr b)" "get_next_layer (lv_arr b ! j) = addr_of u" for j
  proof -
    have "j \<in> set ?pl"
    proof (rule ccontr)
      assume "j \<notin> set ?pl"
      then have "slot_free X (lv_arr b ! j)" using b(1,3) j(1) by (simp add: unused_ok_def border_wf_def)
      then show False using j(2) X nn by (auto simp: slot_free_def split: if_splits)
    qed
    then obtain i where i: "i < length es" "j = ?pl ! i" using len by (auto simp: in_set_conv_nth)
    then obtain t where t: "snd (es ! i) = Sub t" "addr_of t = addr_of u"
      using j(2) slot(2) [OF i(1)] nl [OF i(1)] nn by (auto split: content.splits)
    have "i = r"
    proof (rule ccontr)
      assume "i \<noteq> r"
      have "addr_of u \<in> set (content_addrs (snd (es ! i))) \<inter> set (content_addrs (snd (es ! r)))"
        using r t addr_of_in_addrs [of t] by simp
      moreover have "set (content_addrs (snd (es ! i))) \<inter> set (content_addrs (snd (es ! r))) = {}"
        using distinct_concat_nth [OF d, of i r] \<open>i \<noteq> r\<close> i(1) r(1) by simp
      ultimately show False by blast
    qed
    then show ?thesis using i(2) by simp
  qed
  have "find_next_layer (lv_arr b) (addr_of u) 0 = Some (0 + ?pl ! r)"
  proof (rule find_next_layer_least)
    show pr: "?pl ! r < length (lv_arr b)" "get_next_layer (lv_arr b ! (?pl ! r)) = addr_of u"
      using slot [OF r(1)] nl [OF r(1)] r(2) b(1) by (simp_all add: border_wf_def)
    show "get_next_layer (lv_arr b ! j) \<noteq> addr_of u" if "j < ?pl ! r" for j using only [of j] pr(1) that by auto
  qed
  then show ?thesis by (simp add: get_lv_def)
qed

lemma entries_update:
  assumes "border_wf b" and "r < get_permutation_cnk b"
  shows "border_entries (b\<lparr>lv_arr := (lv_arr b)[perm_list (perm_body b) ! r := w]\<rparr>) = (border_entries b)[r := (border_keys b ! r, w)]"
    (is "border_entries ?b = _")
proof (rule nth_equalityI)
  let ?pl = "perm_list (perm_body b)"
  have pl: "distinct ?pl" "length ?pl = get_permutation_cnk b" "\<forall>i \<in> set ?pl. i < length (lv_arr b)"
    using assms(1) by (auto simp: border_wf_def perm.invar_order get_permutation_cnk_def perm.count_order)
  show "length (border_entries ?b) = length ((border_entries b)[r := (border_keys b ! r, w)])" by (simp add: border_entries_def)
  fix i assume "i < length (border_entries ?b)"
  then have i: "i < length ?pl" by (simp add: border_entries_def)
  have "?pl ! i = ?pl ! r \<longleftrightarrow> i = r" using pl i assms(2) nth_eq_iff_index_eq by metis
  then show "border_entries ?b ! i = (border_entries b)[r := (border_keys b ! r, w)] ! i"
    using i pl assms(2) by (auto simp: border_entries_def border_keys_def nth_list_update)
qed

section \<open>Changing an entry\<close>

text \<open>The node with another word in one slot, written under the lock.\<close>

definition slot_put :: "border_node \<Rightarrow> nat \<Rightarrow> link_or_value \<Rightarrow> border_node \<Rightarrow> bool" where
  "slot_put b i w b' \<longleftrightarrow> (\<exists>v. b' = b\<lparr>border_base := (border_base b)\<lparr>version := v\<rparr>, lv_arr := (lv_arr b)[i := w]\<rparr> \<and>
     is_stable v \<and> root v = root (version (border_base b)) \<and> border v = border (version (border_base b)) \<and>
     deleted v = deleted (version (border_base b)))"

lemma slot_changed_put: "slot_changed b a a' b' \<longleftrightarrow> (\<exists>i. get_lv b a = Some i \<and> slot_put b i (set_next_layer a') b')"
  by (simp add: slot_changed_def slot_put_def)

lemma entry_slot:
  assumes "border_wf b" and "border_entries b = lv_entries (A @ (k, c) # B)"
  shows "length A < get_permutation_cnk b" and "border_keys b ! length A = k" and "slot_of b k = Some (perm_list (perm_body b) ! length A)"
proof -
  show r: "length A < get_permutation_cnk b" using length_border_entries [of b] assms(2) by simp
  have "border_keys b = map fst A @ k # map fst B" using map_fst_entries [of b] assms(2) by simp
  then show k: "border_keys b ! length A = k" by (simp add: nth_append)
  show "slot_of b k = Some (perm_list (perm_body b) ! length A)" using slot_of_Some [OF assms(1) r] k by simp
qed

lemma slot_put_leaf:
  assumes "leaf_node par rt (A @ (k, c) # B) b" and "slot_put b (perm_list (perm_body b) ! length A) (lv_word c') b'"
  shows "leaf_node par rt (A @ (k, c') # B) b'" and "prev_node b' = prev_node b" and "next_node b' = next_node b"
    and "unused_ok X b \<Longrightarrow> unused_ok X b'"
proof -
  let ?pl = "perm_list (perm_body b)" and ?es = "A @ (k, c) # B"
  have b: "border_wf b" "border_entries b = lv_entries ?es" using assms(1) by (simp_all add: leaf_node_def lv_entries_def)
  note r = entry_slot(1,2) [OF b]
  obtain v where v: "b' = b\<lparr>border_base := (border_base b)\<lparr>version := v\<rparr>, lv_arr := (lv_arr b)[?pl ! length A := lv_word c']\<rparr>"
    "is_stable v" "root v = root (version (border_base b))" "border v = border (version (border_base b))"
    "deleted v = deleted (version (border_base b))"
    using assms(2) by (auto simp: slot_put_def)
  have "border_entries b' = border_entries (b\<lparr>lv_arr := (lv_arr b)[?pl ! length A := lv_word c']\<rparr>)"
    using v(1) by (simp add: border_entries_def)
  then have "border_entries b' = lv_entries (A @ (k, c') # B)"
    unfolding entries_update [OF b(1) r(1)] b(2) r(2) by (simp add: lv_entries_def list_update_append)
  moreover have "border_wf b'" using b(1) v(1) by (simp add: border_wf_def border_keys_def)
  ultimately show "leaf_node par rt (A @ (k, c') # B) b'" using assms(1) v by (auto simp: leaf_node_def Let_def lv_entries_def)
  show "prev_node b' = prev_node b" "next_node b' = next_node b" using v(1) by simp_all
  have "?pl ! length A \<in> set ?pl" using r(1) b(1) by (simp add: border_wf_def get_permutation_cnk_def perm.count_order)
  then have "(lv_arr b)[?pl ! length A := lv_word c'] ! i = lv_arr b ! i" if "i \<notin> set ?pl" for i
    using that by (intro nth_list_update_neq) blast
  then show "unused_ok X b \<Longrightarrow> unused_ok X b'" using v(1) by (simp add: unused_ok_def)
qed

text \<open>A leaf of a layer, no writer under way.\<close>

definition leaf_ready :: "heap \<Rightarrow> addr \<Rightarrow> addr \<Rightarrow> frame list \<Rightarrow> addr \<Rightarrow> (key \<times> content) list \<Rightarrow> border_node \<Rightarrow> addr set \<Rightarrow> bool" where
  "leaf_ready h ti par C p es b X \<longleftrightarrow> found_leaf h par C p es b \<and> tree_wf (plug C (Leaf p es)) \<and>
     linked h nullptr (map fst (layer_leaves (plug C (Leaf p es)))) \<and>
     distinct (par # ctx_addrs C @ tree_addrs (Leaf p es) @ fresh h) \<and> (\<forall>q \<in> set (fresh h). valid_ptr q) \<and>
     owned h ti par (addr_of (plug C (Leaf p es))) \<and> unused_in X h (leaf_addrs (plug C (Leaf p es)))"

lemma layer_entries_distinct: "tree_wf t \<Longrightarrow> distinct (map fst (layer_entries t))"
  by (rule key_sorted_distinct [OF layer_sorted])

lemma entry_put_old:
  assumes "layer_entries t = A @ (k, c) # B" and "layer_entries t' = A @ (k, c') # B" and "tree_wf t" and "tree_keys t' = tree_keys t"
  shows "entry_put t k c' t'"
proof -
  have "distinct (map fst (A @ (k, c) # B))" using layer_entries_distinct [OF assms(3)] assms(1) by simp
  then have "map_of (A @ (k, c') # B) = (map_of (A @ (k, c) # B))(k \<mapsto> c')"
    using map_of_insert_absent [of A k c B] map_of_insert_absent [of A k c' B] by simp
  then show ?thesis using assms(1,2,4) by (auto simp: entry_put_def)
qed

text \<open>The leaf with other entries under the same keys or fewer, its neighbours as they were.\<close>

lemma unused_in_mono: "unused_in X h as \<Longrightarrow> Y \<subseteq> X \<Longrightarrow> unused_in Y h as"
  unfolding unused_in_def using unused_ok_mono by blast

lemma leaf_replaced:
  assumes a: "leaf_ready h ti par C p es b X"
    and n: "nodes h' p = Some (Border b')" "leaf_node (ctx_parent par C) (C = []) es' b'" "prev_node b' = prev_node b" "next_node b' = next_node b"
    and w: "tree_wf (Leaf p es')" "fst ` set es' \<subseteq> fst ` set es" "C \<noteq> [] \<Longrightarrow> es' \<noteq> []"
    and c: "\<forall>c \<in> set (map snd es'). content_at h' p c" "unused_in Y h' (leaf_addrs (Leaf p es'))" "Y \<subseteq> X"
    and o: "\<And>x. x \<in> set (ctx_addrs C) \<Longrightarrow> nodes h' x = nodes h x" and pg: "pages_le (pages h) (pages h')"
  defines "t \<equiv> plug C (Leaf p es)" and "t' \<equiv> plug C (Leaf p es')"
  shows "tree_wf t'" and "tree_at h' par True t'" and "linked h' nullptr (map fst (layer_leaves t'))" and "unused_in Y h' (leaf_addrs t')"
    and "addr_of t' = addr_of t"
proof -
  have fl: "nodes h p = Some (Border b)" "ctx_at h par C p"
    and tw: "tree_wf t" and lk: "linked h nullptr (map fst (layer_leaves t))" and u: "unused_in X h (leaf_addrs t)"
    using a unfolding leaf_ready_def found_leaf_def t_def by - (elim conjE, assumption)+
  have wf: "ctx_wf C" "\<forall>k \<in> fst ` set es. fits C k"
    using tw unfolding t_def tree_wf_plug tree_keys.simps by - (elim conjE, assumption)+
  have fit: "\<forall>k \<in> tree_keys (Leaf p es'). fits C k" using wf(2) w(2) by (simp only: tree_keys.simps) (rule ballI, drule (1) subsetD, erule (1) bspec)
  have ne: "C \<noteq> [] \<longrightarrow> layer_entries (Leaf p es') \<noteq> []" using w(3) by simp
  show "tree_wf t'" unfolding t'_def tree_wf_plug using wf(1) w(1) fit ne by (intro conjI)
  have "tree_at h' (ctx_parent par C) (C = []) (Leaf p es')" unfolding tree_at_contents using n(1,2) c(1) by blast
  moreover have "ctx_at h' par C p" by (rule ctx_at_frame [OF fl(2) o pg])
  ultimately show "tree_at h' par True t'" by (simp add: t'_def tree_at_plug)
  have lv: "map fst (layer_leaves t') = map fst (layer_leaves t)" by (simp add: t'_def t_def layer_plug)
  have "keeps_links h h' q" if q: "q \<in> set (map fst (layer_leaves t))" for q
  proof (cases "q = p")
    case True
    then show ?thesis using fl(1) n by (simp add: keeps_links_def)
  next
    case False
    have "set (map fst (layer_leaves t)) \<subseteq> insert p (set (ctx_addrs C))" using ctx_leaves_sub [of C] by (auto simp: t_def layer_plug)
    then have "nodes h' q = nodes h q" using q False o [of q] by blast
    then show ?thesis using keeps_same by blast
  qed
  then show "linked h' nullptr (map fst (layer_leaves t'))" unfolding lv by (rule linked_keeps [OF lk])
  let ?L = "ctx_left leaf_addrs C" and ?R = "ctx_right leaf_addrs C"
  have l: "leaf_addrs t = ?L @ leaf_addrs (Leaf p es) @ ?R" "leaf_addrs t' = ?L @ leaf_addrs (Leaf p es') @ ?R"
    unfolding t_def t'_def by (rule concat_plug, simp)+
  have "unused_in Y h (?L @ ?R)" using unused_in_mono [OF u c(3)] unfolding l(1) unused_in_simps by blast
  then have "unused_in Y h' (?L @ ?R)"
  proof (rule unused_in_keeps)
    fix q assume "q \<in> set (?L @ ?R)"
    then have "q \<in> set (ctx_addrs C)" using ctx_sub [OF leaf_addrs_sub, of C] unfolding set_append by blast
    then show "keeps_slots h h' q" using keeps_same [OF o] by blast
  qed
  then show "unused_in Y h' (leaf_addrs t')" unfolding l(2) unused_in_simps using c(2) by blast
  show "addr_of t' = addr_of t" unfolding t'_def t_def by (rule addr_of_plug) simp
qed

text \<open>The contents of the other entries.\<close>

lemma other_contents:
  assumes a: "leaf_ready h ti par C p es b X" and es: "es = A @ (k, c) # B" and d: "d \<in> set (map snd (A @ B))"
    and o: "\<And>x. x \<notin> insert p (set (content_addrs c @ fresh h)) \<Longrightarrow> nodes h' x = nodes h x" and pg: "pages_le (pages h) (pages h')"
  shows "content_at h' p d" and "q \<in> set (content_leaves d) \<Longrightarrow> nodes h' q = nodes h q \<and> q \<in> set (leaf_addrs (plug C (Leaf p es)))"
proof -
  let ?rest = "concat (map content_addrs (map snd (A @ B)))"
  have at: "content_at h p d" using a d unfolding leaf_ready_def found_leaf_def es by auto
  have "distinct (p # content_addrs c @ ?rest @ fresh h)" using a unfolding leaf_ready_def es by auto
  then have sep: "set ?rest \<inter> insert p (set (content_addrs c @ fresh h)) = {}" by auto
  have sub: "set (content_addrs d) \<subseteq> set ?rest" by (rule set_concat_map [OF d])
  then have same: "nodes h' x = nodes h x" if "x \<in> set (content_addrs d)" for x using o [of x] sep that by blast
  show "content_at h' p d" by (rule content_at_frame [OF at same pg])
  assume q: "q \<in> set (content_leaves d)"
  have "q \<in> set (content_addrs d)" using q leaves_of_content [of d] by blast
  moreover have "q \<in> set (leaf_addrs (Leaf p es))" using q d by (auto simp: es)
  moreover have "leaf_addrs (plug C (Leaf p es)) = ctx_left leaf_addrs C @ leaf_addrs (Leaf p es) @ ctx_right leaf_addrs C" by (rule concat_plug) simp
  ultimately show "nodes h' q = nodes h q \<and> q \<in> set (leaf_addrs (plug C (Leaf p es)))" using same by auto
qed

lemma other_unused:
  assumes a: "leaf_ready h ti par C p es b X" and es: "es = A @ (k, c) # B" and Y: "Y \<subseteq> X"
    and o: "\<And>x. x \<notin> insert p (set (content_addrs c @ fresh h)) \<Longrightarrow> nodes h' x = nodes h x" and pg: "pages_le (pages h) (pages h')"
  shows "unused_in Y h' (concat (map content_leaves (map snd (A @ B))))"
  unfolding unused_in_def
proof
  fix q assume "q \<in> set (concat (map content_leaves (map snd (A @ B))))"
  then obtain d where d: "d \<in> set (map snd (A @ B))" "q \<in> set (content_leaves d)" by auto
  have "unused_in X h (leaf_addrs (plug C (Leaf p es)))" using a by (simp add: leaf_ready_def)
  moreover note other_contents(2) [OF a es d(1) o pg d(2)]
  ultimately have "\<exists>b. nodes h' q = Some (Border b) \<and> unused_ok X b" unfolding unused_in_def by auto
  then show "\<exists>b. nodes h' q = Some (Border b) \<and> unused_ok Y b" using unused_ok_mono [OF _ Y] by blast
qed

lemma entry_changed_step:
  assumes a: "leaf_ready h ti par C p es b X" and es: "es = A @ (k, c) # B"
    and n: "nodes h' p = Some (Border b')" "slot_put b (perm_list (perm_body b) ! length A) (lv_word c') b'"
    and c': "content_at h' p c'" "content_wf k c'" "unused_in X h' (content_leaves c')"
    and o: "\<And>x. x \<notin> insert p (set (content_addrs c @ fresh h)) \<Longrightarrow> nodes h' x = nodes h x" and ss: "same_static h h'"
    and ad: "mset (content_addrs c' @ fresh h') = mset (content_addrs c @ fresh h)" "set (fresh h') \<subseteq> set (fresh h)"
  defines "t \<equiv> plug C (Leaf p es)" and "t' \<equiv> plug C (Leaf p (A @ (k, c') # B))"
  shows "layer_step X h ti par t h' t'" and "entry_put t k c' t'"
proof -
  let ?es = "A @ (k, c') # B" and ?N = "set (content_addrs c @ fresh h)"
  let ?rest = "concat (map content_addrs (map snd A)) @ concat (map content_addrs (map snd B))"
  have fl: "nodes h p = Some (Border b)" "leaf_node (ctx_parent par C) (C = []) es b" "\<forall>c \<in> set (map snd es). content_at h p c" "ctx_at h par C p"
    and tw: "tree_wf t" and lk: "linked h nullptr (map fst (layer_leaves t))" 
    and d0: "distinct (par # ctx_addrs C @ tree_addrs (Leaf p es) @ fresh h)"
    and own: "owned h ti par (addr_of t)" and u: "unused_in X h (leaf_addrs t)"
    using a unfolding leaf_ready_def found_leaf_def t_def by - (elim conjE, assumption)+
  have wf: "ctx_wf C" "tree_wf (Leaf p es)" "\<forall>k \<in> fst ` set es. fits C k" 
    using tw unfolding t_def tree_wf_plug tree_keys.simps by - (elim conjE, assumption)+
  note b' = slot_put_leaf [OF fl(2) [unfolded es] n(2)]
  have sep: "set (ctx_addrs C) \<inter> insert p ?N = {}" "par \<noteq> p" "par \<notin> ?N" using d0 unfolding es by auto
  have pg: "pages_le (pages h) (pages h')" using ss by (simp add: same_static_def)
  have ca: "\<forall>d \<in> set (map snd ?es). content_at h' p d"
  proof
    fix d assume "d \<in> set (map snd ?es)"
    then have "d = c' \<or> d \<in> set (map snd (A @ B))" by auto
    then show "content_at h' p d" using c'(1) other_contents(1) [OF a es _ o pg] by blast
  qed
  have lw: "tree_wf (Leaf p ?es)" using wf(2) c'(2) unfolding es by auto
  have "unused_ok X b" using u fl(1) unfolding t_def by (subst (asm) concat_plug) (auto simp: unused_in_def)
  then have un: "unused_in X h' (leaf_addrs (Leaf p ?es))" using n(1) b'(4) c'(3) other_unused [OF a es subset_refl o pg] by simp
  have oc: "nodes h' x = nodes h x" if "x \<in> set (ctx_addrs C)" for x using o [of x] sep(1) that by blast
  have ks: "fst ` set ?es \<subseteq> fst ` set es" and ne: "?es \<noteq> []" by (simp_all add: es)
  note r = leaf_replaced [OF a n(1) b'(1,2,3) lw ks ne ca un subset_refl oc pg, folded t_def t'_def]
  have root: "addr_of t' = addr_of t" by (rule r(5))
  have "mset (tree_addrs t' @ fresh h') = mset (tree_addrs t @ fresh h)"
    using ad(1) by (simp add: t'_def t_def es tree_addrs_plug)
  moreover have "reowned h ti par (addr_of t) (addr_of t') h'"
  proof -
    have "addr_of t \<noteq> nullptr" using tree_wf_valid_ptr [OF tw] by (simp add: valid_ptr_def)
    moreover have "nodes h' par = nodes h par" using o [of par] sep(2,3) by blast
    ultimately show ?thesis unfolding root using reowned_same [OF own] ss by blast
  qed
  moreover have "nodes h' x = nodes h x" if x: "x \<notin> insert par (set (tree_addrs t @ fresh h))" for x
    using o [of x] x by (auto simp: t_def set_addrs_plug es)
  ultimately show "layer_step X h ti par t h' t'" using r(1-4) ad(2) root by (simp add: layer_step_def)
  show "entry_put t k c' t'"
    by (rule entry_put_old [OF _ _ tw, of "ctx_left layer_entries C @ A" k c "B @ ctx_right layer_entries C"])
      (simp_all add: t_def t'_def layer_plug tree_keys_plug es)
qed

end
