(* ===== verification/Prune_Interior.thy ===== *)
theory Prune_Interior
  imports Tree_Prune Layer_Lift
begin

text \<open>
  \<^verbatim>\<open>delete_of\<close> of an interior node whose child, an empty leaf, goes away.
\<close>

section \<open>Sessions and quiet changes\<close>

text \<open>A node handed to the garbage of the session.\<close>

definition retire_node :: "addr \<Rightarrow> thread_info \<Rightarrow> thread_info" where
  "retire_node p ti = ti\<lparr>gc_info := push_node_container (begin_epoch ti, p) (gc_info ti)\<rparr>"

definition retired :: "Token \<Rightarrow> addr list \<Rightarrow> thread_info list \<Rightarrow> thread_info list" where
  "retired token ps ts = ts[token := fold retire_node ps (ts ! token)]"

lemma retired_simps [simp]:
  "length (retired token ps ts) = length ts" "retired token [] ts = ts"
  "token < length ts \<Longrightarrow> retired token qs (retired token ps ts) = retired token (ps @ qs) ts"
  by (simp_all add: retired_def)

lemma push_node_garbage_eq [heap_run]:
  "token < length (thread_info_table h) \<Longrightarrow>
   push_node_garbage token p h = Some (h\<lparr>thread_info_table := retired token [p] (thread_info_table h)\<rparr>)"
  by (simp add: push_node_garbage_def get_session_def set_session_def retired_def retire_node_def)

text \<open>Pages that differ in the delete flag only.\<close>

definition pages_like :: "value_pages \<Rightarrow> value_pages \<Rightarrow> bool" where
  "pages_like vh vh' \<longleftrightarrow> (\<forall>q. map_option (need_delete_flag_update (\<lambda>_. True)) (vh' q) = map_option (need_delete_flag_update (\<lambda>_. True)) (vh q))"

lemma pages_like_refl [simp]: "pages_like vh vh" and pages_like_trans: "pages_like u v \<Longrightarrow> pages_like v w \<Longrightarrow> pages_like u w"
  by (simp_all add: pages_like_def)

lemma pages_like_page:
  assumes "pages_like vh vh'" and "vh q = Some x"
  obtains y where "vh' q = Some y" "len y = len x" "align y = align x" "body y = body x" "page_size y = page_size x"
proof -
  have "map_option (need_delete_flag_update (\<lambda>_. True)) (vh' q) = Some (x\<lparr>need_delete_flag := True\<rparr>)"
    using assms by (simp add: pages_like_def)
  then obtain y where y: "vh' q = Some y" "y\<lparr>need_delete_flag := True\<rparr> = x\<lparr>need_delete_flag := True\<rparr>" by auto
  have "f (y\<lparr>need_delete_flag := True\<rparr>) = f (x\<lparr>need_delete_flag := True\<rparr>)" for f :: "value_page \<Rightarrow> 'b" using y(2) by simp
  from this [of len] this [of align] this [of body] this [of page_size] show thesis using that y(1) by simp
qed

lemma pages_like_le: "pages_like vh vh' \<Longrightarrow> pages_le vh vh'"
  unfolding pages_le_def by (metis pages_like_page)

lemma pages_like_None: "pages_like vh vh' \<Longrightarrow> vh' q = None \<longleftrightarrow> vh q = None"
  unfolding pages_like_def by (metis map_option_is_None)

definition quiet :: "heap \<Rightarrow> heap \<Rightarrow> bool" where
  "quiet h h' \<longleftrightarrow> pages_like (pages h) (pages h') \<and> storages_root h' = storages_root h \<and> fresh h' = fresh h"

lemma quiet_simps [simp]:
  "quiet h h" "quiet h (set_node p n h') = quiet h h'" "quiet (set_node p n h) h' = quiet h h'"
  "quiet h (h'\<lparr>thread_info_table := T\<rparr>) = quiet h h'" "quiet (h\<lparr>thread_info_table := T\<rparr>) h' = quiet h h'"
  by (simp_all add: quiet_def)

lemma quiet_trans: "quiet g h \<Longrightarrow> quiet h h' \<Longrightarrow> quiet g h'"
  using pages_like_trans by (auto simp: quiet_def)

lemma quiet_root:
  assumes "quiet h h'" and "load_root_ptr ti h = Some r"
  shows "load_root_ptr ti h' = Some r"
proof (cases "ti = storages")
  case False
  then obtain x where x: "pages h (ti - 8) = Some x" "align x = 8" "length (body x) = 8" "r = slice_of_bytes (body x)"
    using assms(2) by (auto simp: load_root_ptr_def split: option.splits if_splits)
  have l: "pages_like (pages h) (pages h')" using assms(1) by (simp add: quiet_def)
  obtain y where "pages h' (ti - 8) = Some y" "align y = align x" "body y = body x" using pages_like_page [OF l x(1)] .
  then show ?thesis using x False by (simp add: load_root_ptr_def)
qed (use assms in \<open>simp add: load_root_ptr_def quiet_def\<close>)

text \<open>The owner of a layer points to its root, which may be another one.\<close>

definition rerooted :: "heap \<Rightarrow> addr \<Rightarrow> addr \<Rightarrow> addr \<Rightarrow> addr \<Rightarrow> heap \<Rightarrow> bool" where
  "rerooted h ti par a a' h' \<longleftrightarrow>
     (if par = nullptr then \<exists>g. store_root_ptr ti a' h = Some g \<and> quiet g h'
      else quiet h h' \<and> (\<exists>b b'. nodes h par = Some (Border b) \<and> nodes h' par = Some (Border b') \<and> slot_changed b a a' b'))"

lemma reowned_rerooted: "reowned h ti par a a' h' \<Longrightarrow> fresh h' = fresh h \<Longrightarrow> rerooted h ti par a a' h'"
  using store_root_spec(2) by (auto simp: reowned_def rerooted_def quiet_def same_static_def split: if_splits)

section \<open>A child under another parent\<close>

lemma tree_at_rebase:
  assumes "tree_at h par rt t" and "nodes h' (addr_of t) = map_option (node_map_base f) (nodes h (addr_of t))"
    and "\<And>a. a \<in> set (tl (tree_addrs t)) \<Longrightarrow> nodes h' a = nodes h a" and "pages_le (pages h) (pages h')"
    and f: "\<And>b. base_keys (f b) = base_keys b" "\<And>b. base_wf (f b) = base_wf b" "\<And>b. parent (f b) = q"
      "\<And>b. is_stable (version b) \<Longrightarrow> is_stable (version (f b))" "\<And>b. border (version (f b)) = border (version b)"
      "\<And>b. deleted (version (f b)) = deleted (version b)" "\<And>b. root (version b) = rt \<Longrightarrow> root (version (f b)) = rt'"
    and rt: "layer_entries t \<noteq> []"
  shows "tree_at h' q rt' t"
proof (cases t)
  case (Leaf p es)
  then obtain b where b: "nodes h p = Some (Border b)" "leaf_node par rt es b" "\<forall>c \<in> set (map snd es). content_at h p c"
    using assms(1) unfolding Leaf tree_at_contents by blast
  have "content_at h' p c" if "c \<in> set (map snd es)" for c
  proof (rule content_at_frame [OF _ _ assms(4)])
    show "content_at h p c" using b(3) that by blast
    show "nodes h' q = nodes h q" if "q \<in> set (content_addrs c)" for q
      using assms(3) [of q] content_addrs_sub [OF \<open>c \<in> set (map snd es)\<close>, of p] that Leaf by blast
  qed
  moreover have "leaf_node q rt' es (set_border_base f b)" using b(2) f rt Leaf by (auto simp: leaf_node_def set_border_base_def Let_def)
  ultimately show ?thesis using b assms(2) unfolding Leaf tree_at_contents by simp
next
  case (Branch p ks ts)
  then obtain n where n: "nodes h p = Some (Interior n)" "branch_node par rt ks (map addr_of ts) n"
    "\<forall>t \<in> set ts. tree_at h p False t"
    using assms(1) unfolding Branch tree_at_Branch by blast
  have "tree_at h' p False t" if "t \<in> set ts" for t
  proof (rule tree_at_frame [OF _ _ assms(4)])
    show "tree_at h p False t" using n(3) that by blast
    show "nodes h' q = nodes h q" if "q \<in> set (tree_addrs t)" for q
      using assms(3) [of q] child_addrs_sub [OF \<open>t \<in> set ts\<close>, of p ks] that Branch by blast
  qed
  moreover have "branch_node q rt' ks (map addr_of ts) (set_interior_base f n)"
    using n(2) f by (auto simp: branch_node_def set_interior_base_def Let_def)
  ultimately show ?thesis using n assms(2) by (simp add: Branch)
qed

section \<open>The version word of a node that is locked for a moment\<close>

lemma unlock_locked [simp]:
  "is_stable (version b) \<Longrightarrow> version_unlock (locked_base b) = b"
  by (simp add: version_unlock_def locked_base_def version_simps is_stable_def)

lemma unlock_node_locked [simp]:
  "is_stable (version (node_base n)) \<Longrightarrow> node_map_base version_unlock (node_map_base locked_base n) = n"
  by (cases n) (simp_all add: set_border_base_def set_interior_base_def)

lemma set_interior_base_comp [simp]:
  "set_interior_base f (set_interior_base g n) = set_interior_base (f \<circ> g) n" "n_keys (set_interior_base f n) = n_keys n"
  "children (set_interior_base f n) = children n"
  by (simp_all add: set_interior_base_def)

section \<open>The branch above\<close>

lemma find_child_eq:
  "length (children n) = child_length \<Longrightarrow> i < m \<Longrightarrow> m \<le> child_length \<Longrightarrow> j \<le> i \<Longrightarrow> children n ! i = a \<Longrightarrow>
   (\<And>l. j \<le> l \<Longrightarrow> l < i \<Longrightarrow> children n ! l \<noteq> a) \<Longrightarrow> find_child n a [j..<m] = Some (Some i)"
proof (induction "i - j" arbitrary: j)
  case 0
  then show ?case by (simp add: upt_conv_Cons get_child_at_def)
next
  case (Suc l)
  then have "j < m" "j < i" by simp_all
  moreover from this have "children n ! j \<noteq> a" using Suc.prems by simp
  moreover have "find_child n a [Suc j..<m] = Some (Some i)" using Suc by (intro Suc.hyps(1)) simp_all
  ultimately show ?case using Suc.prems by (simp add: upt_conv_Cons get_child_at_def)
qed

lemma branch_child:
  assumes "interior_wf n" and "interior_children n = A @ a # B" and "distinct (interior_children n)"
  shows "find_child n a [0..<unat (n_keys n) + 1] = Some (Some (length A))" and "length A + length B = unat (n_keys n)"
    and "children n ! length A = a" and "i < length (interior_children n) \<Longrightarrow> children n ! i = interior_children n ! i"
proof -
  have w: "length (children n) = child_length" "unat (n_keys n) \<le> key_slice_length" using assms(1) by (simp_all add: interior_wf_def)
  show l: "length A + length B = unat (n_keys n)" using length_interior(2) [OF assms(1)] assms(2) by simp
  have c: "children n ! j = interior_children n ! j" if "j < length (interior_children n)" for j
    using that length_interior(2) [OF assms(1)] by (simp add: interior_children_def)
  show "i < length (interior_children n) \<Longrightarrow> children n ! i = interior_children n ! i" by (rule c)
  show a: "children n ! length A = a" using c [of "length A"] assms(2) by simp
  have "children n ! j \<noteq> a" if "j < length A" for j
    using c [of j] that assms(2,3) by (auto simp: nth_append)
  then show "find_child n a [0..<unat (n_keys n) + 1] = Some (Some (length A))"
    using w l a by (intro find_child_eq) simp_all
qed

text \<open>More than two children: the branch stays.\<close>

lemma interior_delete_stays:
  assumes n: "nodes h q = Some (Interior n)" "branch_node P rt ks (A @ a # B) n" and d: "distinct (A @ a # B)" and l: "length ks \<noteq> 1" "ks \<noteq> []"
  shows "\<exists>n'. interior_delete_of token ti q a (set_node q (Interior (set_interior_base locked_base n)) h) = Some (set_node q (Interior n') h) \<and>
    branch_node P rt (del_at (length A - 1) ks) (A @ B) n'"
proof -
  have w: "interior_wf n" "interior_keys n = ks" "interior_children n = A @ a # B" using n(2) by (simp_all add: branch_node_def)
  let ?n1 = "set_interior_base (set_version_inserting_deleting True \<circ> locked_base) n"
  have w1: "interior_wf ?n1" "interior_keys ?n1 = ks" "interior_children ?n1 = A @ a # B" "n_keys ?n1 = n_keys n"
    using w by (simp_all add: set_interior_base_def set_version_inserting_deleting_def)
  have m: "2 \<le> unat (n_keys n)" using length_interior(1) [OF w(1)] w(2) l by (cases ks) (auto simp: Suc_le_eq)
  note bc = branch_child [OF w1(1,3) d [folded w1(3)], unfolded w1(4)]
  have i: "length A \<le> unat (n_keys ?n1)" "2 \<le> unat (n_keys ?n1)" using bc(2) m w1(4) by simp_all
  obtain n2 where n2: "remove_child_at (length A) ?n1 = Some n2" "interior_keys n2 = del_at (length A - 1) ks" "interior_children n2 = del_at (length A) (A @ a # B)"
    "base_wf (interior_base n2)" "length (children n2) = 16" "n_keys n2 = n_keys ?n1 - 1"
    "version (interior_base n2) = version (interior_base ?n1)" "parent (interior_base n2) = parent (interior_base ?n1)"
    using remove_child_at_spec [OF w1(1) i(2,1)] unfolding w1(2,3) by blast
  have wf2: "interior_wf n2"
    by (rule removed_child_wf [OF w1(1) i(2) n2(4,5,6), of "length A - 1" "length A"]) (simp_all add: n2 w1)
  let ?n' = "set_interior_base version_unlock n2"
  have "interior_delete_of token ti q a (set_node q (Interior (set_interior_base locked_base n)) h) = Some (set_node q (Interior ?n') h)"
    using bc(1) m n2(1) by (simp add: interior_delete_of_def heap_run Let_def)
  moreover have "branch_node P rt (del_at (length A - 1) ks) (A @ B) ?n'"
    using wf2 n2 n(2) by (simp add: branch_node_def set_interior_base_def version_unlock_def version_simps Let_def del_at_def
        set_version_inserting_deleting_def locked_base_def)
  ultimately show ?thesis by blast
qed

text \<open>Two children: the branch goes away and the other child takes its place.\<close>

definition dead_branch :: "interior_node \<Rightarrow> interior_node" where
  "dead_branch n = n_keys_decrement
     (set_interior_base (set_version_root False \<circ> (set_version_deleted True \<circ> (set_version_inserting_deleting True \<circ> locked_base))) n)"

lemma n_keys_decrement_simps [simp]: "children (n_keys_decrement n) = children n" "interior_base (n_keys_decrement n) = interior_base n"
  "set_interior_base f (n_keys_decrement n) = n_keys_decrement (set_interior_base f n)"
  by (simp_all add: n_keys_decrement_def set_interior_base_def)

lemma dead_branch_parent [simp]: "parent (interior_base (dead_branch n)) = parent (interior_base n)"
  by (simp add: dead_branch_def set_interior_base_def set_version_root_def set_version_deleted_def set_version_inserting_deleting_def)

definition adopt_sibling :: "addr \<Rightarrow> addr \<Rightarrow> addr \<Rightarrow> addr \<Rightarrow> heap \<Rightarrow> heap option" where
  "adopt_sibling ti this sibling pn h =
     (if pn = nullptr then do {
        h \<leftarrow> upd_base sibling (set_version_root True) h;
        h \<leftarrow> store_root_ptr ti sibling h;
        upd_base sibling (set_parent nullptr) h
      } else do {
        pbase \<leftarrow> get_base pn h;
        h \<leftarrow> (if border (version pbase) then do {
                h \<leftarrow> replace_layer pn this sibling h;
                upd_base sibling (set_version_root True) h
              } else upd_interior pn (swap_child this sibling) h);
        h \<leftarrow> upd_base sibling (set_parent pn) h;
        unlock_at pn h
      })"

lemma interior_delete_collapses:
  assumes n: "branch_node P rt ks (A @ a # B) n" and d: "distinct (A @ a # B)" and l: "length ks = 1" and s: "A @ B = [sib]"
    and lp: "lock_parent q (set_node q (Interior (dead_branch n)) h) = Some (pn, h1)" and h1: "nodes h1 q = Some (Interior (dead_branch n))"
  shows "interior_delete_of token ti q a (set_node q (Interior (set_interior_base locked_base n)) h) = do {
      h \<leftarrow> adopt_sibling ti q sib pn h1;
      h \<leftarrow> unlock_at q h;
      push_node_garbage token q h
    }"
proof -
  have w: "interior_wf n" "interior_keys n = ks" "interior_children n = A @ a # B" using n by (simp_all add: branch_node_def)
  let ?n1 = "set_interior_base (set_version_inserting_deleting True \<circ> locked_base) n"
  have w1: "interior_wf ?n1" "interior_children ?n1 = A @ a # B" "n_keys ?n1 = n_keys n"
    using w by (simp_all add: set_interior_base_def set_version_inserting_deleting_def)
  have m: "unat (n_keys n) = 1" using length_interior(1) [OF w(1)] w(2) l by simp
  note bc = branch_child [OF w1(1,2) d [folded w1(2)], unfolded w1(3)]
  have c: "children n ! j = (A @ a # B) ! j" if "j < 2" for j
    using bc(4) [of j] that w1(2) bc(2) m by simp
  have ab: "A = [] \<and> B = [sib] \<or> A = [sib] \<and> B = []" using s by (cases A) auto
  then have "children n ! (if length A = 0 then 1 else 0) = sib" using c [of 0] c [of 1] by auto
  moreover have "length (children n) = 16" using w(1) by (simp add: interior_wf_def)
  ultimately have g: "get_child_at (dead_branch n) (if length A = 0 then 1 else 0) = Some sib"
    by (auto simp: get_child_at_def dead_branch_def)
  show ?thesis
    using bc(1) m g lp h1 by (simp add: interior_delete_of_def heap_run Let_def dead_branch_def [symmetric] adopt_sibling_def)
qed

lemma adopt_null:
  assumes "nodes h s = Some n" and "store_root_ptr ti s h = Some g"
  shows "adopt_sibling ti q s nullptr h = Some (set_node s (node_map_base (set_parent nullptr \<circ> set_version_root True) n) g)"
  using assms by (simp add: adopt_sibling_def heap_run)

lemma adopt_layer:
  assumes "nodes h p = Some (Border (set_border_base locked_base b))" and "border (version (border_base b))" and "is_stable (version (border_base b))"
    and "get_lv b q = Some i" and "nodes h s = Some n" and "s \<noteq> p" and "p \<noteq> nullptr"
  shows "adopt_sibling ti q s p h = Some (set_node p (Border (b\<lparr>lv_arr := (lv_arr b)[i := set_next_layer s]\<rparr>))
    (set_node s (node_map_base (set_parent p \<circ> set_version_root True) n) h))"
proof -
  have "get_lv (set_border_base locked_base b) q = Some i" using assms(4) by (simp add: get_lv_def set_border_base_def)
  then have r: "replace_layer p q s h = Some (set_node p (Border ((set_border_base locked_base b)\<lparr>lv_arr := (lv_arr b)[i := set_next_layer s]\<rparr>)) h)"
    using replace_layer_eq [OF assms(1)] by (simp add: set_border_base_def)
  have "border_base (set_border_base locked_base b) = locked_base (border_base b)" by (simp add: set_border_base_def)
  then show ?thesis using assms r
    by (simp add: adopt_sibling_def heap_run set_node_commute [of s p]) (simp add: set_border_base_def)
qed

lemma adopt_interior:
  assumes "nodes h p = Some (Interior (set_interior_base locked_base m))" and "branch_node P rt ks (A @ q # B) m" and "distinct (A @ q # B)"
    and "nodes h s = Some n" and "s \<noteq> p" and "p \<noteq> nullptr" and "s \<noteq> nullptr"
  shows "\<exists>m'. adopt_sibling ti q s p h = Some (set_node p (Interior m') (set_node s (node_map_base (set_parent p) n) h)) \<and>
    branch_node P rt ks (A @ s # B) m'"
proof -
  let ?m = "set_interior_base locked_base m"
  have w: "interior_wf m" "interior_keys m = ks" "interior_children m = A @ q # B" "is_stable (version (interior_base m))" "\<not> border (version (interior_base m))"
    using assms(2) by (simp_all add: branch_node_def Let_def)
  have w1: "interior_wf ?m" "interior_keys ?m = ks" "interior_children ?m = A @ q # B" using w by (simp_all add: set_interior_base_def)
  obtain m2 where m2: "swap_child q s ?m = Some m2" "interior_children m2 = A @ s # B" "length (children m2) = 16"
    "interior_base m2 = interior_base ?m" "n_keys m2 = n_keys ?m"
    using swap_child_spec [OF w1(1), of "length A" s] assms(3) unfolding w1(3) by (auto simp: nth_append list_update_append)
  let ?m' = "set_interior_base version_unlock m2"
  have b: "interior_base ?m = locked_base (interior_base m)" "interior_base ?m' = interior_base m"
    using w(4) m2(4) by (simp_all add: set_interior_base_def)
  have k: "interior_keys ?m' = ks" "interior_children ?m' = A @ s # B" "n_keys ?m' = n_keys m" "length (children ?m') = 16"
    using m2 w(2) b(2) by (simp_all add: interior_keys_def interior_children_def)
  then have "interior_wf ?m'" using w(1,3) b(2) assms(7) w(2) by (simp add: interior_wf_def)
  then have "branch_node P rt ks (A @ s # B) ?m'" using assms(2) k b(2) by (simp add: branch_node_def)
  moreover have "adopt_sibling ti q s p h = Some (set_node p (Interior ?m') (set_node s (node_map_base (set_parent p) n) h))"
    using assms(1,4-6) m2(1) b(1) w(5) by (simp add: adopt_sibling_def heap_run set_node_commute [of s p])
  ultimately show ?thesis by blast
qed

end
