(* ===== verification/Prune_Step.thy ===== *)
theory Prune_Step
  imports Prune_Interior
begin

text \<open>
  A layer after \<^verbatim>\<open>delete_of\<close> of the branch above an empty leaf.
\<close>

lemma single_addrs: "ls @ rs = [S] \<Longrightarrow> ctx_addrs ((q, ks, ls, rs) # c) = q # tree_addrs S @ ctx_addrs c"
  by (cases ls) auto

lemma heads_distinct:
  "distinct (concat (map tree_addrs ts)) \<Longrightarrow> distinct (map addr_of ts) \<and> set (map addr_of ts) \<subseteq> set (concat (map tree_addrs ts))"
proof (induction ts)
  case (Cons t ts)
  then have d: "distinct (map addr_of ts)" "set (map addr_of ts) \<subseteq> set (concat (map tree_addrs ts))"
    "set (tree_addrs t) \<inter> set (concat (map tree_addrs ts)) = {}" by simp_all
  then have "addr_of t \<notin> set (map addr_of ts)" using addr_of_in_addrs [of t] by blast
  then show ?case using d(1,2) by auto
qed simp

lemma child_addrs_distinct:
  assumes "distinct (a # ctx_addrs ((q, ks, ls, rs) # c))"
  shows "distinct (map addr_of ls @ a # map addr_of rs)"
proof -
  let ?L = "concat (map tree_addrs ls)" and ?R = "concat (map tree_addrs rs)"
  have d: "distinct ?L" "distinct ?R" "set ?L \<inter> set ?R = {}" "a \<notin> set ?L" "a \<notin> set ?R"
    using assms unfolding ctx_addrs.simps distinct.simps distinct_append set_append list.set by blast+
  note l = heads_distinct [OF d(1)] and r = heads_distinct [OF d(2)]
  have "a \<notin> set (map addr_of ls)" "a \<notin> set (map addr_of rs)" "set (map addr_of ls) \<inter> set (map addr_of rs) = {}"
    using l r d(3-5) by blast+
  then show ?thesis using l r unfolding distinct_append distinct.simps list.set by blast
qed

lemma collapsed_tree:
  assumes at: "ctx_at h par ((q, ks, ls, rs) # c) a" and wf: "ctx_wf ((q, ks, ls, rs) # c)" and d: "distinct (par # ctx_addrs ((q, ks, ls, rs) # c))"
    and S: "ls @ rs = [S]" and f: "f = set_parent (ctx_parent par c) \<circ> (if c = [] then set_version_root True else id)"
    and nS: "nodes h' (addr_of S) = map_option (node_map_base f) (nodes h (addr_of S))"
    and o: "\<And>x. x \<notin> {q, addr_of S, ctx_parent par c} \<Longrightarrow> nodes h' x = nodes h x" and pg: "pages_le (pages h) (pages h')"
    and up: "\<And>p2 ks2 ls2 rs2 c2. c = (p2, ks2, ls2, rs2) # c2 \<Longrightarrow>
      \<exists>m. nodes h' p2 = Some (Interior m) \<and> branch_node (ctx_parent par c2) (c2 = []) ks2 (map addr_of ls2 @ addr_of S # map addr_of rs2) m"
  shows "tree_at h' par True (plug c S)"
proof -
  have S': "S \<in> set ls \<union> set rs" using S by (metis list.set_intros(1) set_append)
  have t: "tree_at h q False S" "layer_entries S \<noteq> []" using at wf S' by auto
  have dS: "distinct (par # q # tree_addrs S @ ctx_addrs c)" 
    using d unfolding single_addrs [OF S] .
  have P: "ctx_parent par c \<in> insert par (set (ctx_addrs c))" by (cases c) auto
  have "tree_at h' (ctx_parent par c) (c = []) S"
  proof (rule tree_at_rebase [OF t(1) nS _ pg])
    show "nodes h' x = nodes h x" if x: "x \<in> set (tl (tree_addrs S))" for x
    proof (rule o)
      have "x \<in> set (tree_addrs S)" "x \<noteq> addr_of S" using x dS tree_addrs_Cons [of S] by (metis list.set_intros(2), metis distinct.simps(2) distinct_append)
      then show "x \<notin> {q, addr_of S, ctx_parent par c}" using dS P by auto
    qed
  qed (use t(2) in \<open>auto simp: f set_parent_def set_version_root_def version_simps is_stable_def\<close>)
  moreover have "ctx_at h' par c (addr_of S)"
  proof (cases c)
    case (Cons g c2)
    obtain p2 ks2 ls2 rs2 where g: "g = (p2, ks2, ls2, rs2)" by (cases g) auto
    have c: "c = (p2, ks2, ls2, rs2) # c2" using Cons g by simp
    have at2: "ctx_at h par c2 p2" "\<And>t. t \<in> set ls2 \<union> set rs2 \<Longrightarrow> tree_at h p2 False t" using at by (simp_all add: c)
    have o': "nodes h' x = nodes h x" if "x \<in> set (concat (map tree_addrs ls2)) \<union> set (concat (map tree_addrs rs2)) \<union> set (ctx_addrs c2)" for x
    proof (rule o)
      have "x \<in> set (ctx_addrs c)" "x \<noteq> p2" using that dS unfolding c by auto
      moreover have "q \<notin> set (ctx_addrs c)" "addr_of S \<notin> set (ctx_addrs c)"
        using dS addr_of_in_addrs [of S] unfolding distinct.simps distinct_append set_append by blast+
      moreover have "ctx_parent par c = p2" by (simp add: c)
      ultimately show "x \<notin> {q, addr_of S, ctx_parent par c}" by blast
    qed
    have "ctx_at h' par c2 p2" using o' by (intro ctx_at_frame [OF at2(1) _ pg]) blast
    moreover have "tree_at h' p2 False t" if "t \<in> set ls2 \<union> set rs2" for t
    proof (rule tree_at_frame [OF at2(2) [OF that] _ pg])
      show "nodes h' x = nodes h x" if "x \<in> set (tree_addrs t)" for x
        using o' [of x] \<open>t \<in> set ls2 \<union> set rs2\<close> that by auto
    qed
    ultimately show ?thesis using up [OF c] by (auto simp: c)
  qed simp
  ultimately show ?thesis by (simp add: tree_at_plug)
qed

lemma addr_of_plug_any: "c \<noteq> [] \<Longrightarrow> addr_of (plug c t) = addr_of (plug c t')"
proof -
  assume "c \<noteq> []"
  then obtain p ks ls rs d where c: "c = (p, ks, ls, rs) # d" by (cases c) auto
  show ?thesis unfolding c plug.simps by (rule addr_of_plug) simp
qed

lemma rerooted_same:
  assumes "owned h ti par a" and "a \<noteq> nullptr" and "quiet h h'" and "par \<noteq> nullptr \<longrightarrow> nodes h' par = nodes h par"
  shows "rerooted h ti par a a h'"
proof -
  have "reowned h ti par a a (h\<lparr>nodes := nodes h'\<rparr>)"
    by (rule reowned_same [OF assms(1,2)]) (use assms(4) in \<open>simp_all add: same_static_def\<close>)
  moreover have "quiet (h\<lparr>nodes := N\<rparr>) h'" for N using assms(3) by (simp add: quiet_def)
  ultimately show ?thesis using assms(3) quiet_trans [of _ "h\<lparr>nodes := nodes h'\<rparr>" h']
    by (fastforce simp: reowned_def rerooted_def quiet_def same_static_def split: if_splits dest: store_root_spec(2))
qed

text \<open>What is left of a layer, and of its owner.\<close>

definition pruned_to :: "Token \<Rightarrow> heap \<Rightarrow> addr \<Rightarrow> addr \<Rightarrow> frame list \<Rightarrow> addr \<Rightarrow> heap \<Rightarrow> bool" where
  "pruned_to token h ti par C r h' \<longleftrightarrow> tree_at h' par True (prune C) \<and> rerooted h ti par r (addr_of (prune C)) h' \<and>
     (\<forall>x. x \<notin> insert par (set (ctx_addrs C)) \<longrightarrow> nodes h' x = nodes h x) \<and>
     (\<forall>x. x \<noteq> par \<longrightarrow> keeps_slots h h' x \<and> keeps_links h h' x) \<and>
     thread_info_table h' = retired token (pruned C) (thread_info_table h)"

lemma branch_stays:
  assumes at: "ctx_at h par ((q, ks, ls, rs) # c) a" and wf: "ctx_wf ((q, ks, ls, rs) # c)" and d: "distinct (par # a # ctx_addrs ((q, ks, ls, rs) # c))"
    and own: "owned h ti par (addr_of (plug c (Branch q ks ts)))" and n: "nodes h q = Some (Interior n)" and l: "length ks \<noteq> 1"
  shows "\<exists>h'. interior_delete_of token ti q a (set_node q (Interior (set_interior_base locked_base n)) h) = Some h' \<and>
    pruned_to token h ti par ((q, ks, ls, rs) # c) (addr_of (plug c (Branch q ks ts))) h'"
proof -
  have b: "branch_node (ctx_parent par c) (c = []) ks (map addr_of ls @ a # map addr_of rs) n" "\<And>t. t \<in> set ls \<union> set rs \<Longrightarrow> tree_at h q False t" "ctx_at h par c q"
    using at n by simp_all
  have w: "ks \<noteq> []" "valid_ptr q" using wf by simp_all
  have dc: "distinct (map addr_of ls @ a # map addr_of rs)" using d by (intro child_addrs_distinct) auto
  obtain n' where n': "interior_delete_of token ti q a (set_node q (Interior (set_interior_base locked_base n)) h) = Some (set_node q (Interior n') h)"
    "branch_node (ctx_parent par c) (c = []) (del_at (length ls - 1) ks) (map addr_of ls @ map addr_of rs) n'"
    using interior_delete_stays [OF n b(1) dc l w(1)] by auto
  let ?h = "set_node q (Interior n') h" and ?t = "Branch q (del_at (length ls - 1) ks) (ls @ rs)"
  have o: "nodes ?h x = nodes h x" if "x \<noteq> q" for x using that by simp
  have qn: "q \<notin> set (ctx_addrs c)" "\<And>t. t \<in> set ls \<union> set rs \<Longrightarrow> q \<notin> set (tree_addrs t)" "q \<noteq> par" using d by auto
  have "tree_at ?h q False t" if "t \<in> set ls \<union> set rs" for t
    by (rule tree_at_frame [OF b(2) [OF that]]) (use o qn(2) [OF that] in \<open>auto intro: o\<close>)
  then have "tree_at ?h (ctx_parent par c) (c = []) ?t" using n'(2) by (auto simp: tree_at_Branch)
  moreover have "ctx_at ?h par c q" by (rule ctx_at_frame [OF b(3)]) (use qn(1) in auto)
  ultimately have t: "tree_at ?h par True (prune ((q, ks, ls, rs) # c))" using l by (simp add: tree_at_plug)
  have r: "addr_of (prune ((q, ks, ls, rs) # c)) = addr_of (plug c (Branch q ks ts))" using l by (auto intro: addr_of_plug)
  have "addr_of (plug c (Branch q ks ts)) \<noteq> nullptr"
    using tree_wf_valid_ptr [OF prune_wf(1) [OF wf]] r by (simp add: valid_ptr_def)
  then have "rerooted h ti par (addr_of (plug c (Branch q ks ts))) (addr_of (prune ((q, ks, ls, rs) # c))) ?h"
    unfolding r using qn(3) by (intro rerooted_same [OF own]) simp_all
  moreover have "keeps_slots h ?h x \<and> keeps_links h ?h x" for x
    using n by (cases "x = q") (simp_all add: keeps_slots_def keeps_links_def)
  ultimately show ?thesis using n'(1) t l by (auto simp: pruned_to_def)
qed

lemma sibling_keeps:
  assumes "nodes h s = Some n" and "nodes h' s = Some (node_map_base f n)"
  shows "keeps_slots h h' s \<and> keeps_links h h' s"
  using assms by (cases n) (simp_all add: keeps_slots_def keeps_links_def set_border_base_def)

text \<open>The only sibling has taken the place of the branch \<open>q\<close>, whose node is \<open>D\<close> from now on.\<close>

definition adopted :: "heap \<Rightarrow> addr \<Rightarrow> addr \<Rightarrow> addr \<Rightarrow> node \<Rightarrow> frame list \<Rightarrow> tree \<Rightarrow> addr \<Rightarrow> heap \<Rightarrow> bool" where
  "adopted h ti par q D c S r h2 \<longleftrightarrow> nodes h2 q = Some D \<and>
     nodes h2 (addr_of S) = map_option (node_map_base (set_parent (ctx_parent par c) \<circ> (if c = [] then set_version_root True else id))) (nodes h (addr_of S)) \<and>
     (\<forall>x. x \<notin> {q, addr_of S, ctx_parent par c} \<longrightarrow> nodes h2 x = nodes h x) \<and>
     thread_info_table h2 = thread_info_table h \<and> pages_le (pages h) (pages h2) \<and>
     (\<forall>p2 ks2 ls2 rs2 c2. c = (p2, ks2, ls2, rs2) # c2 \<longrightarrow> (\<exists>i j. nodes h p2 = Some (Interior i) \<and> nodes h2 p2 = Some (Interior j) \<and>
        branch_node (ctx_parent par c2) (c2 = []) ks2 (map addr_of ls2 @ addr_of S # map addr_of rs2) j)) \<and>
     (\<forall>h'. (\<forall>x. x \<noteq> q \<longrightarrow> nodes h' x = nodes h2 x) \<longrightarrow> quiet h2 h' \<longrightarrow> rerooted h ti par r (addr_of (plug c S)) h')"

definition adoption :: "heap \<Rightarrow> addr \<Rightarrow> addr \<Rightarrow> addr \<Rightarrow> node \<Rightarrow> frame list \<Rightarrow> tree \<Rightarrow> addr \<Rightarrow> bool" where
  "adoption h ti par q D c S r \<longleftrightarrow> (\<exists>h1 pn h2. lock_parent q (set_node q D h) = Some (pn, h1) \<and> nodes h1 q = Some D \<and>
     adopt_sibling ti q (addr_of S) pn h1 = Some h2 \<and> adopted h ti par q D c S r h2)"

lemma adoption_root:
  assumes own: "owned h ti nullptr q" and s: "nodes h (addr_of S) = Some m" and ne: "addr_of S \<noteq> q" "q \<noteq> nullptr"
    and D: "parent (node_base D) = nullptr"
  shows "adoption h ti nullptr q D [] S q"
proof -
  let ?h0 = "set_node q D h" and ?s = "addr_of S"
  have "load_root_ptr ti h = Some q" using own by (simp add: owned_def)
  then obtain g where g: "store_root_ptr ti ?s h = Some g" by (rule store_root_some)
  note sg = store_root_spec [OF g]
  have lp: "lock_parent q ?h0 = Some (nullptr, ?h0)" using D by (intro lock_parent_null [of _ _ D]) simp_all
  let ?h2 = "set_node ?s (node_map_base (set_parent nullptr \<circ> set_version_root True) m) (set_node q D g)"
  have ad: "adopt_sibling ti q ?s nullptr ?h0 = Some ?h2" using s g ne(1) by (intro adopt_null) simp_all
  have "rerooted h ti nullptr q ?s h'" if "quiet ?h2 h'" for h' using g that by (simp add: rerooted_def)
  then have "adopted h ti nullptr q D [] S q ?h2"
    unfolding adopted_def using ne(1) s sg(1,4,5) by simp
  then show ?thesis unfolding adoption_def using lp ad by (intro exI [of _ ?h0] exI [of _ nullptr] exI [of _ ?h2]) simp
qed

lemma adoption_layer:
  assumes own: "owned h ti par q" and par: "par \<noteq> nullptr" "par \<noteq> q" "addr_of S \<noteq> par" and s: "nodes h (addr_of S) = Some m" and ne: "addr_of S \<noteq> q"
    and D: "parent (node_base D) = par"
  shows "adoption h ti par q D [] S q"
proof -
  let ?h0 = "set_node q D h" and ?s = "addr_of S"
  obtain b i where b: "nodes h par = Some (Border b)" "border (version (border_base b))" "is_stable (version (border_base b))" "get_lv b q = Some i"
    using own par(1) by (auto simp: owned_def)
  let ?h1 = "set_node par (Border (set_border_base locked_base b)) ?h0"
  have lp: "lock_parent q ?h0 = Some (par, ?h1)"
    using lock_parent_eq [of ?h0 q D par "Border b"] D par b(1,3) by (simp add: is_stable_def)
  let ?b = "b\<lparr>lv_arr := (lv_arr b)[i := set_next_layer ?s]\<rparr>"
  let ?h2 = "set_node par (Border ?b) (set_node ?s (node_map_base (set_parent par \<circ> set_version_root True) m) ?h1)"
  have ad: "adopt_sibling ti q ?s par ?h1 = Some ?h2" using s ne par b by (intro adopt_layer) simp_all
  have "slot_changed b q ?s ?b"
    unfolding slot_changed_def using b(3,4) by (intro exI [of _ i] exI [of _ "version (border_base b)"]) simp
  then have "rerooted h ti par q ?s h'" if "\<forall>x. x \<noteq> q \<longrightarrow> nodes h' x = nodes ?h2 x" "quiet ?h2 h'" for h'
    using that par b(1) by (auto simp: rerooted_def)
  then have "adopted h ti par q D [] S q ?h2" unfolding adopted_def using ne s par by simp
  then show ?thesis unfolding adoption_def using lp ad par by (intro exI [of _ ?h1] exI [of _ par] exI [of _ ?h2]) simp
qed

lemma adoption_branch:
  assumes own: "owned h ti par r" and at: "ctx_at h par c q" and c: "c = (p2, ks2, ls2, rs2) # c2" and wf: "ctx_wf c" "addr_of (plug c S) = r" "r \<noteq> nullptr"
    and d: "distinct (par # q # ctx_addrs c)" and s: "nodes h (addr_of S) = Some m" "addr_of S \<noteq> q" "addr_of S \<notin> set (ctx_addrs c)" "addr_of S \<noteq> par" "addr_of S \<noteq> nullptr"
    and D: "parent (node_base D) = p2"
  shows "adoption h ti par q D c S r"
proof -
  let ?h0 = "set_node q D h" and ?s = "addr_of S"
  obtain i where i: "nodes h p2 = Some (Interior i)" "branch_node (ctx_parent par c2) (c2 = []) ks2 (map addr_of ls2 @ q # map addr_of rs2) i"
    using at by (auto simp: c split: option.splits node.splits)
  have p2: "p2 \<noteq> nullptr" "p2 \<noteq> q" "p2 \<noteq> ?s" "p2 \<noteq> par" "q \<noteq> par" using wf(1) d s(3) by (auto simp: c valid_ptr_def)
  have st: "\<not> locked (version (interior_base i))" using i(2) by (simp add: branch_node_def Let_def is_stable_def)
  let ?h1 = "set_node p2 (Interior (set_interior_base locked_base i)) ?h0"
  have lp: "lock_parent q ?h0 = Some (p2, ?h1)"
    using lock_parent_eq [of ?h0 q D p2 "Interior i"] D p2 i(1) st by simp
  have "distinct (q # ctx_addrs ((p2, ks2, ls2, rs2) # c2))" using d unfolding c distinct.simps by blast
  note dc = child_addrs_distinct [OF this]
  obtain j where j: "adopt_sibling ti q ?s p2 ?h1 = Some (set_node p2 (Interior j) (set_node ?s (node_map_base (set_parent p2) m) ?h1))"
    "branch_node (ctx_parent par c2) (c2 = []) ks2 (map addr_of ls2 @ ?s # map addr_of rs2) j"
    using adopt_interior [of ?h1 p2 i, OF _ i(2) dc, of ?s m ti] s p2 by auto
  let ?h2 = "set_node p2 (Interior j) (set_node ?s (node_map_base (set_parent p2) m) ?h1)"
  have "rerooted h ti par r (addr_of (plug c S)) h'"
    if "\<forall>x. x \<noteq> q \<longrightarrow> nodes h' x = nodes ?h2 x" "quiet ?h2 h'" for h'
    unfolding wf(2) using that p2 s(4) wf(3) by (intro rerooted_same [OF own]) auto
  then have "adopted h ti par q D c S r ?h2" unfolding adopted_def using s p2 i j(2) by (simp add: c)
  then show ?thesis unfolding adoption_def using lp j(1) p2 by (intro exI [of _ ?h1] exI [of _ p2] exI [of _ ?h2]) simp
qed

end
