(* ===== verification/Prune_Branch.thy ===== *)
theory Prune_Branch
  imports Prune_Step
begin

text \<open>
  \<^verbatim>\<open>delete_of\<close> of an interior node in every case, as the layer \<^term>\<open>prune C\<close>.
\<close>

lemma adoption_any:
  assumes at: "ctx_at h par ((q, ks, ls, rs) # c) a" and wf: "ctx_wf ((q, ks, ls, rs) # c)" and d: "distinct (par # a # ctx_addrs ((q, ks, ls, rs) # c))"
    and own: "owned h ti par (addr_of (plug c (Branch q ks ts)))" and S: "ls @ rs = [S]" and m: "nodes h (addr_of S) = Some m"
    and D: "parent (node_base D) = ctx_parent par c"
  shows "adoption h ti par q D c S (addr_of (plug c (Branch q ks ts)))"
proof -
  have dS: "distinct (par # a # q # tree_addrs S @ ctx_addrs c)" using d unfolding single_addrs [OF S] .
  have S': "S \<in> set ls \<union> set rs" using S by (metis list.set_intros(1) set_append)
  have "tree_wf S" using wf S' by simp
  then have vS: "valid_ptr (addr_of S)" by (rule tree_wf_valid_ptr)
  have q: "q \<noteq> nullptr" "q \<noteq> par" "addr_of S \<noteq> nullptr" using wf dS vS by (auto simp: valid_ptr_def)
  have s: "addr_of S \<noteq> q" "addr_of S \<noteq> par" "addr_of S \<notin> set (ctx_addrs c)"
    using dS addr_of_in_addrs [of S] unfolding distinct.simps distinct_append set_append list.set by blast+
  show ?thesis
  proof (cases c)
    case Nil
    then have o: "owned h ti par q" using own by simp
    show ?thesis
    proof (cases "par = nullptr")
      case True
      have "adoption h ti nullptr q D [] S q" by (rule adoption_root [OF _ m s(1) q(1)]) (use o D True Nil in simp_all)
      then show ?thesis using True Nil by simp
    next
      case False
      have "adoption h ti par q D [] S q" by (rule adoption_layer [OF o False _ s(2) m s(1)]) (use q D Nil in simp_all)
      then show ?thesis using Nil by simp
    qed
  next
    case (Cons g c2)
    obtain p2 ks2 ls2 rs2 where c: "c = (p2, ks2, ls2, rs2) # c2" using Cons by (cases g) auto
    have e: "addr_of (plug c (Branch q ks ts)) = addr_of (plug c S)" by (rule addr_of_plug_any) (simp add: c)
    have "tree_wf (prune ((q, ks, ls, rs) # c))" by (rule prune_wf(1) [OF wf])
    then have "addr_of (prune ((q, ks, ls, rs) # c)) \<noteq> nullptr" using tree_wf_valid_ptr by (simp add: valid_ptr_def)
    moreover have "addr_of (prune ((q, ks, ls, rs) # c)) = addr_of (plug c S)"
      unfolding prune.simps by (rule addr_of_plug_any) (simp add: c)
    ultimately have r: "addr_of (plug c S) \<noteq> nullptr" by simp
    show ?thesis unfolding e
    proof (rule adoption_branch [OF _ _ c _ refl r _ m s(1,3,2) q(3)])
      show "owned h ti par (addr_of (plug c S))" using own e by simp
      show "ctx_at h par c q" using at by simp
      show "ctx_wf c" using wf by simp
      show "distinct (par # q # ctx_addrs c)" using dS by simp
      show "parent (node_base D) = p2" using D c by simp
    qed
  qed
qed

lemma branch_collapses:
  assumes at: "ctx_at h par ((q, ks, ls, rs) # c) a" and wf: "ctx_wf ((q, ks, ls, rs) # c)" and d: "distinct (par # a # ctx_addrs ((q, ks, ls, rs) # c))"
    and own: "owned h ti par (addr_of (plug c (Branch q ks ts)))" and n: "nodes h q = Some (Interior n)" and l: "length ks = 1"
    and tok: "token < length (thread_info_table h)"
  shows "\<exists>h'. interior_delete_of token ti q a (set_node q (Interior (set_interior_base locked_base n)) h) = Some h' \<and>
    pruned_to token h ti par ((q, ks, ls, rs) # c) (addr_of (plug c (Branch q ks ts))) h'"
proof -
  let ?r = "addr_of (plug c (Branch q ks ts))" and ?D = "Interior (dead_branch n)"
  have fw: "frame_wf (q, ks, ls, rs)" using wf by simp
  obtain S where S: "ls @ rs = [S]" "hd (ls @ rs) = S" using single_child [OF fw l] by metis
  have S': "S \<in> set ls \<union> set rs" using S by (metis list.set_intros(1) set_append)
  have dS: "distinct (par # a # q # tree_addrs S @ ctx_addrs c)" using d unfolding single_addrs [OF S(1)] .
  have b: "branch_node (ctx_parent par c) (c = []) ks (map addr_of ls @ a # map addr_of rs) n" "tree_at h q False S" "ctx_at h par c q"
    using at n S' by auto
  obtain m where m: "nodes h (addr_of S) = Some m" using b(2) by (cases S) (auto simp: tree_at_contents split: option.splits)
  have "parent (node_base ?D) = ctx_parent par c" using b(1) by (simp add: branch_node_def)
  from adoption_any [OF at wf d own S(1) m this]
  obtain h1 pn h2 where ad: "lock_parent q (set_node q ?D h) = Some (pn, h1)" "nodes h1 q = Some ?D" "adopt_sibling ti q (addr_of S) pn h1 = Some h2"
    "adopted h ti par q ?D c S ?r h2" unfolding adoption_def by blast
  have a2: "nodes h2 q = Some ?D" "thread_info_table h2 = thread_info_table h" "pages_le (pages h) (pages h2)"
    "nodes h2 (addr_of S) = map_option (node_map_base (set_parent (ctx_parent par c) \<circ> (if c = [] then set_version_root True else id))) (nodes h (addr_of S))"
    "\<And>x. x \<notin> {q, addr_of S, ctx_parent par c} \<Longrightarrow> nodes h2 x = nodes h x"
    "\<And>p2 ks2 ls2 rs2 c2. c = (p2, ks2, ls2, rs2) # c2 \<Longrightarrow> \<exists>i j. nodes h p2 = Some (Interior i) \<and> nodes h2 p2 = Some (Interior j) \<and>
        branch_node (ctx_parent par c2) (c2 = []) ks2 (map addr_of ls2 @ addr_of S # map addr_of rs2) j"
    "\<And>h'. (\<forall>x. x \<noteq> q \<longrightarrow> nodes h' x = nodes h2 x) \<Longrightarrow> quiet h2 h' \<Longrightarrow> rerooted h ti par ?r (addr_of (plug c S)) h'"
    using ad(4) unfolding adopted_def by blast+
  let ?h' = "(set_node q (node_map_base version_unlock ?D) h2)\<lparr>thread_info_table := retired token [q] (thread_info_table h)\<rparr>"
  have dc: "distinct (map addr_of ls @ a # map addr_of rs)" using d by (intro child_addrs_distinct) auto
  have "map addr_of ls @ map addr_of rs = [addr_of S]" using S(1) by (simp flip: map_append)
  from interior_delete_collapses [OF b(1) dc l this ad(1,2)]
  have run: "interior_delete_of token ti q a (set_node q (Interior (set_interior_base locked_base n)) h) = Some ?h'"
    using ad(3) a2(1,2) tok by (simp add: heap_run)
  have s: "addr_of S \<noteq> q" "q \<noteq> par" "q \<noteq> ctx_parent par c" "addr_of S \<in> set (tree_addrs S)"
    using dS addr_of_in_addrs [of S] by (cases c; force)+
  have nx: "nodes ?h' x = nodes h2 x" if "x \<noteq> q" for x using that by simp
  have P: "prune ((q, ks, ls, rs) # c) = plug c S" "pruned ((q, ks, ls, rs) # c) = [q]" using l S(2) by simp_all
  have "tree_at ?h' par True (plug c S)"
  proof (rule collapsed_tree [OF at wf _ S(1) refl])
    show "distinct (par # ctx_addrs ((q, ks, ls, rs) # c))" using d by simp
    show "nodes ?h' (addr_of S) = map_option (node_map_base (set_parent (ctx_parent par c) \<circ> (if c = [] then set_version_root True else id))) (nodes h (addr_of S))"
      using a2(4) s(1) by simp
    show "nodes ?h' x = nodes h x" if "x \<notin> {q, addr_of S, ctx_parent par c}" for x using a2(5) [OF that] that by simp
    show "pages_le (pages h) (pages ?h')" using a2(3) by simp
    show "\<exists>m. nodes ?h' p2 = Some (Interior m) \<and> branch_node (ctx_parent par c2) (c2 = []) ks2 (map addr_of ls2 @ addr_of S # map addr_of rs2) m"
      if "c = (p2, ks2, ls2, rs2) # c2" for p2 ks2 ls2 rs2 c2 using a2(6) [OF that] s(3) that by auto
  qed
  moreover have "rerooted h ti par ?r (addr_of (plug c S)) ?h'" by (rule a2(7)) simp_all
  moreover have "nodes ?h' x = nodes h x" if "x \<notin> insert par (set (ctx_addrs ((q, ks, ls, rs) # c)))" for x
  proof -
    have "x \<noteq> par \<and> x \<noteq> q \<and> x \<notin> set (tree_addrs S) \<and> x \<notin> set (ctx_addrs c)" using that unfolding single_addrs [OF S(1)] by simp
    then have "x \<notin> {q, addr_of S, ctx_parent par c}" "x \<noteq> q" using s(4) by (cases c; auto)+
    then show ?thesis using a2(5) nx by metis
  qed
  moreover have "keeps_slots h ?h' x \<and> keeps_links h ?h' x" if xp: "x \<noteq> par" for x
  proof -
    consider "x = q" | "x = addr_of S" | "x \<noteq> q" "x \<noteq> addr_of S" "x = ctx_parent par c" | "x \<notin> {q, addr_of S, ctx_parent par c}" by blast
    then show ?thesis
    proof cases
      case 1
      then show ?thesis using n by (simp add: keeps_slots_def keeps_links_def)
    next
      case 2
      then show ?thesis using sibling_keeps [OF m] a2(4) m s(1) by simp
    next
      case 3
      then obtain g c2 where "c = g # c2" using xp by (cases c) auto
      moreover obtain p2 ks2 ls2 rs2 where "g = (p2, ks2, ls2, rs2)" by (cases g) auto
      ultimately show ?thesis using a2(6) 3 by (fastforce simp: keeps_slots_def keeps_links_def)
    next
      case 4
      then show ?thesis using a2(5) nx by (intro keeps_same) simp
    qed
  qed
  ultimately have "pruned_to token h ti par ((q, ks, ls, rs) # c) ?r ?h'" unfolding pruned_to_def P by simp
  then show ?thesis using run by blast
qed

lemma interior_delete_prunes:
  assumes "ctx_at h par ((q, ks, ls, rs) # c) a" and "ctx_wf ((q, ks, ls, rs) # c)" and "distinct (par # a # ctx_addrs ((q, ks, ls, rs) # c))"
    and "owned h ti par (addr_of (plug c (Branch q ks ts)))" and "nodes h q = Some (Interior n)" and "token < length (thread_info_table h)"
  shows "\<exists>h'. interior_delete_of token ti q a (set_node q (Interior (set_interior_base locked_base n)) h) = Some h' \<and>
    pruned_to token h ti par ((q, ks, ls, rs) # c) (addr_of (plug c (Branch q ks ts))) h'"
  using branch_stays [OF assms(1-5)] branch_collapses [OF assms(1-5) _ assms(6)] by blast

end
