(* ===== verification/Put_Layer.thy ===== *)
theory Put_Layer
  imports Layer_Lift
begin

text \<open>
  \<^verbatim>\<open>put\<close> on one layer and the layers below it: the descent, the two branches at the leaf and
  the step into the next layer.
\<close>

section \<open>Entries and strings\<close>

text \<open>What a layer with a changed entry looks up.\<close>

lemma entry_put_lookup:
  assumes "entry_put t k c t'" and "tree_wf t" and "tree_wf t'" and "content_wf k c" and "canonical k"
  shows "map_of (tree_entries t') s = (if prepare_key_slice s = k then map_of (content_entries (key_bytes k) c) s
    else map_of (tree_entries t) s)"
  using map_of_tree_entries [OF assms(2), of s] map_of_tree_entries [OF assms(3), of s] assms(1) content_lookup [of s c]
    canonical_prepare [of s] assms(4)
  by (auto simp: entry_put_def split: content.splits)

lemma prepare_inj_short:
  assumes "prepare_key_slice s' = prepare_key_slice s" and "length s \<le> slice_size"
  shows "s' = s"
proof -
  have "length s' \<le> slice_size" using assms prepare_length [of s] prepare_length [of s'] by auto
  then show ?thesis using key_bytes_prepare [of s] key_bytes_prepare [of s'] assms by simp
qed

lemma prepare_inj_drop:
  assumes "prepare_key_slice s' = prepare_key_slice s" and "slice_size < length s" and "drop slice_size s' = drop slice_size s"
  shows "s' = s"
proof -
  have l: "slice_size < length s'" using assms prepare_length [of s] prepare_length [of s'] by auto
  have "take 8 s' = take 8 s"
    using assms(1,2) l slice_bytes_prepare [of s] slice_bytes_prepare [of s'] by simp
  then show ?thesis using assms(3) by (metis append_take_drop_id)
qed

lemma put_map_new:
  assumes "entry_put t (prepare_key_slice s) c t'" and "tree_wf t" and "tree_wf t'" and "content_wf (prepare_key_slice s) c"
    and "content_entries (key_bytes (prepare_key_slice s)) c = [(s, v)]" and "map_of (layer_entries t) (prepare_key_slice s) = None"
  shows "map_of (tree_entries t') = (map_of (tree_entries t))(s \<mapsto> v)"
proof
  fix s'
  show "map_of (tree_entries t') s' = ((map_of (tree_entries t))(s \<mapsto> v)) s'"
    using entry_put_lookup [OF assms(1-4) canonical_prepare, of s'] map_of_tree_entries [OF assms(2), of s'] assms(5,6)
    by (auto split: if_splits)
qed

lemma put_map_value:
  assumes "entry_put t (prepare_key_slice s) (Val v) t'" and "tree_wf t" and "tree_wf t'" and "content_wf (prepare_key_slice s) (Val v)"
  shows "map_of (tree_entries t') = (map_of (tree_entries t))(s \<mapsto> v)"
proof
  have l: "length s \<le> slice_size" using assms(4) by (auto simp: unat_length_prepare min_def split: if_splits)
  fix s'
  show "map_of (tree_entries t') s' = ((map_of (tree_entries t))(s \<mapsto> v)) s'"
    using entry_put_lookup [OF assms canonical_prepare, of s'] prepare_inj_short [OF _ l, of s'] l
    by (auto simp: key_bytes_prepare)
qed

lemma put_map_layer:
  assumes "entry_put t (prepare_key_slice s) (Sub u') t'" and "tree_wf t" and "tree_wf t'" and "content_wf (prepare_key_slice s) (Sub u')"
    and "map_of (layer_entries t) (prepare_key_slice s) = Some (Sub u)"
    and "map_of (tree_entries u') = (map_of (tree_entries u))(drop slice_size s \<mapsto> v)"
  shows "map_of (tree_entries t') = (map_of (tree_entries t))(s \<mapsto> v)"
proof
  have l: "slice_size < length s" using assms(4) prepare_length [of s] by simp
  fix s'
  show "map_of (tree_entries t') s' = ((map_of (tree_entries t))(s \<mapsto> v)) s'"
    using entry_put_lookup [OF assms(1-4) canonical_prepare, of s'] prepare_inj_drop [OF _ l, of s']
      content_lookup [of s' "Sub u'", OF canonical_prepare] map_of_tree_entries [OF assms(2), of s'] assms(4-6)
    by (cases "prepare_key_slice s' = prepare_key_slice s") auto
qed

section \<open>The new value\<close>

definition put_value :: "put_args \<Rightarrow> heap \<Rightarrow> (64 word \<times> heap) option" where
  "put_value a = new_value (kIsInline a) (v_ptr a) (v_len a) (v_align a)"

text \<open>The value of a call: a word or a page of its own that no other value uses.\<close>

definition value_made :: "put_args \<Rightarrow> heap \<Rightarrow> 64 word \<Rightarrow> heap \<Rightarrow> bool" where
  "value_made a h v hv \<longleftrightarrow> put_value a h = Some (v, hv) \<and> value_word v \<and> value_at (pages hv) v \<and> pages h \<subseteq>\<^sub>m pages hv"

lemma put_value_keeps:
  assumes "put_value a h = Some (v, hv)"
  shows "nodes hv = nodes h" and "thread_info_table hv = thread_info_table h" and "storages_root hv = storages_root h"
    and "put_value a (set_node p n h) = Some (v, set_node p n hv)" and "set (fresh hv) \<subseteq> set (fresh h)"
    and "distinct (xs @ fresh h) \<Longrightarrow> distinct (xs @ fresh hv)"
  using assms by (auto simp: put_value_def new_value_def create_value_def set_node_def Let_def split: if_splits list.splits bind_splits)

lemma pages_le_map_le: "vh \<subseteq>\<^sub>m vh' \<Longrightarrow> pages_le vh vh'"
  by (force simp: pages_le_def map_le_def dom_def)

lemma load_root_map_le: "load_root_ptr ti h = Some r \<Longrightarrow> pages h \<subseteq>\<^sub>m pages h' \<Longrightarrow> storages_root h' = storages_root h \<Longrightarrow>
    load_root_ptr ti h' = Some r"
  by (force simp: load_root_ptr_def map_le_def dom_def split: if_splits option.splits)

section \<open>One layer\<close>

text \<open>A layer with no writer under way, and the addresses that it may use.\<close>

definition layer_ok :: "addr set \<Rightarrow> heap \<Rightarrow> addr \<Rightarrow> addr \<Rightarrow> tree \<Rightarrow> bool" where
  "layer_ok X h ti par t \<longleftrightarrow> tree_wf t \<and> tree_at h par True t \<and> linked h nullptr (map fst (layer_leaves t)) \<and>
     distinct (par # tree_addrs t @ fresh h) \<and> (\<forall>q \<in> set (fresh h). valid_ptr q) \<and> owned h ti par (addr_of t) \<and>
     unused_in X h (leaf_addrs t) \<and> set (tree_addrs t) \<subseteq> X"

lemma layer_ok_made:
  assumes "layer_ok X h ti par t" and "value_made a h v hv"
  shows "layer_ok X hv ti par t"
proof -
  have m: "pages h \<subseteq>\<^sub>m pages hv" "put_value a h = Some (v, hv)" using assms(2) by (simp_all add: value_made_def)
  note k = put_value_keeps [OF m(2)]
  have "tree_at hv par True t"
  proof (rule tree_at_frame)
    show "tree_at h par True t" using assms(1) by (simp add: layer_ok_def)
    show "pages_le (pages h) (pages hv)" by (rule pages_le_map_le [OF m(1)])
  qed (simp add: k(1))
  moreover have "linked hv nullptr (map fst (layer_leaves t)) = linked h nullptr (map fst (layer_leaves t))"
    by (rule linked_cong) (simp add: k(1))
  moreover have "distinct (par # tree_addrs t @ fresh hv)" using k(6) [of "par # tree_addrs t"] assms(1) by (simp add: layer_ok_def)
  moreover have "owned hv ti par (addr_of t)"
    using assms(1) k(1,3) load_root_map_le [OF _ m(1)] by (auto simp: layer_ok_def owned_def)
  moreover have "unused_in X hv (leaf_addrs t)" using assms(1) k(1) by (simp add: layer_ok_def unused_in_def)
  ultimately show ?thesis using assms(1) k(5) by (auto simp: layer_ok_def)
qed

lemma layer_ok_leaf:
  assumes "layer_ok X h ti par (plug C (Leaf p es))" and "nodes h p = Some (Border b)" 
  shows "leaf_ready h ti par C p es b X"
proof -
  have "tree_at h par True (plug C (Leaf p es))" using assms(1) by (simp add: layer_ok_def)
  then obtain b' where "found_leaf h par C p es b'" unfolding found_leaf_tree by blast
  moreover from this have "b' = b" using assms(2) by (simp add: found_leaf_def)
  ultimately have "found_leaf h par C p es b" by simp
  moreover have "distinct (tree_addrs (plug C (Leaf p es)) @ fresh h) \<longleftrightarrow> distinct (ctx_addrs C @ tree_addrs (Leaf p es) @ fresh h)"
    by (rule distinct_plug)
  ultimately show ?thesis
    using assms(1) set_addrs_plug [of C "Leaf p es"] unfolding leaf_ready_def layer_ok_def by simp
qed

lemma path_room: "Suc (Suc (length C)) \<le> length (tree_addrs (plug C (Leaf p es))) + 1"
proof -
  have "length C \<le> length (ctx_addrs C)" by (induction C) (auto split: prod.splits)
  moreover have "size (mset (tree_addrs (plug C (Leaf p es)))) = size (mset (ctx_addrs C) + mset (tree_addrs (Leaf p es)))"
    by (rule arg_cong [OF tree_addrs_plug])
  ultimately show ?thesis by simp
qed

section \<open>The branches at a leaf\<close>

text \<open>What the session has to reclaim after a value has been replaced: its page, if it has one of its own.\<close>

definition put_garbage :: "Token \<Rightarrow> value_pages \<Rightarrow> 64 word option \<Rightarrow> thread_info list \<Rightarrow> thread_info list" where
  "put_garbage token vh old ts = (case old of
       None \<Rightarrow> ts
     | Some w \<Rightarrow> if need_delete vh w = Some True
         then ts[token := (ts ! token)\<lparr>gc_info := push_value_container (begin_epoch (ts ! token), the (get_gc_info vh w)) (gc_info (ts ! token))\<rparr>]
         else ts)"

text \<open>An inline value only ever replaces an inline value.\<close>

definition same_kind :: "put_args \<Rightarrow> 64 word \<Rightarrow> bool" where
  "same_kind a w \<longleftrightarrow> (kIsInline a \<longrightarrow> remove_ptr_flag w = w)"

lemma put_garbage_simps [simp]: "put_garbage token vh None ts = ts" "length (put_garbage token vh old ts) = length ts"
  by (simp_all add: put_garbage_def split: option.splits)

lemma locked_leaf:
  assumes "leaf_at h (p, es) b"
  shows "lock_at p h = Some (set_node p (Border (set_border_base locked_base b)) h)"
    and "\<not> wrong_border (version (locked_base (border_base b))) (version (border_base b))"
    and "\<not> wrong_lv (version (locked_base (border_base b))) (version (border_base b))"
  using assms
  by (auto simp: leaf_at_def leaf_node_def Let_def lock_at_eq is_stable_def locked_base_def [abs_def] wrong_border_def wrong_lv_def
      get_vsplit_def get_vinsert_delete_def)

lemma put_new_key_eq:
  assumes l: "leaf_at h (p, es) b" and v: "put_value a h = Some (v, hv)" and k: "prepare_key_slice s \<notin> set (map fst es)"
  shows "put_new_key ti a s p (version (border_base b)) (version (border_base b)) h = do {
      (created, inserted, h) \<leftarrow> insert_lv ti p s v (created_given a) (rank_le (prepare_key_slice s) (map fst es))
        (set_node p (Border (set_border_base locked_base b)) hv);
      Some (Return (OK, created, Some inserted, h))
    }"
proof -
  let ?b = "set_border_base locked_base b"
  have w: "border_wf b" "border_entries b = lv_entries es" using l by (auto simp: leaf_at_def leaf_node_def lv_entries_def)
  have ks: "border_keys b = map fst es" using map_fst_entries [of b] w(2) by simp
  then have r: "compute_rank_if_insert ?b (prepare_key_slice s) = Some (rank_le (prepare_key_slice s) (map fst es))"
    using compute_rank_eq [of ?b "prepare_key_slice s"] w(1) k canonical_prepare [of s] by (simp add: set_border_base_def)
  have e: "border_base ?b = locked_base (border_base b)" by (simp add: set_border_base_def)
  have g: "get_border p (set_node p (Border ?b) h) = Some ?b" by (simp add: heap_run)
  have nv: "new_value (kIsInline a) (v_ptr a) (v_len a) (v_align a) (set_node p (Border ?b) h) = Some (v, set_node p (Border ?b) hv)"
    using put_value_keeps(4) [OF v, of p "Border ?b"] by (simp add: put_value_def)
  show ?thesis unfolding put_new_key_def using locked_leaf [OF l] g e nv r by simp
qed

lemma set_value_old:
  assumes "value_word w" and "value_at vh w" and "same_kind a w" and "value_at vh v"
  shows "\<exists>old. set_value vh w v cg (\<not> kIsInline a) = Some (v, if cg then Some (fst (value_view vh v)) else None, old, vh) \<and>
    old = (if need_delete vh w = Some True then Some w else None)"
proof -
  obtain d where d: "need_delete vh w = Some d" "kIsInline a \<Longrightarrow> \<not> d"
    using assms(2,3) by (cases "remove_ptr_flag w = w") (auto simp: value_at_def need_delete_def same_kind_def Let_def)
  have "w \<noteq> nullptr" using assms(1) by (simp add: value_word_def)
  then show ?thesis using assms(1) d value_at_read(1) [OF assms(4)] by (auto simp: set_value_def Let_def)
qed

lemma put_old_key_eq:
  assumes l: "leaf_at h (p, es) b" and m: "value_made a h v hv" and u: "\<not> unique_restriction a" 
    and i: "slot_of b (prepare_key_slice s) = Some i" and w: "lv_arr b ! i = w" "value_word w" "value_at (pages h) w" "same_kind a w"
    and tk: "token < length (thread_info_table h)"
  shows "\<exists>created b'. put_old_key token a s p i (version (border_base b)) (version (border_base b)) h =
      Some (Return (OK, created, None,
        (set_node p (Border b') hv)\<lparr>thread_info_table := put_garbage token (pages hv) (Some w) (thread_info_table h)\<rparr>)) \<and>
    slot_put b i v b'"
proof -
  let ?b = "set_border_base locked_base b" and ?b' = "set_border_base (version_unlock \<circ> locked_base) (b\<lparr>lv_arr := (lv_arr b)[i := v]\<rparr>)"
  have mv: "put_value a h = Some (v, hv)" "value_at (pages hv) v" "pages h \<subseteq>\<^sub>m pages hv" using m by (simp_all add: value_made_def)
  have st: "is_stable (version (border_base b))" using l by (auto simp: leaf_at_def leaf_node_def Let_def)
  have rd: "get_lv_at b i = Some w" using leaf_slot(2) [OF l i] w(1) by blast
  then have il: "i < length (lv_arr b)" by (simp add: get_lv_at_def at_eq_Some)
  have wv: "value_at (pages hv) w" using w(3) value_at_mono [OF pages_le_map_le [OF mv(3)]] by blast
  obtain old where old: "set_value (pages hv) w v (created_given a) (\<not> kIsInline a) =
      Some (v, if created_given a then Some (fst (value_view (pages hv) v)) else None, old, pages hv)"
    "old = (if need_delete (pages hv) w = Some True then Some w else None)"
    using set_value_old [OF w(2) wv w(4) mv(2)] by blast
  have e: "border_base ?b = locked_base (border_base b)" by (simp add: set_border_base_def)
  have g: "get_border p (set_node p (Border ?b) h) = Some ?b" by (simp add: heap_run)
  have nv: "new_value (kIsInline a) (v_ptr a) (v_len a) (v_align a) (set_node p (Border ?b) h) = Some (v, set_node p (Border ?b) hv)"
    using put_value_keeps(4) [OF mv(1), of p "Border ?b"] by (simp add: put_value_def)
  have rb: "get_lv_at ?b i = Some w" using rd by (simp add: get_lv_at_def set_border_base_def)
  have up: "upd_border p (set_lv i v) (set_node p (Border ?b) hv) = Some (set_node p (Border (?b\<lparr>lv_arr := (lv_arr b)[i := v]\<rparr>)) hv)"
    using il by (simp add: heap_run set_lv_def set_border_base_def)
  have un: "unlock_at p (set_node p (Border (?b\<lparr>lv_arr := (lv_arr b)[i := v]\<rparr>)) hv) = Some (set_node p (Border ?b') hv)"
    by (simp add: heap_run set_border_base_def)
  have pg: "(set_node p n hv)\<lparr>pages := pages hv\<rparr> = set_node p n hv" "pages (set_node p n hv) = pages hv" for n
    by (simp_all add: set_node_def)
  let ?h = "set_node p (Border ?b') hv"
  have "(case old of None \<Rightarrow> Some ?h | Some old_v \<Rightarrow> get_gc_info (pages ?h) old_v \<bind> (\<lambda>e. push_value_garbage token e ?h)) =
      Some (?h\<lparr>thread_info_table := put_garbage token (pages hv) (Some w) (thread_info_table h)\<rparr>)"
  proof (cases "need_delete (pages hv) w = Some True")
    case True
    then obtain e where "get_gc_info (pages hv) w = Some e" by (auto simp: need_delete_def get_gc_info_def Let_def split: if_splits)
    then show ?thesis using True old(2) tk put_value_keeps(2) [OF mv(1)]
      by (simp add: push_value_garbage_def get_session_def set_session_def put_garbage_def set_node_def)
  qed (use old(2) put_value_keeps(2) [OF mv(1)] in \<open>simp add: put_garbage_def set_node_def\<close>)
  moreover have "slot_put b i v ?b'"
    unfolding slot_put_def using st
    by (intro exI [of _ "version (version_unlock (locked_base (border_base b)))"])
      (auto simp: set_border_base_def version_unlock_def locked_base_def version_simps is_stable_def)
  moreover have "put_old_key token a s p i (version (border_base b)) (version (border_base b)) h = do {
      h \<leftarrow> (case old of None \<Rightarrow> Some ?h | Some old_v \<Rightarrow> get_gc_info (pages ?h) old_v \<bind> (\<lambda>e. push_value_garbage token e ?h));
      Some (Return (OK, if created_given a then Some (fst (value_view (pages hv) v)) else None, None, h))
    }"
    unfolding put_old_key_def using u locked_leaf [OF l] g e nv rb old(1) up un by (simp add: pg)
  ultimately show ?thesis by auto
qed

lemma put_fetch_lv_eq:
  assumes l: "leaf_at h (p, es) b"
  shows "put_fetch_lv token ti a s p (version (border_base b)) h = (case map_of es (prepare_key_slice s) of
       None \<Rightarrow> put_new_key ti a s p (version (border_base b)) (version (border_base b)) h
     | Some (Val w) \<Rightarrow> put_old_key token a s p (the (slot_of b (prepare_key_slice s))) (version (border_base b)) (version (border_base b)) h
     | Some (Sub u) \<Rightarrow> Some (Goto (Retry_Find_Border (addr_of u) (drop slice_size s), h)))"
proof -
  let ?k = "prepare_key_slice s"
  note st = leaf_at_stable [OF l]
  show ?thesis
  proof (cases "map_of es ?k")
    case None
    then have "slot_of b ?k = None" using leaf_slot(1) [OF l, of ?k] by simp
    then show ?thesis using st None by (simp add: put_fetch_lv_def)
  next
    case (Some c)
    then obtain i where i: "slot_of b ?k = Some i" "lv_arr b ! i = lv_word c"
      using leaf_slot(1) [OF l, of ?k] by auto
    have c: "content_wf ?k c" using leaf_content [OF l Some] by simp
    note rd = leaf_slot(2) [OF l i(1)]
    show ?thesis
    proof (cases c)
      case (Val w)
      then show ?thesis using st i rd c Some by (simp add: put_fetch_lv_def)
    next
      case (Sub u)
      have "get_next_layer (set_next_layer (addr_of u)) = addr_of u"
        using c Sub by (intro set_next_layer_roundtrip(1) tree_wf_valid_ptr) simp
      then show ?thesis using st i rd c Some Sub by (simp add: put_fetch_lv_def wrong_lv_def)
    qed
  qed
qed

section \<open>All layers\<close>

text \<open>The layer, and the layers below it, with the value \<open>v\<close> stored for \<open>s\<close>.\<close>

definition layer_put :: "addr set \<Rightarrow> heap \<Rightarrow> addr \<Rightarrow> addr \<Rightarrow> tree \<Rightarrow> byte list \<Rightarrow> 64 word \<Rightarrow> heap \<Rightarrow> tree \<Rightarrow> bool" where
  "layer_put X h ti par t s v h' t' \<longleftrightarrow> layer_step X h ti par t h' t' \<and>
     map_of (tree_entries t') = (map_of (tree_entries t))(s \<mapsto> v) \<and>
     tree_keys t' \<subseteq> insert (prepare_key_slice s) (tree_keys t) \<and> layer_entries t' \<noteq> []"

lemma layer_step_static:
  assumes "layer_step X h ti par t h' t'"
  shows "thread_info_table h' = thread_info_table h" and "tree_wf t'"
  using assms store_root_spec(5) [of ti "addr_of t'" h] by (auto simp: layer_step_def reowned_def same_static_def split: if_splits)

lemma layer_put_new:
  assumes ready: "leaf_ready h ti par C p es b X" and fit: "fits C (prepare_key_slice s)" and k: "prepare_key_slice s \<notin> set (map fst es)"
    and v: "value_word v" "value_at (pages h) v" and room: "length (tree_addrs (plug C (Leaf p es))) + layers_of s + 1 \<le> length (fresh h)"
    and none: "map_of (layer_entries (plug C (Leaf p es))) (prepare_key_slice s) = None"
  shows "\<exists>created h' t'. insert_lv ti p s v cg (rank_le (prepare_key_slice s) (map fst es))
      (set_node p (Border (set_border_base locked_base b)) h) = Some (created, p, h') \<and> layer_put X h ti par (plug C (Leaf p es)) s v h' t'"
proof -
  have "grown C + Suc (layers_of s) \<le> length (fresh h)" using room grown_le [of C] path_room [of C p es] by linarith
  then have "insert_ready h ti par C p es b s X" using ready fit k by (simp add: insert_ready_def leaf_ready_def)
  from insert_lv_step [OF this v refl, of cg] obtain created h' t' c where
    i: "insert_lv ti p s v cg (rank_le (prepare_key_slice s) (map fst es)) (set_node p (Border (set_border_base locked_base b)) h) = Some (created, p, h')"
      "layer_step X h ti par (plug C (Leaf p es)) h' t'" "entry_put (plug C (Leaf p es)) (prepare_key_slice s) c t'"
      "content_entries (key_bytes (prepare_key_slice s)) c = [(s, v)]" "content_wf (prepare_key_slice s) c" by blast
  have "tree_wf (plug C (Leaf p es))" using ready by (simp add: leaf_ready_def)
  then have "map_of (tree_entries t') = (map_of (tree_entries (plug C (Leaf p es))))(s \<mapsto> v)"
    using put_map_new [OF i(3) _ layer_step_static(2) [OF i(2)] i(5,4) none] by blast
  then show ?thesis using i unfolding layer_put_def entry_put_def by blast
qed

lemma layer_put_old:
  assumes ready: "leaf_ready h ti par C p es b X" and m: "map_of es (prepare_key_slice s) = Some (Val w)" and v: "value_word v" "value_at (pages h) v"
  obtains i where "slot_of b (prepare_key_slice s) = Some i"
    "\<And>b'. slot_put b i v b' \<Longrightarrow> \<exists>t'. layer_put X h ti par (plug C (Leaf p es)) s v (set_node p (Border b') h) t'"
proof -
  let ?k = "prepare_key_slice s" and ?t = "plug C (Leaf p es)"
  obtain A B where es: "es = A @ (?k, Val w) # B" using map_of_SomeD [OF m] split_list by fastforce
  have fl: "found_leaf h par C p es b" and tw: "tree_wf ?t" and d: "distinct (par # ctx_addrs C @ tree_addrs (Leaf p es) @ fresh h)"
    using ready by (simp_all add: leaf_ready_def)
  have b: "border_wf b" "border_entries b = lv_entries es" using fl by (simp_all add: found_leaf_def leaf_node_def lv_entries_def)
  note sl = entry_slot(3) [OF b(1) b(2) [unfolded es]]
  have "content_wf ?k (Val w)" using tw unfolding tree_wf_plug es by auto
  then have c: "content_wf ?k (Val v)" using v(1) by simp
  show thesis
  proof (rule that [OF sl])
    fix b' assume b': "slot_put b (perm_list (perm_body b) ! length A) v b'"
    let ?h' = "set_node p (Border b') h" and ?t' = "plug C (Leaf p (A @ (?k, Val v) # B))"
    have n: "nodes ?h' p = Some (Border b')" and lv: "slot_put b (perm_list (perm_body b) ! length A) (lv_word (Val v)) b'"
      and cv: "content_at ?h' p (Val v)" "unused_in X ?h' (content_leaves (Val v))" using b' v(2) by simp_all
    have o: "nodes ?h' x = nodes h x" if "x \<notin> insert p (set (content_addrs (Val w) @ fresh h))" for x using that by simp
    have st: "layer_step X h ti par ?t ?h' ?t'"
      by (rule entry_changed_step(1) [OF ready es n lv cv(1) c cv(2) o]) simp_all
    have ep: "entry_put ?t ?k (Val v) ?t'"
      by (rule entry_changed_step(2) [OF ready es n lv cv(1) c cv(2) o]) simp_all
    note put_map_value [OF ep tw layer_step_static(2) [OF st] c]
    then show "\<exists>t'. layer_put X h ti par ?t s v ?h' t'" using st ep unfolding layer_put_def entry_put_def by blast
  qed
qed

text \<open>The next layer of an entry, seen as a layer of its own, and back.\<close>

lemma layer_ok_sub:
  assumes ready: "leaf_ready h ti par C p es b X" and es: "es = A @ (k, Sub u) # B" and X: "set (tree_addrs (plug C (Leaf p es))) \<subseteq> X"
  shows "layer_ok X h ti p u" and "get_lv b (addr_of u) = Some (perm_list (perm_body b) ! length A)"
proof -
  have fl: "nodes h p = Some (Border b)" "leaf_node (ctx_parent par C) (C = []) es b" "\<forall>c \<in> set (map snd es). content_at h p c"
    and tw: "tree_wf (plug C (Leaf p es))" and d: "distinct (par # ctx_addrs C @ tree_addrs (Leaf p es) @ fresh h)"
    and vf: "\<forall>q \<in> set (fresh h). valid_ptr q" and un: "unused_in X h (leaf_addrs (plug C (Leaf p es)))"
    using ready unfolding leaf_ready_def found_leaf_def by - (elim conjE, assumption)+
  have b: "border_wf b" "border_entries b = lv_entries es" "is_stable (version (border_base b))" "border (version (border_base b))"
    using fl(2) by (auto simp: leaf_node_def lv_entries_def Let_def)
  have cw: "content_wf k' c'" if "(k', c') \<in> set es" for k' c' using tw that unfolding tree_wf_plug by auto
  have u: "tree_at h p True u" "linked h nullptr (map fst (layer_leaves u))" "tree_wf u" using fl(3) cw [of k "Sub u"] by (simp_all add: es)
  have "leaf_addrs (plug C (Leaf p es)) = ctx_left leaf_addrs C @ leaf_addrs (Leaf p es) @ ctx_right leaf_addrs C" by (rule concat_plug) simp
  then have ul: "unused_in X h (leaf_addrs u)" "unused_ok X b" using un fl(1) by (auto simp: es)
  have p: "valid_ptr p" using tw unfolding tree_wf_plug by simp
  have ux: "set (tree_addrs u) \<subseteq> X" using X by (simp add: set_addrs_plug es)
  then have ua: "addr_of u \<in> X" using addr_of_in_addrs by blast
  have dc: "distinct (concat (map content_addrs (map snd es)))" using d by simp
  have r: "length A < length es" "es ! length A = (k, Sub u)" by (simp_all add: es nth_append)
  show g: "get_lv b (addr_of u) = Some (perm_list (perm_body b) ! length A)"
    by (rule get_lv_entry [OF b(1,2) ul(2) r ua dc cw])
  have "distinct (p # tree_addrs u @ fresh h)" using d by (auto simp: es)
  moreover have "owned h ti p (addr_of u)" using p fl(1) b g by (auto simp: owned_def valid_ptr_def border_wf_def)
  ultimately show "layer_ok X h ti p u" using u vf ul(1) ux by (simp add: layer_ok_def)
qed

lemma layer_put_sub:
  assumes ready: "leaf_ready h ti par C p es b X" and es: "es = A @ (prepare_key_slice s, Sub u) # B"
    and X: "set (tree_addrs (plug C (Leaf p es))) \<subseteq> X"
    and u: "layer_put X h ti p u (drop slice_size s) v h' u'"
  shows "layer_put X h ti par (plug C (Leaf p es)) s v h' (plug C (Leaf p (A @ (prepare_key_slice s, Sub u') # B)))"
proof -
  let ?k = "prepare_key_slice s" and ?t = "plug C (Leaf p es)" and ?t' = "plug C (Leaf p (A @ (prepare_key_slice s, Sub u') # B))"
  have tw: "tree_wf ?t" and nb: "nodes h p = Some (Border b)" using ready by (simp_all add: leaf_ready_def found_leaf_def)
  have cw: "content_wf ?k (Sub u)" using tw unfolding tree_wf_plug es by auto
  have p: "p \<noteq> nullptr" using tw unfolding tree_wf_plug by (simp add: valid_ptr_def)
  have st: "layer_step X h ti p u h' u'" and mp: "map_of (tree_entries u') = (map_of (tree_entries u))(drop slice_size s \<mapsto> v)"
    and ks: "tree_keys u' \<subseteq> insert (prepare_key_slice (drop slice_size s)) (tree_keys u)" and ne: "layer_entries u' \<noteq> []"
    using u unfolding layer_put_def by - (elim conjE, assumption)+
  have l: "tree_wf u'" "tree_at h' p True u'" "linked h' nullptr (map fst (layer_leaves u'))" 
    "reowned h ti p (addr_of u) (addr_of u') h'" "mset (tree_addrs u' @ fresh h') = mset (tree_addrs u @ fresh h)"
    "set (fresh h') \<subseteq> set (fresh h)" "\<forall>x. x \<notin> insert p (set (tree_addrs u @ fresh h)) \<longrightarrow> nodes h' x = nodes h x"
    "unused_in X h' (leaf_addrs u')" using st unfolding layer_step_def by - (elim conjE, assumption)+
  obtain b' where b': "nodes h' p = Some (Border b')" "slot_changed b (addr_of u) (addr_of u') b'" and ss: "same_static h h'"
    using l(4) p nb by (auto simp: reowned_def)
  have n: "slot_put b (perm_list (perm_body b) ! length A) (lv_word (Sub u')) b'"
    using b'(2) layer_ok_sub(2) [OF ready es X] by (simp add: slot_changed_put)
  have "drop slice_size s \<noteq> []" using cw prepare_length [of s] by simp
  then have "unat (snd (prepare_key_slice (drop slice_size s))) \<noteq> 0" by (simp add: unat_length_prepare)
  then have "0 \<notin> snd ` tree_keys u'" using ks cw by auto
  then have c: "content_wf ?k (Sub u')" using cw ne l(1) by simp
  have ca: "content_at h' p (Sub u')" "unused_in X h' (content_leaves (Sub u'))" using l(2,3,8) by simp_all
  have o: "nodes h' x = nodes h x" if "x \<notin> insert p (set (content_addrs (Sub u) @ fresh h))" for x using l(7) that by simp
  have m: "mset (content_addrs (Sub u') @ fresh h') = mset (content_addrs (Sub u) @ fresh h)" using l(5) by simp
  note step = entry_changed_step [OF ready es b'(1) n ca(1) c ca(2) o ss m l(6)]
  have "map_of (layer_entries ?t) ?k = Some (Sub u)"
    using map_of_is_SomeI [OF layer_entries_distinct [OF tw], of ?k "Sub u"] by (simp add: layer_plug es)
  then have "map_of (tree_entries ?t') = (map_of (tree_entries ?t))(s \<mapsto> v)"
    using put_map_layer [OF step(2) tw layer_step_static(2) [OF step(1)] c _ mp] by blast
  then show ?thesis using step unfolding layer_put_def entry_put_def by blast
qed

lemma put_layer:
  assumes "layer_ok X h ti par t" and "value_made a h v hv" and "length (tree_addrs t) + layers_of s + 1 \<le> length (fresh hv)"
    and "\<And>w. map_of (tree_entries t) s = Some w \<Longrightarrow> \<not> unique_restriction a \<and> same_kind a w" and "token < length (thread_info_table h)"
  shows "\<exists>created inserted h' t'. run (put_step token ti key a) (Retry_Find_Border (addr_of t) s, h) = Some (OK, created, inserted,
      h'\<lparr>thread_info_table := put_garbage token (pages hv) (map_of (tree_entries t) s) (thread_info_table h)\<rparr>) \<and>
    layer_put X hv ti par t s v h' t'"
  using assms(1,3,4)
proof (induction "length s" arbitrary: s t par rule: less_induct)
  case less
  let ?k = "prepare_key_slice s" and ?run = "run (put_step token ti key a)"
  have t: "tree_wf t" "tree_at h par True t" using less.prems(1) by (simp_all add: layer_ok_def)
  have mv: "put_value a h = Some (v, hv)" "value_word v" "value_at (pages hv) v" using assms(2) by (simp_all add: value_made_def)
  obtain p es where d: "descend ?k t = (p, es)" by (rule prod.exhaust)
  obtain b where b: "find_border (addr_of t) ?k h = Some (p, version (border_base b), OK)" "leaf_at h (p, es) b"
    using find_border_descend [OF t descends_like_refl [OF canonical_prepare [of s]]] d by auto
  have lo: "layer_ok X hv ti par t" by (rule layer_ok_made [OF less.prems(1) assms(2)])
  obtain C where C: "t = plug C (Leaf p es)" "fits C ?k" using descend_path [OF t(1), of ?k] d by auto
  have nb: "nodes h p = Some (Border b)" "nodes hv p = Some (Border b)"
    using b(2) put_value_keeps(1) [OF mv(1)] by (simp_all add: leaf_at_def)
  note ready = layer_ok_leaf [OF lo [unfolded C(1)] nb(2)] layer_ok_leaf [OF less.prems(1) [unfolded C(1)] nb(1)]
  have es: "map_of (layer_entries t) ?k = map_of es ?k" using descend_lookup [OF t(1), of ?k] d by simp
  note look = map_of_tree_entries [OF t(1), of s, unfolded es]
  have start: "?run (Retry_Find_Border (addr_of t) s, h) = ?run (Retry_Fetch_Lv s p (version (border_base b)), h)"
    by (rule run_Goto) (simp add: put_find_border_def b(1))
  consider "map_of es ?k = None" | w where "map_of es ?k = Some (Val w)" | u where "map_of es ?k = Some (Sub u)"
    by (metis content.exhaust option.exhaust)
  then show ?case
  proof cases
    case 1
    then have k: "?k \<notin> set (map fst es)" by (simp add: map_of_eq_None_iff)
    have none: "map_of (layer_entries (plug C (Leaf p es))) ?k = None" using es 1 C(1) by simp
    obtain created h' t' where i: "insert_lv ti p s v (created_given a) (rank_le ?k (map fst es)) (set_node p (Border (set_border_base locked_base b)) hv) =
        Some (created, p, h')" "layer_put X hv ti par t s v h' t'"
      using layer_put_new [OF ready(1) C(2) k mv(2,3) _ none, of "created_given a"] less.prems(2) C(1) by blast
    have "?run (Retry_Fetch_Lv s p (version (border_base b)), h) = Some (OK, created, Some p, h')"
      by (rule run_Return) (simp add: put_fetch_lv_eq [OF b(2)] 1 put_new_key_eq [OF b(2) mv(1) k] i(1))
    moreover have "thread_info_table h' = thread_info_table h"
      using layer_step_static(1) i(2) put_value_keeps(2) [OF mv(1)] unfolding layer_put_def by metis
    moreover have "map_of (tree_entries t) s = None" using look 1 by simp
    moreover have "h'\<lparr>thread_info_table := thread_info_table h'\<rparr> = h'" by simp
    ultimately show ?thesis using start i(2) by (intro exI [of _ created] exI [of _ "Some p"] exI [of _ h'] exI [of _ t']) simp
  next
    case 2
    obtain i where i: "slot_of b ?k = Some i" "\<And>b'. slot_put b i v b' \<Longrightarrow> \<exists>t'. layer_put X hv ti par t s v (set_node p (Border b') hv) t'"
      using layer_put_old [OF ready(1) 2 mv(2,3)] C(1) by blast
    have "lv_arr b ! i = w" using leaf_slot(1) [OF b(2), of ?k] 2 i(1) by simp
    moreover have "value_word w" "value_at (pages h) w" using leaf_content [OF b(2) 2] by simp_all
    moreover have w: "map_of (tree_entries t) s = Some w" using look 2 by simp
    ultimately obtain created b' where o: "put_old_key token a s p i (version (border_base b)) (version (border_base b)) h = Some (Return (OK, created, None,
        (set_node p (Border b') hv)\<lparr>thread_info_table := put_garbage token (pages hv) (Some w) (thread_info_table h)\<rparr>))" "slot_put b i v b'"
      using put_old_key_eq [OF b(2) assms(2) _ i(1) _ _ _ _ assms(5), of w] less.prems(3) [OF w] by blast
    have "?run (Retry_Fetch_Lv s p (version (border_base b)), h) = Some (OK, created, None,
        (set_node p (Border b') hv)\<lparr>thread_info_table := put_garbage token (pages hv) (Some w) (thread_info_table h)\<rparr>)"
      by (rule run_Return) (simp add: put_fetch_lv_eq [OF b(2)] 2 i(1) o(1))
    then show ?thesis using start w i(2) [OF o(2)] by auto
  next
    case 3
    obtain A B where e: "es = A @ (?k, Sub u) # B" using map_of_SomeD [OF 3] split_list by fastforce
    have X: "set (tree_addrs (plug C (Leaf p es))) \<subseteq> X" using lo C(1) by (simp add: layer_ok_def)
    have c: "content_wf ?k (Sub u)" using leaf_content [OF b(2) 3] by simp
    then have lt: "slice_size < length s" using prepare_length [of s] by simp
    let ?s = "drop slice_size s"
    have lu: "length (tree_addrs u) \<le> length (tree_addrs t)"
    proof -
      have "size (mset (tree_addrs t)) = size (mset (ctx_addrs C) + mset (tree_addrs (Leaf p es)))"
        unfolding C(1) by (rule arg_cong [OF tree_addrs_plug])
      then show ?thesis by (simp add: e)
    qed
    have look': "map_of (tree_entries t) s = map_of (tree_entries u) ?s" using look 3 by simp
    have room: "length (tree_addrs u) + layers_of ?s + 1 \<le> length (fresh hv)" using less.prems(2) lu layers_of_long [OF lt] by simp
    have sh: "length ?s < length s" using lt by simp
    obtain created inserted h' u' where u: "?run (Retry_Find_Border (addr_of u) ?s, h) = Some (OK, created, inserted,
        h'\<lparr>thread_info_table := put_garbage token (pages hv) (map_of (tree_entries u) ?s) (thread_info_table h)\<rparr>)"
      "layer_put X hv ti p u ?s v h' u'"
      using less.hyps [OF sh layer_ok_sub(1) [OF ready(2) e X] room] less.prems(3) unfolding look' by blast
    have "?run (Retry_Fetch_Lv s p (version (border_base b)), h) = ?run (Retry_Find_Border (addr_of u) ?s, h)"
      by (rule run_Goto) (simp add: put_fetch_lv_eq [OF b(2)] 3)
    then show ?thesis using start u(1) layer_put_sub [OF ready(1) e X u(2)] look' C(1) by auto
  qed
qed

end
