(* ===== verification/Remove_Entry.thy ===== *)
theory Remove_Entry
  imports Prune_Branch Put_Layer
begin

text \<open>
  The entry that \<^verbatim>\<open>delete_of\<close> of a border node finds and deletes, and the value page that it
  hands to the session.
\<close>

section \<open>Finding the entry\<close>

lemma delete_match_iff:
  assumes "canonical k" and "canonical t"
  shows "delete_match k t \<longleftrightarrow> k = t"
proof -
  have c: "9 \<le> unat (snd x)" if "8 < snd x" for x :: key using that by (simp add: word_less_nat_alt)
  have "unat (snd k) \<le> 9" "unat (snd t) \<le> 9" using assms by (simp_all add: canonical_def)
  then have "snd k = snd t" if "8 < snd k" "8 < snd t" using c [OF that(1)] c [OF that(2)] by (simp add: word_unat_eq_iff)
  then have "slice_match k t \<longleftrightarrow> delete_match k t" by (auto simp: slice_match_def delete_match_def)
  then show ?thesis using slice_match_iff [OF assms] by simp
qed

lemma find_entry_eq:
  assumes "border_wf b" and "r < get_permutation_cnk b" and "j \<le> r"
  shows "find_entry b (border_keys b ! r) [j..<get_permutation_cnk b] = Some (Some (r, perm_list (perm_body b) ! r))"
  using assms(3)
proof (induction "r - j" arbitrary: j)
  case 0
  then have "j = r" by simp
  then show ?case using assms border_slot_key [OF assms(1,2)] border_slot(1) [OF assms(1,2)]
      delete_match_iff [OF border_key_canonical [OF assms(1,2)] border_key_canonical [OF assms(1,2)]]
    by (simp add: upt_conv_Cons)
next
  case (Suc n)
  then have j: "j < r" "j < get_permutation_cnk b" using assms(2) by simp_all
  have "key_ord (border_keys b ! j) < key_ord (border_keys b ! r)" by (rule border_key_below [OF assms(1) j(1) assms(2)])
  then have "\<not> delete_match (border_keys b ! r) (border_keys b ! j)"
    using delete_match_iff [OF border_key_canonical [OF assms(1,2)] border_key_canonical [OF assms(1) j(2)]] by auto
  moreover have "find_entry b (border_keys b ! r) [Suc j..<get_permutation_cnk b] = Some (Some (r, perm_list (perm_body b) ! r))"
    using Suc j(1) by (intro Suc.hyps(1)) simp_all
  ultimately show ?case using j border_slot_key [OF assms(1) j(2)] by (simp add: upt_conv_Cons)
qed

lemma find_layer_key_eq:
  assumes "border_wf b" and "r < get_permutation_cnk b" and "j \<le> r" and "get_next_layer (snd (border_entries b ! r)) = a"
    and "\<And>i. i < r \<Longrightarrow> get_next_layer (snd (border_entries b ! i)) \<noteq> a"
  shows "find_layer_key b a [j..<get_permutation_cnk b] = Some (Some (border_keys b ! r))"
  using assms(3)
proof (induction "r - j" arbitrary: j)
  case 0
  then have "j = r" by simp
  then show ?case using assms border_slot_key [OF assms(1,2)] by (simp add: upt_conv_Cons)
next
  case (Suc n)
  then have j: "j < r" "j < get_permutation_cnk b" using assms(2) by simp_all
  have "find_layer_key b a [Suc j..<get_permutation_cnk b] = Some (Some (border_keys b ! r))"
    using Suc j(1) by (intro Suc.hyps(1)) simp_all
  then show ?case using j border_slot_key(3) [OF assms(1) j(2)] assms(5) [OF j(1)] by (simp add: upt_conv_Cons)
qed

text \<open>The next layer of an entry is found under the key of that entry.\<close>

lemma layer_key_entry:
  assumes b: "border_wf b" "border_entries b = lv_entries es" and es: "es = A @ (k, Sub u) # B"
    and d: "distinct (concat (map content_addrs (map snd es)))" and w: "\<And>k c. (k, c) \<in> set es \<Longrightarrow> content_wf k c"
  shows "find_layer_key b (addr_of u) [0..<get_permutation_cnk b] = Some (Some k)"
proof -
  have r: "length A < get_permutation_cnk b" "border_keys b ! length A = k" using entry_slot(1,2) [OF b(1) b(2) [unfolded es]] .
  have e: "snd (border_entries b ! i) = lv_word (snd (es ! i))" if "i < length es" for i
    using that b(2) by (simp add: lv_entries_def case_prod_beta')
  have "valid_ptr (addr_of u)" using w [of k "Sub u"] tree_wf_valid_ptr by (simp add: es)
  then have a: "get_next_layer (lv_word (Sub u)) = addr_of u" "addr_of u \<noteq> nullptr"
    using set_next_layer_roundtrip(1) by (simp_all add: valid_ptr_def)
  have "get_next_layer (snd (border_entries b ! i)) \<noteq> addr_of u" if i: "i < length A" for i
  proof
    assume n: "get_next_layer (snd (border_entries b ! i)) = addr_of u"
    have il: "i < length es" "length A < length es" using i by (simp_all add: es)
    have cw: "content_wf (fst (es ! i)) (snd (es ! i))" using w [of "fst (es ! i)" "snd (es ! i)"] il(1) by simp
    obtain t where t: "snd (es ! i) = Sub t" "addr_of t = addr_of u"
      using n cw a(2) e [OF il(1)] set_next_layer_roundtrip(1) tree_wf_valid_ptr by (cases "snd (es ! i)") (auto simp: value_word_def)
    have "set (content_addrs (snd (es ! i))) \<inter> set (content_addrs (snd (es ! length A))) = {}"
      using distinct_concat_nth [OF d, of i "length A"] il i by simp
    then show False using t addr_of_in_addrs [of t] addr_of_in_addrs [of u] by (auto simp: es nth_append)
  qed
  moreover have "get_next_layer (snd (border_entries b ! length A)) = addr_of u" using e [of "length A"] a(1) by (simp add: es nth_append)
  ultimately show ?thesis using find_layer_key_eq [OF b(1) r(1), of 0 "addr_of u"] r(2) by simp
qed

section \<open>Deleting it\<close>

definition value_retired :: "Token \<Rightarrow> value_pages \<Rightarrow> 64 word \<Rightarrow> thread_info list \<Rightarrow> thread_info list" where
  "value_retired token vh w ts = (if is_value_ptr w
     then ts[token := (ts ! token)\<lparr>gc_info := push_value_container (begin_epoch (ts ! token), the (get_gc_info vh w)) (gc_info (ts ! token))\<rparr>]
     else ts)"

fun content_retired :: "Token \<Rightarrow> value_pages \<Rightarrow> content \<Rightarrow> thread_info list \<Rightarrow> thread_info list" where
  "content_retired token vh (Val w) ts = value_retired token vh w ts"
| "content_retired token vh (Sub u) ts = ts"

lemma content_retired_length [simp]: "length (content_retired token vh c ts) = length ts"
  by (cases c) (simp_all add: value_retired_def)

fun is_val :: "content \<Rightarrow> bool" where
  "is_val (Val w) = True" | "is_val (Sub u) = False"

definition entry_cut :: "addr set \<Rightarrow> border_node \<Rightarrow> (key \<times> content) list \<Rightarrow> border_node \<Rightarrow> bool" where
  "entry_cut X b es b' \<longleftrightarrow> border_wf b' \<and> border_entries b' = lv_entries es \<and> border_base b' = border_base b \<and>
     prev_node b' = prev_node b \<and> next_node b' = next_node b \<and> unused_ok X b'"

lemma remove_ptr_flag_fix: "remove_ptr_flag w = w \<longleftrightarrow> \<not> is_value_ptr w"
proof
  have "\<not> bit (remove_ptr_flag w) 62" by (simp add: remove_ptr_flag_def bit_and_iff bit_not_iff bit_kValPtrFlag)
  then show "remove_ptr_flag w = w \<Longrightarrow> \<not> is_value_ptr w" by (metis is_value_ptr_bit)
qed (simp add: remove_ptr_flag_untagged is_value_ptr_bit)

lemma flag_removed_like: "vh p = Some x \<Longrightarrow> pages_like vh (vh(p \<mapsto> x\<lparr>need_delete_flag := False\<rparr>))"
  by (auto simp: pages_like_def)

lemma delete_at_eq:
  assumes b: "border_wf b" "border_entries b = lv_entries (A @ (k, c) # B)" and c: "content_wf k c"
    and v: "\<And>w. c = Val w \<Longrightarrow> value_at vh w"
  shows "\<exists>b' vh'. delete_at ti (length A) (perm_list (perm_body b) ! length A) (is_val c) b vh =
      Some (content_retired 0 vh c [ti] ! 0, b', vh') \<and> pages_like vh vh' \<and>
    perm_body b' = dec_key_num (delete_rank (perm_body b) (length A)) \<and>
    lv_arr b' = (lv_arr b)[perm_list (perm_body b) ! length A := (case c of Val w \<Rightarrow> if is_value_ptr w then init_lv else w | Sub u \<Rightarrow> set_next_layer (addr_of u))]"
proof -
  let ?i = "perm_list (perm_body b) ! length A"
  have r: "length A < get_permutation_cnk b" by (rule entry_slot(1) [OF b])
  have g: "get_lv_at b ?i = Some (lv_word c)"
    using border_slot_key(3) [OF b(1) r] border_slot(1) [OF b(1) r] b(2) by (simp add: lv_entries_def nth_append)
  then have i: "?i < length (lv_arr b)" "lv_arr b ! ?i = lv_word c" by (simp_all add: get_lv_at_def at_eq_Some)
  then have same: "(lv_arr b)[?i := lv_word c] = lv_arr b" by (metis list_update_id)
  show ?thesis
  proof (cases c)
    case (Sub u)
    then show ?thesis using same by (simp add: delete_at_def)
  next
    case (Val w)
    then have w: "get_value w = w" "value_at vh w" using c v by simp_all
    show ?thesis
    proof (cases "is_value_ptr w")
      case False
      then show ?thesis using Val g w same by (simp add: delete_at_def value_retired_def)
    next
      case True
      have n: "remove_ptr_flag w \<noteq> w" using True by (simp add: remove_ptr_flag_fix)
      then obtain x where x: "vh (remove_ptr_flag w) = Some x" using w(2) by (auto simp: value_at_def)
      let ?vh = "vh(remove_ptr_flag w \<mapsto> x\<lparr>need_delete_flag := False\<rparr>)"
      have "get_gc_info ?vh w = get_gc_info vh w" "get_gc_info vh w = Some (remove_ptr_flag w, header_size x, ucast (align x))"
        using n x by (simp_all add: get_gc_info_def header_size_def)
      then show ?thesis using Val g w True n x i flag_removed_like [of vh "remove_ptr_flag w", OF x]
        by (simp add: delete_at_def value_retired_def remove_delete_flag_def set_lv_def Let_def)
    qed
  qed
qed


text \<open>What is left of the node: all other entries, and a slot without a link to the rest of the tree.\<close>

lemma delete_at_cut:
  assumes b: "border_wf b" "border_entries b = lv_entries (A @ (k, c) # B)" and c: "content_wf k c"
    and v: "\<And>w. c = Val w \<Longrightarrow> value_at vh w" and u: "unused_ok X b"
  shows "\<exists>b' vh'. delete_at ti (length A) (perm_list (perm_body b) ! length A) (is_val c) b vh =
      Some (content_retired 0 vh c [ti] ! 0, b', vh') \<and> pages_like vh vh' \<and> entry_cut (X - set (content_addrs c)) b (A @ B) b'"
proof -
  let ?pl = "perm_list (perm_body b)" and ?X = "X - set (content_addrs c)"
  let ?w = "case c of Val w \<Rightarrow> if is_value_ptr w then init_lv else w | Sub u \<Rightarrow> set_next_layer (addr_of u)"
  obtain b' vh' where d: "delete_at ti (length A) (?pl ! length A) (is_val c) b vh = Some (content_retired 0 vh c [ti] ! 0, b', vh')"
    "pages_like vh vh'" "perm_body b' = dec_key_num (delete_rank (perm_body b) (length A))" "lv_arr b' = (lv_arr b)[?pl ! length A := ?w]"
    using delete_at_eq [OF b c v, of ti] by blast
  have r: "length A < get_permutation_cnk b" by (rule entry_slot(1) [OF b])
  note s = delete_at_spec [OF b(1) r d(1)]
  have "length A < length ?pl" using r by (simp add: get_permutation_cnk_def perm.count_order)
  then have p: "perm_list (perm_body b') = del_at (length A) ?pl" using perm.order_drop d(3) by simp
  have pd: "distinct ?pl" using b(1) by (simp add: border_wf_def perm.invar_order)
  have set: "set ?pl \<subseteq> insert (?pl ! length A) (set (perm_list (perm_body b')))"
    unfolding p set_del_at [OF pd \<open>length A < length ?pl\<close>] by blast
  have w: "slot_free ?X ?w"
  proof (cases c)
    case (Val w)
    then have "\<not> bit w 63" using c by (simp add: value_word_def)
    then show ?thesis using Val by (auto simp: slot_free_def is_value_ptr_bit)
  next
    case (Sub u)
    then have "valid_ptr (addr_of u)" using c tree_wf_valid_ptr by simp
    then show ?thesis using Sub set_next_layer_roundtrip [of "addr_of u"] addr_of_in_addrs [of u]
      by (auto simp: slot_free_def set_next_layer_def init_lv_def bit_or_iff kChildFlag_def)
  qed
  have "slot_free ?X (lv_arr b' ! i)" if i: "i < key_slice_length" "i \<notin> set (perm_list (perm_body b'))" for i
  proof (cases "i = ?pl ! length A")
    case True
    then show ?thesis using w i(1) b(1) unfolding d(4) by (simp add: border_wf_def)
  next
    case False
    then have "slot_free X (lv_arr b ! i)" using i set u by (auto simp: unused_ok_def)
    then show ?thesis using False d(4) slot_free_mono [of X _ ?X] by auto
  qed
  then have "unused_ok ?X b'" by (simp add: unused_ok_def)
  moreover have "border_entries b' = lv_entries (A @ B)" using s(1) b(2) by (simp add: lv_entries_def del_at_def)
  ultimately have "entry_cut ?X b (A @ B) b'" using s by (simp add: entry_cut_def)
  then show ?thesis using d(1,2) by blast
qed

lemma content_retired_at:
  assumes "token < length ts"
  shows "ts[token := content_retired 0 vh c [ts ! token] ! 0] = content_retired token vh c ts"
  using assms by (cases c) (simp_all add: value_retired_def)

lemma delete_entry_eq:
  assumes n: "nodes h p = Some (Border b)" and t: "token < length (thread_info_table h)" 
    and b: "border_wf b" "border_entries b = lv_entries (A @ (k, c) # B)" and c: "content_wf k c"
    and v: "\<And>w. c = Val w \<Longrightarrow> value_at (pages h) w" and u: "unused_ok X b"
  shows "\<exists>b' vh'. delete_entry token p (length A) (perm_list (perm_body b) ! length A) (is_val c) h =
      Some (set_node p (Border b') (h\<lparr>pages := vh', thread_info_table := content_retired token (pages h) c (thread_info_table h)\<rparr>)) \<and>
    pages_like (pages h) vh' \<and> entry_cut (X - set (content_addrs c)) b (A @ B) b'"
proof -
  obtain b' vh' where d: "delete_at (thread_info_table h ! token) (length A) (perm_list (perm_body b) ! length A) (is_val c) b (pages h) =
      Some (content_retired 0 (pages h) c [thread_info_table h ! token] ! 0, b', vh')" "pages_like (pages h) vh'" "entry_cut (X - set (content_addrs c)) b (A @ B) b'"
    using delete_at_cut [OF b c v u] by blast
  then have "delete_entry token p (length A) (perm_list (perm_body b) ! length A) (is_val c) h =
      Some (set_node p (Border b') (h\<lparr>pages := vh', thread_info_table := content_retired token (pages h) c (thread_info_table h)\<rparr>))"
    using n t by (simp add: delete_entry_def get_session_def set_session_def heap_run content_retired_at set_node_def)
  then show ?thesis using d(2,3) by blast
qed

end
