(* ===== verification/Remove_Links.thy ===== *)
theory Remove_Links
  imports Remove_Entry
begin

text \<open>
  The empty leaf leaves the list of leaves: \<^verbatim>\<open>delete_of\<close> lets its neighbours point to each other.
\<close>

definition bypass :: "addr \<Rightarrow> addr \<Rightarrow> (addr \<Rightarrow> node option) \<Rightarrow> addr \<Rightarrow> node option" where
  "bypass pv nx N x = (case N x of
       Some (Border b) \<Rightarrow> if x \<noteq> nullptr \<and> x = pv then Some (Border (b\<lparr>next_node := nx\<rparr>))
         else if x \<noteq> nullptr \<and> x = nx then Some (Border (b\<lparr>prev_node := pv\<rparr>)) else N x
     | _ \<Rightarrow> N x)"

lemma bypass_simps [simp]:
  "x \<noteq> pv \<Longrightarrow> x \<noteq> nx \<Longrightarrow> bypass pv nx N x = N x" "bypass nullptr nullptr N = N"
  "pv \<noteq> nullptr \<Longrightarrow> N pv = Some (Border b) \<Longrightarrow> bypass pv nx N pv = Some (Border (b\<lparr>next_node := nx\<rparr>))"
  "nx \<noteq> nullptr \<Longrightarrow> nx \<noteq> pv \<Longrightarrow> N nx = Some (Border b) \<Longrightarrow> bypass pv nx N nx = Some (Border (b\<lparr>prev_node := pv\<rparr>))"
  "bypass pv nx N nullptr = N nullptr"
  by (auto simp: bypass_def split: option.splits node.splits)

lemma bypass_upd: "p \<noteq> pv \<Longrightarrow> p \<noteq> nx \<Longrightarrow> bypass pv nx (N(p := n)) = (bypass pv nx N)(p := n)"
  by (auto simp: bypass_def split: option.splits node.splits)

lemma same_but_links_refl [simp]: "same_but_links b b"
  using same_but_links_simps(1) [of b "prev_node b"] by simp

lemma bypass_keeps_slots: "keeps_slots h (h\<lparr>nodes := bypass pv nx (nodes h)\<rparr>) x"
  by (simp add: keeps_slots_def bypass_def)

text \<open>A neighbour is there, not locked and not deleted.\<close>

definition live_leaf :: "heap \<Rightarrow> addr \<Rightarrow> bool" where
  "live_leaf h x \<longleftrightarrow> (\<exists>b. nodes h x = Some (Border b) \<and> is_stable (version (border_base b)) \<and> \<not> deleted (version (border_base b)))"

lemma unlink_siblings_eq:
  assumes p: "nodes h p = Some (Border b)" "prev_node b = pv" "next_node b = nx" and ne: "pv \<noteq> p" "nx \<noteq> p" "pv = nx \<longrightarrow> pv = nullptr"
    and pv: "pv \<noteq> nullptr \<Longrightarrow> live_leaf h pv" and nx: "nx \<noteq> nullptr \<Longrightarrow> live_leaf h nx"
  shows "unlink_siblings p h = Some (h\<lparr>nodes := bypass pv nx (nodes h)\<rparr>)"
proof (cases "pv = nullptr")
  case True
  show ?thesis
  proof (cases "nx = nullptr")
    case False
    then obtain d where d: "nodes h nx = Some (Border d)" using nx by (auto simp: live_leaf_def)
    then have "(nodes h)(nx \<mapsto> Border (d\<lparr>prev_node := nullptr\<rparr>)) = bypass nullptr nx (nodes h)"
      using False by (auto simp: bypass_def split: option.splits node.splits)
    then show ?thesis using True False p d by (simp add: unlink_siblings.simps heap_run set_prev_def set_node_def)
  qed (use True p in \<open>simp add: unlink_siblings.simps heap_run\<close>)
next
  case False
  then obtain a where a: "nodes h pv = Some (Border a)" "is_stable (version (border_base a))" "\<not> deleted (version (border_base a))"
    using pv by (auto simp: live_leaf_def)
  have l: "\<not> deleted (version (locked_base (border_base a)))" "\<not> locked (version (border_base a))"
    using a(2,3) by (simp_all add: locked_base_def is_stable_def)
  have u: "version_unlock (border_base a\<lparr>version := version (border_base a)\<lparr>locked := True\<rparr>\<rparr>) = border_base a"
    using unlock_locked [OF a(2)] by (simp add: locked_base_def)
  show ?thesis
  proof (cases "nx = nullptr")
    case True
    have "(nodes h)(pv \<mapsto> Border (a\<lparr>next_node := nullptr\<rparr>)) = bypass pv nullptr (nodes h)"
      using False a(1) by (auto simp: bypass_def split: option.splits node.splits)
    then show ?thesis using True False p a l ne u
      by (simp add: unlink_siblings.simps heap_run set_next_def set_border_base_def set_node_def)
  next
    case nn: False
    then obtain d where d: "nodes h nx = Some (Border d)" using nx by (auto simp: live_leaf_def)
    have "(nodes h)(pv \<mapsto> Border (a\<lparr>next_node := nx\<rparr>), nx \<mapsto> Border (d\<lparr>prev_node := pv\<rparr>)) = bypass pv nx (nodes h)"
      using False nn a(1) d ne(3) by (auto simp: bypass_def split: option.splits node.splits)
    then show ?thesis using False nn p a l ne u d
      by (simp add: unlink_siblings.simps heap_run set_next_def set_prev_def set_border_base_def set_node_def fun_upd_twist)
  qed
qed

section \<open>The list without the leaf\<close>

lemma linked_bypass_off:
  assumes "linked h q ps" and "pv \<notin> set ps" and "nx \<notin> set ps"
  shows "linked (h\<lparr>nodes := bypass pv nx (nodes h)\<rparr>) q ps"
proof (rule linked_keeps [OF assms(1)])
  fix a assume "a \<in> set ps"
  then have "bypass pv nx (nodes h) a = nodes h a" using assms by (intro bypass_simps(1)) auto
  then show "keeps_links h (h\<lparr>nodes := bypass pv nx (nodes h)\<rparr>) a" using keeps_same [of "h\<lparr>nodes := bypass pv nx (nodes h)\<rparr>" a h] by simp
qed

lemma linked_bypass:
  assumes "linked h q0 (A @ p # B)" and "distinct (A @ p # B)" and "nullptr \<notin> set (A @ p # B)" and "nodes h p = Some (Border b)"
    and "q0 \<notin> set (A @ p # B)"
  shows "linked (h\<lparr>nodes := bypass (prev_node b) (next_node b) (nodes h)\<rparr>) (if A = [] then prev_node b else q0) (A @ B)"
  using assms
proof (induction A arbitrary: q0)
  case Nil
  have n: "next_node b = (case B of [] \<Rightarrow> nullptr | x # _ \<Rightarrow> x)" "prev_node b = q0" using Nil(1,4) by (auto simp: linked_Cons)
  show ?case
  proof (cases B)
    case (Cons x B')
    obtain m where m: "linked h x B'" "nodes h x = Some (Border m)" "next_node m = (case B' of [] \<Rightarrow> nullptr | p' # _ \<Rightarrow> p')"
      using Nil(1) Cons by (auto simp: linked_Cons)
    have "linked (h\<lparr>nodes := bypass q0 x (nodes h)\<rparr>) x B'" by (rule linked_bypass_off [OF m(1)]) (use Nil Cons in auto)
    moreover have "bypass q0 x (nodes h) x = Some (Border (m\<lparr>prev_node := q0\<rparr>))" using m(2) Nil(3,5) Cons by (intro bypass_simps(4)) auto
    ultimately show ?thesis using m(3) n Cons by (simp add: linked_Cons)
  qed simp
next
  case (Cons a A)
  obtain m where m: "nodes h a = Some (Border m)" "prev_node m = q0" "next_node m = hd (A @ p # B)" "linked h a (A @ p # B)"
    using Cons.prems(1) by (cases A) (auto simp: linked_Cons)
  have IH: "linked (h\<lparr>nodes := bypass (prev_node b) (next_node b) (nodes h)\<rparr>) (if A = [] then prev_node b else a) (A @ B)"
    by (rule Cons.IH [OF m(4)]) (use Cons.prems in auto)
  have nb: "next_node b = (case B of [] \<Rightarrow> nullptr | x # _ \<Rightarrow> x)" by (rule linked_next [OF m(4) assms(4)])
  show ?case
  proof (cases A)
    case Nil
    then have "prev_node b = a" using m(4) assms(4) by (auto simp: linked_Cons)
    then show ?thesis using IH Nil m(1,2) nb Cons.prems(3) by (simp add: linked_Cons)
  next
    case c: (Cons y A')
    have "prev_node b \<in> set A"
    proof -
      have "linked h q (A1 @ p # B) \<Longrightarrow> A1 \<noteq> [] \<Longrightarrow> prev_node b \<in> set A1" for q A1
      proof (induction A1 arbitrary: q)
        case (Cons z A1)
        then show ?case using assms(4) by (cases A1) (auto simp: linked_Cons)
      qed simp
      from this [OF m(4)] show ?thesis using c by simp
    qed
    moreover have "next_node b \<notin> insert a (set A)" using nb Cons.prems(2,3) by (cases B) auto
    ultimately have "bypass (prev_node b) (next_node b) (nodes h) a = nodes h a" using Cons.prems(2) by (intro bypass_simps(1)) auto
    then show ?thesis using IH c m(1,2,3) by (simp add: linked_Cons)
  qed
qed

section \<open>The path to the leaf\<close>

lemma tree_leaf_live:
  "tree_at h par False t \<Longrightarrow> x \<in> fst ` set (layer_leaves t) \<Longrightarrow> live_leaf h x"
proof (induction t arbitrary: par rule: tree_induct)
  case (Leaf p es)
  then show ?case by (auto simp: tree_at_contents live_leaf_def leaf_node_def Let_def)
next
  case (Branch p ks ts)
  then show ?case by (auto simp: tree_at_Branch)
qed

lemma ctx_leaf_live:
  "ctx_at h par C a \<Longrightarrow> x \<in> fst ` set (ctx_left layer_leaves C @ ctx_right layer_leaves C) \<Longrightarrow> live_leaf h x"
proof (induction C arbitrary: a)
  case (Cons f C)
  obtain p ks ls rs where f: "f = (p, ks, ls, rs)" by (cases f) auto
  have t: "tree_at h p False t" if "t \<in> set ls \<union> set rs" for t using Cons.prems(1) that by (auto simp: f)
  have c: "ctx_at h par C p" using Cons.prems(1) by (simp add: f)
  consider u where "u \<in> set ls \<union> set rs" "x \<in> fst ` set (layer_leaves u)" | "x \<in> fst ` set (ctx_left layer_leaves C @ ctx_right layer_leaves C)"
    using Cons.prems(2) by (auto simp: f)
  then show ?case using tree_leaf_live [OF t] Cons.IH [OF c] by cases blast+
qed simp

lemma linked_ends:
  assumes "linked h q0 (A @ p # B)" and "nodes h p = Some (Border b)"
  shows "prev_node b = (if A = [] then q0 else last A)" and "next_node b = (if B = [] then nullptr else hd B)"
proof -
  show "next_node b = (if B = [] then nullptr else hd B)" using linked_next [OF assms] by (cases B) simp_all
  show "prev_node b = (if A = [] then q0 else last A)" using assms
  proof (induction A arbitrary: q0)
    case (Cons a A)
    have "linked h a (A @ p # B)" using Cons.prems(1) by (auto simp: linked_Cons)
    then show ?case using Cons.IH [OF _ Cons.prems(2)] by simp
  qed (simp add: linked_Cons)
qed

definition path_leaves :: "frame list \<Rightarrow> addr \<Rightarrow> addr list" where
  "path_leaves C p = map fst (ctx_left layer_leaves C) @ p # map fst (ctx_right layer_leaves C)"

lemma path_leaves_plug: "map fst (layer_leaves (plug C (Leaf p es))) = path_leaves C p"
  by (simp add: path_leaves_def layer_plug)

lemma two_sides:
  "a \<in> insert z L \<Longrightarrow> b \<in> insert z R \<Longrightarrow> L \<inter> R = {} \<Longrightarrow> p \<notin> L \<Longrightarrow> p \<notin> R \<Longrightarrow> (a = b \<longrightarrow> a = z) \<and> (p \<noteq> z \<longrightarrow> a \<noteq> p \<and> b \<noteq> p)"
  by auto

lemma neighbours:
  assumes lk: "linked h nullptr (path_leaves C p)" and b: "nodes h p = Some (Border b)" and d: "distinct (path_leaves C p)"
  shows "prev_node b \<in> insert nullptr (fst ` set (ctx_left layer_leaves C))" and "next_node b \<in> insert nullptr (fst ` set (ctx_right layer_leaves C))"
    and "prev_node b = next_node b \<longrightarrow> prev_node b = nullptr" and "p \<noteq> nullptr \<Longrightarrow> prev_node b \<noteq> p \<and> next_node b \<noteq> p"
proof -
  let ?L = "map fst (ctx_left layer_leaves C)" and ?R = "map fst (ctx_right layer_leaves C)"
  note e = linked_ends [OF lk [unfolded path_leaves_def] b]
  have L: "prev_node b \<in> insert nullptr (set ?L)" using e(1) last_in_set [of ?L] by (cases "?L = []") auto
  have R: "next_node b \<in> insert nullptr (set ?R)" using e(2) hd_in_set [of ?R] by (cases "?R = []") auto
  show "prev_node b \<in> insert nullptr (fst ` set (ctx_left layer_leaves C))" "next_node b \<in> insert nullptr (fst ` set (ctx_right layer_leaves C))"
    using L R by simp_all
  have "set ?L \<inter> set ?R = {}" "p \<notin> set ?L" "p \<notin> set ?R" using d unfolding path_leaves_def distinct_append distinct.simps list.set by blast+
  then show "prev_node b = next_node b \<longrightarrow> prev_node b = nullptr" "p \<noteq> nullptr \<Longrightarrow> prev_node b \<noteq> p \<and> next_node b \<noteq> p"
    using two_sides [OF L R] by simp_all
qed

lemma ctx_at_bypass:
  assumes at: "ctx_at h par C p" and d: "distinct (ctx_addrs C)"
    and pv: "pv \<in> insert nullptr (fst ` set (ctx_left layer_leaves C @ ctx_right layer_leaves C))"
    and nx: "nx \<in> insert nullptr (fst ` set (ctx_left layer_leaves C @ ctx_right layer_leaves C))"
  shows "ctx_at (h\<lparr>nodes := bypass pv nx (nodes h)\<rparr>) par C p"
proof -
  have one: "ctx_at (g\<lparr>nodes := M\<rparr>) par C p"
    if at: "ctx_at g par C p" and x: "x \<in> insert nullptr (fst ` set (ctx_left layer_leaves C @ ctx_right layer_leaves C))"
      and o: "\<And>y. y \<noteq> x \<or> x = nullptr \<Longrightarrow> M y = nodes g y" 
      and l: "\<And>n. x \<noteq> nullptr \<Longrightarrow> nodes g x = Some (Border n) \<Longrightarrow> \<exists>n'. M x = Some (Border n') \<and> same_but_links n n'" for g x M
  proof (cases "x = nullptr")
    case True
    then show ?thesis using o by (intro ctx_at_frame [OF at]) simp_all
  next
    case False
    then have x': "x \<in> fst ` set (ctx_left layer_leaves C @ ctx_right layer_leaves C)" using x by simp
    obtain n where n: "nodes g x = Some (Border n)" using ctx_leaf_live [OF at x'] by (auto simp: live_leaf_def)
    show ?thesis using l [OF False n] o x' by (intro ctx_at_relink [OF at d _ n]) simp_all
  qed
  let ?N1 = "(nodes h)(pv := bypass pv nx (nodes h) pv)"
  have "ctx_at (h\<lparr>nodes := ?N1\<rparr>) par C p"
  proof (rule one [OF at pv])
    show "y \<noteq> pv \<or> pv = nullptr \<Longrightarrow> ?N1 y = nodes h y" for y using bypass_simps(5) by (cases "y = pv") auto
  qed auto
  then have "ctx_at ((h\<lparr>nodes := ?N1\<rparr>)\<lparr>nodes := bypass pv nx (nodes h)\<rparr>) par C p"
  proof (rule one [OF _ nx])
    show "bypass pv nx (nodes h) y = nodes (h\<lparr>nodes := ?N1\<rparr>) y" if "y \<noteq> nx \<or> nx = nullptr" for y
      using that bypass_simps(1,5) by (cases "y = pv") (auto simp: bypass_def split: option.splits node.splits)
    show "\<exists>n'. bypass pv nx (nodes h) nx = Some (Border n') \<and> same_but_links n n'"
      if "nx \<noteq> nullptr" "nodes (h\<lparr>nodes := ?N1\<rparr>) nx = Some (Border n)" for n
      using that same_but_links_refl by (cases "nx = pv") auto
  qed
  then show ?thesis by simp
qed

end
