(* ===== verification/Remove_Border.thy ===== *)
theory Remove_Border
  imports Remove_Links
begin

text \<open>
  \<^verbatim>\<open>delete_of\<close> of a border node: what it does after the entry is gone, in each of its cases.
\<close>

section \<open>The node that became empty\<close>

text \<open>The branch of \<^verbatim>\<open>delete_of\<close> for the last entry of a node.\<close>

definition drop_border :: "Token \<Rightarrow> addr \<Rightarrow> addr \<Rightarrow> heap \<Rightarrow> heap option" where
  "drop_border token ti this h = do {
     h \<leftarrow> upd_base this (set_version_deleted True) h;
     r \<leftarrow> load_root_ptr ti h;
     h \<leftarrow> (if r \<noteq> this then upd_base this (set_version_root False) h else Some h);
     h \<leftarrow> unlink_siblings this h;
     (pn, h) \<leftarrow> lock_parent this h;
     if pn = nullptr then unlock_at this h
     else do {
       h \<leftarrow> upd_base this (set_version_root False) h;
       h \<leftarrow> unlock_at this h;
       pbase \<leftarrow> get_base pn h;
       h \<leftarrow> (if border (version pbase) then do {
               pb \<leftarrow> get_border pn h;
               lk \<leftarrow> find_layer_key pb this [0..<get_permutation_cnk pb];
               case lk of
                 None \<Rightarrow> Some h
               | Some k \<Rightarrow> border_delete_of token ti pn k False h
             } else interior_delete_of token ti pn this h);
       push_node_garbage token this h
     }
   }"

lemma border_delete_of_eq:
  assumes "nodes h p = Some (Border b)" and "find_entry b k [0..<get_permutation_cnk b] = Some (Some (i, index))"
    and "delete_entry token p i index tv h = Some h'"
  shows "border_delete_of token ti p k tv h = (if get_permutation_cnk b = 1 then drop_border token ti p h' else unlock_at p h')"
  using assms by (simp add: border_delete_of.simps [of token ti p k tv h] heap_run drop_border_def)

definition dead_leaf :: "border_node \<Rightarrow> border_node" where
  "dead_leaf b = set_border_base (version_unlock \<circ> set_version_root False \<circ> set_version_deleted True) b"

lemma set_root_twice [simp]: "set_version_root x (set_version_root y b) = set_version_root x b"
  by (simp add: set_version_root_def version_simps)

lemma set_border_base_comp [simp]: "set_border_base f (set_border_base g b) = set_border_base (f \<circ> g) b"
  by (simp add: set_border_base_def)

lemma drop_root:
  assumes "load_root_ptr ti h = Some p" and "prev_node b = nullptr" and "next_node b = nullptr" and "parent (border_base b) = nullptr"
  shows "drop_border token ti p (set_node p (Border b) h) = Some (set_node p (Border (set_border_base (version_unlock \<circ> set_version_deleted True) b)) h)"
proof -
  let ?b = "set_border_base (set_version_deleted True) b"
  have "unlink_siblings p (set_node p (Border ?b) h) = Some (set_node p (Border ?b) h)"
    using assms by (simp add: unlink_siblings.simps heap_run set_border_base_def)
  moreover have "lock_parent p (set_node p (Border ?b) h) = Some (nullptr, set_node p (Border ?b) h)"
    using assms(4) by (intro lock_parent_null [of _ _ "Border ?b"]) (simp_all add: set_border_base_def set_version_deleted_def)
  ultimately show ?thesis using assms(1) by (simp add: drop_border_def heap_run)
qed

text \<open>With a parent: the node is marked and leaves the list before the parent is locked.\<close>

lemma drop_parent:
  assumes root: "load_root_ptr ti h = Some r"
    and n: "prev_node b = pv" "next_node b = nx" "pv \<noteq> p" "nx \<noteq> p" "pv = nx \<longrightarrow> pv = nullptr"
    and live: "pv \<noteq> nullptr \<Longrightarrow> live_leaf h pv" "nx \<noteq> nullptr \<Longrightarrow> live_leaf h nx"
    and pn: "parent (border_base b) = q" "q \<noteq> nullptr" "q \<noteq> p" "bypass pv nx (nodes h) q = Some m" "\<not> locked (version (node_base m))"
  defines "g \<equiv> set_node q (node_map_base locked_base m) (set_node p (Border (dead_leaf b)) (h\<lparr>nodes := bypass pv nx (nodes h)\<rparr>))"
  shows "drop_border token ti p (set_node p (Border b) h) = do {
      pbase \<leftarrow> get_base q g;
      h \<leftarrow> (if border (version pbase) then do {
              pb \<leftarrow> get_border q g;
              lk \<leftarrow> find_layer_key pb p [0..<get_permutation_cnk pb];
              case lk of
                None \<Rightarrow> Some g
              | Some k \<Rightarrow> border_delete_of token ti q k False g
            } else interior_delete_of token ti q p g);
      push_node_garbage token p h
    }"
proof -
  let ?f = "if r \<noteq> p then set_version_root False \<circ> set_version_deleted True else set_version_deleted True"
  let ?b = "set_border_base ?f b" and ?h = "h\<lparr>nodes := bypass pv nx (nodes h)\<rparr>"
  have f: "parent (border_base ?b) = q" "prev_node ?b = pv" "next_node ?b = nx" using pn(1) n by (auto simp: set_border_base_def set_version_root_def set_version_deleted_def)
  have "unlink_siblings p (set_node p (Border ?b) h) = Some ((set_node p (Border ?b) h)\<lparr>nodes := bypass pv nx (nodes (set_node p (Border ?b) h))\<rparr>)"
    by (rule unlink_siblings_eq [OF _ f(2,3) n(3-5)]) (use n live in \<open>simp_all add: live_leaf_def\<close>)
  also have "(set_node p (Border ?b) h)\<lparr>nodes := bypass pv nx (nodes (set_node p (Border ?b) h))\<rparr> = set_node p (Border ?b) ?h"
    using n(3,4) by (simp add: set_node_def bypass_upd)
  finally have u: "unlink_siblings p (set_node p (Border ?b) h) = Some (set_node p (Border ?b) ?h)" .
  have lp: "lock_parent p (set_node p (Border ?b) ?h) = Some (q, set_node q (node_map_base locked_base m) (set_node p (Border ?b) ?h))"
    using lock_parent_eq [of "set_node p (Border ?b) ?h" p "Border ?b" q m] f(1) pn by (simp add: locked_base_def [abs_def])
  have "drop_border token ti p (set_node p (Border b) h) = do {
      h \<leftarrow> unlink_siblings p (set_node p (Border ?b) h);
      (pn, h) \<leftarrow> lock_parent p h;
      if pn = nullptr then unlock_at p h
      else do {
        h \<leftarrow> upd_base p (set_version_root False) h;
        h \<leftarrow> unlock_at p h;
        pbase \<leftarrow> get_base pn h;
        h \<leftarrow> (if border (version pbase) then do {
                pb \<leftarrow> get_border pn h;
                lk \<leftarrow> find_layer_key pb p [0..<get_permutation_cnk pb];
                case lk of
                  None \<Rightarrow> Some h
                | Some k \<Rightarrow> border_delete_of token ti pn k False h
              } else interior_delete_of token ti pn p h);
        push_node_garbage token p h
      }
    }" using root by (simp add: drop_border_def heap_run)
  moreover have "set_border_base (version_unlock \<circ> (set_version_root False \<circ> ?f)) b = dead_leaf b"
    by (simp add: dead_leaf_def comp_def)
  moreover have "set_node p x (set_node q y k) = set_node q y (set_node p x k)" for x y k using pn(3) by (intro set_node_commute) simp
  ultimately show ?thesis using u lp pn(2,3) by (simp add: g_def heap_run)
qed

end
