(* ===== verification/Remove_Leaf.thy ===== *)
theory Remove_Leaf
  imports Remove_Border
begin

text \<open>
  One layer before and after the deletion of an entry.
\<close>

section \<open>A layer that stays\<close>

text \<open>The nodes \<open>R\<close> are no longer part of it.\<close>

definition trimmed :: "addr set \<Rightarrow> heap \<Rightarrow> addr \<Rightarrow> addr \<Rightarrow> tree \<Rightarrow> addr list \<Rightarrow> heap \<Rightarrow> tree \<Rightarrow> bool" where
  "trimmed X h ti par t R h' t' \<longleftrightarrow> tree_wf t' \<and> tree_at h' par True t' \<and> linked h' nullptr (map fst (layer_leaves t')) \<and>
     rerooted h ti par (addr_of t) (addr_of t') h' \<and> mset (tree_addrs t) = mset (tree_addrs t' @ R) \<and>
     (\<forall>x. x \<notin> insert par (set (tree_addrs t)) \<longrightarrow> nodes h' x = nodes h x) \<and> unused_in (X - set R) h' (leaf_addrs t') \<and>
     (par \<noteq> nullptr \<longrightarrow> layer_entries t' \<noteq> [])"

definition entry_del :: "tree \<Rightarrow> key \<Rightarrow> tree \<Rightarrow> bool" where
  "entry_del t k t' \<longleftrightarrow> map_of (layer_entries t') = (map_of (layer_entries t))(k := None) \<and> tree_keys t' \<subseteq> tree_keys t"

lemma entry_delI:
  assumes "layer_entries t = A @ (k, c) # B" and "layer_entries t' = A @ B" and "tree_wf t" and "tree_keys t' \<subseteq> tree_keys t"
  shows "entry_del t k t'"
proof -
  have d: "distinct (map fst (A @ (k, c) # B))" using layer_entries_distinct [OF assms(3)] assms(1) by simp
  have "map_of (A @ B) k = None" using d by (auto simp: map_of_eq_None_iff)
  then have "(map_of (A @ B))(k := None) = map_of (A @ B)" by (rule fun_upd_idem)
  then have "map_of (A @ B) = (map_of (A @ (k, c) # B))(k := None)" unfolding map_of_insert_absent [OF d] by simp
  then show ?thesis using assms by (simp add: entry_del_def)
qed

text \<open>Below the entry \<open>c\<close> everything may have changed.\<close>

definition emptied :: "heap \<Rightarrow> content \<Rightarrow> heap \<Rightarrow> bool" where
  "emptied h c h' \<longleftrightarrow> (\<forall>x. x \<notin> set (content_addrs c) \<longrightarrow> nodes h' x = nodes h x) \<and> quiet h h'"

lemma quiet_pages: "quiet h h' \<Longrightarrow> pages_le (pages h) (pages h')"
  by (simp add: quiet_def pages_like_le)

lemma leaf_trimmed:
  assumes a: "leaf_ready h ti par C p es b X" and es: "es = A @ (k, c) # B"
    and n: "nodes h' p = Some (Border b')" "leaf_node (ctx_parent par C) (C = []) (A @ B) b'" "prev_node b' = prev_node b" "next_node b' = next_node b"
    and u: "unused_ok (X - set (content_addrs c)) b'" and ne: "C \<noteq> [] \<or> par \<noteq> nullptr \<Longrightarrow> A @ B \<noteq> []"
    and o: "\<And>x. x \<notin> insert p (set (content_addrs c)) \<Longrightarrow> nodes h' x = nodes h x" and q: "quiet h h'"
  defines "t \<equiv> plug C (Leaf p es)" and "t' \<equiv> plug C (Leaf p (A @ B))"
  shows "trimmed X h ti par t (content_addrs c) h' t'" and "entry_del t k t'"
proof -
  let ?Y = "X - set (content_addrs c)"
  have fl: "nodes h p = Some (Border b)" and tw: "tree_wf t" and d0: "distinct (par # ctx_addrs C @ tree_addrs (Leaf p es) @ fresh h)"
    and own: "owned h ti par (addr_of t)"
    using a unfolding leaf_ready_def found_leaf_def t_def by - (elim conjE, assumption)+
  have "tree_wf (Leaf p es)" using tw unfolding t_def tree_wf_plug by - (elim conjE, assumption)+
  then have lw: "tree_wf (Leaf p (A @ B))" unfolding es by (auto simp: key_sorted_def sorted_wrt_append)
  have sep: "set (ctx_addrs C) \<inter> insert p (set (content_addrs c)) = {}" "par \<noteq> p" "par \<notin> set (content_addrs c)" using d0 unfolding es by auto
  have o': "nodes h' x = nodes h x" if "x \<notin> insert p (set (content_addrs c @ fresh h))" for x using o [of x] that by simp
  note pg = quiet_pages [OF q]
  have ca: "\<forall>d \<in> set (map snd (A @ B)). content_at h' p d" using other_contents(1) [OF a es _ o' pg] by blast
  have un: "unused_in ?Y h' (leaf_addrs (Leaf p (A @ B)))" using n(1) u other_unused [OF a es Diff_subset o' pg] by simp
  have oc: "nodes h' x = nodes h x" if "x \<in> set (ctx_addrs C)" for x using o [of x] sep(1) that by blast
  have ks: "fst ` set (A @ B) \<subseteq> fst ` set es" by (auto simp: es)
  have ne': "A @ B \<noteq> []" if "C \<noteq> []" using ne that by blast
  note r = leaf_replaced [OF a n lw ks ne' ca un Diff_subset oc pg, folded t_def t'_def]
  have "addr_of t \<noteq> nullptr" using tree_wf_valid_ptr [OF tw] by (simp add: valid_ptr_def)
  moreover have "nodes h' par = nodes h par" using o [of par] sep(2,3) by blast
  ultimately have "rerooted h ti par (addr_of t) (addr_of t') h'" using rerooted_same [OF own _ q] r(5) by simp
  moreover have "mset (tree_addrs t) = mset (tree_addrs t' @ content_addrs c)" by (simp add: t_def t'_def es tree_addrs_plug)
  moreover have "nodes h' x = nodes h x" if "x \<notin> insert par (set (tree_addrs t))" for x
    using o [of x] that by (auto simp: t_def set_addrs_plug es)
  moreover have "layer_entries t' \<noteq> []" if "par \<noteq> nullptr" using ne that by (auto simp: t'_def layer_plug)
  ultimately show "trimmed X h ti par t (content_addrs c) h' t'" using r(1-4) unfolding trimmed_def by blast
  show "entry_del t k t'"
    by (rule entry_delI [OF _ _ tw, of "ctx_left layer_entries C @ A" k c "B @ ctx_right layer_entries C"])
      (auto simp: t_def t'_def layer_plug tree_keys_plug es)
qed

section \<open>The entry is found and deleted\<close>

lemma locked_border_simps [simp]:
  "border_wf (set_border_base locked_base b) = border_wf b" "border_entries (set_border_base locked_base b) = border_entries b"
  "perm_body (set_border_base f b) = perm_body b" "get_permutation_cnk (set_border_base f b) = get_permutation_cnk b"
  "prev_node (set_border_base f b) = prev_node b" "next_node (set_border_base f b) = next_node b" "lv_arr (set_border_base f b) = lv_arr b"
  "border_base (set_border_base f b) = f (border_base b)"
  by (simp_all add: set_border_base_def border_wf_def border_entries_def border_keys_def get_permutation_cnk_def)

lemma locked_key_simps [simp]:
  "get_key_slice_at (locked_base b) i = get_key_slice_at b i" "get_key_length_at (locked_base b) i = get_key_length_at b i"
  by (simp_all add: get_key_slice_at_def get_key_length_at_def locked_base_def)

lemma find_entry_locked [simp]: "find_entry (set_border_base locked_base b) k is = find_entry b k is"
  by (induction "is") (simp_all add: Let_def cong: if_cong)

lemma border_delete_entry:
  assumes a: "leaf_ready h ti par C p es b X" and es: "es = A @ (k, c) # B" and e: "emptied h c h1" and t: "token < length (thread_info_table h1)"
  shows "\<exists>bd g. entry_cut (X - set (content_addrs c)) (set_border_base locked_base b) (A @ B) bd \<and> quiet h1 g \<and> nodes g = nodes h1 \<and>
    thread_info_table g = content_retired token (pages h1) c (thread_info_table h1) \<and>
    border_delete_of token ti p k (is_val c) (set_node p (Border (set_border_base locked_base b)) h1) =
      (if A @ B = [] then drop_border token ti p (set_node p (Border bd) g) else unlock_at p (set_node p (Border bd) g))"
proof -
  let ?b = "set_border_base locked_base b" and ?h = "set_node p (Border (set_border_base locked_base b)) h1"
  have fl: "nodes h p = Some (Border b)" "leaf_node (ctx_parent par C) (C = []) es b" "\<forall>c \<in> set (map snd es). content_at h p c"
    and tw: "tree_wf (plug C (Leaf p es))" and un: "unused_in X h (leaf_addrs (plug C (Leaf p es)))"
    using a unfolding leaf_ready_def found_leaf_def by - (elim conjE, assumption)+
  have b: "border_wf b" "border_entries b = lv_entries (A @ (k, c) # B)" using fl(2) es by (simp_all add: leaf_node_def lv_entries_def)
  have c: "content_wf k c" using tw unfolding tree_wf_plug es by auto
  have pl: "pages_le (pages h) (pages h1)" using e quiet_pages by (auto simp: emptied_def)
  have v: "value_at (pages ?h) w" if "c = Val w" for w
  proof -
    have "value_at (pages h) w" using fl(3) that by (simp add: es)
    then show ?thesis using value_at_mono [OF pl] by simp
  qed
  have "unused_ok X b" using un fl(1) by (subst (asm) concat_plug) (auto simp: unused_in_def)
  then have u: "unused_ok X ?b" by (simp add: unused_ok_def)
  obtain bd vh where d: "delete_entry token p (length A) (perm_list (perm_body ?b) ! length A) (is_val c) ?h =
      Some (set_node p (Border bd) (?h\<lparr>pages := vh, thread_info_table := content_retired token (pages ?h) c (thread_info_table ?h)\<rparr>))"
    "pages_like (pages ?h) vh" "entry_cut (X - set (content_addrs c)) ?b (A @ B) bd"
    using delete_entry_eq [of ?h p ?b token A k c B X] t b c v u by auto
  have r: "length A < get_permutation_cnk b" "border_keys b ! length A = k" using entry_slot(1,2) [OF b] .
  have f: "find_entry ?b k [0..<get_permutation_cnk ?b] = Some (Some (length A, perm_list (perm_body ?b) ! length A))"
    using find_entry_eq [OF b(1) r(1), of 0] r(2) by simp
  have cnk: "get_permutation_cnk b = 1 \<longleftrightarrow> A @ B = []" using length_border_entries [of b] b(2) by (cases "A @ B") auto
  let ?g = "h1\<lparr>pages := vh, thread_info_table := content_retired token (pages h1) c (thread_info_table h1)\<rparr>"
  have eq: "set_node p (Border bd) (?h\<lparr>pages := vh, thread_info_table := content_retired token (pages ?h) c (thread_info_table ?h)\<rparr>) = set_node p (Border bd) ?g"
    by (simp add: set_node_def)
  have "border_delete_of token ti p k (is_val c) ?h = (if A @ B = [] then drop_border token ti p (set_node p (Border bd) ?g) else unlock_at p (set_node p (Border bd) ?g))"
    using border_delete_of_eq [OF _ f d(1) [unfolded eq], of ti] cnk by simp
  moreover have "quiet h1 ?g" using d(2) by (simp add: quiet_def)
  ultimately show ?thesis using d(3) by (intro exI [of _ bd] exI [of _ ?g]) simp
qed

end
