(* ===== verification/Remove_Cases.thy ===== *)
theory Remove_Cases
  imports Remove_Leaf
begin

text \<open>
  \<^verbatim>\<open>delete_of\<close> of a border node on the layer it is in: the leaf stays, the root leaf stays
  empty, the leaf is pruned, or the layer itself is gone and the entry above it goes next.
\<close>

lemma unlocked_leaf:
  assumes "leaf_node P rt es b" and "es \<noteq> []" and "entry_cut Y (set_border_base locked_base b) es' bd"
  shows "leaf_node P rt es' (set_border_base version_unlock bd)"
    and "unused_ok Y (set_border_base f bd)" and "prev_node (set_border_base f bd) = prev_node b" and "next_node (set_border_base f bd) = next_node b"
proof -
  have c: "border_wf bd" "border_entries bd = lv_entries es'" "border_base bd = locked_base (border_base b)" "prev_node bd = prev_node b"
    "next_node bd = next_node b" "unused_ok Y bd" using assms(3) by (simp_all add: entry_cut_def)
  have s: "is_stable (version (border_base b))" using assms(1) by (simp add: leaf_node_def Let_def)
  have "border_base (set_border_base version_unlock bd) = border_base b" using c(3) unlock_locked [OF s] by simp
  moreover from this have "border_wf (set_border_base version_unlock bd)" "border_entries (set_border_base version_unlock bd) = lv_entries es'"
    using c(1-3) by (simp_all add: border_wf_def border_entries_def border_keys_def)
  ultimately show "leaf_node P rt es' (set_border_base version_unlock bd)"
    using assms(1,2) by (simp add: leaf_node_def Let_def flip: lv_entries_def)
  show "unused_ok Y (set_border_base f bd)" using c(6) by (simp add: unused_ok_def)
  show "prev_node (set_border_base f bd) = prev_node b" "next_node (set_border_base f bd) = next_node b" using c by simp_all
qed

lemma emptied_root_leaf:
  assumes "leaf_node P True es b" and "entry_cut Y (set_border_base locked_base b) [] bd"
  shows "leaf_node P True [] (set_border_base (version_unlock \<circ> set_version_deleted True) bd)"
proof -
  have c: "border_wf bd" "border_entries bd = []" "border_base bd = locked_base (border_base b)" using assms(2) by (simp_all add: entry_cut_def lv_entries_def)
  let ?b = "set_border_base (version_unlock \<circ> set_version_deleted True) bd"
  have "border_wf ?b" "border_entries ?b = []"
    using c(1,2) by (simp_all add: border_wf_def border_entries_def border_keys_def)
  moreover have "parent (border_base ?b) = P" "is_stable (version (border_base ?b))" "border (version (border_base ?b))" "root (version (border_base ?b))"
    using assms(1) c(3) by (simp_all add: leaf_node_def Let_def version_unlock_def set_version_deleted_def version_simps)
  ultimately show ?thesis by (simp add: leaf_node_def Let_def)
qed

text \<open>The result on a layer that stays.\<close>

definition deleted_in :: "Token \<Rightarrow> addr set \<Rightarrow> heap \<Rightarrow> addr \<Rightarrow> addr \<Rightarrow> tree \<Rightarrow> key \<Rightarrow> content \<Rightarrow> heap \<Rightarrow> heap \<Rightarrow> bool" where
  "deleted_in token X h ti par t k c h1 h' \<longleftrightarrow> (\<exists>t' R. trimmed X h ti par t (R @ content_addrs c) h' t' \<and> entry_del t k t' \<and>
     thread_info_table h' = retired token R (content_retired token (pages h1) c (thread_info_table h1)))"

lemma delete_leaf_stays:
  assumes a: "leaf_ready h ti par C p es b X" and es: "es = A @ (k, c) # B" and e: "emptied h c h1" and t: "token < length (thread_info_table h1)"
    and ne: "A @ B \<noteq> []"
  shows "\<exists>h'. border_delete_of token ti p k (is_val c) (set_node p (Border (set_border_base locked_base b)) h1) = Some h' \<and>
    deleted_in token X h ti par (plug C (Leaf p es)) k c h1 h'"
proof -
  obtain bd g where d: "entry_cut (X - set (content_addrs c)) (set_border_base locked_base b) (A @ B) bd" "quiet h1 g" "nodes g = nodes h1"
    "thread_info_table g = content_retired token (pages h1) c (thread_info_table h1)"
    "border_delete_of token ti p k (is_val c) (set_node p (Border (set_border_base locked_base b)) h1) =
      (if A @ B = [] then drop_border token ti p (set_node p (Border bd) g) else unlock_at p (set_node p (Border bd) g))"
    using border_delete_entry [OF a es e t] by blast
  have l: "leaf_node (ctx_parent par C) (C = []) es b" using a by (simp add: leaf_ready_def found_leaf_def)
  note u = unlocked_leaf [OF l _ d(1)]
  let ?h' = "set_node p (Border (set_border_base version_unlock bd)) g"
  have o: "nodes ?h' x = nodes h x" if "x \<notin> insert p (set (content_addrs c))" for x using e d(3) that by (simp add: emptied_def)
  have q: "quiet h ?h'" using e d(2) quiet_trans by (auto simp: emptied_def)
  have n: "nodes ?h' p = Some (Border (set_border_base version_unlock bd))" by simp
  have lf: "leaf_node (ctx_parent par C) (C = []) (A @ B) (set_border_base version_unlock bd)" using u(1) by (simp add: es)
  note r = leaf_trimmed [OF a es n lf u(3,4,2) ne o q]
  have "deleted_in token X h ti par (plug C (Leaf p es)) k c h1 ?h'"
    unfolding deleted_in_def using r d(4) es
    by (intro exI [of _ "plug C (Leaf p (A @ B))"] exI [of _ "[] :: addr list"]) simp
  moreover have "border_delete_of token ti p k (is_val c) (set_node p (Border (set_border_base locked_base b)) h1) = Some ?h'"
    unfolding d(5) if_not_P [OF ne] by (simp add: heap_run)
  ultimately show ?thesis by blast
qed

lemma delete_root_leaf:
  assumes a: "leaf_ready h ti nullptr [] p [(k, c)] b X" and e: "emptied h c h1" and t: "token < length (thread_info_table h1)"
  shows "\<exists>h'. border_delete_of token ti p k (is_val c) (set_node p (Border (set_border_base locked_base b)) h1) = Some h' \<and>
    deleted_in token X h ti nullptr (Leaf p [(k, c)]) k c h1 h'"
proof -
  have es: "[(k, c)] = [] @ (k, c) # []" by simp
  obtain bd g where d: "entry_cut (X - set (content_addrs c)) (set_border_base locked_base b) [] bd" "quiet h1 g" "nodes g = nodes h1"
    "thread_info_table g = content_retired token (pages h1) c (thread_info_table h1)"
    "border_delete_of token ti p k (is_val c) (set_node p (Border (set_border_base locked_base b)) h1) = drop_border token ti p (set_node p (Border bd) g)"
    using border_delete_entry [OF a es e t] by auto
  have l: "leaf_node nullptr True [(k, c)] b" "nodes h p = Some (Border b)" "linked h nullptr [p]" "owned h ti nullptr p"
    using a by (simp_all add: leaf_ready_def found_leaf_def)
  have lk: "prev_node b = nullptr" "next_node b = nullptr" using l(2,3) by (simp_all add: linked_Cons)
  note u = unlocked_leaf [OF l(1) _ d(1)]
  let ?b = "set_border_base (version_unlock \<circ> set_version_deleted True) bd"
  let ?h' = "set_node p (Border ?b) g"
  have q: "quiet h g" using e d(2) quiet_trans by (auto simp: emptied_def)
  have "load_root_ptr ti g = Some p" using quiet_root [OF q] l(4) by (simp add: owned_def)
  moreover have "parent (border_base bd) = nullptr" using d(1) l(1) by (simp add: entry_cut_def leaf_node_def)
  moreover have "prev_node bd = nullptr" "next_node bd = nullptr" using d(1) lk by (simp_all add: entry_cut_def)
  ultimately have run: "border_delete_of token ti p k (is_val c) (set_node p (Border (set_border_base locked_base b)) h1) = Some ?h'"
    unfolding d(5) by (intro drop_root)
  have o: "nodes ?h' x = nodes h x" if "x \<notin> insert p (set (content_addrs c))" for x using e d(3) that by (simp add: emptied_def)
  have lf: "leaf_node (ctx_parent nullptr []) ([] = []) ([] @ []) ?b" using emptied_root_leaf [OF l(1) d(1)] by simp
  have n: "nodes ?h' p = Some (Border ?b)" by simp
  have "deleted_in token X h ti nullptr (Leaf p [(k, c)]) k c h1 ?h'"
    unfolding deleted_in_def
    using leaf_trimmed [OF a es n lf u(3,4,2) _ o, unfolded plug.simps] q d(4)
    by (intro exI [of _ "Leaf p []"] exI [of _ "[] :: addr list"]) simp
  then show ?thesis using run by blast
qed

section \<open>A layer that goes away\<close>

lemma find_layer_key_locked [simp]: "find_layer_key (set_border_base locked_base b) a is = find_layer_key b a is"
  by (induction "is") (simp_all add: Let_def get_lv_at_def cong: if_cong)

text \<open>The leaf was the whole layer: its owner is locked, and the entry for the layer is deleted there.\<close>

definition layer_gone :: "heap \<Rightarrow> tree \<Rightarrow> heap \<Rightarrow> bool" where
  "layer_gone h t g \<longleftrightarrow> (\<forall>x. x \<notin> set (tree_addrs t) \<longrightarrow> nodes g x = nodes h x) \<and> quiet h g"

lemma delete_layer_leaf:
  assumes a: "leaf_ready h ti par [] p [(k, c)] b X" and e: "emptied h c h1" and t: "token < length (thread_info_table h1)"
    and par: "par \<noteq> nullptr" and root: "load_root_ptr ti h = Some r"
  shows "\<exists>g. layer_gone h (Leaf p [(k, c)]) g \<and> thread_info_table g = content_retired token (pages h1) c (thread_info_table h1) \<and>
    (\<forall>pb kp. nodes h par = Some (Border pb) \<longrightarrow> find_layer_key pb p [0..<get_permutation_cnk pb] = Some (Some kp) \<longrightarrow>
      border_delete_of token ti p k (is_val c) (set_node p (Border (set_border_base locked_base b)) h1) =
      border_delete_of token ti par kp False (set_node par (Border (set_border_base locked_base pb)) g) \<bind> push_node_garbage token p)"
proof -
  have es: "[(k, c)] = [] @ (k, c) # []" by simp
  obtain bd g where d: "entry_cut (X - set (content_addrs c)) (set_border_base locked_base b) [] bd" "quiet h1 g" "nodes g = nodes h1"
    "thread_info_table g = content_retired token (pages h1) c (thread_info_table h1)"
    "border_delete_of token ti p k (is_val c) (set_node p (Border (set_border_base locked_base b)) h1) = drop_border token ti p (set_node p (Border bd) g)"
    using border_delete_entry [OF a es e t] by auto
  have l: "leaf_node par True [(k, c)] b" "nodes h p = Some (Border b)" "linked h nullptr [p]" "owned h ti par p" "distinct (par # p # content_addrs c)" "valid_ptr p"
    using a by (simp_all add: leaf_ready_def found_leaf_def)
  have bd: "prev_node bd = nullptr" "next_node bd = nullptr" "parent (border_base bd) = par"
    using d(1) l(1-3) by (auto simp: entry_cut_def linked_Cons leaf_node_def)
  have q: "quiet h g" using e d(2) quiet_trans by (auto simp: emptied_def)
  have np: "nullptr \<noteq> p" using l(6) by (auto simp: valid_ptr_def)
  let ?g = "set_node p (Border (dead_leaf bd)) g"
  obtain pb where pb: "nodes h par = Some (Border pb)" "border (version (border_base pb))" "is_stable (version (border_base pb))"
    using l(4) par by (auto simp: owned_def)
  have gp: "nodes g par = Some (Border pb)" using e d(3) l(5) pb(1) by (simp add: emptied_def)
  have "layer_gone h (Leaf p [(k, c)]) ?g" using e d(3) q by (simp add: layer_gone_def emptied_def)
  moreover have "border_delete_of token ti p k (is_val c) (set_node p (Border (set_border_base locked_base b)) h1) =
      border_delete_of token ti par kp False (set_node par (Border (set_border_base locked_base pb)) ?g) \<bind> push_node_garbage token p"
    if "find_layer_key pb p [0..<get_permutation_cnk pb] = Some (Some kp)" for kp
    using drop_parent [OF quiet_root [OF q root] bd(1,2) np np _ _ _ bd(3) par, of "Border pb" token] gp l(5) pb(2,3) that
    unfolding d(5) by (simp add: heap_run is_stable_def)
  ultimately show ?thesis using pb(1) d(4) by (intro exI [of _ ?g]) simp
qed

end
