(* ===== verification/Remove_Pruned.thy ===== *)
theory Remove_Pruned
  imports Remove_Cases
begin

text \<open>
  \<^verbatim>\<open>delete_of\<close> of the last entry of a leaf below a branch: the layer is pruned.
\<close>

lemma store_root_quiet:
  assumes "quiet h h'" and "store_root_ptr ti a h' = Some g'"
  shows "\<exists>g. store_root_ptr ti a h = Some g \<and> quiet g g'"
proof (cases "ti = storages")
  case True
  then show ?thesis using assms by (auto simp: store_root_ptr_def quiet_def)
next
  case False
  then obtain y where y: "pages h' (ti - 8) = Some y" "align y = 8" "length (body y) = 8"
    "g' = h'\<lparr>pages := (pages h')(ti - 8 \<mapsto> y\<lparr>body := slice_bytes a\<rparr>)\<rparr>"
    using assms(2) by (auto simp: store_root_ptr_def split: option.splits if_splits)
  have l: "pages_like (pages h) (pages h')" using assms(1) by (simp add: quiet_def)
  then obtain x where x: "pages h (ti - 8) = Some x" using pages_like_None [OF l, of "ti - 8"] y(1) by (cases "pages h (ti - 8)") auto
  have xy: "y\<lparr>need_delete_flag := True\<rparr> = x\<lparr>need_delete_flag := True\<rparr>" using l x y(1) unfolding pages_like_def by (metis option.map(2) option.inject)
  have f: "f (y\<lparr>need_delete_flag := True\<rparr>) = f (x\<lparr>need_delete_flag := True\<rparr>)" for f :: "value_page \<Rightarrow> 'b" using xy by simp
  have ax: "align x = 8" "length (body x) = 8" using f [of align] f [of body] y(2,3) by simp_all
  have flag: "z\<lparr>body := B, need_delete_flag := True\<rparr> = z\<lparr>need_delete_flag := True\<rparr>\<lparr>body := B\<rparr>" for z :: value_page and B by simp
  let ?B = "slice_bytes a" and ?g = "h\<lparr>pages := (pages h)(ti - 8 \<mapsto> x\<lparr>body := slice_bytes a\<rparr>)\<rparr>"
  have "y\<lparr>body := ?B, need_delete_flag := True\<rparr> = x\<lparr>body := ?B, need_delete_flag := True\<rparr>" unfolding flag xy ..
  then have "pages_like (pages ?g) (pages g')" using l unfolding pages_like_def y(4) by simp
  then have "quiet ?g g'" using assms(1) y(4) by (simp add: quiet_def)
  moreover have "store_root_ptr ti a h = Some ?g" using False x ax by (simp add: store_root_ptr_def)
  ultimately show ?thesis by blast
qed

lemma rerooted_from:
  assumes "rerooted h ti par a a' h'" and "quiet g h" and "par \<noteq> nullptr \<Longrightarrow> nodes h par = nodes g par"
    and "quiet h' h''" and "par \<noteq> nullptr \<Longrightarrow> nodes h'' par = nodes h' par"
  shows "rerooted g ti par a a' h''"
proof (cases "par = nullptr")
  case True
  then obtain k where k: "store_root_ptr ti a' h = Some k" "quiet k h'" using assms(1) by (auto simp: rerooted_def)
  obtain k0 where "store_root_ptr ti a' g = Some k0" "quiet k0 k" using store_root_quiet [OF assms(2) k(1)] by blast
  moreover have "quiet k0 h''" using quiet_trans [OF \<open>quiet k0 k\<close> quiet_trans [OF k(2) assms(4)]] .
  ultimately show ?thesis using True by (auto simp: rerooted_def)
next
  case False
  then have "quiet h h'" "\<exists>b b'. nodes h par = Some (Border b) \<and> nodes h' par = Some (Border b') \<and> slot_changed b a a' b'"
    using assms(1) by (simp_all add: rerooted_def)
  moreover from this have "quiet g h''" using quiet_trans [OF assms(2) quiet_trans [OF _ assms(4)]] by blast
  ultimately show ?thesis using False assms(3,5) by (simp add: rerooted_def)
qed

lemma tree_at_table [simp]: "tree_at (h\<lparr>thread_info_table := T\<rparr>) par rt t = tree_at h par rt t"
  using tree_at_frame [of h par rt t "h\<lparr>thread_info_table := T\<rparr>"] tree_at_frame [of "h\<lparr>thread_info_table := T\<rparr>" par rt t h] by auto

section \<open>The layer around the leaf\<close>

lemma single_leaf:
  assumes a: "leaf_ready h ti par C p [(k, c)] b X"
  shows "ctx_at h par C p" and "ctx_wf C" and "distinct (par # p # content_addrs c @ ctx_addrs C)" and "linked h nullptr (path_leaves C p)"
    and "distinct (path_leaves C p)" and "nullptr \<notin> set (path_leaves C p)" and "nodes h p = Some (Border b)" and "p \<noteq> nullptr"
proof -
  have r: "ctx_at h par C p" "tree_wf (plug C (Leaf p [(k, c)]))" "nodes h p = Some (Border b)" "linked h nullptr (map fst (layer_leaves (plug C (Leaf p [(k, c)]))))"
    "distinct (par # ctx_addrs C @ tree_addrs (Leaf p [(k, c)]) @ fresh h)"
    using a unfolding leaf_ready_def found_leaf_def by - (elim conjE, assumption)+
  show "ctx_at h par C p" "nodes h p = Some (Border b)" using r by simp_all
  show "ctx_wf C" "p \<noteq> nullptr" using r(2) by (simp_all add: tree_wf_plug valid_ptr_def)
  show "linked h nullptr (path_leaves C p)" using r(4) by (simp only: path_leaves_plug)
  show "distinct (par # p # content_addrs c @ ctx_addrs C)" using r(5) by auto
  have "distinct (tree_addrs (plug C (Leaf p [(k, c)])))" using r(5) distinct_plug [of C "Leaf p [(k, c)]" "[]"] by auto
  then show "distinct (path_leaves C p)" using leaves_distinct path_leaves_plug by metis
  show "nullptr \<notin> set (path_leaves C p)"
    using leaves_valid [OF r(2)] unfolding path_leaves_plug [symmetric, of C p "[(k, c)]"] by (force simp: valid_ptr_def)
qed

lemma path_unlinked:
  fixes n :: node
  assumes a: "leaf_ready h ti par C p [(k, c)] b X" and o: "\<forall>x. x \<notin> set (content_addrs c) \<longrightarrow> nodes g x = nodes h x" and q: "quiet h g"
  defines "pv \<equiv> prev_node b" and "nx \<equiv> next_node b"
  defines "H \<equiv> set_node p n (g\<lparr>nodes := bypass pv nx (nodes g)\<rparr>)"
  shows "pv \<noteq> p" and "nx \<noteq> p" and "pv = nx \<longrightarrow> pv = nullptr" and "pv \<noteq> nullptr \<Longrightarrow> live_leaf g pv" and "nx \<noteq> nullptr \<Longrightarrow> live_leaf g nx"
    and "ctx_at H par C p" and "linked H nullptr (map fst (ctx_left layer_leaves C @ ctx_right layer_leaves C))"
    and "\<And>x. x \<notin> insert p (set (content_addrs c @ ctx_addrs C)) \<Longrightarrow> nodes H x = nodes h x"
    and "\<And>x. x \<in> set (ctx_addrs C) \<Longrightarrow> keeps_slots h H x" and "quiet h H"
proof -
  note s = single_leaf [OF a]
  let ?L = "ctx_left layer_leaves C" and ?R = "ctx_right layer_leaves C"
  note nb = neighbours [OF s(4,7,5), folded pv_def nx_def]
  have pl: "p \<notin> set (content_addrs c)" "p \<notin> set (ctx_addrs C)" "set (content_addrs c) \<inter> set (ctx_addrs C) = {}"
    using s(3) by auto
  have sub: "fst ` set (?L @ ?R) \<subseteq> set (ctx_addrs C)" by (rule ctx_leaves_sub)
  show "pv \<noteq> p" "nx \<noteq> p" "pv = nx \<longrightarrow> pv = nullptr" using nb(3,4) s(8) by simp_all
  have pv: "pv \<in> insert nullptr (fst ` set (?L @ ?R))" and nx: "nx \<in> insert nullptr (fst ` set (?L @ ?R))" using nb(1,2) by auto
  have oc: "nodes g x = nodes h x" if "x \<in> set (ctx_addrs C)" for x using spec [OF o, of x] pl(3) that by blast
  have at: "ctx_at g par C p" by (rule ctx_at_frame [OF s(1) oc quiet_pages [OF q]])
  show "pv \<noteq> nullptr \<Longrightarrow> live_leaf g pv" "nx \<noteq> nullptr \<Longrightarrow> live_leaf g nx" using ctx_leaf_live [OF at] pv nx by auto
  have "distinct (ctx_addrs C)" using s(3) by simp
  from ctx_at_bypass [OF at this pv nx] have "ctx_at (g\<lparr>nodes := bypass pv nx (nodes g)\<rparr>) par C p" .
  then show "ctx_at H par C p" by (rule ctx_at_frame) (use pl(2) in \<open>auto simp: H_def\<close>)
  have ne: "pv \<noteq> p" "nx \<noteq> p" using nb(4) s(8) by simp_all
  show fr: "nodes H x = nodes h x" if x: "x \<notin> insert p (set (content_addrs c @ ctx_addrs C))" for x
  proof -
    have "x = nullptr \<or> x \<noteq> pv \<and> x \<noteq> nx" using x pv nx sub by auto
    then have "bypass pv nx (nodes g) x = nodes g x" using bypass_simps(1,5) by metis
    then show ?thesis using spec [OF o, of x] x by (simp add: H_def)
  qed
  show "keeps_slots h H x" if x: "x \<in> set (ctx_addrs C)" for x
  proof -
    have "x \<noteq> p" using pl(2) x by blast
    then have "keeps_slots h H x = keeps_slots g (g\<lparr>nodes := bypass pv nx (nodes g)\<rparr>) x" using oc [OF x] by (simp add: keeps_slots_def H_def)
    then show ?thesis using bypass_keeps_slots by simp
  qed
  show "quiet h H" using q by (simp add: H_def quiet_def)
  have "keeps_links h g x" if x: "x \<in> set (path_leaves C p)" for x
  proof -
    have "x = p \<or> x \<in> set (ctx_addrs C)" using x sub by (auto simp: path_leaves_def)
    then have "nodes g x = nodes h x" using spec [OF o, of p] pl(1) oc by blast
    then show ?thesis using keeps_same by blast
  qed
  then have lg: "linked g nullptr (map fst ?L @ p # map fst ?R)" using linked_keeps [OF s(4)] by (simp add: path_leaves_def)
  have gp: "nodes g p = Some (Border b)" using spec [OF o, of p] pl(1) s(7) by simp
  have z: "(if map fst ?L = [] then prev_node b else nullptr) = nullptr" using linked_ends(1) [OF lg gp] by auto
  have "linked (g\<lparr>nodes := bypass pv nx (nodes g)\<rparr>) nullptr (map fst ?L @ map fst ?R)"
    using linked_bypass [OF lg _ _ gp] s(5,6) unfolding z pv_def nx_def path_leaves_def by blast
  then show "linked H nullptr (map fst (?L @ ?R))"
    unfolding map_append
  proof (rule linked_keeps)
    fix x assume "x \<in> set (map fst ?L @ map fst ?R)"
    then have "x \<noteq> p" using s(5) by (auto simp: path_leaves_def)
    then show "keeps_links (g\<lparr>nodes := bypass pv nx (nodes g)\<rparr>) H x" by (simp add: keeps_links_def H_def)
  qed
qed

section \<open>The branch above\<close>

lemma ctx_sides_sub: "(\<And>t. set (f t) \<subseteq> set (tree_addrs t)) \<Longrightarrow> x \<in> set (ctx_left f C @ ctx_right f C) \<Longrightarrow> x \<in> set (ctx_addrs C)"
  using ctx_sub [of f C] unfolding set_append by blast

lemma pruned_trimmed:
  assumes a: "leaf_ready h ti par (f # C) p [(k, c)] b X" and o: "\<forall>x. x \<notin> set (content_addrs c) \<longrightarrow> nodes g x = nodes h x" and q: "quiet h g"
    and H: "H = set_node p n (g\<lparr>nodes := bypass (prev_node b) (next_node b) (nodes g)\<rparr>)"
    and pr: "pruned_to token H ti par (f # C) (addr_of t) h'" and t: "t = plug (f # C) (Leaf p [(k, c)])"
  shows "trimmed X h ti par t (pruned (f # C) @ p # content_addrs c) (h'\<lparr>thread_info_table := T\<rparr>) (prune (f # C))"
    and "entry_del t k (prune (f # C))"
proof -
  note s = single_leaf [OF a] and u = path_unlinked(6-10) [OF a o q, where n = n, folded H]
  let ?C = "f # C" and ?h = "h'\<lparr>thread_info_table := T\<rparr>"
  have pt: "tree_at h' par True (prune ?C)" "rerooted H ti par (addr_of t) (addr_of (prune ?C)) h'"
    "\<And>x. x \<notin> insert par (set (ctx_addrs ?C)) \<Longrightarrow> nodes h' x = nodes H x" "\<And>x. x \<noteq> par \<Longrightarrow> keeps_slots H h' x \<and> keeps_links H h' x"
    using pr unfolding pruned_to_def by blast+
  have pc: "par \<notin> set (ctx_addrs ?C)" "par \<notin> insert p (set (content_addrs c @ ctx_addrs ?C))" using s(3) by auto
  have "linked h' nullptr (map fst (ctx_left layer_leaves ?C @ ctx_right layer_leaves ?C))"
  proof (rule linked_keeps [OF u(2)])
    fix x assume "x \<in> set (map fst (ctx_left layer_leaves ?C @ ctx_right layer_leaves ?C))"
    then have "x \<in> set (ctx_addrs ?C)" using ctx_leaves_sub [of ?C] by auto
    then have "x \<noteq> par" using pc(1) by blast
    then show "keeps_links H h' x" using pt(4) by blast
  qed
  moreover have "layer_leaves (prune ?C) = ctx_left layer_leaves ?C @ ctx_right layer_leaves ?C" by (rule concat_prune [OF _ s(2)]) simp
  ultimately have lk: "linked h' nullptr (map fst (layer_leaves (prune ?C)))" by simp
  have "unused_in X h (leaf_addrs t)" using a by (simp add: leaf_ready_def t)
  moreover have "leaf_addrs t = ctx_left leaf_addrs ?C @ leaf_addrs (Leaf p [(k, c)]) @ ctx_right leaf_addrs ?C" unfolding t by (rule concat_plug) simp
  ultimately have uX: "unused_in X h (ctx_left leaf_addrs ?C @ ctx_right leaf_addrs ?C)" unfolding unused_in_def set_append by auto
  have "unused_in X h' (ctx_left leaf_addrs ?C @ ctx_right leaf_addrs ?C)"
  proof (rule unused_in_keeps [OF uX])
    fix x assume "x \<in> set (ctx_left leaf_addrs ?C @ ctx_right leaf_addrs ?C)"
    then have x: "x \<in> set (ctx_addrs ?C)" using ctx_sides_sub [OF leaf_addrs_sub] by blast
    then have "x \<noteq> par" using pc(1) by blast
    then show "keeps_slots h h' x" using keeps_trans(1) [OF u(4) [OF x]] pt(4) by blast
  qed
  moreover have "leaf_addrs (prune ?C) = ctx_left leaf_addrs ?C @ ctx_right leaf_addrs ?C" by (rule concat_prune [OF _ s(2)]) simp
  ultimately have un: "unused_in (X - set (pruned ?C @ p # content_addrs c)) h' (leaf_addrs (prune ?C))" using unused_in_mono [OF _ Diff_subset] by simp
  have np: "nodes H par = nodes h par" by (rule u(3) [OF pc(2)])
  have rr: "rerooted h ti par (addr_of t) (addr_of (prune ?C)) ?h"
    by (rule rerooted_from [OF pt(2) u(5)]) (simp_all add: np)
  have ms: "mset (tree_addrs t) = mset (tree_addrs (prune ?C) @ pruned ?C @ p # content_addrs c)"
    using prune_addrs [OF s(2)] by (simp add: t tree_addrs_plug flip: union_assoc del: plug.simps prune.simps pruned.simps ctx_addrs.simps)
  have fr: "nodes ?h x = nodes h x" if x: "x \<notin> insert par (set (tree_addrs t))" for x
  proof -
    have "x \<notin> insert par (set (ctx_addrs ?C))" "x \<notin> insert p (set (content_addrs c @ ctx_addrs ?C))" using x by (auto simp: t set_addrs_plug)
    then show ?thesis using pt(3) u(3) by simp
  qed
  have lk': "linked ?h nullptr (map fst (layer_leaves (prune ?C)))" using lk by (rule linked_keeps) (simp add: keeps_links_def)
  have un': "unused_in (X - set (pruned ?C @ p # content_addrs c)) ?h (leaf_addrs (prune ?C))" using un by (simp add: unused_in_def)
  note w = prune_wf [OF s(2)]
  show "trimmed X h ti par t (pruned ?C @ p # content_addrs c) ?h (prune ?C)"
    unfolding trimmed_def using w(1,2) pt(1) lk' rr ms fr un' by (simp del: plug.simps prune.simps pruned.simps)
  show "entry_del t k (prune ?C)"
  proof (rule entry_delI)
    show "layer_entries t = ctx_left layer_entries ?C @ (k, c) # ctx_right layer_entries ?C" unfolding t layer_plug by simp
    show "layer_entries (prune ?C) = ctx_left layer_entries ?C @ ctx_right layer_entries ?C" by (rule concat_prune [OF _ s(2)]) simp
    show "tree_wf t" using a by (simp add: leaf_ready_def t)
    show "tree_keys (prune ?C) \<subseteq> tree_keys t" using w(3) unfolding t tree_keys_plug by blast
  qed
qed

lemma interior_base_locked: "interior_base (set_interior_base f n) = f (interior_base n)"
  by (simp add: set_interior_base_def)

lemma delete_branch_leaf:
  assumes a: "leaf_ready h ti par (f # C) p [(k, c)] b X" and e: "emptied h c h1" and t: "token < length (thread_info_table h1)"
    and root: "load_root_ptr ti h = Some r"
  shows "\<exists>h'. border_delete_of token ti p k (is_val c) (set_node p (Border (set_border_base locked_base b)) h1) = Some h' \<and>
    deleted_in token X h ti par (plug (f # C) (Leaf p [(k, c)])) k c h1 h'"
proof -
  let ?t = "plug (f # C) (Leaf p [(k, c)])"
  have es: "[(k, c)] = [] @ (k, c) # []" by simp
  obtain bd g where d: "entry_cut (X - set (content_addrs c)) (set_border_base locked_base b) [] bd" "quiet h1 g" "nodes g = nodes h1"
    "thread_info_table g = content_retired token (pages h1) c (thread_info_table h1)"
    "border_delete_of token ti p k (is_val c) (set_node p (Border (set_border_base locked_base b)) h1) = drop_border token ti p (set_node p (Border bd) g)"
    using border_delete_entry [OF a es e t] by auto
  have o: "\<forall>x. x \<notin> set (content_addrs c) \<longrightarrow> nodes g x = nodes h x" using e d(3) by (simp add: emptied_def)
  have q: "quiet h g" using e d(2) quiet_trans by (auto simp: emptied_def)
  obtain p2 ks ls rs where f: "f = (p2, ks, ls, rs)" by (cases f) auto
  note s = single_leaf [OF a] and u' = path_unlinked(1-5) [OF a o q] and u = path_unlinked(6-10) [OF a o q, where n = "Border (dead_leaf bd)"]
  let ?H = "set_node p (Border (dead_leaf bd)) (g\<lparr>nodes := bypass (prev_node b) (next_node b) (nodes g)\<rparr>)"
  obtain n where n: "nodes ?H p2 = Some (Interior n)" "branch_node (ctx_parent par C) (C = []) ks (map addr_of ls @ p # map addr_of rs) n"
    using u(1) by (auto simp: f split: option.splits node.splits)
  have ne: "p2 \<noteq> nullptr" "p2 \<noteq> p" using s(2,3) by (auto simp: f valid_ptr_def)
  have ib: "\<not> border (version (interior_base n))" "\<not> locked (version (interior_base n))" using n(2) by (simp_all add: branch_node_def Let_def is_stable_def)
  have bd: "prev_node bd = prev_node b" "next_node bd = next_node b" "parent (border_base bd) = p2"
    using d(1) a by (simp_all add: entry_cut_def leaf_ready_def found_leaf_def leaf_node_def f)
  have m: "bypass (prev_node b) (next_node b) (nodes g) p2 = Some (Interior n)" using n(1) ne(2) by simp
  have np: "nodes ?H par = nodes h par" by (rule u(3)) (use s(3) in auto)
  have own: "owned ?H ti par (addr_of ?t)"
    using a np quiet_root [OF u(5)] by (auto simp: leaf_ready_def owned_def)
  have tok: "token < length (thread_info_table ?H)" using t d(4) by simp
  have dd: "distinct (par # p # ctx_addrs ((p2, ks, ls, rs) # C))" using s(3) by (simp add: f)
  obtain h' where h': "interior_delete_of token ti p2 p (set_node p2 (Interior (set_interior_base locked_base n)) ?H) = Some h'"
    "pruned_to token ?H ti par (f # C) (addr_of ?t) h'"
    using interior_delete_prunes [OF u(1) [unfolded f] s(2) [unfolded f] dd, of ti "ls @ Leaf p [(k, c)] # rs" n token] own n(1) tok by (auto simp: f)
  have T: "thread_info_table h' = retired token (pruned (f # C)) (content_retired token (pages h1) c (thread_info_table h1))"
    using h'(2) d(4) by (simp add: pruned_to_def)
  let ?h = "h'\<lparr>thread_info_table := retired token [p] (thread_info_table h')\<rparr>"
  have run: "border_delete_of token ti p k (is_val c) (set_node p (Border (set_border_base locked_base b)) h1) = Some ?h"
    unfolding d(5)
    using drop_parent [OF quiet_root [OF q root] bd(1,2) u' bd(3) ne m, of token] ib h'(1) T t
    by (simp add: heap_run interior_base_locked)
  have "deleted_in token X h ti par ?t k c h1 ?h"
    unfolding deleted_in_def
    using pruned_trimmed(1) [OF a o q refl h'(2) refl, where T = "retired token [p] (thread_info_table h')"]
      pruned_trimmed(2) [OF a o q refl h'(2) refl] T t
    by (intro exI [of _ "prune (f # C)"] exI [of _ "pruned (f # C) @ [p]"]) (simp del: plug.simps prune.simps pruned.simps)
  then show ?thesis using run by blast
qed

end
