(* ===== verification/Remove_Layer.thy ===== *)
theory Remove_Layer
  imports Remove_Pruned
begin

text \<open>
  \<^verbatim>\<open>remove\<close> on one layer and the layers below it.
\<close>

section \<open>At the leaf\<close>

lemma remove_value_eq:
  assumes l: "leaf_at h (p, es) b" and k: "map_of es (prepare_key_slice s) = Some c"
  shows "remove_value token ti s p (version (border_base b)) (version (border_base b)) h = do {
      h \<leftarrow> border_delete_of token ti p (prepare_key_slice s) True (set_node p (Border (set_border_base locked_base b)) h);
      Some (Return (OK, h))
    }"
proof -
  let ?b = "set_border_base locked_base b"
  have w: "border_wf b" "border_entries b = lv_entries es" using l by (auto simp: leaf_at_def leaf_node_def lv_entries_def)
  obtain i where "slot_of b (prepare_key_slice s) = Some i" using leaf_slot(1) [OF l, of "prepare_key_slice s"] k by auto
  then have "slot_of ?b (prepare_key_slice s) = Some i" by (simp add: slot_of_def border_keys_def)
  then have r: "get_lv_of_without_lock ?b (prepare_key_slice s) = Some (Some i)"
    using lv_search_all_eq [of ?b "prepare_key_slice s" 0] lv_search_slot_of [of ?b "prepare_key_slice s"] w(1) canonical_prepare [of s]
    by (simp add: get_lv_of_without_lock_def get_permutation_cnk_def)
  have g: "get_border p (set_node p (Border ?b) h) = Some ?b" by (simp add: heap_run)
  show ?thesis unfolding remove_value_def using locked_leaf [OF l] g r by simp
qed

lemma remove_fetch_lv_eq:
  assumes l: "leaf_at h (p, es) b"
  shows "remove_fetch_lv token ti s p (version (border_base b)) h = (case map_of es (prepare_key_slice s) of
       None \<Rightarrow> Some (Return (OK_NOT_FOUND, h))
     | Some (Val w) \<Rightarrow> remove_value token ti s p (version (border_base b)) (version (border_base b)) h
     | Some (Sub u) \<Rightarrow> Some (Goto (Retry_Find_Border (addr_of u) (drop slice_size s), h)))"
proof -
  let ?k = "prepare_key_slice s"
  note st = leaf_at_stable [OF l]
  show ?thesis
  proof (cases "map_of es ?k")
    case None
    then have "slot_of b ?k = None" using leaf_slot(1) [OF l, of ?k] by simp
    then show ?thesis using st None by (simp add: remove_fetch_lv_def wrong_lv_def)
  next
    case (Some c)
    then obtain i where i: "slot_of b ?k = Some i" "lv_arr b ! i = lv_word c"
      using leaf_slot(1) [OF l, of ?k] by auto
    have c: "content_wf ?k c" using leaf_content [OF l Some] by simp
    note rd = leaf_slot(2) [OF l i(1)]
    show ?thesis
    proof (cases c)
      case (Val w)
      then show ?thesis using st i rd c Some by (simp add: remove_fetch_lv_def)
    next
      case (Sub u)
      have "get_next_layer (set_next_layer (addr_of u)) = addr_of u"
        using c Sub by (intro set_next_layer_roundtrip(1) tree_wf_valid_ptr) simp
      then show ?thesis using st i rd c Some Sub by (simp add: remove_fetch_lv_def wrong_lv_def)
    qed
  qed
qed

section \<open>Entries and strings\<close>

lemma entry_del_lookup:
  assumes "entry_del t k t'" and "tree_wf t" and "tree_wf t'"
  shows "map_of (tree_entries t') s = (if prepare_key_slice s = k then None else map_of (tree_entries t) s)"
  using map_of_tree_entries [OF assms(2), of s] map_of_tree_entries [OF assms(3), of s] assms(1) by (auto simp: entry_del_def)

lemma del_map:
  assumes "entry_del t (prepare_key_slice s) t'" and "tree_wf t" and "tree_wf t'" and "content_wf (prepare_key_slice s) c"
    and "map_of (layer_entries t) (prepare_key_slice s) = Some c"
    and "\<And>u. c = Sub u \<Longrightarrow> map_of (tree_entries u) = [drop slice_size s \<mapsto> v]"
  shows "map_of (tree_entries t') = (map_of (tree_entries t))(s := None)"
proof
  fix s'
  note l = entry_del_lookup [OF assms(1-3), of s'] and t = map_of_tree_entries [OF assms(2), of s']
  have "map_of (tree_entries t) s' = None" if k: "prepare_key_slice s' = prepare_key_slice s" and ne: "s' \<noteq> s"
  proof (cases c)
    case (Val w)
    then have "length s \<le> slice_size" using assms(4) by (auto simp: unat_length_prepare min_def split: if_splits)
    then show ?thesis using prepare_inj_short [OF k] ne by blast
  next
    case (Sub u)
    then have "slice_size < length s" using assms(4) prepare_length [of s] by simp
    then have "drop slice_size s' \<noteq> drop slice_size s" using prepare_inj_drop [OF k] ne by blast
    then show ?thesis using t k assms(5,6) Sub by simp
  qed
  then show "map_of (tree_entries t') s' = ((map_of (tree_entries t))(s := None)) s'" using l by auto
qed

lemma del_map_layer:
  assumes "entry_put t (prepare_key_slice s) (Sub u') t'" and "tree_wf t" and "tree_wf t'" and "content_wf (prepare_key_slice s) (Sub u')"
    and "map_of (layer_entries t) (prepare_key_slice s) = Some (Sub u)"
    and "map_of (tree_entries u') = (map_of (tree_entries u))(drop slice_size s := None)"
  shows "map_of (tree_entries t') = (map_of (tree_entries t))(s := None)"
proof
  have l: "slice_size < length s" using assms(4) prepare_length [of s] by simp
  fix s'
  show "map_of (tree_entries t') s' = ((map_of (tree_entries t))(s := None)) s'"
    using entry_put_lookup [OF assms(1-4) canonical_prepare, of s'] prepare_inj_drop [OF _ l, of s']
      content_lookup [of s' "Sub u'", OF canonical_prepare] map_of_tree_entries [OF assms(2), of s'] assms(4-6)
    by (cases "prepare_key_slice s' = prepare_key_slice s") auto
qed

section \<open>Nodes for the collector\<close>

fun push_nodes :: "Token \<Rightarrow> addr list \<Rightarrow> heap \<Rightarrow> heap option" where
  "push_nodes token [] h = Some h"
| "push_nodes token (p # ps) h = push_node_garbage token p h \<bind> push_nodes token ps"

lemma push_nodes_Nil [simp]: "push_nodes token [] = Some"
  by (rule ext) simp

lemma push_nodes_eq:
  "token < length (thread_info_table h) \<Longrightarrow>
   push_nodes token ps h = Some (h\<lparr>thread_info_table := retired token ps (thread_info_table h)\<rparr>)"
  by (induction ps arbitrary: h) (simp_all add: push_node_garbage_eq)

section \<open>One entry\<close>

lemma border_delete_layer:
  assumes a: "leaf_ready h ti par C p es b X" and es: "es = A @ (k, c) # B" and e: "emptied h c h1" and t: "token < length (thread_info_table h1)"
    and root: "load_root_ptr ti h = Some r"
  obtains (Kept) h' where "border_delete_of token ti p k (is_val c) (set_node p (Border (set_border_base locked_base b)) h1) = Some h'"
      "deleted_in token X h ti par (plug C (Leaf p es)) k c h1 h'"
  | (Gone) g where "par \<noteq> nullptr" "C = []" "es = [(k, c)]" "layer_gone h (Leaf p es) g"
      "thread_info_table g = content_retired token (pages h1) c (thread_info_table h1)"
      "\<And>pb kp. nodes h par = Some (Border pb) \<Longrightarrow> find_layer_key pb p [0..<get_permutation_cnk pb] = Some (Some kp) \<Longrightarrow>
        border_delete_of token ti p k (is_val c) (set_node p (Border (set_border_base locked_base b)) h1) =
        border_delete_of token ti par kp False (set_node par (Border (set_border_base locked_base pb)) g) \<bind> push_node_garbage token p"
proof (cases "A @ B = []")
  case False
  then show thesis using delete_leaf_stays [OF a es e t] that(1) by blast
next
  case True
  then have s: "es = [(k, c)]" using es by simp
  show thesis
  proof (cases C)
    case (Cons f C')
    then show thesis using delete_branch_leaf [OF a [unfolded s Cons] e t root] that(1) s by blast
  next
    case Nil
    show thesis
    proof (cases "par = nullptr")
      case True
      then show thesis using delete_root_leaf [OF a [unfolded s Nil True] e t] that(1) s Nil by auto
    next
      case False
      then show thesis using delete_layer_leaf [OF a [unfolded s Nil] e t False root] that(2) s Nil by blast
    qed
  qed
qed

section \<open>An entry whose next layer stays\<close>

lemma trimmed_sub:
  assumes a: "leaf_ready h ti par C p es b X" and es: "es = A @ (k, Sub u) # B"
    and X: "set (tree_addrs (plug C (Leaf p es))) \<subseteq> X" and u: "trimmed X h ti p u R h' u'" and ks: "tree_keys u' \<subseteq> tree_keys u"
  defines "t \<equiv> plug C (Leaf p es)" and "t' \<equiv> plug C (Leaf p (A @ (k, Sub u') # B))"
  shows "trimmed X h ti par t R h' t'" and "entry_put t k (Sub u') t'" and "content_wf k (Sub u')"
proof -
  let ?es = "A @ (k, Sub u') # B" and ?Y = "X - set R"
  have fl: "nodes h p = Some (Border b)" "leaf_node (ctx_parent par C) (C = []) es b"
    and tw: "tree_wf t" and d0: "distinct (par # ctx_addrs C @ tree_addrs (Leaf p es) @ fresh h)" and own: "owned h ti par (addr_of t)"
    and un: "unused_in X h (leaf_addrs t)"
    using a unfolding leaf_ready_def found_leaf_def t_def by - (elim conjE, assumption)+
  have lw0: "tree_wf (Leaf p es)" using tw unfolding t_def tree_wf_plug by - (elim conjE, assumption)+
  have p: "p \<noteq> nullptr" and cw: "content_wf k (Sub u)" using lw0 by (simp_all add: es valid_ptr_def)
  have l: "tree_wf u'" "tree_at h' p True u'" "linked h' nullptr (map fst (layer_leaves u'))" "rerooted h ti p (addr_of u) (addr_of u') h'"
    "mset (tree_addrs u) = mset (tree_addrs u' @ R)" "\<forall>x. x \<notin> insert p (set (tree_addrs u)) \<longrightarrow> nodes h' x = nodes h x"
    "unused_in ?Y h' (leaf_addrs u')" "p \<noteq> nullptr \<longrightarrow> layer_entries u' \<noteq> []"
    using u unfolding trimmed_def by - (elim conjE, assumption)+
  obtain b' where b': "nodes h' p = Some (Border b')" "slot_changed b (addr_of u) (addr_of u') b'" and q: "quiet h h'"
    using l(4) p fl(1) by (auto simp: rerooted_def)
  have sp: "slot_put b (perm_list (perm_body b) ! length A) (lv_word (Sub u')) b'"
    using b'(2) layer_ok_sub(2) [OF a es X] by (simp add: slot_changed_put)
  note n = slot_put_leaf [OF fl(2) [unfolded es] sp]
  show c: "content_wf k (Sub u')" using cw ks l(1,8) p by auto
  have o: "nodes h' x = nodes h x" if "x \<notin> insert p (set (content_addrs (Sub u) @ fresh h))" for x using l(6) that by simp
  note pg = quiet_pages [OF q]
  have ca: "\<forall>d \<in> set (map snd ?es). content_at h' p d"
  proof
    fix d assume "d \<in> set (map snd ?es)"
    then have "d = Sub u' \<or> d \<in> set (map snd (A @ B))" by auto
    then show "content_at h' p d" using l(2,3) other_contents(1) [OF a es _ o pg] by auto
  qed
  have lw: "tree_wf (Leaf p ?es)" using lw0 c unfolding es by auto
  have "unused_ok X b" using un fl(1) unfolding t_def by (subst (asm) concat_plug) (auto simp: unused_in_def)
  then have "unused_ok ?Y b'" using n(4) unused_ok_mono [OF _ Diff_subset] by blast
  then have uq: "unused_in ?Y h' (leaf_addrs (Leaf p ?es))" using b'(1) l(7) other_unused [OF a es Diff_subset o pg] by simp
  have sep: "set (ctx_addrs C) \<inter> insert p (set (tree_addrs u)) = {}" "par \<notin> insert p (set (tree_addrs u))" using d0 unfolding es by auto
  have oc: "nodes h' x = nodes h x" if "x \<in> set (ctx_addrs C)" for x using l(6) sep(1) that by blast
  have kk: "fst ` set ?es \<subseteq> fst ` set es" and ne: "?es \<noteq> []" by (simp_all add: es)
  note r = leaf_replaced [OF a b'(1) n(1,2,3) lw kk ne ca uq Diff_subset oc pg, folded t_def t'_def]
  have "addr_of t \<noteq> nullptr" using tree_wf_valid_ptr [OF tw] by (simp add: valid_ptr_def)
  moreover have "nodes h' par = nodes h par" using l(6) sep(2) by blast
  ultimately have "rerooted h ti par (addr_of t) (addr_of t') h'" using rerooted_same [OF own _ q] r(5) by simp
  moreover have "mset (tree_addrs t) = mset (tree_addrs t' @ R)" using l(5) by (simp add: t_def t'_def es tree_addrs_plug)
  moreover have "nodes h' x = nodes h x" if "x \<notin> insert par (set (tree_addrs t))" for x
    using l(6) that by (auto simp: t_def set_addrs_plug es)
  moreover have "layer_entries t' \<noteq> []" by (simp add: t'_def layer_plug)
  ultimately show "trimmed X h ti par t R h' t'" using r(1-4) unfolding trimmed_def by blast
  show "entry_put t k (Sub u') t'"
    by (rule entry_put_old [OF _ _ tw, of "ctx_left layer_entries C @ A" k "Sub u" "B @ ctx_right layer_entries C"])
      (simp_all add: t_def t'_def layer_plug tree_keys_plug es)
qed

section \<open>All layers\<close>

definition layer_removed :: "Token \<Rightarrow> addr set \<Rightarrow> heap \<Rightarrow> addr \<Rightarrow> addr \<Rightarrow> tree \<Rightarrow> byte list \<Rightarrow> 64 word \<Rightarrow> heap \<Rightarrow> bool" where
  "layer_removed token X h ti par t s v h' \<longleftrightarrow> (\<exists>t' R. trimmed X h ti par t R h' t' \<and>
     map_of (tree_entries t') = (map_of (tree_entries t))(s := None) \<and> tree_keys t' \<subseteq> tree_keys t \<and>
     thread_info_table h' = retired token R (value_retired token (pages h) v (thread_info_table h)))"

text \<open>The whole layer goes away, and \<open>go\<close> continues with the entry of its owner.\<close>

definition layer_dropped :: "Token \<Rightarrow> heap \<Rightarrow> addr \<Rightarrow> addr \<Rightarrow> tree \<Rightarrow> byte list \<Rightarrow> 64 word \<Rightarrow> heap option \<Rightarrow> bool" where
  "layer_dropped token h ti par t s v go \<longleftrightarrow> par \<noteq> nullptr \<and> map_of (tree_entries t) = [s \<mapsto> v] \<and>
     (\<exists>g R. layer_gone h t g \<and> mset R = mset (tree_addrs t) \<and>
       thread_info_table g = value_retired token (pages h) v (thread_info_table h) \<and>
       (\<forall>pb kp. nodes h par = Some (Border pb) \<longrightarrow> find_layer_key pb (addr_of t) [0..<get_permutation_cnk pb] = Some (Some kp) \<longrightarrow>
         go = border_delete_of token ti par kp False (set_node par (Border (set_border_base locked_base pb)) g) \<bind> push_nodes token R))"

lemma trimmed_cong:
  assumes "trimmed X h ti par t R h' t'" and "mset R = mset R'"
  shows "trimmed X h ti par t R' (h'\<lparr>thread_info_table := T\<rparr>) t'"
proof -
  have l: "tree_wf t'" "tree_at h' par True t'" "linked h' nullptr (map fst (layer_leaves t'))" "rerooted h ti par (addr_of t) (addr_of t') h'"
    "mset (tree_addrs t) = mset (tree_addrs t' @ R)" "\<forall>x. x \<notin> insert par (set (tree_addrs t)) \<longrightarrow> nodes h' x = nodes h x"
    "unused_in (X - set R) h' (leaf_addrs t')" "par \<noteq> nullptr \<longrightarrow> layer_entries t' \<noteq> []"
    using assms(1) unfolding trimmed_def by - (elim conjE, assumption)+
  have "linked (h'\<lparr>thread_info_table := T\<rparr>) nullptr (map fst (layer_leaves t'))" by (rule linked_keeps [OF l(3)]) (simp add: keeps_links_def)
  moreover have "rerooted h ti par (addr_of t) (addr_of t') (h'\<lparr>thread_info_table := T\<rparr>)" by (rule rerooted_from [OF l(4)]) simp_all
  moreover have "unused_in (X - set R') (h'\<lparr>thread_info_table := T\<rparr>) (leaf_addrs t')"
    using l(7) mset_eq_setD [OF assms(2)] by (simp add: unused_in_def)
  ultimately show ?thesis using l(1,2,5,6,8) assms(2) by (simp add: trimmed_def)
qed

text \<open>The entry \<open>c\<close> of a leaf is deleted after everything below it; \<open>R\<close> are the nodes below it.\<close>

lemma remove_entry:
  assumes ready: "leaf_ready h ti par C p es b X" and es: "es = A @ (prepare_key_slice s, c) # B" and root: "load_root_ptr ti h = Some r"
    and e: "emptied h c h1" and tab: "content_retired token (pages h1) c (thread_info_table h1) = value_retired token (pages h) v (thread_info_table h)"
    and tok: "token < length (thread_info_table h)" and R: "mset R = mset (content_addrs c)"
    and one: "\<And>w. c = Val w \<Longrightarrow> w = v" "\<And>u. c = Sub u \<Longrightarrow> map_of (tree_entries u) = [drop slice_size s \<mapsto> v]"
    and go: "go = border_delete_of token ti p (prepare_key_slice s) (is_val c) (set_node p (Border (set_border_base locked_base b)) h1) \<bind> push_nodes token R"
  shows "(\<exists>h'. go = Some h' \<and> layer_removed token X h ti par (plug C (Leaf p es)) s v h') \<or> layer_dropped token h ti par (plug C (Leaf p es)) s v go"
proof -
  let ?k = "prepare_key_slice s" and ?t = "plug C (Leaf p es)" and ?T = "value_retired token (pages h) v (thread_info_table h)"
  have lT: "length ?T = length (thread_info_table h)" by (simp add: value_retired_def)
  have "length (thread_info_table h1) = length ?T" using arg_cong [OF tab, of length] by simp
  then have tok1: "token < length (thread_info_table h1)" using tok lT by simp
  have tw: "tree_wf ?t" using ready by (simp add: leaf_ready_def)
  have cw: "content_wf ?k c" using tw unfolding tree_wf_plug es by auto
  have m: "map_of (layer_entries ?t) ?k = Some c"
    by (rule map_of_is_SomeI [OF layer_entries_distinct [OF tw]]) (simp add: layer_plug es)
  show ?thesis
  proof (rule border_delete_layer [OF ready es e tok1 root], goal_cases Kept Gone)
    case (Kept h')
    obtain t' R0 where d: "trimmed X h ti par ?t (R0 @ content_addrs c) h' t'" "entry_del ?t ?k t'" "thread_info_table h' = retired token R0 ?T"
      using Kept(2) tab unfolding deleted_in_def by auto
    let ?h = "h'\<lparr>thread_info_table := retired token (R0 @ R) ?T\<rparr>"
    have "go = Some ?h" using go Kept(1) push_nodes_eq [of token h' R] d(3) tok lT by simp
    moreover have "trimmed X h ti par ?t (R0 @ R) ?h t'" by (rule trimmed_cong [OF d(1)]) (simp add: R)
    moreover have "tree_wf t'" using d(1) by (simp add: trimmed_def)
    moreover note del_map [OF d(2) tw \<open>tree_wf t'\<close> cw m one(2)]
    ultimately have "go = Some ?h \<and> layer_removed token X h ti par ?t s v ?h"
      using d(2) unfolding layer_removed_def entry_del_def by auto
    then show ?thesis by blast
  next
    case (Gone g)
    have t: "?t = Leaf p [(?k, c)]" using Gone by simp
    have "map_of (tree_entries ?t) = [s \<mapsto> v]"
    proof
      fix s'
      note l = map_of_tree_entries [OF tw, of s']
      have me: "map_of (layer_entries ?t) = [?k \<mapsto> c]" by (simp add: t)
      show "map_of (tree_entries ?t) s' = [s \<mapsto> v] s'"
      proof (cases "prepare_key_slice s' = ?k")
        case False
        then show ?thesis using l me by auto
      next
        case k: True
        show ?thesis
        proof (cases c)
          case (Val w)
          then have "length s \<le> slice_size" using cw by (auto simp: unat_length_prepare min_def split: if_splits)
          then have "s' = s" using prepare_inj_short [OF k] by blast
          then show ?thesis using l me Val one(1) by simp
        next
          case (Sub u)
          then have "slice_size < length s" using cw prepare_length [of s] by simp
          then have "s' = s \<longleftrightarrow> drop slice_size s' = drop slice_size s" using prepare_inj_drop [OF k] by blast
          then show ?thesis using l me k Sub one(2) by simp
        qed
      qed
    qed
    moreover have "go = border_delete_of token ti par kp False (set_node par (Border (set_border_base locked_base pb)) g) \<bind> push_nodes token (p # R)"
      if "nodes h par = Some (Border pb)" "find_layer_key pb p [0..<get_permutation_cnk pb] = Some (Some kp)" for pb kp
      using go Gone(6) [OF that] by (simp cong: Option.bind_cong)
    ultimately have "layer_dropped token h ti par ?t s v go"
      unfolding layer_dropped_def using Gone(1,3,4,5) tab R t
      by (intro conjI exI [of _ g] exI [of _ "p # R"]) simp_all
    then show ?thesis by blast
  qed
qed

lemma remove_layer:
  assumes "layer_ok X h ti par t" and "map_of (tree_entries t) s = Some v" and "token < length (thread_info_table h)"
    and "load_root_ptr ti h = Some r"
  shows "\<exists>go. run (remove_step token ti key) (Retry_Find_Border (addr_of t) s, h) = map_option (\<lambda>h. (OK, h)) go \<and>
    ((\<exists>h'. go = Some h' \<and> layer_removed token X h ti par t s v h') \<or> layer_dropped token h ti par t s v go)"
  using assms(1,2)
proof (induction "length s" arbitrary: s t par rule: less_induct)
  case less
  let ?k = "prepare_key_slice s" and ?run = "run (remove_step token ti key)"
  have t: "tree_wf t" "tree_at h par True t" using less.prems(1) by (simp_all add: layer_ok_def)
  obtain p es where d: "descend ?k t = (p, es)" by (rule prod.exhaust)
  obtain b where b: "find_border (addr_of t) ?k h = Some (p, version (border_base b), OK)" "leaf_at h (p, es) b"
    using find_border_descend [OF t descends_like_refl [OF canonical_prepare [of s]]] d by auto
  obtain C where C: "t = plug C (Leaf p es)" "fits C ?k" using descend_path [OF t(1), of ?k] d by auto
  have nb: "nodes h p = Some (Border b)" "p \<noteq> nullptr" using b(2) by (simp_all add: leaf_at_def)
  note ready = layer_ok_leaf [OF less.prems(1) [unfolded C(1)] nb(1)]
  have es: "map_of (layer_entries t) ?k = map_of es ?k" using descend_lookup [OF t(1), of ?k] d by simp
  note look = map_of_tree_entries [OF t(1), of s, unfolded es]
  have start: "?run (Retry_Find_Border (addr_of t) s, h) = ?run (Retry_Fetch_Lv s p (version (border_base b)), h)"
    by (rule run_Goto) (simp add: remove_find_border_def b(1) nb get_border_def)
  consider w where "map_of es ?k = Some (Val w)" | u where "map_of es ?k = Some (Sub u)"
    using look less.prems(2) by (cases "map_of es ?k") (auto split: content.splits)
  then show ?case
  proof cases
    case 1
    have w: "w = v" using look 1 less.prems(2) by simp
    obtain A B where e: "es = A @ (?k, Val v) # B" using map_of_SomeD [OF 1] split_list w by fastforce
    let ?go = "border_delete_of token ti p ?k True (set_node p (Border (set_border_base locked_base b)) h)"
    have "?run (Retry_Fetch_Lv s p (version (border_base b)), h) = map_option (\<lambda>h. (OK, h)) ?go"
      using remove_fetch_lv_eq [OF b(2), of token ti s] remove_value_eq [OF b(2) 1, of token ti] 1
      by (simp add: run.simps [of _ "(Retry_Fetch_Lv _ _ _, _)"] split: option.splits)
        (cases ?go, simp_all)
    moreover have "(\<exists>h'. ?go = Some h' \<and> layer_removed token X h ti par t s v h') \<or> layer_dropped token h ti par t s v ?go"
      unfolding C(1)
      by (rule remove_entry [OF ready e assms(4), of h token v "[]"]) (simp_all add: emptied_def assms(3))
    ultimately show ?thesis using start by metis
  next
    case 2
    obtain A B where e: "es = A @ (?k, Sub u) # B" using map_of_SomeD [OF 2] split_list by fastforce
    have X: "set (tree_addrs (plug C (Leaf p es))) \<subseteq> X" using less.prems(1) C(1) by (simp add: layer_ok_def)
    have cw: "content_wf ?k (Sub u)" using leaf_content [OF b(2) 2] by simp
    then have lt: "length (drop slice_size s) < length s" using prepare_length [of s] by auto
    have look': "map_of (tree_entries u) (drop slice_size s) = Some v" using look 2 less.prems(2) by simp
    obtain go where go: "?run (Retry_Find_Border (addr_of u) (drop slice_size s), h) = map_option (\<lambda>h. (OK, h)) go"
      "(\<exists>h'. go = Some h' \<and> layer_removed token X h ti p u (drop slice_size s) v h') \<or> layer_dropped token h ti p u (drop slice_size s) v go"
      using less.hyps [OF lt layer_ok_sub(1) [OF ready e X] look'] by blast
    have "?run (Retry_Fetch_Lv s p (version (border_base b)), h) = ?run (Retry_Find_Border (addr_of u) (drop slice_size s), h)"
      by (rule run_Goto) (simp add: remove_fetch_lv_eq [OF b(2)] 2)
    then have run: "?run (Retry_Find_Border (addr_of t) s, h) = map_option (\<lambda>h. (OK, h)) go" using start go(1) by simp
    have "(\<exists>h'. go = Some h' \<and> layer_removed token X h ti par t s v h') \<or> layer_dropped token h ti par t s v go"
      using go(2)
    proof
      assume "\<exists>h'. go = Some h' \<and> layer_removed token X h ti p u (drop slice_size s) v h'"
      then obtain h' u' R where u: "go = Some h'" "trimmed X h ti p u R h' u'" "map_of (tree_entries u') = (map_of (tree_entries u))(drop slice_size s := None)"
        "tree_keys u' \<subseteq> tree_keys u" "thread_info_table h' = retired token R (value_retired token (pages h) v (thread_info_table h))"
        unfolding layer_removed_def by blast
      note st = trimmed_sub [OF ready e X u(2,4)]
      have "map_of (layer_entries t) ?k = Some (Sub u)" using es 2 by simp
      moreover have "tree_wf (plug C (Leaf p (A @ (?k, Sub u') # B)))" using st(1) by (simp add: trimmed_def)
      ultimately have "map_of (tree_entries (plug C (Leaf p (A @ (?k, Sub u') # B)))) = (map_of (tree_entries t))(s := None)"
        using del_map_layer [OF st(2) t(1) [unfolded C(1)] _ st(3) _ u(3)] C(1) by simp
      moreover have "tree_keys (plug C (Leaf p (A @ (?k, Sub u') # B))) \<subseteq> tree_keys t" by (auto simp: C(1) tree_keys_plug e)
      ultimately have "layer_removed token X h ti par t s v h'"
        unfolding layer_removed_def using st(1) u(5) C(1) by auto
      then show ?thesis using u(1) by blast
    next
      assume dr: "layer_dropped token h ti p u (drop slice_size s) v go"
      have dist: "distinct (concat (map content_addrs (map snd es)))" using ready by (auto simp: leaf_ready_def)
      have bw: "border_wf b" "border_entries b = lv_entries es" using b(2) by (auto simp: leaf_at_def leaf_node_def lv_entries_def)
      have cs: "content_wf k' c'" if "(k', c') \<in> set es" for k' c' using b(2) that by (auto simp: leaf_at_def)
      have lk: "find_layer_key b (addr_of u) [0..<get_permutation_cnk b] = Some (Some ?k)" by (rule layer_key_entry [OF bw e dist cs])
      obtain g R where g: "layer_gone h u g" "mset R = mset (tree_addrs u)" "thread_info_table g = value_retired token (pages h) v (thread_info_table h)"
        "go = border_delete_of token ti p ?k False (set_node p (Border (set_border_base locked_base b)) g) \<bind> push_nodes token R"
        "map_of (tree_entries u) = [drop slice_size s \<mapsto> v]"
        using dr nb(1) lk unfolding layer_dropped_def by blast
      show ?thesis unfolding C(1)
        by (rule remove_entry [OF ready e assms(4), of g token v R]) (use g assms(3) in \<open>simp_all add: emptied_def layer_gone_def\<close>)
    qed
    then show ?thesis using run by blast
  qed
qed

end
