(* ===== verification/Put_Refinement.thy ===== *)
theory Put_Refinement
  imports Put_Layer
begin

text \<open>
  \<^verbatim>\<open>put\<close> on a whole tree refines the update of a map, and keeps the invariant that every
  operation on the tree relies on.
\<close>

section \<open>The invariant\<close>

text \<open>
  The tree instance holds a well-formed tree; no address is used twice, free addresses are
  free, and no unused slot of a border node links to a node of the tree or to an address that
  can still be allocated. (It may hold a link to an address that was taken out of the tree:
  \<^verbatim>\<open>delete_at\<close> leaves such links behind.)
\<close>

definition tree_inv :: "heap \<Rightarrow> addr \<Rightarrow> tree \<Rightarrow> bool" where
  "tree_inv h ti t \<longleftrightarrow> tree_rep h ti t \<and> distinct (nullptr # tree_addrs t @ fresh h) \<and>
     (\<forall>q \<in> set (fresh h). valid_ptr q \<and> pages h q = None) \<and> unused_in (set (tree_addrs t @ fresh h)) h (leaf_addrs t)"

text \<open>The arguments that \<^verbatim>\<open>put\<close> can store, and the bytes it stores.\<close>

definition args_ok :: "put_args \<Rightarrow> bool" where
  "args_ok a \<longleftrightarrow> (if kIsInline a then 8 \<le> length (v_ptr a) \<and> valid_ptr (slice_of_bytes (take 8 (v_ptr a)))
     else unat (v_len a) \<le> length (v_ptr a) \<and> unat (v_align a) < 2 ^ 16)"

definition put_bytes :: "put_args \<Rightarrow> byte list" where
  "put_bytes a = (if kIsInline a then take 8 (v_ptr a) else take (unat (v_len a)) (v_ptr a))"

text \<open>The new value is a word or has a page that was free.\<close>

definition new_word :: "put_args \<Rightarrow> heap \<Rightarrow> 64 word \<Rightarrow> bool" where
  "new_word a h v \<longleftrightarrow> (if kIsInline a then remove_ptr_flag v = v else remove_ptr_flag v \<in> set (fresh h))"

text \<open>Its page has the alignment of the call, eight bytes at least.\<close>

definition page_aligned :: "put_args \<Rightarrow> value_pages \<Rightarrow> 64 word \<Rightarrow> bool" where
  "page_aligned a vh v \<longleftrightarrow> kIsInline a \<or>
     map_option align (vh (remove_ptr_flag v)) = Some (ucast (if v_align a < 8 then 8 else v_align a))"

lemma page_aligned_mono:
  assumes "pages_le vh vh'" and "page_aligned a vh v"
  shows "page_aligned a vh' v"
proof (cases "kIsInline a")
  case False
  then obtain x where x: "vh (remove_ptr_flag v) = Some x" "align x = ucast (if v_align a < 8 then 8 else v_align a)"
    using assms(2) by (auto simp: page_aligned_def)
  then obtain y where "vh' (remove_ptr_flag v) = Some y" "align y = align x" using assms(1) unfolding pages_le_def by blast
  then show ?thesis using x(2) by (simp add: page_aligned_def)
qed (simp add: page_aligned_def)

lemma value_word_inline: "valid_ptr v \<Longrightarrow> value_word v \<and> remove_ptr_flag v = v"
  using remove_ptr_flag_untagged [of v] bit_kValPtrFlag [of 62] by (auto simp: valid_ptr_def value_word_def init_lv_def)

lemma value_made_ok:
  assumes "args_ok a" and "fresh h = q # fs" and "\<forall>q \<in> set (fresh h). valid_ptr q \<and> pages h q = None" and "distinct (fresh h)"
  obtains v hv where "value_made a h v hv" "value_bytes (pages hv) v = Some (put_bytes a)" "length fs \<le> length (fresh hv)"
    "\<forall>q \<in> set (fresh hv). valid_ptr q \<and> pages hv q = None" "\<And>x. x \<notin> set (fresh h) \<Longrightarrow> pages hv x = pages h x"
    "new_word a h v" "page_aligned a (pages hv) v"
proof (cases "kIsInline a")
  case True
  let ?v = "slice_of_bytes (take 8 (v_ptr a))"
  have a: "8 \<le> length (v_ptr a)" "valid_ptr ?v" using assms(1) True by (simp_all add: args_ok_def)
  then have "put_value a h = Some (?v, h)" using True by (simp add: put_value_def new_value_def create_value_def)
  then show thesis using a value_word_inline [OF a(2)] assms(2,3) True
    by (intro that [of ?v h]) (simp_all add: value_made_def value_at_def value_bytes_def put_bytes_def new_word_def page_aligned_def Let_def)
next
  case False
  let ?al = "if v_align a < 8 then 8 else v_align a" and ?v = "q OR kValPtrFlag"
  let ?p = "\<lparr>len = ucast (v_len a), align = ucast ?al, need_delete_flag = True, page_size = v_len a + ?al, body = put_bytes a\<rparr>"
  let ?hv = "h\<lparr>fresh := fs, pages := (pages h)(q \<mapsto> ?p)\<rparr>"
  have a: "unat (v_len a) \<le> length (v_ptr a)" "unat (v_align a) < 2 ^ 16" using assms(1) False by (simp_all add: args_ok_def)
  have "unat (ucast ?al :: 16 word) = unat ?al" using a(2) by (intro narrow_exact) simp
  moreover have "8 \<le> unat ?al" by (simp add: word_less_nat_alt)
  ultimately have n: "\<not> (ucast ?al :: 16 word) < 8" by (simp add: word_less_nat_alt)
  have q: "valid_ptr q" "pages h q = None" "q \<notin> set fs" using assms(2-4) by auto
  then have r: "remove_ptr_flag ?v = q" "?v \<noteq> q" using remove_ptr_flag_tagged [of q] by (simp_all add: valid_ptr_def)
  have "put_value a h = Some (?v, ?hv)"
    using False a(1) n assms(2) by (simp add: put_value_def new_value_def create_value_def put_bytes_def Let_def)
  moreover have "pages h \<subseteq>\<^sub>m pages ?hv" using q(2) by (auto simp: map_le_def)
  ultimately have "value_made a h ?v ?hv" using value_word_page [OF q(1)] r by (simp add: value_made_def value_at_def)
  then show thesis using r q assms(2,3) False by (intro that [of ?v ?hv]) (auto simp: value_bytes_def new_word_def page_aligned_def Let_def)
qed

lemma tree_inv_layer: "tree_inv h ti t \<Longrightarrow> layer_ok (set (tree_addrs t @ fresh h)) h ti nullptr t"
  by (simp add: tree_inv_def tree_rep_def layer_ok_def owned_def)

lemma tree_inv_step:
  assumes st: "layer_step X hv ti nullptr t h' t'" and d: "distinct (nullptr # tree_addrs t @ fresh hv)"
    and f: "\<forall>q \<in> set (fresh hv). valid_ptr q \<and> pages hv q = None" and X: "set (tree_addrs t @ fresh hv) \<subseteq> X"
    and eq: "nodes h2 = nodes h'" "pages h2 = pages h'" "fresh h2 = fresh h'" "storages_root h2 = storages_root h'"
  shows "tree_inv h2 ti t'"
proof -
  have l: "tree_wf t'" "tree_at h' nullptr True t'" "linked h' nullptr (map fst (layer_leaves t'))"
    "reowned hv ti nullptr (addr_of t) (addr_of t') h'" "mset (tree_addrs t' @ fresh h') = mset (tree_addrs t @ fresh hv)"
    "set (fresh h') \<subseteq> set (fresh hv)" "unused_in X h' (leaf_addrs t')"
    using st unfolding layer_step_def by - (elim conjE, assumption)+
  obtain g where g: "store_root_ptr ti (addr_of t') hv = Some g" "same_static g h'" using l(4) by (auto simp: reowned_def)
  note sg = store_root_spec [OF g(1)]
  have "load_root_ptr ti h' = Some (addr_of t')" using same_static_root [OF g(2)] sg(3) by simp
  moreover have "load_root_ptr ti h2 = load_root_ptr ti h'" using eq by (simp add: load_root_ptr_def)
  moreover have "tree_at h2 nullptr True t'" by (rule tree_at_frame [OF l(2)]) (simp_all add: eq)
  moreover have "linked h2 nullptr (map fst (layer_leaves t')) = linked h' nullptr (map fst (layer_leaves t'))"
    by (rule linked_cong) (simp add: eq)
  ultimately have "tree_rep h2 ti t'" using l(1,3) by (simp add: tree_rep_def)
  moreover have "distinct (nullptr # tree_addrs t' @ fresh h2)"
  proof -
    have "mset (nullptr # tree_addrs t' @ fresh h2) = mset (nullptr # tree_addrs t @ fresh hv)" using l(5) by (simp add: eq)
    then show ?thesis using d mset_eq_imp_distinct_iff by blast
  qed
  moreover have "\<forall>q \<in> set (fresh h2). valid_ptr q \<and> pages h2 q = None"
  proof -
    have "dom (pages h2) = dom (pages hv)" using g(2) sg(8) by (simp add: eq same_static_def)
    then have "pages h2 q = None \<longleftrightarrow> pages hv q = None" for q by (metis domIff)
    then show ?thesis using f l(6) eq(3) by auto
  qed
  moreover have "unused_in (set (tree_addrs t' @ fresh h2)) h2 (leaf_addrs t')"
  proof -
    have "set (tree_addrs t' @ fresh h2) \<subseteq> X" using mset_eq_setD [OF l(5)] X by (simp add: eq)
    then show ?thesis using l(7) unused_ok_mono unfolding unused_in_def eq(1) by blast
  qed
  ultimately show ?thesis unfolding tree_inv_def by blast
qed

lemma put_start:
  assumes "tree_rep h ti t"
  shows "put token ti key a h = run (put_step token ti key a) (Retry_Find_Border (addr_of t) key, h)"
proof -
  have r: "load_root_ptr ti h = Some (addr_of t)" and "tree_wf t" using assms by (simp_all add: tree_rep_def)
  then have "addr_of t \<noteq> nullptr" using tree_wf_valid_ptr [of t] by (simp add: valid_ptr_def)
  then have "put_step token ti key a (Root_Nullptr, h) = Some (Goto (Retry_From_Root, h))"
    "put_step token ti key a (Retry_From_Root, h) = Some (Goto (Retry_Find_Border (addr_of t) key, h))"
    using r by (simp_all add: put_root_nullptr_def put_from_root_def)
  then show ?thesis unfolding put_def by (simp add: run_Goto)
qed

text \<open>The pages of other values stay as they are, the page that holds the root pointer aside.\<close>

definition pages_kept :: "heap \<Rightarrow> addr \<Rightarrow> heap \<Rightarrow> bool" where
  "pages_kept h ti h' \<longleftrightarrow> pages_le (pages h) (pages h') \<and>
     (\<forall>q. q \<notin> set (fresh h) \<longrightarrow> q \<noteq> ti - 8 \<longrightarrow> pages h' q = pages h q)"

text \<open>A call on the tree \<open>ti\<close> with the nodes \<open>as\<close> touches these and new ones, and no other tree instance.\<close>

definition touches_only :: "heap \<Rightarrow> addr \<Rightarrow> addr list \<Rightarrow> heap \<Rightarrow> addr list \<Rightarrow> bool" where
  "touches_only h ti as h' as' \<longleftrightarrow> (\<forall>x. x \<notin> insert nullptr (set (as @ fresh h)) \<longrightarrow> nodes h' x = nodes h x) \<and> set as' \<subseteq> set (as @ fresh h) \<and>
     set (fresh h') \<subseteq> set (fresh h) \<and> (ti \<noteq> storages \<longrightarrow> storages_root h' = storages_root h)"

lemma store_root_storages: "store_root_ptr ti a h = Some g \<Longrightarrow> ti \<noteq> storages \<Longrightarrow> storages_root g = storages_root h"
  by (auto simp: store_root_ptr_def split: option.splits if_splits)

lemma layer_step_touches:
  assumes st: "layer_step X hv ti nullptr t h' t'" and nv: "nodes hv = nodes h" "set (fresh hv) \<subseteq> set (fresh h)" "storages_root hv = storages_root h"
  shows "touches_only h ti (tree_addrs t) h' (tree_addrs t')"
proof -
  have l: "reowned hv ti nullptr (addr_of t) (addr_of t') h'" "mset (tree_addrs t' @ fresh h') = mset (tree_addrs t @ fresh hv)"
    "set (fresh h') \<subseteq> set (fresh hv)" "\<forall>x. x \<notin> insert nullptr (set (tree_addrs t @ fresh hv)) \<longrightarrow> nodes h' x = nodes hv x"
    using st unfolding layer_step_def by - (elim conjE, assumption)+
  obtain g where g: "store_root_ptr ti (addr_of t') hv = Some g" "same_static g h'" using l(1) by (auto simp: reowned_def)
  have "storages_root h' = storages_root h" if "ti \<noteq> storages" using store_root_storages [OF g(1) that] g(2) nv(3) by (simp add: same_static_def)
  moreover have "nodes h' x = nodes h x" if "x \<notin> insert nullptr (set (tree_addrs t @ fresh h))" for x using l(4) nv(1,2) that by auto
  moreover have "set (tree_addrs t') \<subseteq> set (tree_addrs t @ fresh h)" using mset_eq_setD [OF l(2)] nv(2) by auto
  ultimately show ?thesis using l(3) nv(2) unfolding touches_only_def by blast
qed

lemma store_root_pages:
  assumes "store_root_ptr ti a h = Some g"
  shows "q \<noteq> ti - 8 \<Longrightarrow> pages g q = pages h q" and "pages h q = None \<Longrightarrow> pages g q = pages h q" 
  using assms by (auto simp: store_root_ptr_def split: if_splits option.splits)

lemma store_root_value:
  assumes g: "store_root_ptr ti a h3 = Some g" and h3: "pages h3 = pages hv" and root: "load_root_ptr ti h = Some r"
    and le: "pages h \<subseteq>\<^sub>m pages hv" and f: "\<forall>q \<in> set (fresh h). valid_ptr q \<and> pages h q = None" "\<And>x. x \<notin> set (fresh h) \<Longrightarrow> pages hv x = pages h x"
    and v: "new_word a' h v"
  shows "pages_kept h ti g" and "value_bytes (pages g) v = value_bytes (pages hv) v" and "pages_le (pages hv) (pages g)"
proof -
  show "pages_le (pages hv) (pages g)" using store_root_spec(4) [OF g] h3 by simp
  then have "pages_le (pages h) (pages g)" using pages_le_map_le [OF le] pages_le_trans by blast
  then show "pages_kept h ti g" using store_root_pages(1) [OF g] f(2) h3 by (simp add: pages_kept_def)
  show "value_bytes (pages g) v = value_bytes (pages hv) v"
  proof (cases "remove_ptr_flag v = v")
    case False
    then have q: "pages h (remove_ptr_flag v) = None" using v f(1) by (auto simp: new_word_def split: if_splits)
    have "pages g (remove_ptr_flag v) = pages hv (remove_ptr_flag v)"
    proof (cases "ti = storages")
      case True
      then show ?thesis using g h3 by (auto simp: store_root_ptr_def)
    next
      case F: False
      then have "pages h (ti - 8) \<noteq> None" using root by (auto simp: load_root_ptr_def split: option.splits)
      then show ?thesis using q h3 store_root_pages(1) [OF g, of "remove_ptr_flag v"] by metis
    qed
    then show ?thesis using False by (simp add: value_bytes_def Let_def)
  qed (simp add: value_bytes_def Let_def)
qed

lemma layer_step_pages:
  assumes st: "layer_step X hv ti nullptr t h' t'" and root: "load_root_ptr ti h = Some r" and m: "value_made a h v hv" 
    and f: "\<forall>q \<in> set (fresh h). valid_ptr q \<and> pages h q = None" "\<And>x. x \<notin> set (fresh h) \<Longrightarrow> pages hv x = pages h x"
    and v: "new_word a' h v"
  shows "pages_kept h ti h'" and "value_bytes (pages h') v = value_bytes (pages hv) v" and "pages_le (pages hv) (pages h')"
proof -
  obtain g where g: "store_root_ptr ti (addr_of t') hv = Some g" "same_static g h'" using st by (auto simp: layer_step_def reowned_def)
  have le: "pages h \<subseteq>\<^sub>m pages hv" using m by (simp add: value_made_def)
  have pg: "pages h' = pages g" using g(2) by (simp add: same_static_def)
  show "pages_kept h ti h'" "value_bytes (pages h') v = value_bytes (pages hv) v" "pages_le (pages hv) (pages h')"
    using store_root_value [OF g(1) refl root le f v] by (simp_all add: pages_kept_def pg)
qed

lemma put_garbage_old:
  assumes "w = None \<or> value_at vh (the w)" and "vh \<subseteq>\<^sub>m vh'"
  shows "put_garbage token vh' w ts = put_garbage token vh w ts"
proof (cases w)
  case (Some x)
  then have "remove_ptr_flag x \<noteq> x \<Longrightarrow> vh' (remove_ptr_flag x) = vh (remove_ptr_flag x)"
    using assms by (auto simp: value_at_def map_le_def dom_def)
  then have "need_delete vh' x = need_delete vh x" "get_gc_info vh' x = get_gc_info vh x"
    by (simp_all add: need_delete_def get_gc_info_def Let_def)
  then show ?thesis using Some by (simp add: put_garbage_def)
qed simp

lemma tree_values_at:
  "tree_at h par rt t \<Longrightarrow> (s, v) \<in> set (tree_entries t) \<Longrightarrow> value_at (pages h) v"
proof (induction t arbitrary: par rt s rule: tree_induct)
  case (Leaf p es)
  then obtain k c where c: "(k, c) \<in> set es" "(s, v) \<in> set (content_entries (key_bytes k) c)" by auto
  have "content_at h p c" using Leaf.prems(1) c(1) unfolding tree_at_Leaf by auto
  then show ?case using c Leaf.IH [of k] by (cases c) auto
next
  case (Branch p ks ts)
  then show ?case by (auto simp: tree_at_Branch)
qed

section \<open>A key in a tree\<close>

lemma put_update:
  assumes inv: "tree_inv h ti t" and a: "args_ok a" and room: "length (tree_addrs t) + layers_of key + 2 \<le> length (fresh h)"
    and tk: "token < length (thread_info_table h)"
    and old: "\<And>w. map_of (tree_entries t) key = Some w \<Longrightarrow> \<not> unique_restriction a \<and> same_kind a w"
  shows "\<exists>created inserted h' t' v. put token ti key a h = Some (OK, created, inserted, h') \<and> tree_inv h' ti t' \<and>
    map_of (tree_entries t') = (map_of (tree_entries t))(key \<mapsto> v) \<and> value_bytes (pages h') v = Some (put_bytes a) \<and>
    new_word a h v \<and> page_aligned a (pages h') v \<and> pages_kept h ti h' \<and> touches_only h ti (tree_addrs t) h' (tree_addrs t') \<and>
    thread_info_table h' = put_garbage token (pages h) (map_of (tree_entries t) key) (thread_info_table h)"
proof -
  have rep: "tree_rep h ti t" and d: "distinct (nullptr # tree_addrs t @ fresh h)"
    and f: "\<forall>q \<in> set (fresh h). valid_ptr q \<and> pages h q = None" using inv by (simp_all add: tree_inv_def)
  obtain q fs where q: "fresh h = q # fs" using room by (cases "fresh h") simp_all
  have df: "distinct (fresh h)" using d by simp
  obtain v hv where v: "value_made a h v hv" "value_bytes (pages hv) v = Some (put_bytes a)" "length fs \<le> length (fresh hv)"
    "\<forall>q \<in> set (fresh hv). valid_ptr q \<and> pages hv q = None" "\<And>x. x \<notin> set (fresh h) \<Longrightarrow> pages hv x = pages h x"
    "new_word a h v" "page_aligned a (pages hv) v"
    using value_made_ok [OF a q f df] by blast
  let ?X = "set (tree_addrs t @ fresh h)" and ?T = "put_garbage token (pages hv) (map_of (tree_entries t) key) (thread_info_table h)"
  have "length (tree_addrs t) + layers_of key + 1 \<le> length (fresh hv)" using room v(3) q by simp
  from put_layer [OF tree_inv_layer [OF inv] v(1) this old tk, of key] obtain created inserted h' t' where
    p: "put token ti key a h = Some (OK, created, inserted, h'\<lparr>thread_info_table := ?T\<rparr>)" "layer_put ?X hv ti nullptr t key v h' t'"
    unfolding put_start [OF rep] by blast
  have st: "layer_step ?X hv ti nullptr t h' t'" and m: "map_of (tree_entries t') = (map_of (tree_entries t))(key \<mapsto> v)"
    using p(2) by (simp_all add: layer_put_def)
  have mv: "put_value a h = Some (v, hv)" "pages h \<subseteq>\<^sub>m pages hv" using v(1) by (simp_all add: value_made_def)
  note k = put_value_keeps [OF mv(1)]
  have "tree_inv (h'\<lparr>thread_info_table := ?T\<rparr>) ti t'"
  proof (rule tree_inv_step [OF st _ v(4)])
    show "distinct (nullptr # tree_addrs t @ fresh hv)" using k(6) [of "nullptr # tree_addrs t"] d by simp
    show "set (tree_addrs t @ fresh hv) \<subseteq> ?X" using k(5) by auto
  qed simp_all
  moreover have "load_root_ptr ti h = Some (addr_of t)" using rep by (simp add: tree_rep_def)
  note pg = layer_step_pages [OF st this v(1) f v(5,6)]
  moreover have "?T = put_garbage token (pages h) (map_of (tree_entries t) key) (thread_info_table h)"
  proof (rule put_garbage_old [OF _ mv(2)])
    have "tree_at h nullptr True t" using rep by (simp add: tree_rep_def)
    then show "map_of (tree_entries t) key = None \<or> value_at (pages h) (the (map_of (tree_entries t) key))"
      using tree_values_at by (cases "map_of (tree_entries t) key") (auto dest: map_of_SomeD)
  qed
  moreover have "touches_only h ti (tree_addrs t) h' (tree_addrs t')" by (rule layer_step_touches [OF st k(1,5,3)])
  moreover have "page_aligned a (pages h') v" by (rule page_aligned_mono [OF pg(3) v(7)])
  ultimately show ?thesis using p(1) m v(2,6) pg
    by (intro exI [of _ created] exI [of _ inserted] exI [of _ "h'\<lparr>thread_info_table := ?T\<rparr>"] exI [of _ t'] exI [of _ v])
      (simp add: pages_kept_def touches_only_def)
qed


section \<open>The first key\<close>

text \<open>A tree instance with a null root.\<close>

definition empty_inv :: "heap \<Rightarrow> addr \<Rightarrow> bool" where
  "empty_inv h ti \<longleftrightarrow> load_root_ptr ti h = Some nullptr \<and> distinct (nullptr # fresh h) \<and>
     (\<forall>q \<in> set (fresh h). valid_ptr q \<and> pages h q = None)"

lemma leaf_parent_null: "parent (border_base b) = nullptr \<Longrightarrow> node_map_base (set_parent nullptr) (Border b) = Border b"
  by (simp add: set_border_base_def set_parent_def)

lemma first_leaf_inv:
  assumes i: "inserted_at UNIV h2 q first_border 0 0 key v qs fs h3 c" and g: "store_root_ptr ti q h3 = Some g"
    and d: "distinct (nullptr # q # qs @ fs)" and vq: "valid_ptr q" and f: "\<forall>q \<in> set fs. valid_ptr q \<and> pages h3 q = None"
  defines "t \<equiv> Leaf q [(prepare_key_slice key, c)]"
  shows "tree_inv g ti t" and "map_of (tree_entries t) = [key \<mapsto> v]"
proof -
  obtain b where b: "nodes h3 q = Some (Border b)" "entry_added first_border 0 0 (prepare_key_slice key) (lv_word c) b"
    and c: "content_addrs c = qs" and fr: "fresh h3 = fs"
    and un: "\<forall>q \<in> set qs. \<exists>b. nodes h3 q = Some (Border b) \<and> unused_ok UNIV b"
    using i by (auto simp: inserted_at_def Let_def)
  have "parent (border_base b) = nullptr" using b(2) first_border_view by (simp add: entry_added_def)
  then have n: "nodes h3 q = map_option (node_map_base (set_parent nullptr)) (nodes h3 q)" using b(1) leaf_parent_null by simp
  note nl = new_layer [OF i vq n refl refl, folded t_def]
  note sg = store_root_spec [OF g]
  have "tree_at g nullptr True t" by (rule tree_at_frame [OF nl(2)]) (simp_all add: sg(1,4))
  moreover have "linked g nullptr (map fst (layer_leaves t)) = linked h3 nullptr (map fst (layer_leaves t))"
    by (rule linked_cong) (simp add: sg(1))
  ultimately have "tree_rep g ti t" using nl(1,3) sg(3) by (simp add: tree_rep_def t_def)
  moreover have "distinct (nullptr # tree_addrs t @ fresh g)" using d nl(4) sg(2) fr by simp
  moreover have "pages g q = None \<longleftrightarrow> pages h3 q = None" for q using sg(8) by (metis domIff)
  then have "\<forall>q \<in> set (fresh g). valid_ptr q \<and> pages g q = None" using f sg(2) fr by simp
  moreover have "unused_in UNIV g (leaf_addrs t)"
    using nl(7) un leaves_of_content [of c] c unfolding unused_in_def sg(1) by (auto simp: t_def)
  then have "unused_in X g (leaf_addrs t)" for X using unused_ok_mono [of UNIV _ X] unfolding unused_in_def by blast
  ultimately show "tree_inv g ti t" by (simp add: tree_inv_def)
  show "map_of (tree_entries t) = [key \<mapsto> v]" using nl(5) by simp
qed

lemma put_first:
  assumes inv: "empty_inv h ti" and a: "args_ok a" and room: "layers_of key + 2 \<le> length (fresh h)"
  shows "\<exists>created inserted h' t' v. put token ti key a h = Some (OK, created, inserted, h') \<and> tree_inv h' ti t' \<and>
    map_of (tree_entries t') = [key \<mapsto> v] \<and> value_bytes (pages h') v = Some (put_bytes a) \<and>
    new_word a h v \<and> page_aligned a (pages h') v \<and> pages_kept h ti h' \<and> touches_only h ti [] h' (tree_addrs t') \<and> thread_info_table h' = thread_info_table h"
proof -
  have root: "load_root_ptr ti h = Some nullptr" and d: "distinct (nullptr # fresh h)"
    and f: "\<forall>q \<in> set (fresh h). valid_ptr q \<and> pages h q = None" using inv by (simp_all add: empty_inv_def)
  obtain q q' fs where q: "fresh h = q # q' # fs" using room by (cases "fresh h"; cases "tl (fresh h)") auto
  let ?h1 = "set_node q (Border new_border_node) (h\<lparr>fresh := q' # fs\<rparr>)"
  have n1: "new_node (Border new_border_node) h = Some (q, ?h1)" using q by (simp add: new_node_def)
  have f1: "\<forall>q \<in> set (fresh ?h1). valid_ptr q \<and> pages ?h1 q = None" "distinct (fresh ?h1)" "fresh ?h1 = q' # fs" using f d q by simp_all
  obtain v hv where v: "value_made a ?h1 v hv" "value_bytes (pages hv) v = Some (put_bytes a)" "length fs \<le> length (fresh hv)"
    "\<forall>q \<in> set (fresh hv). valid_ptr q \<and> pages hv q = None" "\<And>x. x \<notin> set (fresh ?h1) \<Longrightarrow> pages hv x = pages ?h1 x"
    "new_word a ?h1 v" "page_aligned a (pages hv) v"
    using value_made_ok [OF a f1(3,1,2)] by blast
  have mv: "put_value a ?h1 = Some (v, hv)" "value_word v" "value_at (pages hv) v" "pages h \<subseteq>\<^sub>m pages hv" using v(1) by (simp_all add: value_made_def)
  note k = put_value_keeps [OF mv(1)]
  have dv: "distinct (nullptr # q # fresh hv)" using k(6) [of "[nullptr, q]"] d f1(3) q by simp
  define qs fs' where "qs = take (layers_of key) (fresh hv)" and "fs' = drop (layers_of key) (fresh hv)"
  let ?h2 = "set_node q (Border first_border) hv"
  have q2: "fresh ?h2 = qs @ fs'" "length qs = layers_of key" "distinct (q # qs)" "\<forall>q \<in> set qs. valid_ptr q" "set qs \<subseteq> set (fresh hv)"
    using v(3,4) room q dv by (auto simp: qs_def fs'_def dest: in_set_takeD)
  have n2: "nodes ?h2 q = Some (Border first_border)" and r2: "0 = rank_le (prepare_key_slice key) (border_keys first_border)" and v2: "value_at (pages ?h2) v"
    using mv(3) by (simp_all add: rank_le_def first_border_view)
  obtain created h3 c where i: "insert_lv_at q 0 key v (created_given a) 0 ?h2 = Some (created, h3)" "inserted_at UNIV ?h2 q first_border 0 0 key v qs fs' h3 c"
    using insert_lv_at_spec [OF n2 first_border_free r2 mv(2) v2 q2(1-4)] by blast
  have ib: "init_border_with q key v (created_given a) True hv = Some (created, h3)"
    using i(1) k(1) by (subst init_border_with_eq) simp_all
  have s3: "same_static ?h2 h3" "fresh h3 = fs'" using i(2) by (simp_all add: inserted_at_def Let_def)
  then have p3: "pages h3 = pages hv" "storages_root h3 = storages_root hv" "thread_info_table h3 = thread_info_table hv"
    by (simp_all add: same_static_def)
  have "load_root_ptr ti h3 = Some nullptr" using load_root_map_le [OF root, of h3] mv(4) p3 k(3) by simp
  then obtain g where g: "store_root_ptr ti q h3 = Some g" by (rule store_root_some)
  let ?t = "Leaf q [(prepare_key_slice key, c)]"
  have "put_step token ti key a (Root_Nullptr, h) = Some (Return (OK, created, Some q, g))"
    using root n1 mv(1) ib g by (simp add: put_root_nullptr_def put_value_def)
  then have "put token ti key a h = Some (OK, created, Some q, g)" unfolding put_def by (rule run_Return)
  moreover have "tree_inv g ti ?t" "map_of (tree_entries ?t) = [key \<mapsto> v]"
  proof -
    have "distinct (nullptr # q # qs @ fs')" using dv by (simp add: qs_def fs'_def)
    moreover have "\<forall>q \<in> set fs'. valid_ptr q \<and> pages h3 q = None" using v(4) p3(1) by (auto simp: fs'_def dest: in_set_dropD)
    moreover have "valid_ptr q" using f q by simp
    ultimately show "tree_inv g ti ?t" "map_of (tree_entries ?t) = [key \<mapsto> v]" using first_leaf_inv [OF i(2) g] by blast+
  qed
  moreover have nw: "new_word a h v" using v(6) q by (auto simp: new_word_def split: if_splits)
  moreover have "pages_kept h ti g" "value_bytes (pages g) v = Some (put_bytes a)" "pages_le (pages hv) (pages g)"
    using store_root_value [OF g p3(1) root mv(4) f _ nw] v(2,5) q by auto
  moreover from this(3) have "page_aligned a (pages g) v" by (rule page_aligned_mono [OF _ v(7)])
  moreover have "thread_info_table g = thread_info_table h" using store_root_spec(5) [OF g] p3(3) k(2) by simp
  moreover have "touches_only h ti [] g (tree_addrs ?t)"
  proof -
    have c: "content_addrs c = qs" "\<forall>x. x \<notin> insert q (set qs) \<longrightarrow> nodes h3 x = nodes ?h2 x" using i(2) by (auto simp: inserted_at_def Let_def)
    have "nodes g x = nodes h x" if "x \<notin> set (fresh h)" for x
    proof -
      have "x \<notin> insert q (set qs)" using that q2(5) k(5) q by auto
      then show ?thesis using c(2) store_root_spec(1) [OF g] k(1) by simp
    qed
    moreover have "set (tree_addrs ?t) \<subseteq> set (fresh h)" "set (fresh g) \<subseteq> set (fresh h)"
      using c(1) q2(5) k(5) q store_root_spec(2) [OF g] s3(2) by (auto simp: fs'_def dest: in_set_dropD)
    moreover have "storages_root g = storages_root h" if "ti \<noteq> storages" using store_root_storages [OF g that] p3(2) k(3) by simp
    ultimately show ?thesis by (simp add: touches_only_def)
  qed
  ultimately show ?thesis by blast
qed

section \<open>A key that must be new\<close>

lemma put_layer_unique:
  assumes "tree_wf t" and "tree_at h par True t" and "map_of (tree_entries t) s = Some w" and "unique_restriction a"
  shows "run (put_step token ti key a) (Retry_Find_Border (addr_of t) s, h) = Some (WARN_UNIQUE_RESTRICTION, None, None, h)"
  using assms(1-3)
proof (induction "length s" arbitrary: s t par rule: less_induct)
  case less
  let ?k = "prepare_key_slice s" and ?run = "run (put_step token ti key a)"
  obtain p es where d: "descend ?k t = (p, es)" by (rule prod.exhaust)
  obtain b where b: "find_border (addr_of t) ?k h = Some (p, version (border_base b), OK)" "leaf_at h (p, es) b"
    using find_border_descend [OF less.prems(1,2) descends_like_refl [OF canonical_prepare [of s]]] d by auto
  have es: "map_of (layer_entries t) ?k = map_of es ?k" using descend_lookup [OF less.prems(1), of ?k] d by simp
  have start: "?run (Retry_Find_Border (addr_of t) s, h) = ?run (Retry_Fetch_Lv s p (version (border_base b)), h)"
    by (rule run_Goto) (simp add: put_find_border_def b(1))
  obtain c where c: "map_of es ?k = Some c" using less.prems(3) map_of_tree_entries [OF less.prems(1), of s] es by (auto split: option.splits)
  note cw = leaf_content [OF b(2) c]
  show ?case
  proof (cases c)
    case (Val v)
    then show ?thesis unfolding start using c assms(4)
      by (intro run_Return) (simp add: put_fetch_lv_eq [OF b(2)] put_old_key_def)
  next
    case (Sub u)
    have "?run (Retry_Fetch_Lv s p (version (border_base b)), h) = ?run (Retry_Find_Border (addr_of u) (drop slice_size s), h)"
      using c Sub by (intro run_Goto) (simp add: put_fetch_lv_eq [OF b(2)])
    moreover have "length (drop slice_size s) < length s" using cw Sub prepare_length [of s] by auto
    moreover have "map_of (tree_entries u) (drop slice_size s) = Some w"
      using less.prems(3) map_of_tree_entries [OF less.prems(1), of s] es c Sub by simp
    ultimately show ?thesis using start less.hyps [of "drop slice_size s" u p] cw Sub by simp
  qed
qed

lemma put_unique:
  assumes "tree_rep h ti t" and "map_of (tree_entries t) key = Some w" and "unique_restriction a"
  shows "put token ti key a h = Some (WARN_UNIQUE_RESTRICTION, None, None, h)"
proof -
  have "tree_wf t" "tree_at h nullptr True t" using assms(1) by (simp_all add: tree_rep_def)
  then show ?thesis unfolding put_start [OF assms(1)] using assms(2,3) by (rule put_layer_unique)
qed

section \<open>A sample tree with room\<close>

definition roomy_heap :: heap where
  "roomy_heap = sample_heap\<lparr>fresh := [320, 384, 448, 512, 576, 640, 704, 768]\<rparr>"

lemma roomy_heap_fields:
  "fresh roomy_heap = [320, 384, 448, 512, 576, 640, 704, 768]" "pages roomy_heap = Map.empty" "length (thread_info_table roomy_heap) = 1"
  by (simp_all add: roomy_heap_def sample_heap_def initial_heap_def)

definition inline_args :: put_args where
  "inline_args = \<lparr>kIsInline = True, v_ptr = [0, 8, 0, 0, 0, 0, 0, 0], v_len = 8, v_align = 8, unique_restriction = False, created_given = False\<rparr>"

lemma roomy_heap_rep: "tree_rep roomy_heap storages sample_tree"
proof -
  have r: "load_root_ptr storages sample_heap = Some (addr_of sample_tree)" "tree_wf sample_tree" "tree_at sample_heap nullptr True sample_tree"
    "linked sample_heap nullptr (map fst (layer_leaves sample_tree))" using sample_tree_rep by (simp_all add: tree_rep_def)
  have n: "nodes roomy_heap = nodes sample_heap" "pages roomy_heap = pages sample_heap" by (simp_all add: roomy_heap_def)
  have "load_root_ptr storages roomy_heap = Some (addr_of sample_tree)" using r(1) by (simp add: load_root_ptr_def roomy_heap_def)
  moreover have "tree_at roomy_heap nullptr True sample_tree" by (rule tree_at_frame [OF r(3)]) (simp_all add: n)
  moreover have "linked roomy_heap nullptr (map fst (layer_leaves sample_tree)) = linked sample_heap nullptr (map fst (layer_leaves sample_tree))"
    by (rule linked_cong) (simp add: n)
  ultimately show ?thesis using r(2,4) by (simp add: tree_rep_def)
qed

lemma plain_leaf_unused:
  assumes "es \<noteq> []" and "length es \<le> key_slice_length"
  shows "\<exists>b. plain_leaf par rt l r es = Border b \<and> unused_ok X b"
proof -
  have "perm_list (split_dest (length es)) = [0..<length es]" using assms by (intro perm_list_split_dest) (cases es, simp_all)
  then show ?thesis using assms by (auto simp: plain_leaf_def unused_ok_def nth_append)
qed

lemma roomy_heap_inv: "tree_inv roomy_heap storages sample_tree"
proof -
  note f = roomy_heap_fields
  have "distinct (nullptr # tree_addrs sample_tree @ [320, 384, 448, 512, 576, 640, 704, 768])"
    "\<forall>q \<in> set [320, 384, 448, 512, 576, 640, 704, 768]. valid_ptr q" by code_simp+
  then have "distinct (nullptr # tree_addrs sample_tree @ fresh roomy_heap)" "\<forall>q \<in> set (fresh roomy_heap). valid_ptr q \<and> pages roomy_heap q = None"
    unfolding f by simp_all
  moreover have l: "leaf_addrs sample_tree = [64, 128, 256]" by code_simp
  have "unused_in X roomy_heap (leaf_addrs sample_tree)" for X
    unfolding l by (simp add: unused_in_def roomy_heap_def sample_heap_def plain_leaf_unused sample_lower_def sample_higher_def sample_layer_def)
  ultimately show ?thesis using roomy_heap_rep unfolding tree_inv_def by blast
qed

section \<open>Properties\<close>

text \<open>
  C2. \<^verbatim>\<open>put\<close> refines the update of a map from byte strings to values: on a heap that holds a
  tree of any number of layers, with no other thread under way and memory left, it returns
  \<^verbatim>\<open>OK\<close> and a heap with a tree that maps the key to a value with the bytes of the call and
  every other key as before, whether the key is new (with or without splits up to the root,
  with or without new layers) or is there already; the invariant of the tree holds again, the
  page of a replaced value is handed to the session's garbage with its begin epoch, and no
  other value page changes.
\<close>

theorem put_refines_update:
  assumes "tree_inv h ti t" and "args_ok a" and "length (tree_addrs t) + layers_of key + 2 \<le> length (fresh h)"
    and "token < length (thread_info_table h)"
    and "\<And>w. map_of (tree_entries t) key = Some w \<Longrightarrow> \<not> unique_restriction a \<and> same_kind a w"
  shows "\<exists>created inserted h' t' v. put token ti key a h = Some (OK, created, inserted, h') \<and> tree_inv h' ti t' \<and>
    map_of (tree_entries t') = (map_of (tree_entries t))(key \<mapsto> v) \<and> value_bytes (pages h') v = Some (put_bytes a) \<and>
    new_word a h v \<and> page_aligned a (pages h') v \<and> pages_kept h ti h' \<and> touches_only h ti (tree_addrs t) h' (tree_addrs t') \<and>
    thread_info_table h' = put_garbage token (pages h) (map_of (tree_entries t) key) (thread_info_table h)"
  by (rule put_update [OF assms])

theorem put_refines_update_witness:
  "tree_inv roomy_heap storages sample_tree \<and>
   (\<exists>created inserted h' t' v. put 0 storages (replicate 9 18) inline_args roomy_heap = Some (OK, created, inserted, h') \<and>
      tree_inv h' storages t' \<and> map_of (tree_entries t') = (map_of (tree_entries sample_tree))(replicate 9 18 \<mapsto> v) \<and>
      value_bytes (pages h') v = Some [0, 8, 0, 0, 0, 0, 0, 0])"
proof -
  have n: "map_of (tree_entries sample_tree) (replicate 9 18) = None" by code_simp
  have "length (tree_addrs sample_tree) + layers_of (replicate 9 18) + 2 \<le> 8" by code_simp
  then have r: "length (tree_addrs sample_tree) + layers_of (replicate 9 18) + 2 \<le> length (fresh roomy_heap)"
    "0 < length (thread_info_table roomy_heap)" by (simp_all add: roomy_heap_fields)
  have "valid_ptr (slice_of_bytes (take 8 (v_ptr inline_args)))" by code_simp
  then have a: "args_ok inline_args" by (simp add: args_ok_def inline_args_def)
  have b: "put_bytes inline_args = [0, 8, 0, 0, 0, 0, 0, 0]" by code_simp
  have old: "\<not> unique_restriction inline_args \<and> same_kind inline_args w" if "map_of (tree_entries sample_tree) (replicate 9 18) = Some w" for w
    using that n by simp
  show ?thesis using put_refines_update [OF roomy_heap_inv a r old] roomy_heap_inv unfolding b by blast
qed

end
