(* ===== verification/Remove_Refinement.thy ===== *)
theory Remove_Refinement
  imports Remove_Layer Put_Refinement
begin

text \<open>
  \<^verbatim>\<open>remove\<close> on a whole tree refines the deletion of a key from a map, keeps the invariant of
  the tree and hands every node and value page that it takes out to the session, once.
\<close>

section \<open>The invariant\<close>

text \<open>Pages differ in the delete flag at most, the one with the root pointer apart.\<close>

definition pages_flagged :: "heap \<Rightarrow> addr \<Rightarrow> heap \<Rightarrow> bool" where
  "pages_flagged h ti h' \<longleftrightarrow> (\<forall>q. q \<noteq> ti - 8 \<longrightarrow>
     map_option (need_delete_flag_update (\<lambda>_. True)) (pages h' q) = map_option (need_delete_flag_update (\<lambda>_. True)) (pages h q))"

lemma flagged_bytes:
  assumes "pages_flagged h ti h'" and "remove_ptr_flag v \<noteq> v \<longrightarrow> remove_ptr_flag v \<noteq> ti - 8"
  shows "value_bytes (pages h') v = value_bytes (pages h) v"
proof (cases "remove_ptr_flag v = v")
  case False
  let ?f = "need_delete_flag_update (\<lambda>_. True)" and ?p = "remove_ptr_flag v"
  have e: "map_option ?f (pages h' ?p) = map_option ?f (pages h ?p)" using assms False by (simp add: pages_flagged_def)
  have b: "map_option body x = map_option body (map_option ?f x)" for x by (cases x) simp_all
  have "map_option body (pages h' ?p) = map_option body (pages h ?p)" unfolding b [of "pages h' ?p"] b [of "pages h ?p"] e ..
  then show ?thesis using False by (simp add: value_bytes_def Let_def)
qed (simp add: value_bytes_def Let_def)

lemma trimmed_inv:
  assumes inv: "tree_inv h ti t" and tr: "trimmed (set (tree_addrs t @ fresh h)) h ti nullptr t R h' t'"
  shows "tree_inv h' ti t'" and "pages_flagged h ti h'" and "touches_only h ti (tree_addrs t) h' (tree_addrs t')" and "pages_le (pages h) (pages h')"
proof -
  let ?X = "set (tree_addrs t @ fresh h)"
  have d: "distinct (nullptr # tree_addrs t @ fresh h)" and f: "\<forall>q \<in> set (fresh h). valid_ptr q \<and> pages h q = None"
    using inv by (simp_all add: tree_inv_def)
  have l: "tree_wf t'" "tree_at h' nullptr True t'" "linked h' nullptr (map fst (layer_leaves t'))"
    "rerooted h ti nullptr (addr_of t) (addr_of t') h'" "mset (tree_addrs t) = mset (tree_addrs t' @ R)" "unused_in (?X - set R) h' (leaf_addrs t')"
    "\<forall>x. x \<notin> insert nullptr (set (tree_addrs t)) \<longrightarrow> nodes h' x = nodes h x"
    using tr unfolding trimmed_def by - (elim conjE, assumption)+
  obtain g where g: "store_root_ptr ti (addr_of t') h = Some g" "quiet g h'" using l(4) by (auto simp: rerooted_def)
  note sg = store_root_spec [OF g(1)]
  have q: "pages_like (pages g) (pages h')" "fresh h' = fresh h" using g(2) sg(2) by (simp_all add: quiet_def)
  show "pages_flagged h ti h'" using q(1) store_root_pages(1) [OF g(1)] by (simp add: pages_flagged_def pages_like_def)
  show "pages_le (pages h) (pages h')" using pages_le_trans [OF sg(4) pages_like_le [OF q(1)]] .
  have "storages_root h' = storages_root h" if "ti \<noteq> storages" using store_root_storages [OF g(1) that] g(2) by (simp add: quiet_def)
  then show "touches_only h ti (tree_addrs t) h' (tree_addrs t')" using l(7) mset_eq_setD [OF l(5)] q(2) by (auto simp: touches_only_def)
  have ms: "mset (nullptr # (tree_addrs t' @ R) @ fresh h) = mset (nullptr # tree_addrs t @ fresh h)" using l(5) by simp
  have d': "distinct (nullptr # (tree_addrs t' @ R) @ fresh h)" using d mset_eq_imp_distinct_iff [OF ms] by blast
  have "load_root_ptr ti h' = Some (addr_of t')" by (rule quiet_root [OF g(2) sg(3)])
  then have "tree_rep h' ti t'" using l(1-3) by (simp add: tree_rep_def)
  moreover have "distinct (nullptr # tree_addrs t' @ fresh h')" using d' q(2) by auto
  moreover have "pages h' x = None" if "pages h x = None" for x
    using that pages_like_None [OF q(1)] sg(8) by (metis domIff)
  then have "\<forall>q \<in> set (fresh h'). valid_ptr q \<and> pages h' q = None" using f q(2) by simp
  moreover have "unused_in (set (tree_addrs t' @ fresh h')) h' (leaf_addrs t')"
  proof (rule unused_in_mono [OF l(6)])
    have "?X = set ((tree_addrs t' @ R) @ fresh h)" using mset_eq_setD [OF l(5)] by auto
    then show "set (tree_addrs t' @ fresh h') \<subseteq> ?X - set R" using d' q(2) by auto
  qed
  ultimately show "tree_inv h' ti t'" unfolding tree_inv_def by blast
qed

section \<open>A key in a tree\<close>

lemma remove_start:
  assumes "tree_rep h ti t"
  shows "remove token ti key h = run (remove_step token ti key) (Retry_Find_Border (addr_of t) key, h)"
proof -
  have "addr_of t \<noteq> nullptr" using assms tree_wf_valid_ptr by (auto simp: tree_rep_def valid_ptr_def)
  then show ?thesis unfolding remove_def using assms by (intro run_Goto) (simp add: remove_from_root_def tree_rep_def)
qed

lemma remove_delete:
  assumes inv: "tree_inv h ti t" and v: "map_of (tree_entries t) key = Some v" and tk: "token < length (thread_info_table h)"
  shows "\<exists>h' t' R. remove token ti key h = Some (OK, h') \<and> tree_inv h' ti t' \<and>
    map_of (tree_entries t') = (map_of (tree_entries t))(key := None) \<and> mset (tree_addrs t) = mset (tree_addrs t' @ R) \<and>
    pages_flagged h ti h' \<and> pages_le (pages h) (pages h') \<and> touches_only h ti (tree_addrs t) h' (tree_addrs t') \<and>
    thread_info_table h' = retired token R (value_retired token (pages h) v (thread_info_table h))"
proof -
  have rep: "tree_rep h ti t" and root: "load_root_ptr ti h = Some (addr_of t)" using inv by (simp_all add: tree_inv_def tree_rep_def)
  let ?X = "set (tree_addrs t @ fresh h)"
  obtain go where go: "remove token ti key h = map_option (\<lambda>h. (OK, h)) go"
    "(\<exists>h'. go = Some h' \<and> layer_removed token ?X h ti nullptr t key v h') \<or> layer_dropped token h ti nullptr t key v go"
    using remove_layer [OF tree_inv_layer [OF inv] v tk root, of key] unfolding remove_start [OF rep] by blast
  then obtain h' t' R where r: "go = Some h'" "trimmed ?X h ti nullptr t R h' t'" "map_of (tree_entries t') = (map_of (tree_entries t))(key := None)"
    "thread_info_table h' = retired token R (value_retired token (pages h) v (thread_info_table h))"
    unfolding layer_dropped_def layer_removed_def by blast
  moreover have "mset (tree_addrs t) = mset (tree_addrs t' @ R)" using r(2) by (simp add: trimmed_def)
  ultimately show ?thesis using trimmed_inv [OF inv r(2)] go(1) by auto
qed

lemma remove_layer_absent:
  assumes "tree_wf t" and "tree_at h par True t" and "map_of (tree_entries t) s = None"
  shows "run (remove_step token ti key) (Retry_Find_Border (addr_of t) s, h) = Some (OK_NOT_FOUND, h)"
  using assms
proof (induction "length s" arbitrary: s t par rule: less_induct)
  case less
  let ?k = "prepare_key_slice s" and ?run = "run (remove_step token ti key)"
  obtain p es where d: "descend ?k t = (p, es)" by (rule prod.exhaust)
  obtain b where b: "find_border (addr_of t) ?k h = Some (p, version (border_base b), OK)" "leaf_at h (p, es) b"
    using find_border_descend [OF less.prems(1,2) descends_like_refl [OF canonical_prepare [of s]]] d by auto
  have nb: "nodes h p = Some (Border b)" "p \<noteq> nullptr" using b(2) by (simp_all add: leaf_at_def)
  have look: "map_of (tree_entries t) s = (case map_of es ?k of None \<Rightarrow> None | Some (Val v) \<Rightarrow> Some v | Some (Sub u) \<Rightarrow> map_of (tree_entries u) (drop 8 s))"
    using map_of_tree_entries [OF less.prems(1), of s] descend_lookup [OF less.prems(1), of ?k] d by simp
  have start: "?run (Retry_Find_Border (addr_of t) s, h) = ?run (Retry_Fetch_Lv s p (version (border_base b)), h)"
    by (rule run_Goto) (simp add: remove_find_border_def b(1) nb get_border_def)
  consider "map_of es ?k = None" | u where "map_of es ?k = Some (Sub u)"
    using look less.prems(3) by (cases "map_of es ?k") (auto split: content.splits)
  then show ?case
  proof cases
    case 1
    have "?run (Retry_Fetch_Lv s p (version (border_base b)), h) = Some (OK_NOT_FOUND, h)"
      by (rule run_Return) (simp add: remove_fetch_lv_eq [OF b(2)] 1)
    then show ?thesis using start by simp
  next
    case 2
    have c: "content_wf ?k (Sub u)" "content_at h p (Sub u)" using leaf_content [OF b(2) 2] by simp_all
    then have lt: "length (drop slice_size s) < length s" using prepare_length [of s] by auto
    have "?run (Retry_Find_Border (addr_of u) (drop slice_size s), h) = Some (OK_NOT_FOUND, h)"
      by (rule less.hyps [OF lt, of u p]) (use c look 2 less.prems(3) in simp_all)
    moreover have "?run (Retry_Fetch_Lv s p (version (border_base b)), h) = ?run (Retry_Find_Border (addr_of u) (drop slice_size s), h)"
      by (rule run_Goto) (simp add: remove_fetch_lv_eq [OF b(2)] 2)
    ultimately show ?thesis using start by simp
  qed
qed

lemma remove_absent:
  assumes "tree_rep h ti t" and "map_of (tree_entries t) key = None"
  shows "remove token ti key h = Some (OK_NOT_FOUND, h)"
  using remove_layer_absent [of t h nullptr key token ti key] assms remove_start [OF assms(1)] by (simp add: tree_rep_def)

lemma remove_empty: "load_root_ptr ti h = Some nullptr \<Longrightarrow> remove token ti key h = Some (OK_ROOT_IS_NULL, h)"
  unfolding remove_def by (rule run_Return) (simp add: remove_from_root_def)

section \<open>Property\<close>

text \<open>
  C3. \<^verbatim>\<open>remove\<close> of a key that is there returns \<^verbatim>\<open>OK\<close> and refines the deletion from a map:
  exactly that key is gone, through emptied leaves that leave the list of leaves and their
  branch, branches that make place for their last child, and layers that disappear one after
  the other. The invariant of the tree holds again, no other value changes its bytes, and
  the session has got the value page and every node that is no longer part of the tree, each
  of them once, to be released when no other session can reach them.
\<close>

theorem remove_refines_delete:
  assumes "tree_inv h ti t" and "map_of (tree_entries t) key = Some v" and "token < length (thread_info_table h)"
  shows "\<exists>h' t' R. remove token ti key h = Some (OK, h') \<and> tree_inv h' ti t' \<and>
    map_of (tree_entries t') = (map_of (tree_entries t))(key := None) \<and> mset (tree_addrs t) = mset (tree_addrs t' @ R) \<and>
    pages_flagged h ti h' \<and> pages_le (pages h) (pages h') \<and> touches_only h ti (tree_addrs t) h' (tree_addrs t') \<and>
    thread_info_table h' = retired token R (value_retired token (pages h) v (thread_info_table h))"
  by (rule remove_delete [OF assms])

theorem remove_refines_delete_witness:
  "tree_inv roomy_heap storages sample_tree \<and>
   (\<exists>h' t'. remove 0 storages (replicate 9 17) roomy_heap = Some (OK, h') \<and> tree_inv h' storages t' \<and>
      map_of (tree_entries t') = (map_of (tree_entries sample_tree))(replicate 9 17 := None))"
proof -
  have m: "map_of (tree_entries sample_tree) (replicate 9 17) = Some 117" by code_simp
  have r: "0 < length (thread_info_table roomy_heap)" by (simp add: roomy_heap_fields)
  show ?thesis using remove_refines_delete [OF roomy_heap_inv m r] roomy_heap_inv by blast
qed

end
