(* ===== verification/Put_Trace.thy ===== *)
theory Put_Trace
  imports Remove_Refinement
begin

text \<open>
  A storage from its first \<^verbatim>\<open>put\<close> on: the states that sequences of calls of \<^verbatim>\<open>put\<close> and
  \<^verbatim>\<open>remove\<close> reach, what they hold, and what \<^verbatim>\<open>get\<close> and the next call do in each of them.
\<close>

section \<open>Storages\<close>

text \<open>The tree of a storage, if it has one yet.\<close>

definition store_inv :: "heap \<Rightarrow> addr \<Rightarrow> tree option \<Rightarrow> bool" where
  "store_inv h ti ot \<longleftrightarrow> (case ot of None \<Rightarrow> empty_inv h ti | Some t \<Rightarrow> tree_inv h ti t)"

definition store_map :: "tree option \<Rightarrow> byte list \<rightharpoonup> 64 word" where
  "store_map ot = (case ot of None \<Rightarrow> Map.empty | Some t \<Rightarrow> map_of (tree_entries t))"

definition store_addrs :: "tree option \<Rightarrow> addr list" where
  "store_addrs ot = (case ot of None \<Rightarrow> [] | Some t \<Rightarrow> tree_addrs t)"

lemmas store_defs = store_inv_def store_map_def store_addrs_def

text \<open>What a call of \<^verbatim>\<open>put\<close> that stores its value leaves behind.\<close>

definition put_done :: "Token \<Rightarrow> addr \<Rightarrow> byte list \<Rightarrow> put_args \<Rightarrow> heap \<Rightarrow> tree option \<Rightarrow> heap \<Rightarrow> tree option \<Rightarrow> 64 word \<Rightarrow> bool" where
  "put_done token ti key a h ot h' ot' v \<longleftrightarrow> store_inv h' ti ot' \<and> store_map ot' = (store_map ot)(key \<mapsto> v) \<and>
     value_bytes (pages h') v = Some (put_bytes a) \<and> new_word a h v \<and> page_aligned a (pages h') v \<and> pages_kept h ti h' \<and>
     touches_only h ti (store_addrs ot) h' (store_addrs ot') \<and>
     thread_info_table h' = put_garbage token (pages h) (store_map ot key) (thread_info_table h)"

lemma store_put:
  assumes "store_inv h ti ot" and "args_ok a" and "length (store_addrs ot) + layers_of key + 2 \<le> length (fresh h)"
    and "token < length (thread_info_table h)" and "\<And>w. store_map ot key = Some w \<Longrightarrow> same_kind a w"
    and "\<not> (unique_restriction a \<and> key \<in> dom (store_map ot))"
  shows "\<exists>created inserted h' ot' v. put token ti key a h = Some (OK, created, inserted, h') \<and> put_done token ti key a h ot h' ot' v"
proof (cases ot)
  case None
  then obtain created inserted h' t' v where "put token ti key a h = Some (OK, created, inserted, h')" "tree_inv h' ti t'"
    "map_of (tree_entries t') = [key \<mapsto> v]" "value_bytes (pages h') v = Some (put_bytes a)" "new_word a h v" "page_aligned a (pages h') v" "pages_kept h ti h'"
    "touches_only h ti [] h' (tree_addrs t')" "thread_info_table h' = thread_info_table h"
    using put_first [of h ti a key token] assms(1-3) by (auto simp: store_defs)
  then show ?thesis using None
    by (intro exI [of _ created] exI [of _ inserted] exI [of _ h'] exI [of _ "Some t'"] exI [of _ v]) (simp add: put_done_def store_defs)
next
  case (Some t)
  have old: "\<not> unique_restriction a \<and> same_kind a w" if "map_of (tree_entries t) key = Some w" for w
    using assms(5,6) that Some by (auto simp: store_map_def)
  have pre: "tree_inv h ti t" "length (tree_addrs t) + layers_of key + 2 \<le> length (fresh h)" using assms(1,3) Some by (simp_all add: store_defs)
  obtain created inserted h' t' v where "put token ti key a h = Some (OK, created, inserted, h')" "tree_inv h' ti t'"
    "map_of (tree_entries t') = (map_of (tree_entries t))(key \<mapsto> v)" "value_bytes (pages h') v = Some (put_bytes a)" "new_word a h v"
    "page_aligned a (pages h') v" "pages_kept h ti h'" "touches_only h ti (tree_addrs t) h' (tree_addrs t')" "thread_info_table h' = put_garbage token (pages h) (map_of (tree_entries t) key) (thread_info_table h)"
    using put_update [OF pre(1) assms(2) pre(2) assms(4) old] by blast
  then show ?thesis using Some
    by (intro exI [of _ created] exI [of _ inserted] exI [of _ h'] exI [of _ "Some t'"] exI [of _ v]) (simp add: put_done_def store_defs)
qed

lemma store_put_unique:
  assumes "store_inv h ti ot" and "unique_restriction a" and "key \<in> dom (store_map ot)"
  shows "put token ti key a h = Some (WARN_UNIQUE_RESTRICTION, None, None, h)"
proof -
  obtain t w where t: "ot = Some t" "map_of (tree_entries t) key = Some w" using assms(3) by (auto simp: store_map_def split: option.splits)
  then have "tree_rep h ti t" using assms(1) by (simp add: store_inv_def tree_inv_def)
  then show ?thesis using put_unique [OF _ t(2) assms(2)] by blast
qed

lemma store_get:
  assumes "store_inv h ti ot"
  shows "get ti key h = Some (case store_map ot key of
     None \<Rightarrow> (WARN_NOT_EXIST, None) | Some v \<Rightarrow> (OK, Some (value_view (pages h) v)))"
proof (cases ot)
  case None
  then have "get_step ti key h Retry_From_Root = Some (Return (WARN_NOT_EXIST, None))"
    using assms by (simp add: store_inv_def empty_inv_def get_from_root_def)
  then show ?thesis using None run_Return [of "get_step ti key h"] by (simp add: get_def store_map_def)
next
  case (Some t)
  then have "tree_rep h ti t" using assms by (simp add: store_inv_def tree_inv_def)
  then show ?thesis using get_lookup [of h ti t key] Some by (simp add: store_map_def)
qed

text \<open>\<^verbatim>\<open>remove\<close>, with the status of a key that is not there.\<close>

lemma length_value_retired: "length (value_retired token vh w ts) = length ts"
  by (simp add: value_retired_def)

definition remove_status :: "tree option \<Rightarrow> byte list \<Rightarrow> status" where
  "remove_status ot key = (case ot of None \<Rightarrow> OK_ROOT_IS_NULL | Some t \<Rightarrow> if key \<in> dom (map_of (tree_entries t)) then OK else OK_NOT_FOUND)"

lemma store_remove:
  assumes "store_inv h ti ot" and "token < length (thread_info_table h)"
  shows "\<exists>h' ot'. remove token ti key h = Some (remove_status ot key, h') \<and> store_inv h' ti ot' \<and>
    store_map ot' = (store_map ot)(key := None) \<and> pages_flagged h ti h' \<and> pages_le (pages h) (pages h') \<and>
    touches_only h ti (store_addrs ot) h' (store_addrs ot') \<and> (ot' = None \<longleftrightarrow> ot = None) \<and>
    length (thread_info_table h') = length (thread_info_table h) \<and> (key \<notin> dom (store_map ot) \<longrightarrow> h' = h)"
proof -
  have refl: "pages_flagged h ti h" "touches_only h ti (store_addrs ot) h (store_addrs ot)" by (auto simp: pages_flagged_def touches_only_def)
  show ?thesis
  proof (cases "store_map ot key")
    case None
    then have m: "(store_map ot)(key := None) = store_map ot" by (simp add: fun_upd_idem)
    have "remove token ti key h = Some (remove_status ot key, h)"
    proof (cases ot)
      case None
      then show ?thesis using assms(1) remove_empty by (simp add: remove_status_def store_inv_def empty_inv_def)
    next
      case (Some t)
      moreover have "map_of (tree_entries t) key = None" using None Some by (simp add: store_map_def)
      moreover have "tree_rep h ti t" using assms(1) Some by (simp add: store_inv_def tree_inv_def)
      ultimately show ?thesis using remove_absent by (simp add: remove_status_def domIff)
    qed
    then show ?thesis using m assms(1) refl by (intro exI [of _ h] exI [of _ ot]) simp
  next
    case (Some v)
    then obtain t where t: "ot = Some t" "map_of (tree_entries t) key = Some v" by (auto simp: store_map_def split: option.splits)
    then have inv: "tree_inv h ti t" using assms(1) by (simp add: store_inv_def)
    obtain h' t' where "remove token ti key h = Some (OK, h')" "tree_inv h' ti t'" "map_of (tree_entries t') = (map_of (tree_entries t))(key := None)"
      "pages_flagged h ti h'" "pages_le (pages h) (pages h')" "touches_only h ti (tree_addrs t) h' (tree_addrs t')"
      "length (thread_info_table h') = length (thread_info_table h)"
      using remove_delete [OF inv t(2) assms(2)] by (metis retired_simps(1) length_value_retired)
    then show ?thesis using t by (intro exI [of _ h'] exI [of _ "Some t'"]) (simp add: store_defs remove_status_def domI)
  qed
qed

section \<open>Reachable states\<close>

text \<open>
  The calls a client may make of a storage whose values are of one kind, inline or not: with
  arguments that can be stored and memory for as many nodes as there are, the new layers, a
  leaf and a value.
\<close>

definition put_allowed :: "bool \<Rightarrow> Token \<Rightarrow> byte list \<Rightarrow> put_args \<Rightarrow> heap \<Rightarrow> bool" where
  "put_allowed inline token key a h \<longleftrightarrow> args_ok a \<and> kIsInline a = inline \<and> token < length (thread_info_table h) \<and>
     finite (dom (nodes h)) \<and> card (dom (nodes h)) + layers_of key + 2 \<le> length (fresh h)"

text \<open>The heaps that are reached, with the bytes that a client expects to find for each key.\<close>

inductive reached :: "addr \<Rightarrow> bool \<Rightarrow> heap \<Rightarrow> (byte list \<rightharpoonup> byte list) \<Rightarrow> bool" for ti inline where
  reached_empty: "empty_inv h ti \<Longrightarrow> reached ti inline h Map.empty"
| reached_put: "reached ti inline h m \<Longrightarrow> put_allowed inline token key a h \<Longrightarrow>
     put token ti key a h = Some (st, created, inserted, h') \<Longrightarrow>
     reached ti inline h' (if st = OK then m(key \<mapsto> put_bytes a) else m)"
| reached_remove: "reached ti inline h m \<Longrightarrow> token < length (thread_info_table h) \<Longrightarrow>
     remove token ti key h = Some (st, h') \<Longrightarrow> reached ti inline h' (m(key := None))"

text \<open>Every stored word has the bytes that the client expects, in a page of its own kind.\<close>

definition word_ok :: "addr \<Rightarrow> bool \<Rightarrow> 64 word \<Rightarrow> bool" where
  "word_ok ti inline v \<longleftrightarrow> (inline \<longrightarrow> remove_ptr_flag v = v) \<and> (remove_ptr_flag v \<noteq> v \<longrightarrow> remove_ptr_flag v \<noteq> ti - 8)"

definition store_holds :: "addr \<Rightarrow> bool \<Rightarrow> heap \<Rightarrow> tree option \<Rightarrow> (byte list \<rightharpoonup> byte list) \<Rightarrow> bool" where
  "store_holds ti inline h ot m \<longleftrightarrow> store_inv h ti ot \<and> dom m = dom (store_map ot) \<and>
     (\<forall>key v. store_map ot key = Some v \<longrightarrow> word_ok ti inline v \<and> value_bytes (pages h) v = m key)"

lemma tree_nodes: "tree_at h par rt t \<Longrightarrow> set (tree_addrs t) \<subseteq> dom (nodes h)"
proof (induction t arbitrary: par rt rule: tree_induct)
  case (Leaf p es)
  have "set (content_addrs c) \<subseteq> dom (nodes h)" if "(k, c) \<in> set es" for k c
    using Leaf.prems Leaf.IH [of k] that unfolding tree_at_Leaf by (cases c) fastforce+
  then show ?case using Leaf.prems unfolding tree_at_Leaf by fastforce
next
  case (Branch p ks ts)
  then show ?case unfolding tree_at_Branch by fastforce
qed

lemma store_room:
  assumes "store_inv h ti ot" and "finite (dom (nodes h))"
  shows "length (store_addrs ot) \<le> card (dom (nodes h))"
proof (cases ot)
  case (Some t)
  then have t: "distinct (tree_addrs t)" "set (tree_addrs t) \<subseteq> dom (nodes h)"
    using assms(1) tree_nodes [of h nullptr True t] by (simp_all add: store_inv_def tree_inv_def tree_rep_def)
  then show ?thesis using card_mono [OF assms(2) t(2)] distinct_card [OF t(1)] Some by (simp add: store_addrs_def)
qed (simp add: store_addrs_def)

text \<open>The page of a new value is not the one with the root pointer of the tree.\<close>

lemma store_root_page:
  assumes "store_inv h ti ot" and "q \<in> set (fresh h)"
  shows "q \<noteq> ti - 8"
proof -
  have f: "valid_ptr q" "pages h q = None" "\<exists>r. load_root_ptr ti h = Some r"
    using assms by (auto simp: store_inv_def empty_inv_def tree_inv_def tree_rep_def split: option.splits)
  show ?thesis
  proof (cases "ti = storages")
    case True
    then show ?thesis using f(1) by (auto simp: valid_ptr_def storages_def)
  next
    case False
    then show ?thesis using f(2,3) by (auto simp: load_root_ptr_def)
  qed
qed

lemma value_bytes_kept:
  assumes "store_inv h ti ot" and "pages_kept h ti h'" and "word_ok ti inline v" and "value_bytes (pages h) v = Some bs"
  shows "value_bytes (pages h') v = Some bs"
proof (cases "remove_ptr_flag v = v")
  case False
  then have p: "pages h (remove_ptr_flag v) \<noteq> None" using assms(4) by (auto simp: value_bytes_def Let_def)
  have "\<forall>q \<in> set (fresh h). pages h q = None"
    using assms(1) by (auto simp: store_inv_def empty_inv_def tree_inv_def split: option.splits)
  then have "remove_ptr_flag v \<notin> set (fresh h)" using p by auto
  then have "pages h' (remove_ptr_flag v) = pages h (remove_ptr_flag v)"
    using assms(2,3) False by (simp add: pages_kept_def word_ok_def)
  then have "value_bytes (pages h') v = value_bytes (pages h) v" by (simp add: value_bytes_def Let_def)
  then show ?thesis using assms(4) by simp
qed (use assms(4) in \<open>simp add: value_bytes_def Let_def\<close>)

lemma store_holds_put:
  assumes s: "store_holds ti inline h ot m" and a: "kIsInline a = inline" and p: "put_done token ti key a h ot h' ot' v"
  shows "store_holds ti inline h' ot' (m(key \<mapsto> put_bytes a))"
proof -
  have i: "store_inv h ti ot" "dom m = dom (store_map ot)" using s by (simp_all add: store_holds_def)
  have d: "store_inv h' ti ot'" "store_map ot' = (store_map ot)(key \<mapsto> v)" "value_bytes (pages h') v = Some (put_bytes a)" "new_word a h v"
    "pages_kept h ti h'" using p by (simp_all add: put_done_def)
  have "word_ok ti inline v" using d(4) a store_root_page [OF i(1)] by (auto simp: word_ok_def new_word_def split: if_splits)
  moreover have "word_ok ti inline w \<and> value_bytes (pages h') w = m key'" if w: "store_map ot key' = Some w" for key' w
  proof -
    have o: "word_ok ti inline w" "value_bytes (pages h) w = m key'" using s w by (simp_all add: store_holds_def)
    obtain bs where "m key' = Some bs" using w i(2) by blast
    then show ?thesis using o value_bytes_kept [OF i(1) d(5) o(1)] by simp
  qed
  ultimately show ?thesis using d(1-3) i(2) by (auto simp: store_holds_def)
qed

lemma store_put_allowed:
  assumes s: "store_holds ti inline h ot m" and a: "put_allowed inline token key a h"
  shows "unique_restriction a \<and> key \<in> dom m \<Longrightarrow> put token ti key a h = Some (WARN_UNIQUE_RESTRICTION, None, None, h)"
    and "\<not> (unique_restriction a \<and> key \<in> dom m) \<Longrightarrow> \<exists>created inserted h' ot' v. put token ti key a h = Some (OK, created, inserted, h') \<and>
      put_done token ti key a h ot h' ot' v"
proof -
  have i: "store_inv h ti ot" "dom m = dom (store_map ot)" using s by (simp_all add: store_holds_def)
  show "unique_restriction a \<and> key \<in> dom m \<Longrightarrow> put token ti key a h = Some (WARN_UNIQUE_RESTRICTION, None, None, h)"
    using store_put_unique [OF i(1)] i(2) by blast
  have k: "same_kind a w" if "store_map ot key = Some w" for w
    using s a that by (simp add: store_holds_def word_ok_def same_kind_def put_allowed_def)
  have r: "length (store_addrs ot) + layers_of key + 2 \<le> length (fresh h)" "args_ok a" "token < length (thread_info_table h)"
    using store_room [OF i(1)] a by (auto simp: put_allowed_def)
  show "\<not> (unique_restriction a \<and> key \<in> dom m) \<Longrightarrow> \<exists>created inserted h' ot' v. put token ti key a h = Some (OK, created, inserted, h') \<and>
      put_done token ti key a h ot h' ot' v"
    by (rule store_put [OF i(1) r(2,1,3) k]) (simp_all add: i(2))
qed

lemma store_holds_remove:
  assumes s: "store_holds ti inline h ot m" and r: "store_inv h' ti ot'" "store_map ot' = (store_map ot)(key := None)" "pages_flagged h ti h'"
  shows "store_holds ti inline h' ot' (m(key := None))"
proof -
  have d: "dom m = dom (store_map ot)" using s by (simp add: store_holds_def)
  have "word_ok ti inline w \<and> value_bytes (pages h') w = m key'" if "store_map ot key' = Some w" for key' w
  proof -
    have "word_ok ti inline w" "value_bytes (pages h) w = m key'" using s that by (simp_all add: store_holds_def)
    then show ?thesis using flagged_bytes [OF r(3), of w] by (simp add: word_ok_def)
  qed
  then show ?thesis using r(1,2) d by (auto simp: store_holds_def)
qed

lemma reached_holds: "reached ti inline h m \<Longrightarrow> \<exists>ot. store_holds ti inline h ot m"
proof (induction rule: reached.induct)
  case (reached_empty h)
  then show ?case by (intro exI [of _ None]) (simp add: store_holds_def store_defs)
next
  case (reached_put h m token key a st created inserted h')
  then obtain ot where ot: "store_holds ti inline h ot m" by blast
  show ?case
  proof (cases "unique_restriction a \<and> key \<in> dom m")
    case True
    then show ?thesis using store_put_allowed(1) [OF ot reached_put.hyps(2) True] reached_put.hyps(3) ot by auto
  next
    case False
    then obtain ot' v where "st = OK" "put_done token ti key a h ot h' ot' v"
      using store_put_allowed(2) [OF ot reached_put.hyps(2) False] reached_put.hyps(3) by auto
    moreover have "kIsInline a = inline" using reached_put.hyps(2) by (simp add: put_allowed_def)
    ultimately show ?thesis using store_holds_put [OF ot] by (simp only: simp_thms if_True) blast
  qed
next
  case (reached_remove h m token key st h')
  then obtain ot where ot: "store_holds ti inline h ot m" by blast
  then have "store_inv h ti ot" by (simp add: store_holds_def)
  then obtain ot' where "store_inv h' ti ot'" "store_map ot' = (store_map ot)(key := None)" "pages_flagged h ti h'"
    using store_remove [OF _ reached_remove.hyps(2), of ti ot key] reached_remove.hyps(3) by fastforce
  then show ?case using store_holds_remove [OF ot] by blast
qed

lemma reached_get_bytes:
  assumes "reached ti inline h m"
  shows "m key = None \<Longrightarrow> get ti key h = Some (WARN_NOT_EXIST, None)"
    and "m key = Some bs \<Longrightarrow> \<exists>v. get ti key h = Some (OK, Some (value_view (pages h) v)) \<and> value_bytes (pages h) v = Some bs"
proof -
  obtain ot where ot: "store_holds ti inline h ot m" using reached_holds [OF assms] by blast
  then have i: "store_inv h ti ot" "dom m = dom (store_map ot)" by (simp_all add: store_holds_def)
  show "get ti key h = Some (WARN_NOT_EXIST, None)" if "m key = None"
  proof -
    have "store_map ot key = None" using i(2) that by (metis domIff)
    then show ?thesis using store_get [OF i(1), of key] by simp
  qed
  show "\<exists>v. get ti key h = Some (OK, Some (value_view (pages h) v)) \<and> value_bytes (pages h) v = Some bs" if m: "m key = Some bs"
  proof -
    obtain v where v: "store_map ot key = Some v" using i(2) m by (metis domIff option.exhaust option.simps(3))
    then have "value_bytes (pages h) v = Some bs" using ot m by (simp add: store_holds_def)
    then show ?thesis using store_get [OF i(1), of key] v by auto
  qed
qed

lemma reached_next:
  assumes "reached ti inline h m" and "put_allowed inline token key a h"
  obtains created inserted h' where
    "put token ti key a h = Some (if unique_restriction a \<and> key \<in> dom m then WARN_UNIQUE_RESTRICTION else OK, created, inserted, h')"
    "unique_restriction a \<and> key \<in> dom m \<Longrightarrow> h' = h"
proof -
  obtain ot where ot: "store_holds ti inline h ot m" using reached_holds [OF assms(1)] by blast
  show thesis using that store_put_allowed [OF ot assms(2)] by (cases "unique_restriction a \<and> key \<in> dom m") auto
qed

section \<open>A sample run\<close>

definition sample_args :: put_args where
  "sample_args = \<lparr>kIsInline = False, v_ptr = [104, 105], v_len = 2, v_align = 1, unique_restriction = False, created_given = True\<rparr>"

definition sample_start :: heap where
  "sample_start = initial_heap 1 [64, 128, 192, 256, 320, 384, 448, 512]"

lemma sample_start_empty: "empty_inv sample_start storages"
  by code_simp

lemma sample_start_allowed: "put_allowed False 0 (replicate 9 17) sample_args sample_start"
proof -
  have "0 < length (thread_info_table sample_start)" "layers_of (replicate 9 17) + 2 \<le> length (fresh sample_start)" by code_simp+
  moreover have "args_ok sample_args" by (simp add: args_ok_def sample_args_def)
  moreover have "nodes sample_start = Map.empty" "kIsInline sample_args = False" by (simp_all add: sample_start_def initial_heap_def sample_args_def)
  ultimately show ?thesis by (simp add: put_allowed_def)
qed

lemma sample_reached: "\<exists>h. reached storages False h [replicate 9 17 \<mapsto> [104, 105]] \<and> 0 < length (thread_info_table h)"
proof -
  let ?k = "replicate 9 17 :: byte list"
  have r: "reached storages False sample_start Map.empty" by (rule reached_empty [OF sample_start_empty])
  have "store_holds storages False sample_start None Map.empty" using sample_start_empty by (simp add: store_holds_def store_defs)
  from store_put_allowed(2) [OF this sample_start_allowed] obtain created inserted h ot v where
    p: "put 0 storages ?k sample_args sample_start = Some (OK, created, inserted, h)" "put_done 0 storages ?k sample_args sample_start None h ot v" by auto
  have t: "0 < length (thread_info_table h)" using p(2) sample_start_allowed by (simp add: put_done_def put_allowed_def)
  have "put_bytes sample_args = [104, 105]" by code_simp
  then have "reached storages False h [?k \<mapsto> [104, 105]]" using reached_put [OF r sample_start_allowed p(1)] by simp
  then show ?thesis using t by blast
qed

section \<open>Properties\<close>

text \<open>
  C5. After any sequence of calls of \<^verbatim>\<open>put\<close> and \<^verbatim>\<open>remove\<close> on a storage that was empty, \<^verbatim>\<open>get\<close>
  reports exactly the keys as present that some call stored and none removed since, and hands
  out, for each of them, a value with the bytes of the last call that stored it: calls that
  fail by the unique restriction change nothing, and no other key is disturbed by splits, new
  layers, collapsed branches, dropped layers or freed values.
\<close>

theorem puts_then_get:
  assumes "reached ti inline h m"
  shows "(m key = None \<longrightarrow> get ti key h = Some (WARN_NOT_EXIST, None)) \<and>
    (\<forall>bs. m key = Some bs \<longrightarrow> (\<exists>v. get ti key h = Some (OK, Some (value_view (pages h) v)) \<and> value_bytes (pages h) v = Some bs))"
  using reached_get_bytes [OF assms] by blast

theorem puts_then_get_witness:
  "\<exists>h v. reached storages False h [replicate 9 17 \<mapsto> [104, 105]] \<and> get storages [17] h = Some (WARN_NOT_EXIST, None) \<and>
    get storages (replicate 9 17) h = Some (OK, Some (value_view (pages h) v)) \<and> value_bytes (pages h) v = Some [104, 105]"
proof -
  obtain h where h: "reached storages False h [replicate 9 17 \<mapsto> [104, 105]]" using sample_reached by blast
  have "[17 :: byte] \<noteq> replicate 9 17" by code_simp
  then show ?thesis using puts_then_get [OF h, of "[17]"] puts_then_get [OF h, of "replicate 9 17"] h by auto
qed

text \<open>
  C6. The invariant of the tree holds in every state that calls of \<^verbatim>\<open>put\<close> and \<^verbatim>\<open>remove\<close> reach: the root
  pointer is null or leads to a well-formed tree whose nodes are linked, stable, unlocked and
  all different, whose free slots link to no node of it and to no address that can still be
  allocated, and whose keys are those that were stored and not removed since. Links to nodes
  that were taken out may remain in free slots.
\<close>

theorem reached_invariant:
  assumes "reached ti inline h m"
  shows "\<exists>ot. store_inv h ti ot \<and> dom (store_map ot) = dom m"
  using reached_holds [OF assms] by (auto simp: store_holds_def)

theorem reached_invariant_witness:
  "\<exists>h ot. reached storages False h [replicate 9 17 \<mapsto> [104, 105]] \<and> store_inv h storages ot \<and> dom (store_map ot) = {replicate 9 17}"
proof -
  obtain h where h: "reached storages False h [replicate 9 17 \<mapsto> [104, 105]]" using sample_reached by blast
  then show ?thesis using reached_invariant [OF h] by auto
qed

text \<open>
  C7. A call of \<^verbatim>\<open>put\<close> always comes back, in every state that calls of \<^verbatim>\<open>put\<close> and \<^verbatim>\<open>remove\<close> reach: no retry
  from the root, no wait for a lock and no failed dereference, and the status is
  \<^verbatim>\<open>WARN_UNIQUE_RESTRICTION\<close> exactly when the key must be new and is not, else \<^verbatim>\<open>OK\<close>. A
  call that the restriction stops changes nothing: the heap it returns is the heap it was
  given, nothing is allocated and no lock is left behind.
\<close>

theorem put_returns:
  assumes "reached ti inline h m" and "put_allowed inline token key a h"
  shows "\<exists>created inserted h'. (unique_restriction a \<and> key \<in> dom m \<longrightarrow> h' = h) \<and>
    put token ti key a h = Some (if unique_restriction a \<and> key \<in> dom m then WARN_UNIQUE_RESTRICTION else OK, created, inserted, h')"
  using reached_next [OF assms] by metis

theorem put_returns_witness:
  "reached storages False sample_start Map.empty \<and> put_allowed False 0 (replicate 9 17) sample_args sample_start \<and>
   (\<exists>created inserted h'. put 0 storages (replicate 9 17) sample_args sample_start = Some (OK, created, inserted, h'))"
proof -
  have r: "reached storages False sample_start Map.empty" by (rule reached_empty [OF sample_start_empty])
  then show ?thesis using put_returns [OF r sample_start_allowed] sample_start_allowed by simp
qed

text \<open>
  C8. A call of \<^verbatim>\<open>remove\<close> always comes back, in every state that calls of \<^verbatim>\<open>put\<close> and \<^verbatim>\<open>remove\<close>
  reach. Its status tells whether the key was there: \<^verbatim>\<open>OK\<close> exactly when it was; else
  \<^verbatim>\<open>OK_ROOT_IS_NULL\<close> or \<^verbatim>\<open>OK_NOT_FOUND\<close>, and nothing at all has changed. Afterwards the key
  is not found.
\<close>

theorem remove_returns:
  assumes "reached ti inline h m" and "token < length (thread_info_table h)"
  shows "\<exists>st h'. remove token ti key h = Some (st, h') \<and> get ti key h' = Some (WARN_NOT_EXIST, None) \<and>
    (if key \<in> dom m then st = OK else st \<in> {OK_ROOT_IS_NULL, OK_NOT_FOUND} \<and> h' = h)"
proof -
  obtain ot where ot: "store_inv h ti ot" "dom m = dom (store_map ot)" using reached_holds [OF assms(1)] by (auto simp: store_holds_def)
  obtain h' where h': "remove token ti key h = Some (remove_status ot key, h')" "key \<notin> dom (store_map ot) \<longrightarrow> h' = h"
    using store_remove [OF ot(1) assms(2)] by blast
  have "get ti key h' = Some (WARN_NOT_EXIST, None)"
    by (rule reached_get_bytes(1) [OF reached_remove [OF assms h'(1)]]) simp
  moreover have "remove_status ot key = OK" if "key \<in> dom m" using that ot(2) by (auto simp: remove_status_def store_map_def split: option.splits)
  moreover have "remove_status ot key \<in> {OK_ROOT_IS_NULL, OK_NOT_FOUND}" if "key \<notin> dom m"
    using that ot(2) by (auto simp: remove_status_def store_map_def split: option.splits)
  ultimately show ?thesis using h' ot(2) by auto
qed

theorem remove_returns_witness:
  "\<exists>h. reached storages False h [replicate 9 17 \<mapsto> [104, 105]] \<and> 0 < length (thread_info_table h) \<and>
    (\<exists>h'. remove 0 storages (replicate 9 17) h = Some (OK, h') \<and> get storages (replicate 9 17) h' = Some (WARN_NOT_EXIST, None)) \<and>
    (\<exists>st. remove 0 storages [17] h = Some (st, h) \<and> st \<noteq> OK)"
proof -
  obtain h where h: "reached storages False h [replicate 9 17 \<mapsto> [104, 105]]" "0 < length (thread_info_table h)"
    using sample_reached by blast
  have "[17 :: byte] \<noteq> replicate 9 17" by code_simp
  then show ?thesis using remove_returns [OF h, of "[17]"] remove_returns [OF h, of "replicate 9 17"] h by auto
qed

end
