(* ===== verification/Storage.thy ===== *)
theory Storage
  imports Scan
begin

text \<open>
  Everything above the single tree: sessions (\<^verbatim>\<open>thread_info_table.h\<close>, \<^verbatim>\<open>interface_helper.h\<close>),
  releasing garbage, destroying trees (\<^verbatim>\<open>destroy\<close> of the node classes and
  \<^verbatim>\<open>interface_destroy.h\<close>), memory statistics, and the storages (\<^verbatim>\<open>storage_impl.h\<close>): a tree
  whose values are the tree instances of the user's storages.
\<close>

section \<open>Sessions\<close>

text \<open>\<^verbatim>\<open>gain_the_right\<close>: \<open>None\<close> leaves the flag as it is, \<open>Some ti\<close> is the session taken.\<close>

definition gain_the_right :: "thread_info \<Rightarrow> thread_info option" where
  "gain_the_right ti =
     (case cas_loop (=) (\<lambda>expected. if expected then None else Some True) [(False, id)] (running ti) (running ti) of
        Some (Some _, w) \<Rightarrow> Some (ti\<lparr>running := w\<rparr>)
      | _ \<Rightarrow> None)"

fun assign_from :: "nat list \<Rightarrow> heap \<Rightarrow> status \<times> Token \<times> heap" where
  "assign_from [] h = (WARN_MAX_SESSIONS, 0, h)"
| "assign_from (i # is) h =
     (case gain_the_right (thread_info_table h ! i) of
        Some ti \<Rightarrow> (OK, i, set_session i (ti\<lparr>begin_epoch := epoch h\<rparr>) h)
      | None \<Rightarrow> assign_from is h)"

definition assign_thread_info :: "heap \<Rightarrow> status \<times> Token \<times> heap" where
  "assign_thread_info h = assign_from [0..<length (thread_info_table h)] h"

definition leave_thread_info :: "Token \<Rightarrow> heap \<Rightarrow> (status \<times> heap) option" where
  "leave_thread_info token h = do {
     ti \<leftarrow> get_session token h;
     Some (OK, set_session token (ti\<lparr>begin_epoch := 0, running := False\<rparr>) h)
   }"

definition thread_info_table_init :: "heap \<Rightarrow> heap" where
  "thread_info_table_init h =
     h\<lparr>thread_info_table := map (\<lambda>ti. ti\<lparr>begin_epoch := 0, running := False\<rparr>) (thread_info_table h)\<rparr>"

definition enter :: "heap \<Rightarrow> status \<times> Token \<times> heap" where
  "enter h = assign_thread_info h"

definition leave :: "Token \<Rightarrow> heap \<Rightarrow> (status \<times> heap) option" where
  "leave token h = leave_thread_info token h"

text \<open>\<^verbatim>\<open>while (status::OK != enter(token))\<close>: with every session taken it waits forever.\<close>

definition enter_wait :: "heap \<Rightarrow> (Token \<times> heap) option" where
  "enter_wait h = (case enter h of (OK, token, h) \<Rightarrow> Some (token, h) | _ \<Rightarrow> None)"

section \<open>Releasing garbage\<close>

definition release :: "addr list \<Rightarrow> (addr \<times> 64 word \<times> 64 word) list \<Rightarrow> heap \<Rightarrow> heap option" where
  "release ns vs h = do {
     h \<leftarrow> foldM delete_node ns h;
     vh \<leftarrow> foldM (\<lambda>(p, size, al) vh. free_page vh p) vs (pages h);
     Some (h\<lparr>pages := vh\<rparr>)
   }"

text \<open>One round of the collector thread: \<^verbatim>\<open>thread_info_table::gc\<close>.\<close>

definition thread_info_table_gc :: "heap \<Rightarrow> heap option" where
  "thread_info_table_gc h =
     foldM (\<lambda>i h. do {
         ti \<leftarrow> get_session i h;
         let (ns, vs, g) = gc (gc_epoch h) (gc_epoch h) (gc_info ti);
         release ns vs (set_session i (ti\<lparr>gc_info := g\<rparr>) h)
       }) [0..<length (thread_info_table h)] h"

definition thread_info_table_fin :: "heap \<Rightarrow> heap option" where
  "thread_info_table_fin h =
     foldM (\<lambda>i h. do {
         ti \<leftarrow> get_session i h;
         let (ns, vs, g) = gc_fin (gc_info ti);
         release ns vs (set_session i (ti\<lparr>gc_info := g\<rparr>) h)
       }) [0..<length (thread_info_table h)] h"

section \<open>Destroying a tree\<close>

lemma foldM_mono [partial_function_mono]:
  assumes "\<And>x s. mono_option (\<lambda>f. B f x s)"
  shows "mono_option (\<lambda>f. foldM (\<lambda>x s. B f x s) xs s)"
proof (induction xs arbitrary: s)
  case Nil
  show ?case unfolding foldM.simps by (rule option.const_mono)
next
  case (Cons x xs)
  show ?case unfolding foldM.simps by (rule bind_mono [OF assms Cons])
qed

text \<open>
  \<^verbatim>\<open>destroy\<close> of border nodes, interior nodes and slots. The sources may hand children to
  helper threads that are joined before the return; the children are destroyed in turn
  here.
\<close>

partial_function (option) destroy_node :: "addr \<Rightarrow> heap \<Rightarrow> (status \<times> heap) option" where
  "destroy_node p h = do {
     n \<leftarrow> nodes h p;
     case n of
       Border b \<Rightarrow> do {
         h \<leftarrow> foldM (\<lambda>i h. do {
             let index = get_index_of_rank (perm_body b) i;
             b \<leftarrow> get_border p h;
             x \<leftarrow> get_lv_at b index;
             let child = get_next_layer x;
             let v = get_value x;
             h \<leftarrow> (if child \<noteq> nullptr then do {
                     (st, h) \<leftarrow> destroy_node child h;
                     delete_node child h
                   } else if v \<noteq> nullptr then do {
                     del \<leftarrow> need_delete (pages h) v;
                     if del then map_option (\<lambda>vh. h\<lparr>pages := vh\<rparr>) (delete_value (pages h) v) else Some h
                   } else Some h);
             upd_border p (set_lv index init_lv) h
           }) [0..<get_permutation_cnk b] h;
         Some (OK_DESTROY_BORDER, h)
       }
     | Interior n \<Rightarrow> do {
         h \<leftarrow> foldM (\<lambda>i h. do {
             c \<leftarrow> get_child_at n i;
             (st, h) \<leftarrow> destroy_node c h;
             delete_node c h
           }) [0..<unat (n_keys n) + 1] h;
         Some (OK_DESTROY_INTERIOR, h)
       }
   }"

declare destroy_node.simps [code]

text \<open>\<^verbatim>\<open>root->destroy(); delete root; ti->store_root_ptr(nullptr);\<close>\<close>

definition destroy_root :: "addr \<Rightarrow> heap \<Rightarrow> heap option" where
  "destroy_root ti h = do {
     rt \<leftarrow> load_root_ptr ti h;
     if rt = nullptr then Some h
     else do {
       (st, h) \<leftarrow> destroy_node rt h;
       h \<leftarrow> delete_node rt h;
       store_root_ptr ti nullptr h
     }
   }"

definition all_keys :: scan_range where
  "all_keys = \<lparr>l_key = [], l_end = INFINITE, r_key = [], r_end = INFINITE, max_size = 0\<rparr>"

definition no_results :: scan_out where
  "no_results = \<lparr>tuple_list = [], node_version_vec = None\<rparr>"

text \<open>\<^verbatim>\<open>yakushima::destroy()\<close>; the depth bounds the layers of the tree of storages.\<close>

definition destroy :: "nat \<Rightarrow> heap \<Rightarrow> (status \<times> heap) option" where
  "destroy depth h = do {
     e \<leftarrow> tree_empty storages h;
     if e then Some (OK_ROOT_IS_NULL, h)
     else do {
       (st, out) \<leftarrow> scan depth storages all_keys no_results h;
       h \<leftarrow> foldM (\<lambda>(name, ti, len). destroy_root ti) (tuple_list out) h;
       h \<leftarrow> destroy_root storages h;
       Some (OK_DESTROY_ALL, h)
     }
   }"

section \<open>Memory statistics\<close>

text \<open>
  \<^verbatim>\<open>mem_usage\<close>: nodes, used bytes and reserved bytes per level. The sizes of the two node
  classes are those of the compiler.
\<close>

type_synonym memory_usage_stack = "(nat \<times> nat \<times> nat) list"

definition add_usage :: "nat \<Rightarrow> nat \<times> nat \<times> nat \<Rightarrow> memory_usage_stack \<Rightarrow> memory_usage_stack option" where
  "add_usage level d st =
     (case d of (n, u, r) \<Rightarrow> case at st level of
        Some (n0, u0, r0) \<Rightarrow> put_at st level (n0 + n, u0 + u, r0 + r)
      | None \<Rightarrow> None)"

partial_function (option) mem_usage_node ::
  "nat \<Rightarrow> nat \<Rightarrow> heap \<Rightarrow> addr \<Rightarrow> nat \<Rightarrow> memory_usage_stack \<Rightarrow> memory_usage_stack option" where
  "mem_usage_node size_border size_interior h p level mem_stat = do {
     n \<leftarrow> nodes h p;
     let mem_stat = (if length mem_stat \<le> level then mem_stat @ [(0, 0, 0)] else mem_stat);
     case n of
       Border b \<Rightarrow> do {
         let cnk = get_permutation_cnk b;
         mem_stat \<leftarrow> add_usage level (1, size_border - (key_slice_length - cnk) * 8, size_border) mem_stat;
         foldM (\<lambda>i mem_stat. do {
             x \<leftarrow> get_lv_at b (get_index_of_rank (perm_body b) i);
             let child = get_next_layer x;
             let v = get_value x;
             if child \<noteq> nullptr then mem_usage_node size_border size_interior h child (level + 1) mem_stat
             else if v \<noteq> nullptr then do {
               (_, len, _) \<leftarrow> get_gc_info (pages h) v;
               add_usage level (0, unat len, unat len) mem_stat
             } else Some mem_stat
           }) [0..<cnk] mem_stat
       }
     | Interior n \<Rightarrow> do {
         let n_key = unat (n_keys n) + 1;
         mem_stat \<leftarrow> add_usage level (1, size_interior - (child_length - n_key) * 8, size_interior) mem_stat;
         foldM (\<lambda>i mem_stat. do {
             c \<leftarrow> get_child_at n i;
             mem_usage_node size_border size_interior h c (level + 1) mem_stat
           }) [0..<n_key] mem_stat
       }
   }"

declare mem_usage_node.simps [code]

section \<open>Storages\<close>

definition find_storage :: "byte list \<Rightarrow> heap \<Rightarrow> (status \<times> addr option) option" where
  "find_storage storage_name h = do {
     (rc, ret) \<leftarrow> get storages storage_name h;
     if rc = WARN_NOT_EXIST then Some (WARN_NOT_EXIST, None)
     else Some (OK, map_option fst ret)
   }"

definition create_storage :: "byte list \<Rightarrow> heap \<Rightarrow> (status \<times> heap) option" where
  "create_storage storage_name h = do {
     (new_border, h) \<leftarrow> new_node (Border new_border_node) h;
     h \<leftarrow> upd_border new_border init_border h;
     (token, h) \<leftarrow> enter_wait h;
     (ret_st, _, _, h) \<leftarrow> put token storages storage_name
        \<lparr>kIsInline = False, v_ptr = slice_bytes new_border, v_len = 8, v_align = 8,
          unique_restriction = True, created_given = False\<rparr> h;
     (_, h) \<leftarrow> leave token h;
     h \<leftarrow> (if ret_st \<noteq> OK then delete_node new_border h else Some h);
     Some (ret_st, h)
   }"

definition delete_storage :: "byte list \<Rightarrow> heap \<Rightarrow> (status \<times> heap) option" where
  "delete_storage storage_name h = do {
     (token, h) \<leftarrow> enter_wait h;
     (rc, ret) \<leftarrow> get storages storage_name h;
     if rc = WARN_NOT_EXIST then do {
       (_, h) \<leftarrow> leave token h;
       Some (WARN_NOT_EXIST, h)
     } else do {
       (ret_st, h) \<leftarrow> remove token storages storage_name h;
       if ret_st = OK then do {
         (ti, _) \<leftarrow> ret;
         h \<leftarrow> destroy_root ti h;
         (_, h) \<leftarrow> leave token h;
         Some (OK, h)
       } else do {
         (_, h) \<leftarrow> leave token h;
         Some (WARN_CONCURRENT_OPERATIONS, h)
       }
     }
   }"

definition list_storages :: "nat \<Rightarrow> heap \<Rightarrow> (status \<times> (byte list \<times> addr) list) option" where
  "list_storages depth h = do {
     (_, out) \<leftarrow> scan depth storages all_keys no_results h;
     if tuple_list out = [] then Some (WARN_NOT_EXIST, [])
     else Some (OK, map (\<lambda>(name, ti, len). (name, ti)) (tuple_list out))
   }"

text \<open>The operations on a storage given by its name.\<close>

definition storage_get :: "byte list \<Rightarrow> byte list \<Rightarrow> heap \<Rightarrow> (status \<times> (addr \<times> 64 word) option) option" where
  "storage_get storage_name key_view h = do {
     (rc, ti) \<leftarrow> find_storage storage_name h;
     if rc \<noteq> OK then Some (WARN_STORAGE_NOT_EXIST, None)
     else ti \<bind> (\<lambda>ti. get ti key_view h)
   }"

definition storage_put :: "Token \<Rightarrow> byte list \<Rightarrow> byte list \<Rightarrow> put_args \<Rightarrow> heap \<Rightarrow> put_result option" where
  "storage_put token storage_name key_view a h = do {
     (rc, ti) \<leftarrow> find_storage storage_name h;
     if rc \<noteq> OK then Some (WARN_STORAGE_NOT_EXIST, None, None, h)
     else ti \<bind> (\<lambda>ti. put token ti key_view a h)
   }"

definition storage_remove :: "Token \<Rightarrow> byte list \<Rightarrow> byte list \<Rightarrow> heap \<Rightarrow> (status \<times> heap) option" where
  "storage_remove token storage_name key_view h = do {
     (rc, ti) \<leftarrow> find_storage storage_name h;
     if rc \<noteq> OK then Some (WARN_STORAGE_NOT_EXIST, h)
     else ti \<bind> (\<lambda>ti. remove token ti key_view h)
   }"

definition storage_scan :: "nat \<Rightarrow> byte list \<Rightarrow> scan_range \<Rightarrow> scan_out \<Rightarrow> heap \<Rightarrow>
    (status \<times> scan_out) option" where
  "storage_scan depth storage_name a out h = do {
     (rc, ti) \<leftarrow> find_storage storage_name h;
     if rc \<noteq> OK then Some (WARN_STORAGE_NOT_EXIST, out)
     else ti \<bind> (\<lambda>ti. scan depth ti a out h)
   }"

definition mem_usage :: "nat \<Rightarrow> nat \<Rightarrow> byte list \<Rightarrow> heap \<Rightarrow> memory_usage_stack option" where
  "mem_usage size_border size_interior storage_name h = do {
     (rc, ti) \<leftarrow> find_storage storage_name h;
     if rc = OK then do {
       ti \<leftarrow> ti;
       rt \<leftarrow> load_root_ptr ti h;
       mem_usage_node size_border size_interior h rt 0 []
     } else Some []
   }"

text \<open>\<^verbatim>\<open>init()\<close> and \<^verbatim>\<open>fin()\<close>, apart from starting and joining the two background threads.\<close>

definition init :: "heap \<Rightarrow> heap" where
  "init h = thread_info_table_init h"

definition fin :: "nat \<Rightarrow> heap \<Rightarrow> heap option" where
  "fin depth h = do {
     (_, h) \<leftarrow> destroy depth h;
     thread_info_table_fin h
   }"

section \<open>Properties of sessions\<close>

lemma gain_the_right_iff:
  "gain_the_right ti = (if running ti then None else Some (ti\<lparr>running := True\<rparr>))"
  by (simp add: gain_the_right_def plain_cell.exchange_eq)

lemma assign_from_spec:
  "assign_from is h =
     (case dropWhile (\<lambda>i. running (thread_info_table h ! i)) is of
        [] \<Rightarrow> (WARN_MAX_SESSIONS, 0, h)
      | i # _ \<Rightarrow> (OK, i, set_session i ((thread_info_table h ! i)\<lparr>running := True, begin_epoch := epoch h\<rparr>) h))"
  by (induction "is") (simp_all add: gain_the_right_iff)

text \<open>
  C32. \<^verbatim>\<open>enter\<close> hands out the first free slot of the session table, marked as running with
  the current epoch, and changes no other slot; it reports \<^verbatim>\<open>WARN_MAX_SESSIONS\<close> exactly
  when every slot is taken. So two sessions that are both running never share a token.
\<close>

theorem enter_takes_free_slot:
  "case enter h of (st, token, h') \<Rightarrow>
     (if \<forall>ti \<in> set (thread_info_table h). running ti then st = WARN_MAX_SESSIONS \<and> h' = h
      else st = OK \<and> token < length (thread_info_table h) \<and> \<not> running (thread_info_table h ! token) \<and>
        (\<forall>i < token. running (thread_info_table h ! i)) \<and>
        thread_info_table h' = (thread_info_table h)[token :=
          (thread_info_table h ! token)\<lparr>running := True, begin_epoch := epoch h\<rparr>])"
proof -
  let ?t = "thread_info_table h" and ?P = "\<lambda>i. running (thread_info_table h ! i)"
  show ?thesis
  proof (cases "\<forall>ti \<in> set ?t. running ti")
    case True
    then have "dropWhile ?P [0..<length ?t] = []" by (simp add: dropWhile_eq_Nil_conv)
    then show ?thesis using True
      by (simp add: enter_def assign_thread_info_def assign_from_spec del: dropWhile_eq_Nil_conv)
  next
    case False
    then have "dropWhile ?P [0..<length ?t] \<noteq> []"
      by (auto simp: dropWhile_eq_Nil_conv in_set_conv_nth Bex_def)
    then obtain i rest where d: "dropWhile ?P [0..<length ?t] = i # rest"
      by (cases "dropWhile ?P [0..<length ?t]") auto
    define k where "k = length (takeWhile ?P [0..<length ?t])"
    have k: "k < length [0..<length ?t]"
      using d by (metis k_def dropWhile_eq_drop drop_eq_Nil2 length_takeWhile_le list.distinct(1) not_less)
    have ik: "i = k" using d k by (simp add: dropWhile_eq_drop k_def [symmetric] upt_conv_Cons)
    have "\<not> ?P i" using d by (metis hd_dropWhile list.distinct(1) list.sel(1))
    moreover have "?P j" if "j < i" for j
      using that ik k by (metis (no_types, lifting) add_0 k_def length_upt minus_nat.diff_0 nth_mem
          nth_upt order.strict_trans set_takeWhileD takeWhile_nth)
    ultimately show ?thesis
      using False d ik k by (simp add: enter_def assign_thread_info_def assign_from_spec set_session_def)
  qed
qed

theorem enter_takes_free_slot_witness:
  "fst (enter (initial_heap 2 [])) = OK \<and> fst (snd (enter (initial_heap 2 []))) < 2"
proof -
  have "\<not> (\<forall>ti \<in> set (thread_info_table (initial_heap 2 [])). running ti)" by code_simp
  moreover have "length (thread_info_table (initial_heap 2 [])) = 2" by code_simp
  ultimately show ?thesis using enter_takes_free_slot [of "initial_heap 2 []"]
    by (simp only: case_prod_beta if_False simp_thms)
qed



end
