(* ===== verification/Destroy_Tree.thy ===== *)
theory Destroy_Tree
  imports Put_Trace Storage
begin

text \<open>
  \<^verbatim>\<open>destroy\<close> of a whole tree: every node of every layer and every value page is released,
  each of them once, and nothing else.
\<close>

section \<open>Keys and pages\<close>

text \<open>No key occurs twice in a tree; with a page for every key, no page does.\<close>

lemma distinct_entries:
  assumes "\<forall>(k, c) \<in> set es. canonical k \<and> content_wf k c \<and> distinct (map fst (content_entries (key_bytes k) c))" and "distinct (map fst es)"
  shows "distinct (map fst (concat (map (\<lambda>(k, c). content_entries (key_bytes k) c) es)))"
  using assms
proof (induction es)
  case (Cons e es)
  obtain k c where e: "e = (k, c)" by (rule prod.exhaust)
  have "s \<notin> fst ` set (concat (map (\<lambda>(k, c). content_entries (key_bytes k) c) es))" if s: "s \<in> fst ` set (content_entries (key_bytes k) c)" for s
  proof
    assume "s \<in> fst ` set (concat (map (\<lambda>(k, c). content_entries (key_bytes k) c) es))"
    then obtain e' where e': "e' \<in> set es" "s \<in> fst ` set (case e' of (k, c) \<Rightarrow> content_entries (key_bytes k) c)"
      unfolding set_concat set_map by blast
    obtain k' c' where "e' = (k', c')" by (rule prod.exhaust)
    then have "(k', c') \<in> set es" "k = k'" using e' s content_strings [of k c s] content_strings [of k' c' s] Cons.prems(1) e by auto
    then show False using Cons.prems(2) e by (auto simp: rev_image_eqI)
  qed
  then have "fst ` set (content_entries (key_bytes k) c) \<inter> fst ` set (concat (map (\<lambda>(k, c). content_entries (key_bytes k) c) es)) = {}" by blast
  then show ?case using Cons e by simp
qed simp

lemma tree_entries_distinct: "tree_wf t \<Longrightarrow> distinct (map fst (tree_entries t))"
proof -
  have step: "distinct (map fst (tree_entries t))" if wf: "tree_wf t" and sub: "\<And>k u. (k, Sub u) \<in> set (layer_entries t) \<Longrightarrow> distinct (map fst (tree_entries u))" for t
  proof -
    have "distinct (map fst (content_entries (key_bytes k) c))" if "(k, c) \<in> set (layer_entries t)" for k c
    proof (cases c)
      case (Sub u)
      have "inj_on ((@) (key_bytes k)) X" for X by (rule inj_onI) simp
      moreover have eq: "map fst (content_entries (key_bytes k) c) = map ((@) (key_bytes k)) (map fst (tree_entries u))" using Sub by (simp add: case_prod_beta' o_def)
      ultimately show ?thesis using sub [of k u] that Sub unfolding eq by (subst distinct_map) simp
    qed simp
    then show ?thesis unfolding tree_entries_layer using layer_content_wf [OF wf] layer_entries_distinct [OF wf] by (intro distinct_entries) auto
  qed
  assume "tree_wf t"
  moreover have "\<forall>k u. (k, Sub u) \<in> set (layer_entries t) \<longrightarrow> distinct (map fst (tree_entries u))" if "tree_wf t" for t
    using that
  proof (induction t rule: tree_induct)
    case (Leaf p es)
    have "tree_wf u" if "(k, Sub u) \<in> set es" for k u using Leaf.prems that by fastforce
    then show ?case using Leaf.IH step by auto
  next
    case (Branch p ks ts)
    then show ?case by auto
  qed
  ultimately show ?thesis using step by blast
qed

lemma distinct_word_pages:
  assumes "distinct (map fst es)"
    and "\<And>k v k' v'. (k, v) \<in> set es \<Longrightarrow> (k', v') \<in> set es \<Longrightarrow> remove_ptr_flag v \<noteq> v \<Longrightarrow> remove_ptr_flag v' \<noteq> v' \<Longrightarrow>
      remove_ptr_flag v = remove_ptr_flag v' \<Longrightarrow> k = k'"
  shows "distinct (word_pages (map snd es))"
  using assms
proof (induction es)
  case (Cons e es)
  obtain k v where e: "e = (k, v)" by (rule prod.exhaust)
  have d: "distinct (word_pages (map snd es))" using Cons.prems by (intro Cons.IH) auto
  have "remove_ptr_flag v \<notin> set (word_pages (map snd es))" if "remove_ptr_flag v \<noteq> v"
  proof
    assume "remove_ptr_flag v \<in> set (word_pages (map snd es))"
    then obtain k' v' where "(k', v') \<in> set es" "remove_ptr_flag v' \<noteq> v'" "remove_ptr_flag v = remove_ptr_flag v'" by (auto simp: word_pages_def)
    then show False using Cons.prems(1) Cons.prems(2) [of k v k' v'] that e by (auto simp: rev_image_eqI)
  qed
  then show ?case using d e by (auto simp: word_pages_def)
qed (simp add: word_pages_def)

section \<open>What is released\<close>

text \<open>The pages \<open>X\<close> go unless their delete flag has been taken away.\<close>

definition free_pages :: "addr set \<Rightarrow> value_pages \<Rightarrow> value_pages" where
  "free_pages X vh = (\<lambda>q. case vh q of Some p \<Rightarrow> if q \<in> X \<and> need_delete_flag p then None else Some p | None \<Rightarrow> None)"

definition erase :: "addr set \<Rightarrow> addr set \<Rightarrow> heap \<Rightarrow> heap" where
  "erase A X h = h\<lparr>nodes := nodes h |` (- A), pages := free_pages X (pages h)\<rparr>"

lemma free_pages_free: "free_pages X (free_pages Y vh) = free_pages (X \<union> Y) vh"
  by (auto simp: free_pages_def fun_eq_iff split: option.splits)

lemma free_pages_empty [simp]: "free_pages {} vh = vh"
  by (auto simp: free_pages_def fun_eq_iff split: option.splits)

lemma erase_erase: "erase A X (erase B Y h) = erase (A \<union> B) (X \<union> Y) h"
  by (simp add: erase_def free_pages_free Int_commute)

lemma erase_set_node: "p \<notin> A \<Longrightarrow> erase A X (set_node p n h) = set_node p n (erase A X h)"
  by (auto simp: erase_def set_node_def restrict_map_def fun_eq_iff)

lemma erase_nodes: "p \<notin> A \<Longrightarrow> nodes (erase A X h) p = nodes h p"
  by (simp add: erase_def)

lemma erase_pages: "q \<notin> X \<Longrightarrow> pages (erase A X h) q = pages h q"
  by (auto simp: erase_def free_pages_def split: option.splits)

lemma delete_node_erase: "nodes h p \<noteq> None \<Longrightarrow> delete_node p h = Some (erase {p} {} h)"
  by (auto simp: delete_node_def erase_def restrict_map_def fun_eq_iff intro!: arg_cong [of _ _ "\<lambda>n. nodes_update (\<lambda>_. n) h"])

section \<open>A slot\<close>

text \<open>\<^verbatim>\<open>link_or_value::destroy\<close>, before it resets the slot.\<close>

definition destroy_slot :: "link_or_value \<Rightarrow> heap \<Rightarrow> heap option" where
  "destroy_slot x h =
     (if get_next_layer x \<noteq> nullptr then do { (st, h) \<leftarrow> destroy_node (get_next_layer x) h; delete_node (get_next_layer x) h }
      else if get_value x \<noteq> nullptr then do {
        del \<leftarrow> need_delete (pages h) (get_value x);
        if del then map_option (\<lambda>vh. h\<lparr>pages := vh\<rparr>) (delete_value (pages h) (get_value x)) else Some h
      } else Some h)"

definition destroyed :: "tree \<Rightarrow> heap \<Rightarrow> bool" where
  "destroyed t h \<longleftrightarrow> (destroy_node (addr_of t) h \<bind> (\<lambda>(st, h). delete_node (addr_of t) h)) = Some (erase (set (tree_addrs t)) (set (tree_pages t)) h)"

lemma destroy_slot_content:
  assumes "content_wf k c" and "content_at h p c" and "\<And>u. c = Sub u \<Longrightarrow> destroyed u h"
  shows "destroy_slot (lv_word c) h = Some (erase (set (content_addrs c)) (set (content_pages c)) h)"
proof (cases c)
  case (Sub u)
  have v: "valid_ptr (addr_of u)" using assms(1) Sub by (intro tree_wf_valid_ptr) simp
  then have "get_next_layer (lv_word c) = addr_of u" "addr_of u \<noteq> nullptr" using Sub set_next_layer_roundtrip(1) [OF v] by (simp_all add: valid_ptr_def)
  then show ?thesis using assms(3) [OF Sub] Sub by (simp add: destroy_slot_def destroyed_def)
next
  case (Val v)
  then have v: "value_word v" "value_at (pages h) v" using assms by simp_all
  then have n: "get_next_layer v = nullptr" "get_value v = v" "v \<noteq> nullptr" by (simp_all add: value_word_def)
  show ?thesis
  proof (cases "remove_ptr_flag v = v")
    case True
    then show ?thesis using Val n by (simp add: destroy_slot_def need_delete_def Let_def erase_def restrict_map_def)
  next
    case False
    then obtain pg where pg: "pages h (remove_ptr_flag v) = Some pg" using v(2) by (auto simp: value_at_def)
    have "free_pages {remove_ptr_flag v} (pages h) = (if need_delete_flag pg then (pages h)(remove_ptr_flag v := None) else pages h)"
      using pg by (auto simp: free_pages_def fun_eq_iff split: option.splits)
    then show ?thesis using Val n False pg
      by (simp add: destroy_slot_def need_delete_def delete_value_def free_page_def Let_def erase_def restrict_map_def)
  qed
qed

section \<open>The nodes\<close>

text \<open>One round of the loop over the ranks of a border node.\<close>

definition destroy_rank :: "addr \<Rightarrow> permutation \<Rightarrow> nat \<Rightarrow> heap \<Rightarrow> heap option" where
  "destroy_rank p perm i h = do {
     b \<leftarrow> get_border p h;
     x \<leftarrow> get_lv_at b (get_index_of_rank perm i);
     h \<leftarrow> destroy_slot x h;
     upd_border p (set_lv (get_index_of_rank perm i) init_lv) h
   }"

lemma destroy_border_eq:
  assumes "nodes h p = Some (Border b)"
  shows "destroy_node p h = foldM (destroy_rank p (perm_body b)) [0..<get_permutation_cnk b] h \<bind> (\<lambda>h. Some (OK_DESTROY_BORDER, h))"
  using assms by (subst destroy_node.simps) (simp add: destroy_rank_def [abs_def] destroy_slot_def Let_def)

text \<open>One round of the loop over the children of an interior node.\<close>

definition destroy_child :: "interior_node \<Rightarrow> nat \<Rightarrow> heap \<Rightarrow> heap option" where
  "destroy_child n i h = do {
     c \<leftarrow> get_child_at n i;
     (st, h) \<leftarrow> destroy_node c h;
     delete_node c h
   }"

lemma destroy_interior_eq:
  assumes "nodes h p = Some (Interior n)"
  shows "destroy_node p h = foldM (destroy_child n) [0..<unat (n_keys n) + 1] h \<bind> (\<lambda>h. Some (OK_DESTROY_INTERIOR, h))"
  using assms by (subst destroy_node.simps) (simp add: destroy_child_def [abs_def])

text \<open>The slots of a border node, rank by rank.\<close>

lemma destroy_ranks:
  assumes b: "border_wf b" "border_entries b = map (\<lambda>(k, c). (k, lv_word c)) es" and wf: "\<forall>(k, c) \<in> set es. content_wf k c"
    and IH: "\<And>k u g. (k, Sub u) \<in> set es \<Longrightarrow> tree_at g p True u \<Longrightarrow> destroyed u g"
  defines "perm \<equiv> perm_list (perm_body b)" and "c \<equiv> \<lambda>i. snd (es ! i)"
  shows "distinct is \<Longrightarrow> set is \<subseteq> {..<length es} \<Longrightarrow> nodes h p = Some (Border b') \<Longrightarrow> length (lv_arr b') = 15 \<Longrightarrow>
    (\<forall>i \<in> set is. lv_arr b' ! (perm ! i) = lv_word (c i) \<and> content_at h p (c i)) \<Longrightarrow>
    distinct (p # concat (map content_addrs (map c is))) \<Longrightarrow> distinct (concat (map content_pages (map c is))) \<Longrightarrow>
    \<exists>b''. foldM (destroy_rank p (perm_body b)) is h = Some (set_node p (Border b'') (erase (set (concat (map content_addrs (map c is)))) (set (concat (map content_pages (map c is)))) h))"
proof (induction "is" arbitrary: h b')
  case Nil
  have "set_node p (Border b') h = h" using Nil.prems(3) by (simp add: set_node_def fun_upd_idem)
  then show ?case by (intro exI [of _ b']) (simp add: erase_def restrict_map_def)
next
  case (Cons i "is")
  let ?A = "set (content_addrs (c i))" and ?X = "set (content_pages (c i))" and ?j = "perm ! i"
  let ?b = "b'\<lparr>lv_arr := (lv_arr b')[?j := init_lv]\<rparr>" and ?g = "erase ?A ?X h"
  have len: "get_permutation_cnk b = length es" using b(2) length_border_keys [of b] map_fst_entries [of b] by (metis length_map)
  have i: "i < length es" "get_index_of_rank (perm_body b) i = ?j" "?j < 15" using Cons.prems(2) border_slot [OF b(1), of i] len by (auto simp: perm_def)
  have ent: "(fst (es ! i), c i) \<in> set es" using i(1) by (simp add: c_def)
  have "destroy_slot (lv_word (c i)) h = Some ?g"
  proof (rule destroy_slot_content)
    show "content_wf (fst (es ! i)) (c i)" using wf ent by auto
    show ci: "content_at h p (c i)" using Cons.prems(5) by simp
    show "destroyed u h" if "c i = Sub u" for u using IH [of "fst (es ! i)" u h] ent ci that by simp
  qed
  moreover have "nodes ?g p = Some (Border b')" using Cons.prems(3,6) by (simp add: erase_nodes)
  moreover have "lv_arr b' ! ?j = lv_word (c i)" using Cons.prems(5) by simp
  ultimately have step: "destroy_rank p (perm_body b) i h = Some (set_node p (Border ?b) ?g)"
    using Cons.prems(3,4) i by (simp add: destroy_rank_def get_border_def get_lv_at_def upd_border_def set_lv_def put_at_def)
  let ?h = "set_node p (Border ?b) ?g"
  have slots: "lv_arr ?b ! (perm ! k) = lv_word (c k) \<and> content_at ?h p (c k)" if k: "k \<in> set is" for k
  proof
    have "k \<noteq> i" "k < length es" using k Cons.prems(1,2) by auto
    moreover have "distinct perm" "length perm = length es" using b len by (simp_all add: border_wf_def perm_wf_def perm_def get_permutation_cnk_def perm.count_order)
    ultimately have "perm ! k \<noteq> ?j" using i(1) by (simp add: nth_eq_iff_index_eq)
    then show "lv_arr ?b ! (perm ! k) = lv_word (c k)" using Cons.prems(5) k by simp
    have a: "set (content_addrs (c k)) \<inter> insert p ?A = {}" "set (content_pages (c k)) \<inter> ?X = {}" using Cons.prems(6,7) k by auto
    show "content_at ?h p (c k)"
    proof (rule content_at_frame_values)
      show "content_at h p (c k)" using Cons.prems(5) k by simp
      show "nodes ?h q = nodes h q" if "q \<in> set (content_addrs (c k))" for q
      proof -
        have "q \<noteq> p" "q \<notin> ?A" using a(1) that by auto
        then show ?thesis by (simp add: erase_nodes)
      qed
      show "pages ?h q \<noteq> None" if "q \<in> set (content_pages (c k))" "pages h q \<noteq> None" for q
      proof -
        have "q \<notin> ?X" using a(2) that(1) by auto
        then show ?thesis using that(2) by (simp add: erase_pages)
      qed
    qed
  qed
  have "\<exists>b''. foldM (destroy_rank p (perm_body b)) is ?h = Some (set_node p (Border b'') (erase (set (concat (map content_addrs (map c is)))) (set (concat (map content_pages (map c is)))) ?h))"
    by (rule Cons.IH [of ?h ?b]) (use Cons.prems slots in auto)
  moreover have "p \<notin> set (concat (map content_addrs (map c is)))" using Cons.prems(6) by auto
  ultimately show ?case using step by (auto simp: erase_set_node erase_erase Un_commute)
qed

lemma destroy_leaf:
  assumes wf: "tree_wf (Leaf p es)" and t: "tree_at h par rt (Leaf p es)" and d: "distinct (tree_addrs (Leaf p es))" "distinct (tree_pages (Leaf p es))"
    and IH: "\<And>k u g. (k, Sub u) \<in> set es \<Longrightarrow> tree_at g p True u \<Longrightarrow> destroyed u g"
  shows "destroyed (Leaf p es) h"
proof -
  obtain b where b: "nodes h p = Some (Border b)" "leaf_node par rt es b" "\<forall>c \<in> set (map snd es). content_at h p c"
    using t unfolding tree_at_contents by blast
  have w: "border_wf b" "border_entries b = map (\<lambda>(k, c). (k, lv_word c)) es" using b(2) by (simp_all add: leaf_node_def)
  have len: "get_permutation_cnk b = length es" using w(2) length_border_keys [of b] map_fst_entries [of b] by (metis length_map)
  let ?is = "[0..<length es]" and ?c = "\<lambda>i. snd (es ! i)"
  have m: "map ?c ?is = map snd es" by (rule nth_equalityI) simp_all
  have "lv_arr b ! (perm_list (perm_body b) ! i) = lv_word (?c i) \<and> content_at h p (?c i)" if "i < length es" for i
    using border_slot(4) [OF w(1), of i] that len w(2) b(3) by (auto simp: case_prod_beta')
  then have "\<exists>b''. foldM (destroy_rank p (perm_body b)) ?is h =
      Some (set_node p (Border b'') (erase (set (concat (map content_addrs (map ?c ?is)))) (set (concat (map content_pages (map ?c ?is)))) h))"
    by (intro destroy_ranks [OF w _ IH]) (use wf w b(1) d in \<open>auto simp: m border_wf_def\<close>)
  then obtain b'' where "destroy_node p h = Some (OK_DESTROY_BORDER,
      set_node p (Border b'') (erase (set (concat (map content_addrs (map snd es)))) (set (concat (map content_pages (map snd es)))) h))"
    using destroy_border_eq [OF b(1)] len m by auto
  moreover have "erase {p} {} (set_node p n g) = erase {p} {} g" for n g by (auto simp: erase_def set_node_def restrict_map_def fun_eq_iff)
  ultimately show ?thesis using delete_node_erase [of _ p] by (simp add: destroyed_def erase_erase)
qed

text \<open>The children of an interior node.\<close>

lemma foldM_nth:
  "(\<And>i s. i < length xs \<Longrightarrow> f i s = g (xs ! i) s) \<Longrightarrow> foldM f [0..<length xs] s = foldM g xs s"
proof (induction xs arbitrary: s rule: rev_induct)
  case (snoc x xs)
  have "foldM f [0..<length xs] s = foldM g xs s" for s using snoc.prems by (intro snoc.IH) (simp add: nth_append)
  moreover have "foldM f [] = foldM g []" by (intro ext) simp
  moreover from this have "foldM f [length xs] = foldM g [x]" using snoc.prems [of "length xs"] by (intro ext) simp
  ultimately show ?case by (simp add: foldM_append)
qed simp

lemma destroy_children:
  assumes "\<And>t g. t \<in> set ts \<Longrightarrow> tree_at g p False t \<Longrightarrow> destroyed t g"
  shows "\<forall>t \<in> set ts. tree_at h p False t \<Longrightarrow> distinct (concat (map tree_addrs ts)) \<Longrightarrow> distinct (concat (map tree_pages ts)) \<Longrightarrow>
    foldM (\<lambda>t h. destroy_node (addr_of t) h \<bind> (\<lambda>(st, h). delete_node (addr_of t) h)) ts h =
      Some (erase (set (concat (map tree_addrs ts))) (set (concat (map tree_pages ts))) h)"
  using assms
proof (induction ts arbitrary: h)
  case Nil
  then show ?case by (simp add: erase_def restrict_map_def)
next
  case (Cons t ts)
  let ?g = "erase (set (tree_addrs t)) (set (tree_pages t)) h"
  have "destroyed t h" using Cons.prems(1,4) by simp
  moreover have "tree_at ?g p False u" if u: "u \<in> set ts" for u
  proof (rule tree_at_frame_values)
    have a: "set (tree_addrs u) \<inter> set (tree_addrs t) = {}" "set (tree_pages u) \<inter> set (tree_pages t) = {}" using Cons.prems(2,3) u by auto
    show "tree_at h p False u" using Cons.prems(1) u by simp
    show "nodes ?g q = nodes h q" if "q \<in> set (tree_addrs u)" for q using a(1) that by (intro erase_nodes) auto
    show "pages ?g q \<noteq> None" if "q \<in> set (tree_pages u)" "pages h q \<noteq> None" for q
    proof -
      have "q \<notin> set (tree_pages t)" using a(2) that(1) by auto
      then show ?thesis using that(2) by (simp add: erase_pages)
    qed
  qed
  moreover have "destroyed u g" if "u \<in> set ts" "tree_at g p False u" for u g using Cons.prems(4) that by simp
  ultimately show ?case using Cons.IH [of ?g] Cons.prems(2,3) by (simp add: destroyed_def erase_erase Un_commute)
qed

lemma distinct_part: "distinct (concat (map f xs)) \<Longrightarrow> x \<in> set xs \<Longrightarrow> distinct (f x)"
  by (induction xs) auto

lemma destroy_tree:
  assumes "tree_wf t" and "tree_at h par rt t" and "distinct (tree_addrs t)" and "distinct (tree_pages t)"
  shows "destroyed t h"
  using assms
proof (induction t arbitrary: h par rt rule: tree_induct)
  case (Leaf p es)
  show ?case
  proof (rule destroy_leaf [OF Leaf.prems])
    show "destroyed u g" if "(k, Sub u) \<in> set es" "tree_at g p True u" for k u g
    proof (rule Leaf.IH [OF that(1) _ that(2)])
      have "Sub u \<in> set (map snd es)" using that(1) by force
      then show "distinct (tree_addrs u)" "distinct (tree_pages u)"
        using distinct_part [of content_addrs "map snd es" "Sub u"] distinct_part [of content_pages "map snd es" "Sub u"] Leaf.prems(3,4) by simp_all
      show "tree_wf u" using Leaf.prems(1) that(1) by fastforce
    qed
  qed
next
  case (Branch p ks ts)
  obtain n where n: "nodes h p = Some (Interior n)" "branch_node par rt ks (map addr_of ts) n" "\<forall>t \<in> set ts. tree_at h p False t"
    using Branch.prems(2) unfolding tree_at_Branch by blast
  have w: "interior_wf n" "interior_children n = map addr_of ts" using n(2) by (simp_all add: branch_node_def)
  have len: "length ts = unat (n_keys n) + 1" using length_interior(2) [OF w(1)] w(2) by simp
  let ?A = "set (concat (map tree_addrs ts))" and ?X = "set (concat (map tree_pages ts))"
  have "destroy_node p h = Some (OK_DESTROY_INTERIOR, erase ?A ?X h)"
  proof -
    have "get_child_at n i = Some (addr_of (ts ! i))" if "i < length ts" for i
    proof -
      have "children n ! i = interior_children n ! i" "i < length (children n)"
        using that len length_interior(2) [OF w(1)] by (simp_all add: interior_children_def)
      then show ?thesis using w(2) that by (simp add: get_child_at_def)
    qed
    then have "foldM (destroy_child n) [0..<length ts] h =
        foldM (\<lambda>t h. destroy_node (addr_of t) h \<bind> (\<lambda>(st, h). delete_node (addr_of t) h)) ts h" by (intro foldM_nth) (simp add: destroy_child_def)
    also have "\<dots> = Some (erase ?A ?X h)"
    proof (rule destroy_children [OF _ n(3)])
      show "destroyed t g" if "t \<in> set ts" "tree_at g p False t" for t g
        by (rule Branch.IH [OF that(1) _ that(2)]) (use Branch.prems that(1) distinct_part in auto)
    qed (use Branch.prems(3,4) in auto)
    finally show ?thesis using destroy_interior_eq [OF n(1)] len by simp
  qed
  moreover have "p \<notin> ?A" using Branch.prems(3) by simp
  ultimately show ?case using delete_node_erase [of "erase ?A ?X h" p] n(1) by (simp add: destroyed_def erase_erase erase_nodes)
qed

section \<open>The whole tree\<close>

lemma destroy_root_tree:
  assumes inv: "tree_inv h ti t" and d: "distinct (tree_pages t)" and ti: "ti \<noteq> storages \<Longrightarrow> ti - 8 \<notin> set (tree_pages t)"
  obtains h' where "destroy_root ti h = Some h'" "store_root_ptr ti nullptr (erase (set (tree_addrs t)) (set (tree_pages t)) h) = Some h'"
proof -
  let ?g = "erase (set (tree_addrs t)) (set (tree_pages t)) h"
  have r: "load_root_ptr ti h = Some (addr_of t)" "tree_wf t" "tree_at h nullptr True t" "distinct (tree_addrs t)"
    using inv by (simp_all add: tree_inv_def tree_rep_def)
  have "destroyed t h" by (rule destroy_tree [OF r(2-4) d])
  moreover have "addr_of t \<noteq> nullptr" using tree_wf_valid_ptr [OF r(2)] by (simp add: valid_ptr_def)
  ultimately have "destroy_root ti h = store_root_ptr ti nullptr ?g"
    using r(1) by (auto simp: destroy_root_def destroyed_def bind_eq_Some case_prod_beta')
  moreover have "load_root_ptr ti ?g = Some (addr_of t)"
    using r(1) ti erase_pages [of "ti - 8" "set (tree_pages t)"] by (cases "ti = storages") (simp_all add: load_root_ptr_def erase_def)
  ultimately show thesis using store_root_some [of ti ?g] that by metis
qed

section \<open>Property\<close>

lemma sample_destroy: "\<exists>h t. tree_inv h storages t \<and> distinct (tree_pages t) \<and> tree_pages t \<noteq> []"
proof -
  let ?k = "replicate 9 17 :: byte list"
  have "store_holds storages False sample_start None Map.empty" using sample_start_empty by (simp add: store_holds_def store_defs)
  from store_put_allowed(2) [OF this sample_start_allowed] obtain h ot v where p: "put_done 0 storages ?k sample_args sample_start None h ot v" by auto
  then obtain t where t: "ot = Some t" by (cases ot) (auto simp: put_done_def store_map_def fun_eq_iff split: if_splits)
  have d: "tree_inv h storages t" "map_of (tree_entries t) = [?k \<mapsto> v]" "remove_ptr_flag v \<in> set (fresh sample_start)" "value_bytes (pages h) v = Some (put_bytes sample_args)"
    using p t by (auto simp: put_done_def store_defs new_word_def sample_args_def)
  then have dk: "distinct (map fst (tree_entries t))" using tree_entries_distinct by (simp add: tree_inv_def tree_rep_def)
  have e: "k = ?k \<and> w = v" if "(k, w) \<in> set (tree_entries t)" for k w using map_of_is_SomeI [OF dk that] d(2) by (simp split: if_splits)
  have "remove_ptr_flag v \<noteq> v"
  proof
    assume "remove_ptr_flag v = v"
    then have "slice_bytes v = put_bytes sample_args" using d(4) by (simp add: value_bytes_def Let_def)
    then show False using length_slice_bytes [of v] by (simp add: put_bytes_def sample_args_def)
  qed
  moreover have "(?k, v) \<in> set (tree_entries t)" using d(2) by (intro map_of_SomeD) simp
  ultimately have "remove_ptr_flag v \<in> set (tree_pages t)" by (force simp: tree_pages_def word_pages_def)
  moreover have "distinct (tree_pages t)" unfolding tree_pages_def by (rule distinct_word_pages [OF dk]) (use e in blast)
  ultimately show ?thesis using d(1) by force
qed

text \<open>
  C14. Destroying the tree of an instance, by \<^verbatim>\<open>destroy\<close> of its root, releases every node of
  every layer and every value page that still has its delete flag, each of them once, and
  nothing else; the root pointer is null afterwards. No pointer is followed after its target
  has been released.
\<close>

theorem destroy_releases_tree:
  assumes "tree_inv h ti t" and "distinct (tree_pages t)" and "ti \<noteq> storages \<Longrightarrow> ti - 8 \<notin> set (tree_pages t)"
  shows "\<exists>h'. destroy_root ti h = Some h' \<and> load_root_ptr ti h' = Some nullptr \<and> nodes h' = nodes h |` (- set (tree_addrs t)) \<and>
    (\<forall>q. q \<noteq> ti - 8 \<longrightarrow> pages h' q = free_pages (set (tree_pages t)) (pages h) q) \<and> fresh h' = fresh h \<and> thread_info_table h' = thread_info_table h"
proof -
  obtain h' where h': "destroy_root ti h = Some h'" "store_root_ptr ti nullptr (erase (set (tree_addrs t)) (set (tree_pages t)) h) = Some h'"
    using destroy_root_tree [OF assms] by blast
  note s = store_root_spec [OF h'(2)]
  show ?thesis using h'(1) s(1-3,5) store_root_pages(1) [OF h'(2)] by (intro exI [of _ h']) (simp add: erase_def)
qed

theorem destroy_releases_tree_witness:
  "\<exists>h t h'. tree_inv h storages t \<and> tree_pages t \<noteq> [] \<and> destroy_root storages h = Some h' \<and> load_root_ptr storages h' = Some nullptr \<and>
     nodes h' = nodes h |` (- set (tree_addrs t))"
proof -
  obtain h t where t: "tree_inv h storages t" "distinct (tree_pages t)" "tree_pages t \<noteq> []" using sample_destroy by blast
  have "\<exists>h'. destroy_root storages h = Some h' \<and> load_root_ptr storages h' = Some nullptr \<and> nodes h' = nodes h |` (- set (tree_addrs t))"
    using destroy_releases_tree [OF t(1,2)] by auto
  then show ?thesis using t by blast
qed

end
