(* ===== verification/Storage_Forest.thy ===== *)
theory Storage_Forest
  imports Destroy_Tree
begin

text \<open>
  The trees of all storages side by side in one heap: the tree of storages, whose values are
  the tree instances, and one tree for every storage. A call on one tree leaves the others as
  they are.
\<close>

section \<open>What a call on one tree keeps of another\<close>

text \<open>
  Every page is still there, and the ones that were there differ in the delete flag at most,
  the one with the root pointer of the instance apart.
\<close>

definition pages_apart :: "heap \<Rightarrow> addr \<Rightarrow> heap \<Rightarrow> bool" where
  "pages_apart h ti h' \<longleftrightarrow> pages_le (pages h) (pages h') \<and> (\<forall>q. q \<notin> set (fresh h) \<longrightarrow> q \<noteq> ti - 8 \<longrightarrow>
     map_option (need_delete_flag_update (\<lambda>_. True)) (pages h' q) = map_option (need_delete_flag_update (\<lambda>_. True)) (pages h q))"

lemma kept_apart: "pages_kept h ti h' \<Longrightarrow> pages_apart h ti h'"
  by (simp add: pages_kept_def pages_apart_def)

lemma flagged_apart: "pages_flagged h ti h' \<Longrightarrow> pages_le (pages h) (pages h') \<Longrightarrow> pages_apart h ti h'"
  by (simp add: pages_flagged_def pages_apart_def)

lemma apart_page:
  assumes "pages_apart h ti h'" and "q \<notin> set (fresh h)" and "q \<noteq> ti - 8"
  shows "map_option body (pages h' q) = map_option body (pages h q)" and "map_option align (pages h' q) = map_option align (pages h q)"
proof -
  let ?f = "need_delete_flag_update (\<lambda>_. True)"
  have e: "map_option ?f (pages h' q) = map_option ?f (pages h q)" using assms by (simp add: pages_apart_def)
  have b: "map_option body x = map_option body (map_option ?f x)" "map_option align x = map_option align (map_option ?f x)" for x
    by (cases x, simp_all)+
  show "map_option body (pages h' q) = map_option body (pages h q)" unfolding b(1) [of "pages h' q"] b(1) [of "pages h q"] e ..
  show "map_option align (pages h' q) = map_option align (pages h q)" unfolding b(2) [of "pages h' q"] b(2) [of "pages h q"] e ..
qed

lemma apart_bytes:
  "pages_apart h ti h' \<Longrightarrow> (remove_ptr_flag v \<noteq> v \<Longrightarrow> remove_ptr_flag v \<notin> set (fresh h) \<and> remove_ptr_flag v \<noteq> ti - 8) \<Longrightarrow>
    value_bytes (pages h') v = value_bytes (pages h) v"
  using apart_page(1) [of h ti h' "remove_ptr_flag v"] by (cases "remove_ptr_flag v = v") (simp_all add: value_bytes_def Let_def)

lemma load_root_fields:
  assumes "ti \<noteq> storages"
  shows "load_root_ptr ti h = Some r \<longleftrightarrow> (\<exists>bs. map_option align (pages h (ti - 8)) = Some 8 \<and> map_option body (pages h (ti - 8)) = Some bs \<and>
    length bs = 8 \<and> slice_of_bytes bs = r)"
  using assms by (auto simp: load_root_ptr_def split: option.splits if_splits)

lemma slice_of_slice_bytes: "slice_of_bytes (slice_bytes a) = a"
  using slice_bytes_inj [of "slice_of_bytes (slice_bytes a)" a] by simp

lemma root_apart:
  assumes "pages_apart h ti h'" and "load_root_ptr ti' h = Some r" and "ti' \<noteq> ti" and "\<forall>q \<in> set (fresh h). pages h q = None"
    and "ti' = storages \<Longrightarrow> storages_root h' = storages_root h"
  shows "load_root_ptr ti' h' = Some r"
proof (cases "ti' = storages")
  case True
  then show ?thesis using assms(2,5) by (simp add: load_root_ptr_def)
next
  case False
  then have "pages h (ti' - 8) \<noteq> None" using assms(2) by (auto simp: load_root_ptr_def split: option.splits)
  then have "ti' - 8 \<notin> set (fresh h)" "ti' - 8 \<noteq> ti - 8" using assms(3,4) by auto
  then show ?thesis using apart_page [OF assms(1)] assms(2) unfolding load_root_fields [OF False] by simp
qed

text \<open>What one call changes: the tree \<open>t\<close> of the instance \<open>ti\<close>, if there is one, to another.\<close>

definition tree_call :: "heap \<Rightarrow> addr \<Rightarrow> tree option \<Rightarrow> heap \<Rightarrow> tree option \<Rightarrow> bool" where
  "tree_call h ti ot h' ot' \<longleftrightarrow> store_inv h' ti ot' \<and> pages_apart h ti h' \<and> touches_only h ti (store_addrs ot) h' (store_addrs ot')"

lemma store_inv_fresh: "store_inv h ti ot \<Longrightarrow> distinct (nullptr # store_addrs ot @ fresh h) \<and> (\<forall>q \<in> set (fresh h). valid_ptr q \<and> pages h q = None)"
  by (auto simp: store_defs empty_inv_def tree_inv_def split: option.splits)

lemma store_inv_root: "store_inv h ti ot \<Longrightarrow> load_root_ptr ti h = Some (case ot of None \<Rightarrow> nullptr | Some t \<Rightarrow> addr_of t)"
  by (auto simp: store_defs empty_inv_def tree_inv_def tree_rep_def split: option.splits)

lemma tree_inv_frame:
  assumes inv: "tree_inv h ti t" and root: "load_root_ptr ti h' = Some (addr_of t)" and n: "\<And>x. x \<in> set (tree_addrs t) \<Longrightarrow> nodes h' x = nodes h x"
    and p: "\<And>q. q \<in> set (tree_pages t) \<Longrightarrow> pages h q \<noteq> None \<Longrightarrow> pages h' q \<noteq> None" and f: "set (fresh h') \<subseteq> set (fresh h)" "distinct (fresh h')" "\<forall>q \<in> set (fresh h'). pages h' q = None"
  shows "tree_inv h' ti t"
proof -
  have r: "tree_wf t" "tree_at h nullptr True t" "linked h nullptr (map fst (layer_leaves t))" "distinct (nullptr # tree_addrs t @ fresh h)"
    "\<forall>q \<in> set (fresh h). valid_ptr q" "unused_in (set (tree_addrs t @ fresh h)) h (leaf_addrs t)" using inv by (simp_all add: tree_inv_def tree_rep_def)
  have "tree_at h' nullptr True t" by (rule tree_at_frame_values [OF r(2) n p])
  moreover have "linked h' nullptr (map fst (layer_leaves t))"
    using r(3) linked_cong [of "map fst (layer_leaves t)" h' h nullptr] n leaves_in_addrs [of t] by auto
  moreover have "distinct (nullptr # tree_addrs t @ fresh h')" using r(4) f by auto
  moreover have "unused_in (set (tree_addrs t @ fresh h')) h' (leaf_addrs t)"
  proof (rule unused_in_mono)
    show "unused_in (set (tree_addrs t @ fresh h)) h' (leaf_addrs t)"
      using r(6) n leaf_addrs_sub [of t] unfolding unused_in_def by auto
    show "set (tree_addrs t @ fresh h') \<subseteq> set (tree_addrs t @ fresh h)" using f(1) by auto
  qed
  ultimately show ?thesis using r root f by (auto simp: tree_inv_def tree_rep_def)
qed

lemma tree_call_other:
  assumes c: "tree_call h ti ot h' ot'" and inv: "store_inv h ti' os" and ne: "ti' \<noteq> ti" and d: "set (store_addrs os) \<inter> set (store_addrs ot) = {}"
  shows "store_inv h' ti' os" and "set (store_addrs os) \<inter> set (store_addrs ot') = {}"
proof -
  have c': "store_inv h' ti ot'" "pages_apart h ti h'" "\<forall>x. x \<notin> insert nullptr (set (store_addrs ot @ fresh h)) \<longrightarrow> nodes h' x = nodes h x"
    "set (store_addrs ot') \<subseteq> set (store_addrs ot @ fresh h)" "set (fresh h') \<subseteq> set (fresh h)" "ti \<noteq> storages \<longrightarrow> storages_root h' = storages_root h"
    using c unfolding tree_call_def touches_only_def by - (elim conjE, assumption)+
  note f = store_inv_fresh [OF inv] and f' = store_inv_fresh [OF c'(1)]
  have root: "load_root_ptr ti' h' = load_root_ptr ti' h"
    using root_apart [OF c'(2) store_inv_root [OF inv] ne] store_inv_root [OF inv] f c'(6) ne by auto
  have n: "nodes h' x = nodes h x" if "x \<in> set (store_addrs os)" for x
  proof -
    have "x \<notin> insert nullptr (set (store_addrs ot @ fresh h))" using that d f by auto
    then show ?thesis using c'(3) by blast
  qed
  show "set (store_addrs os) \<inter> set (store_addrs ot') = {}" using d c'(4) f by auto
  show "store_inv h' ti' os"
  proof (cases os)
    case None
    then show ?thesis using inv root f' by (simp add: store_inv_def empty_inv_def)
  next
    case (Some t)
    then have t: "tree_inv h ti' t" using inv by (simp add: store_inv_def)
    have "tree_inv h' ti' t"
    proof (rule tree_inv_frame [OF t])
      show "load_root_ptr ti' h' = Some (addr_of t)" using root store_inv_root [OF inv] Some by simp
      show "pages h' q \<noteq> None" if "pages h q \<noteq> None" for q using c'(2) pages_le_some that unfolding pages_apart_def by blast
    qed (use n c'(5) f' Some in \<open>auto simp: store_addrs_def\<close>)
    then show ?thesis using Some by (simp add: store_inv_def)
  qed
qed

text \<open>Destroying a tree keeps the trees that share no node and no page with it.\<close>

definition store_pages :: "tree option \<Rightarrow> addr list" where
  "store_pages ot = (case ot of None \<Rightarrow> [] | Some t \<Rightarrow> tree_pages t)"

lemma destroy_other:
  assumes g: "store_root_ptr ti nullptr (erase (set (tree_addrs t)) (set (tree_pages t)) h) = Some h'" and inv: "store_inv h ti' os" and ne: "ti' \<noteq> ti"
    and d: "set (store_addrs os) \<inter> set (tree_addrs t) = {}" "set (store_pages os) \<inter> set (tree_pages t) = {}"
    and pg: "ti' \<noteq> storages \<Longrightarrow> ti' - 8 \<notin> set (tree_pages t)"
  shows "store_inv h' ti' os"
proof -
  let ?g = "erase (set (tree_addrs t)) (set (tree_pages t)) h"
  note sg = store_root_spec [OF g] and f = store_inv_fresh [OF inv]
  have fr: "fresh h' = fresh h" using sg(2) by (simp add: erase_def)
  have none: "pages h' q = None \<longleftrightarrow> pages ?g q = None" for q using sg(8) by (metis domIff)
  have "pages ?g q = None" if "pages h q = None" for q using that by (simp add: erase_def free_pages_def)
  then have f': "distinct (nullptr # fresh h')" "\<forall>q \<in> set (fresh h'). valid_ptr q \<and> pages h' q = None" using f fr none by auto
  have root: "load_root_ptr ti' h' = load_root_ptr ti' h"
  proof (cases "ti' = storages")
    case True
    then show ?thesis using store_root_storages [OF g] ne by (simp add: load_root_ptr_def erase_def)
  next
    case False
    moreover have "ti' - 8 \<noteq> ti - 8" using ne by simp
    ultimately show ?thesis using store_root_pages(1) [OF g] erase_pages pg by (simp add: load_root_ptr_def)
  qed
  show ?thesis
  proof (cases os)
    case None
    then show ?thesis using inv root f' by (simp add: store_inv_def empty_inv_def)
  next
    case (Some t2)
    have "tree_inv h' ti' t2"
    proof (rule tree_inv_frame)
      show "tree_inv h ti' t2" using inv Some by (simp add: store_inv_def)
      show "load_root_ptr ti' h' = Some (addr_of t2)" using root store_inv_root [OF inv] Some by simp
      show "nodes h' x = nodes h x" if "x \<in> set (tree_addrs t2)" for x
        using sg(1) erase_nodes [of x "set (tree_addrs t)"] d(1) that Some by (auto simp: store_addrs_def)
      show "pages h' q \<noteq> None" if "q \<in> set (tree_pages t2)" "pages h q \<noteq> None" for q
      proof -
        have "q \<notin> set (tree_pages t)" using d(2) that(1) Some by (auto simp: store_pages_def)
        then show ?thesis using that(2) none erase_pages [of q "set (tree_pages t)"] by simp
      qed
    qed (use fr f' in auto)
    then show ?thesis using Some by (simp add: store_inv_def)
  qed
qed

section \<open>The trees of all storages\<close>

text \<open>
  For every name in the tree of storages its instance, the eight bytes behind the header of
  the value page, and the tree of the instance.
\<close>

type_synonym trees = "byte list \<rightharpoonup> addr \<times> tree"

definition instance_of :: "tree option \<Rightarrow> byte list \<Rightarrow> addr \<Rightarrow> bool" where
  "instance_of S name ti \<longleftrightarrow> ti \<noteq> storages \<and> (\<exists>v. store_map S name = Some v \<and> remove_ptr_flag v \<noteq> v \<and> remove_ptr_flag v = ti - 8)"

definition forest :: "heap \<Rightarrow> tree option \<Rightarrow> trees \<Rightarrow> bool" where
  "forest h S D \<longleftrightarrow> store_inv h storages S \<and> dom D = dom (store_map S) \<and>
     (\<forall>name ti t. D name = Some (ti, t) \<longrightarrow> instance_of S name ti \<and> tree_inv h ti t \<and> set (tree_addrs t) \<inter> set (store_addrs S) = {}) \<and>
     (\<forall>name ti t name' ti' t'. D name = Some (ti, t) \<longrightarrow> D name' = Some (ti', t') \<longrightarrow> name \<noteq> name' \<longrightarrow>
        ti \<noteq> ti' \<and> set (tree_addrs t) \<inter> set (tree_addrs t') = {})"

lemma forestD:
  assumes "forest h S D"
  shows "store_inv h storages S" and "dom D = dom (store_map S)"
    and "D name = Some (ti, t) \<Longrightarrow> ti \<noteq> storages \<and> instance_of S name ti \<and> tree_inv h ti t \<and> set (tree_addrs t) \<inter> set (store_addrs S) = {}"
    and "D name = Some (ti, t) \<Longrightarrow> D name' = Some (ti', t') \<Longrightarrow> name \<noteq> name' \<Longrightarrow> ti \<noteq> ti' \<and> set (tree_addrs t) \<inter> set (tree_addrs t') = {}"
  using assms unfolding forest_def instance_of_def by blast+

lemma store_some [simp]: "store_inv h ti (Some t) = tree_inv h ti t" "store_map (Some t) = map_of (tree_entries t)" "store_addrs (Some t) = tree_addrs t"
  by (simp_all add: store_defs)

lemma forest_call:
  assumes F: "forest h S D" and D: "D name = Some (ti, t)" and c: "tree_call h ti (Some t) h' (Some t')"
  shows "forest h' S (D(name \<mapsto> (ti, t')))"
proof -
  note S = forestD(1,2) [OF F] and T = forestD(3) [OF F] and P = forestD(4) [OF F]
  have ti: "ti \<noteq> storages" "instance_of S name ti" "set (tree_addrs t) \<inter> set (store_addrs S) = {}" using T [OF D] by blast+
  have s: "store_inv h' storages S" "set (store_addrs S) \<inter> set (tree_addrs t') = {}"
    using tree_call_other [OF c S(1) ti(1) [symmetric]] ti(3) by auto
  have t': "tree_inv h' ti t'" using c by (simp add: tree_call_def)
  have o: "tree_inv h' ti2 t2 \<and> set (tree_addrs t2) \<inter> set (tree_addrs t') = {}" if d: "D name2 = Some (ti2, t2)" "name2 \<noteq> name" for name2 ti2 t2
  proof -
    have "ti2 \<noteq> ti" "set (tree_addrs t2) \<inter> set (tree_addrs t) = {}" using P [OF d(1) D d(2)] by blast+
    then show ?thesis using tree_call_other [OF c, of ti2 "Some t2"] T [OF d(1)] by simp
  qed
  show ?thesis unfolding forest_def
  proof (intro conjI allI impI)
    show "store_inv h' storages S" by (fact s)
    show "dom (D(name \<mapsto> (ti, t'))) = dom (store_map S)" using S(2) D by auto
  next
    fix name2 ti2 t2 assume d: "(D(name \<mapsto> (ti, t'))) name2 = Some (ti2, t2)"
    show "instance_of S name2 ti2" "tree_inv h' ti2 t2" "set (tree_addrs t2) \<inter> set (store_addrs S) = {}"
      using d ti s t' o [of name2 ti2 t2] T [of name2 ti2 t2] by (cases "name2 = name"; auto)+
  next
    fix name2 ti2 t2 name3 ti3 t3 assume d: "(D(name \<mapsto> (ti, t'))) name2 = Some (ti2, t2)" "(D(name \<mapsto> (ti, t'))) name3 = Some (ti3, t3)" "name2 \<noteq> name3"
    show "ti2 \<noteq> ti3" "set (tree_addrs t2) \<inter> set (tree_addrs t3) = {}"
      using d D o [of name2 ti2 t2] o [of name3 ti3 t3] P [of name2 ti2 t2 name3 ti3 t3] P [of name2 ti2 t2 name ti t] P [of name ti t name3 ti3 t3]
      by (cases "name2 = name"; cases "name3 = name"; auto)+
  qed
qed

text \<open>Allocation, sessions and nodes outside of every tree do not matter.\<close>

lemma store_inv_quiet:
  assumes inv: "store_inv h ti ot" and n: "\<forall>x. x \<notin> set (fresh h) \<longrightarrow> nodes h' x = nodes h x" and p: "pages h' = pages h" "storages_root h' = storages_root h"
    and f: "set (fresh h') \<subseteq> set (fresh h)" "distinct (fresh h')"
  shows "store_inv h' ti ot"
proof -
  note g = store_inv_fresh [OF inv]
  have root: "load_root_ptr ti h' = load_root_ptr ti h" using p by (simp add: load_root_ptr_def)
  show ?thesis
  proof (cases ot)
    case None
    then show ?thesis using inv root g f p(1) by (auto simp: store_inv_def empty_inv_def)
  next
    case (Some t)
    have "nodes h' x = nodes h x" if "x \<in> set (tree_addrs t)" for x
    proof -
      have "x \<notin> set (fresh h)" using that g Some by auto
      then show ?thesis using n by blast
    qed
    then show ?thesis using tree_inv_frame [of h ti t h'] inv root store_inv_root [OF inv] p f g Some by auto
  qed
qed

lemma forest_quiet:
  assumes F: "forest h S D" and n: "\<forall>x. x \<notin> set (fresh h) \<longrightarrow> nodes h' x = nodes h x" and p: "pages h' = pages h" "storages_root h' = storages_root h"
    and f: "set (fresh h') \<subseteq> set (fresh h)" "distinct (fresh h')"
  shows "forest h' S D"
proof -
  note q = store_inv_quiet [OF _ n p f]
  have "store_inv h' storages S" using q forestD(1) [OF F] by blast
  moreover have "tree_inv h' ti t" if "D name = Some (ti, t)" for name ti t
    using q [of ti "Some t"] forestD(3) [OF F that] by simp
  ultimately show ?thesis using F unfolding forest_def by blast
qed

text \<open>A new storage: its instance is the value that the tree of storages has got, its tree one empty border node.\<close>

lemma empty_tree_inv:
  assumes "nodes h p = Some (Border empty_border)" and "valid_ptr p" and "p \<notin> set (fresh h)" and "load_root_ptr ti h = Some p"
    and "distinct (nullptr # fresh h)" and "\<forall>q \<in> set (fresh h). valid_ptr q \<and> pages h q = None"
  shows "tree_inv h ti (Leaf p [])"
proof -
  have "leaf_node nullptr True [] empty_border" using empty_border_view by (simp add: leaf_node_def is_stable_def body_init_def Let_def)
  then have "tree_at h nullptr True (Leaf p [])" using assms(1) by (simp add: tree_at_Leaf)
  moreover have "linked h nullptr (map fst (layer_leaves (Leaf p [])))" using assms(1) empty_border_view by (simp add: linked.simps(2))
  moreover have "unused_in X h (leaf_addrs (Leaf p []))" for X using assms(1) empty_border_view by simp
  ultimately show ?thesis using assms(2-6) by (simp add: tree_inv_def tree_rep_def key_sorted_def valid_ptr_def)
qed

lemma forest_create:
  assumes F: "forest h S D" and new: "name \<notin> dom D" and c: "tree_call h storages S h' S'" and S': "store_map S' = (store_map S)(name \<mapsto> v)"
    and v: "remove_ptr_flag v \<in> set (fresh h)" "remove_ptr_flag v \<noteq> v"
    and pg: "map_option align (pages h' (remove_ptr_flag v)) = Some 8" "map_option body (pages h' (remove_ptr_flag v)) = Some (slice_bytes p)"
    and p: "nodes h p = Some (Border empty_border)" "valid_ptr p" "p \<notin> set (store_addrs S @ fresh h)" "\<And>name ti t. D name = Some (ti, t) \<Longrightarrow> p \<notin> set (tree_addrs t)"
  defines "ti \<equiv> remove_ptr_flag v + 8"
  shows "forest h' S' (D(name \<mapsto> (ti, Leaf p [])))"
proof -
  note S = forestD(1,2) [OF F] and T = forestD(3) [OF F] and P = forestD(4) [OF F]
  note f = store_inv_fresh [OF S(1)]
  have c': "store_inv h' storages S'" "\<forall>x. x \<notin> insert nullptr (set (store_addrs S @ fresh h)) \<longrightarrow> nodes h' x = nodes h x"
    "set (store_addrs S') \<subseteq> set (store_addrs S @ fresh h)" "set (fresh h') \<subseteq> set (fresh h)"
    using c unfolding tree_call_def touches_only_def by blast+
  have ti: "ti - 8 = remove_ptr_flag v" "ti \<noteq> storages" using v(1) f by (auto simp: ti_def storages_def valid_ptr_def)
  have o: "tree_inv h' ti2 t2 \<and> set (tree_addrs t2) \<inter> set (store_addrs S') = {} \<and> ti2 \<noteq> ti" if d: "D name2 = Some (ti2, t2)" for name2 ti2 t2
  proof -
    have t: "ti2 \<noteq> storages" "tree_inv h ti2 t2" using T [OF d] by blast+
    then have "pages h (ti2 - 8) \<noteq> None" by (auto simp: tree_inv_def tree_rep_def load_root_ptr_def split: option.splits)
    then have "ti2 \<noteq> ti" using v(1) f ti(1) by auto
    then show ?thesis using tree_call_other [OF c, of ti2 "Some t2"] T [OF d] by simp
  qed
  have "nodes h' p = Some (Border empty_border)" using p c'(2) by (auto simp: valid_ptr_def)
  moreover have "load_root_ptr ti h' = Some p" using pg ti by (auto simp: load_root_fields slice_of_slice_bytes)
  ultimately have e: "tree_inv h' ti (Leaf p [])" using p store_inv_fresh [OF c'(1)] c'(4) by (intro empty_tree_inv) auto
  show ?thesis unfolding forest_def
  proof (intro conjI allI impI)
    show "store_inv h' storages S'" by (fact c')
    show "dom (D(name \<mapsto> (ti, Leaf p []))) = dom (store_map S')" using S(2) S' by simp
  next
    fix name2 ti2 t2 assume d: "(D(name \<mapsto> (ti, Leaf p []))) name2 = Some (ti2, t2)"
    show "instance_of S' name2 ti2" using d ti v(2) S' T [of name2 ti2 t2] by (cases "name2 = name") (auto simp: instance_of_def)
    show "tree_inv h' ti2 t2" "set (tree_addrs t2) \<inter> set (store_addrs S') = {}"
      using d e o [of name2 ti2 t2] p(3) c'(3) by (cases "name2 = name"; auto)+
  next
    fix name2 ti2 t2 name3 ti3 t3 assume d: "(D(name \<mapsto> (ti, Leaf p []))) name2 = Some (ti2, t2)" "(D(name \<mapsto> (ti, Leaf p []))) name3 = Some (ti3, t3)" "name2 \<noteq> name3"
    show "ti2 \<noteq> ti3" "set (tree_addrs t2) \<inter> set (tree_addrs t3) = {}"
      using d o [of name2 ti2 t2] o [of name3 ti3 t3] P [of name2 ti2 t2 name3 ti3 t3] p(4) [of name2 ti2 t2] p(4) [of name3 ti3 t3]
      by (cases "name2 = name"; cases "name3 = name"; auto)+
  qed
qed

section \<open>The values of all storages\<close>

definition db_word :: "trees \<Rightarrow> byte list \<Rightarrow> byte list \<Rightarrow> 64 word option" where
  "db_word D name key = (case D name of None \<Rightarrow> None | Some (ti, t) \<Rightarrow> map_of (tree_entries t) key)"

text \<open>The page of a value that is not stored inline, and the pages of the instances.\<close>

definition page_of :: "64 word option \<Rightarrow> addr option" where
  "page_of w = (case w of None \<Rightarrow> None | Some v \<Rightarrow> if remove_ptr_flag v = v then None else Some (remove_ptr_flag v))"

definition instance_pages :: "trees \<Rightarrow> addr set" where
  "instance_pages D = (\<lambda>name. fst (the (D name)) - 8) ` dom D"

text \<open>
  Every storage \<open>name\<close> has the keys and bytes of \<open>m name\<close>, inline or not as \<open>kind name\<close> says; no
  two values share a page, and none of them has the page of an instance.
\<close>

definition held :: "(byte list \<Rightarrow> bool) \<Rightarrow> heap \<Rightarrow> trees \<Rightarrow> (byte list \<rightharpoonup> byte list \<rightharpoonup> byte list) \<Rightarrow> bool" where
  "held kind h D m \<longleftrightarrow> dom m = dom D \<and>
     (\<forall>name mm key. m name = Some mm \<longrightarrow> (mm key = None \<longleftrightarrow> db_word D name key = None)) \<and>
     (\<forall>name key v. db_word D name key = Some v \<longrightarrow> (kind name \<longrightarrow> remove_ptr_flag v = v) \<and> value_bytes (pages h) v = the (m name) key) \<and>
     (\<forall>name key q. page_of (db_word D name key) = Some q \<longrightarrow> q \<notin> insert nullptr (instance_pages D)) \<and>
     (\<forall>name key name' key' q. page_of (db_word D name key) = Some q \<longrightarrow> page_of (db_word D name' key') = Some q \<longrightarrow> name = name' \<and> key = key')"

lemma heldD:
  assumes "held kind h D m"
  shows "dom m = dom D" and "m name = Some mm \<Longrightarrow> mm key = None \<longleftrightarrow> db_word D name key = None"
    and "db_word D name key = Some v \<Longrightarrow> (kind name \<longrightarrow> remove_ptr_flag v = v) \<and> value_bytes (pages h) v = the (m name) key"
    and "page_of (db_word D name key) = Some q \<Longrightarrow> q \<notin> insert nullptr (instance_pages D)"
    and "page_of (db_word D name key) = Some q \<Longrightarrow> page_of (db_word D name' key') = Some q \<Longrightarrow> name = name' \<and> key = key'"
  using assms unfolding held_def by blast+

lemma instance_pages_same: "D name = Some (ti, t) \<Longrightarrow> instance_pages (D(name \<mapsto> (ti, t'))) = instance_pages D"
  unfolding instance_pages_def by (rule image_cong) auto

text \<open>A value has a page that is in use.\<close>

lemma held_page:
  assumes F: "forest h S D" and H: "held kind h D m" and w: "db_word D name key = Some v" and p: "remove_ptr_flag v \<noteq> v"
  shows "remove_ptr_flag v \<notin> set (fresh h)" and "remove_ptr_flag v \<notin> insert nullptr (instance_pages D)" and "pages h (remove_ptr_flag v) \<noteq> None"
proof -
  obtain ti t where D: "D name = Some (ti, t)" using w by (auto simp: db_word_def split: option.splits)
  then obtain mm where m: "m name = Some mm" using heldD(1) [OF H] by blast
  then obtain bs where "mm key = Some bs" using heldD(2) [OF H m, of key] w by (cases "mm key") auto
  then have "value_bytes (pages h) v = Some bs" using heldD(3) [OF H w] m by simp
  then show n: "pages h (remove_ptr_flag v) \<noteq> None" using p by (auto simp: value_bytes_def Let_def)
  then show "remove_ptr_flag v \<notin> set (fresh h)" using store_inv_fresh [OF forestD(1) [OF F]] by auto
  show "remove_ptr_flag v \<notin> insert nullptr (instance_pages D)" using heldD(4) [OF H, of name key] w p by (simp add: page_of_def)
qed

lemma instance_page: "D name = Some (ti, t) \<Longrightarrow> ti - 8 \<in> instance_pages D"
  unfolding instance_pages_def by (rule image_eqI [of _ _ name]) auto

lemma held_bytes:
  assumes F: "forest h S D" and H: "held kind h D m" and w: "db_word D name key = Some v"
    and a: "pages_apart h ti h'" and ti: "ti - 8 \<in> insert nullptr (instance_pages D)"
  shows "value_bytes (pages h') v = the (m name) key"
proof -
  have "value_bytes (pages h') v = value_bytes (pages h) v" by (rule apart_bytes [OF a]) (use held_page [OF F H w] ti in auto)
  then show ?thesis using heldD(3) [OF H w] by simp
qed

lemma fresh_page:
  assumes F: "forest h S D" and q: "q \<in> set (fresh h)"
  shows "q \<notin> insert nullptr (instance_pages D)"
proof -
  have "pages h q = None" "q \<noteq> nullptr" using q store_inv_fresh [OF forestD(1) [OF F]] by auto
  moreover have "pages h (ti2 - 8) \<noteq> None" if "D n2 = Some (ti2, t2)" for n2 ti2 t2
    using forestD(3) [OF F that] by (auto simp: tree_inv_def tree_rep_def load_root_ptr_def split: option.splits)
  ultimately show ?thesis by (fastforce simp: instance_pages_def)
qed

text \<open>A call that changes the value of one key in one storage.\<close>

lemma held_call:
  assumes F: "forest h S D" and H: "held kind h D m" and D: "D name = Some (ti, t)" and m: "m name = Some mm"
    and t': "map_of (tree_entries t') = (map_of (tree_entries t))(key := w)" and v: "w = None \<longleftrightarrow> bs = None"
      "\<And>v. w = Some v \<Longrightarrow> value_bytes (pages h') v = bs \<and> (kind name \<longrightarrow> remove_ptr_flag v = v) \<and> (remove_ptr_flag v \<noteq> v \<longrightarrow> remove_ptr_flag v \<in> set (fresh h))"
    and p: "pages_apart h ti h'"
  shows "held kind h' (D(name \<mapsto> (ti, t'))) (m(name \<mapsto> mm(key := bs)))"
proof -
  let ?D = "D(name \<mapsto> (ti, t'))" and ?w = "\<lambda>n k. if n = name \<and> k = key then w else db_word D n k"
  have w: "db_word ?D n k = ?w n k" for n k using D t' by (auto simp: db_word_def)
  have i: "instance_pages ?D = instance_pages D" by (rule instance_pages_same [of D name ti t, OF D])
  have ti: "ti - 8 \<in> insert nullptr (instance_pages D)" using instance_page [of D name ti t, OF D] by blast
  have new: "q \<in> set (fresh h)" if "page_of w = Some q" for q using that v(2) by (auto simp: page_of_def split: if_splits option.splits)
  have old: "q \<notin> set (fresh h) \<and> q \<notin> insert nullptr (instance_pages D)" if "page_of (db_word D n k) = Some q" for n k q
    using that held_page [OF F H, of n k] by (auto simp: page_of_def split: option.splits if_splits)
  show ?thesis unfolding held_def i w
  proof (intro conjI allI impI)
    show "dom (m(name \<mapsto> mm(key := bs))) = dom ?D" using heldD(1) [OF H] by simp
  next
    fix n m2 k assume "(m(name \<mapsto> mm(key := bs))) n = Some m2"
    then show "(m2 k = None) = (?w n k = None)"
      using heldD(2) [OF H m, of k] heldD(2) [OF H, of n m2 k] v(1) by (auto split: if_splits)
  next
    fix n k x assume wd: "?w n k = Some x"
    show "remove_ptr_flag x = x" if "kind n"
      using wd v(2) heldD(3) [OF H, of n k x] that by (auto split: if_splits)
    show "value_bytes (pages h') x = the ((m(name \<mapsto> mm(key := bs))) n) k"
      using wd v(2) held_bytes [OF F H _ p ti, of n k x] m by (auto split: if_splits)
  next
    fix n k q assume "page_of (?w n k) = Some q"
    then show "q \<notin> insert nullptr (instance_pages D)" using new [of q] fresh_page [OF F, of q] old [of n k q] by (auto split: if_splits)
  next
    fix n k n' k' q assume a: "page_of (?w n k) = Some q" "page_of (?w n' k') = Some q"
    have "n = n' \<and> k = k'"
    proof (cases "n = name \<and> k = key")
      case True
      then have "q \<in> set (fresh h)" using a(1) new by simp
      then show ?thesis using True a(2) old [of n' k' q] by (cases "n' = name \<and> k' = key") simp_all
    next
      case False
      have o: "page_of (db_word D n k) = Some q" using a(1) unfolding if_not_P [OF False] .
      have "\<not> (n' = name \<and> k' = key)" using a(2) new [of q] old [OF o] by auto
      then have "page_of (db_word D n' k') = Some q" using a(2) by (simp only: if_False)
      then show ?thesis by (rule heldD(5) [OF H o])
    qed
    then show "n = n'" "k = k'" by blast+
  qed
qed

lemma held_create:
  assumes F: "forest h S D" and H: "held kind h D m" and new: "name \<notin> dom D" and p: "pages_apart h storages h'" and q: "q \<in> set (fresh h)"
  shows "held kind h' (D(name \<mapsto> (q + 8, Leaf p []))) (m(name \<mapsto> Map.empty))"
proof -
  let ?D = "D(name \<mapsto> (q + 8, Leaf p []))"
  have w: "db_word ?D n k = db_word D n k" for n k using new by (auto simp: db_word_def split: option.splits)
  have i: "instance_pages ?D = insert q (instance_pages D)" 
  proof -
    have "(\<lambda>n. fst (the (?D n)) - 8) ` dom D = instance_pages D" unfolding instance_pages_def by (rule image_cong) (use new in auto)
    then show ?thesis by (simp add: instance_pages_def)
  qed
  have old: "x \<notin> set (fresh h) \<and> x \<notin> insert nullptr (instance_pages D)" if "page_of (db_word D n k) = Some x" for n k x
    using that held_page [OF F H, of n k] by (auto simp: page_of_def split: option.splits if_splits)
  have nn: "db_word D name k = None" for k using new by (auto simp: db_word_def split: option.splits)
  have s: "storages - 8 \<in> insert nullptr (instance_pages D)" by (simp add: storages_def)
  show ?thesis unfolding held_def i w
  proof (intro conjI allI impI)
    show "dom (m(name \<mapsto> Map.empty)) = dom ?D" using heldD(1) [OF H] by simp
  next
    fix n m2 k assume "(m(name \<mapsto> Map.empty)) n = Some m2"
    then show "(m2 k = None) = (db_word D n k = None)" using nn heldD(2) [OF H, of n m2 k] by (auto split: if_splits)
  next
    fix n k x assume wd: "db_word D n k = Some x"
    then show "remove_ptr_flag x = x" if "kind n" using heldD(3) [OF H wd] that by blast
    show "value_bytes (pages h') x = the ((m(name \<mapsto> Map.empty)) n) k"
      using wd nn held_bytes [OF F H wd p s] by (cases "n = name") auto
  next
    fix n k x assume "page_of (db_word D n k) = Some x"
    then show "x \<notin> insert nullptr (insert q (instance_pages D))" using old q by auto
  next
    fix n k n' k' x assume "page_of (db_word D n k) = Some x" "page_of (db_word D n' k') = Some x"
    then show "n = n'" "k = k'" using heldD(5) [OF H] by blast+
  qed
qed

lemma held_quiet: "held kind h D m \<Longrightarrow> pages h' = pages h \<Longrightarrow> held kind h' D m"
  by (simp add: held_def)

section \<open>Deleting a storage\<close>

lemma tree_pageD:
  assumes "tree_wf t" and "q \<in> set (tree_pages t)"
  obtains key v where "map_of (tree_entries t) key = Some v" "remove_ptr_flag v \<noteq> v" "q = remove_ptr_flag v"
proof -
  obtain key v where "(key, v) \<in> set (tree_entries t)" "remove_ptr_flag v \<noteq> v" "q = remove_ptr_flag v"
    using assms(2) by (auto simp: tree_pages_def word_pages_def)
  then show thesis using that map_of_is_SomeI [OF tree_entries_distinct [OF assms(1)]] by blast
qed

lemma forest_wf: "forest h S D \<Longrightarrow> D name = Some (ti, t) \<Longrightarrow> tree_wf t"
  using forestD(3) by (auto simp: tree_inv_def tree_rep_def)

lemma held_tree_page:
  assumes F: "forest h S D" and D: "D name = Some (ti, t)" and q: "q \<in> set (tree_pages t)"
  obtains key where "page_of (db_word D name key) = Some q"
proof -
  obtain key v where "map_of (tree_entries t) key = Some v" "remove_ptr_flag v \<noteq> v" "q = remove_ptr_flag v"
    by (rule tree_pageD [OF forest_wf [OF F D] q])
  then show thesis using that [of key] D by (simp add: db_word_def page_of_def)
qed

lemma held_tree_pages:
  assumes F: "forest h S D" and H: "held kind h D m" and D: "D name = Some (ti, t)"
  shows "distinct (tree_pages t)" and "set (tree_pages t) \<inter> instance_pages D = {}"
    and "D name' = Some (ti', t') \<Longrightarrow> name' \<noteq> name \<Longrightarrow> set (tree_pages t') \<inter> set (tree_pages t) = {}"
proof -
  note dk = tree_entries_distinct [OF forest_wf [OF F D]]
  show "distinct (tree_pages t)" unfolding tree_pages_def
  proof (rule distinct_word_pages [OF dk])
    fix k v k' v' assume a: "(k, v) \<in> set (tree_entries t)" "(k', v') \<in> set (tree_entries t)" "remove_ptr_flag v \<noteq> v" "remove_ptr_flag v' \<noteq> v'"
      "remove_ptr_flag v = remove_ptr_flag v'"
    then show "k = k'" using heldD(5) [OF H, of name k "remove_ptr_flag v" name k'] map_of_is_SomeI [OF dk] D by (simp add: db_word_def page_of_def)
  qed
  have "q \<notin> instance_pages D" if q: "q \<in> set (tree_pages t)" for q
  proof -
    obtain key where "page_of (db_word D name key) = Some q" by (rule held_tree_page [OF F D q])
    then show ?thesis using heldD(4) [OF H] by blast
  qed
  then show "set (tree_pages t) \<inter> instance_pages D = {}" by blast
  show "set (tree_pages t') \<inter> set (tree_pages t) = {}" if "D name' = Some (ti', t')" "name' \<noteq> name"
  proof -
    have False if q: "q \<in> set (tree_pages t')" "q \<in> set (tree_pages t)" for q
    proof -
      obtain k where k: "page_of (db_word D name k) = Some q" by (rule held_tree_page [OF F D q(2)])
      obtain k' where "page_of (db_word D name' k') = Some q" by (rule held_tree_page [OF F \<open>D name' = Some (ti', t')\<close> q(1)])
      then show False using heldD(5) [OF H k] \<open>name' \<noteq> name\<close> by blast
    qed
    then show ?thesis by blast
  qed
qed

lemma store_pages_instances:
  assumes F: "forest h S D" and S': "store_inv h' storages S'" "\<And>n v. store_map S' n = Some v \<Longrightarrow> store_map S n = Some v"
  shows "set (store_pages S') \<subseteq> instance_pages D"
proof (cases S')
  case (Some s)
  have "q \<in> instance_pages D" if q: "q \<in> set (tree_pages s)" for q
  proof -
    have "tree_wf s" using S'(1) Some by (simp add: tree_inv_def tree_rep_def)
    then obtain n v where "store_map S' n = Some v" and qv: "q = remove_ptr_flag v" using tree_pageD [of s q] q unfolding Some store_some by metis
    then have v: "store_map S n = Some v" "q = remove_ptr_flag v" using S'(2) by simp_all
    then obtain ti t where D: "D n = Some (ti, t)" using forestD(2) [OF F] by (metis domD domI surj_pair)
    then have "q = ti - 8" using forestD(3) [OF F D] v by (auto simp: instance_of_def)
    then show ?thesis using instance_page [of D n ti t, OF D] by simp
  qed
  then show ?thesis using Some by (auto simp: store_pages_def)
qed (simp add: store_pages_def)

lemma forest_delete:
  assumes F: "forest h S D" and H: "held kind h D m" and D: "D name = Some (ti, t)"
    and c: "tree_call h storages S h1 S'" and S': "store_map S' = (store_map S)(name := None)"
    and g: "store_root_ptr ti nullptr (erase (set (tree_addrs t)) (set (tree_pages t)) h1) = Some h'"
  shows "forest h' S' (D(name := None))"
proof -
  note S = forestD(1,2) [OF F] and T = forestD(3) [OF F] and P = forestD(4) [OF F] and pg = held_tree_pages [OF F H D]
  have s1: "store_inv h1 storages S'" using c by (simp add: tree_call_def)
  have o: "tree_inv h1 ti2 t2 \<and> set (tree_addrs t2) \<inter> set (store_addrs S') = {}" if "D name2 = Some (ti2, t2)" for name2 ti2 t2
    using tree_call_other [OF c, of ti2 "Some t2"] T [OF that] by simp
  have "set (store_pages S') \<inter> set (tree_pages t) = {}"
    using store_pages_instances [OF F s1] S' pg(2) by (fastforce split: if_splits)
  then have "store_inv h' storages S'"
    using destroy_other [OF g s1] T [OF D] o [OF D] by (metis Int_commute)
  moreover have "tree_inv h' ti2 t2" if d: "D name2 = Some (ti2, t2)" "name2 \<noteq> name" for name2 ti2 t2
  proof -
    have "ti2 - 8 \<notin> set (tree_pages t)" using pg(2) instance_page [of D name2 ti2 t2, OF d(1)] by blast
    then show ?thesis using destroy_other [OF g, of ti2 "Some t2"] o [OF d(1)] P [OF d(1) D d(2)] pg(3) [OF d] by (simp add: store_pages_def)
  qed
  moreover have "instance_of S' name2 ti2" if "D name2 = Some (ti2, t2)" "name2 \<noteq> name" for name2 ti2 t2
    using T [OF that(1)] S' that(2) by (simp add: instance_of_def)
  ultimately show ?thesis unfolding forest_def using o P S(2) S' by (auto split: if_splits)
qed

lemma held_delete:
  assumes F: "forest h S D" and H: "held kind h D m" and D: "D name = Some (ti, t)" and c: "pages_apart h storages h1"
    and g: "store_root_ptr ti nullptr (erase (set (tree_addrs t)) (set (tree_pages t)) h1) = Some h'"
  shows "held kind h' (D(name := None)) (m(name := None))"
proof -
  let ?D = "D(name := None)"
  have w: "db_word ?D n k = (if n = name then None else db_word D n k)" for n k by (simp add: db_word_def)
  have i: "instance_pages ?D \<subseteq> instance_pages D" by (auto simp: instance_pages_def)
  have s: "storages - 8 \<in> insert nullptr (instance_pages D)" by (simp add: storages_def)
  have bytes: "value_bytes (pages h') v = the (m n) k" if v: "db_word D n k = Some v" "n \<noteq> name" for n k v
  proof -
    have "pages h' (remove_ptr_flag v) = pages h1 (remove_ptr_flag v)" if p: "remove_ptr_flag v \<noteq> v"
    proof -
      have "remove_ptr_flag v \<notin> set (tree_pages t)"
      proof
        assume "remove_ptr_flag v \<in> set (tree_pages t)"
        then obtain key where "page_of (db_word D name key) = Some (remove_ptr_flag v)" by (rule held_tree_page [OF F D])
        then show False using heldD(5) [OF H, of name key "remove_ptr_flag v" n k] v p by (simp add: page_of_def)
      qed
      moreover have "remove_ptr_flag v \<noteq> ti - 8" using held_page(2) [OF F H v(1) p] instance_page [of D name ti t, OF D] by auto
      ultimately show ?thesis using store_root_pages(1) [OF g] erase_pages by metis
    qed
    then have "value_bytes (pages h') v = value_bytes (pages h1) v" by (cases "remove_ptr_flag v = v") (simp_all add: value_bytes_def Let_def)
    then show ?thesis using held_bytes [OF F H v(1) c s] by simp
  qed
  show ?thesis unfolding held_def w
  proof (intro conjI allI impI)
    show "dom (m(name := None)) = dom ?D" using heldD(1) [OF H] by simp
  next
    fix n m2 k assume "(m(name := None)) n = Some m2"
    then show "(m2 k = None) = ((if n = name then None else db_word D n k) = None)" using heldD(2) [OF H, of n m2 k] by (auto split: if_splits)
  next
    fix n k v assume wd: "(if n = name then None else db_word D n k) = Some v"
    then show "remove_ptr_flag v = v" if "kind n" using heldD(3) [OF H, of n k v] that by (auto split: if_splits)
    show "value_bytes (pages h') v = the ((m(name := None)) n) k" using wd bytes by (auto split: if_splits)
  next
    fix n k q assume "page_of (if n = name then None else db_word D n k) = Some q"
    then show "q \<notin> insert nullptr (instance_pages ?D)" using heldD(4) [OF H, of n k q] i by (auto simp: page_of_def split: if_splits)
  next
    fix n k n' k' q assume "page_of (if n = name then None else db_word D n k) = Some q" "page_of (if n' = name then None else db_word D n' k') = Some q"
    then have "page_of (db_word D n k) = Some q" "page_of (db_word D n' k') = Some q" by (auto simp: page_of_def split: if_splits)
    then show "n = n'" "k = k'" using heldD(5) [OF H] by blast+
  qed
qed

end
