(* ===== verification/Storage_Refinement.thy ===== *)
theory Storage_Refinement
  imports Storage_Forest
begin

text \<open>
  The operations of \<^verbatim>\<open>storage_impl.h\<close> and the interface that names a storage in every call:
  what sequences of \<^verbatim>\<open>create_storage\<close>, \<^verbatim>\<open>delete_storage\<close>, \<^verbatim>\<open>put\<close>, \<^verbatim>\<open>remove\<close>, \<^verbatim>\<open>enter\<close> and
  \<^verbatim>\<open>leave\<close> leave in the storages, and that each storage is a map of its own.
\<close>

section \<open>Finding a storage\<close>

lemma instance_view:
  assumes "remove_ptr_flag v \<noteq> v" and "remove_ptr_flag v = ti - 8" and "ti \<noteq> storages" and "load_root_ptr ti h = Some r"
  shows "fst (value_view (pages h) v) = ti"
  using assms by (auto simp: value_view_def get_body_def Let_def load_root_ptr_def split: option.splits if_splits)

lemma find_storage_eq:
  assumes "forest h S D"
  shows "find_storage name h = Some (case D name of None \<Rightarrow> (WARN_NOT_EXIST, None) | Some (ti, t) \<Rightarrow> (OK, Some ti))"
proof (cases "D name")
  case None
  then have "store_map S name = None" using forestD(2) [OF assms] by (metis domIff)
  then show ?thesis using store_get [OF forestD(1) [OF assms], of name] None by (simp add: find_storage_def)
next
  case (Some x)
  obtain ti t where x: "x = (ti, t)" by (cases x)
  have "instance_of S name ti" "tree_inv h ti t" using forestD(3) [OF assms, of name ti t] Some x by blast+
  then obtain v where v: "store_map S name = Some v" "fst (value_view (pages h) v) = ti"
    using instance_view [of _ ti h "addr_of t"] by (auto simp: instance_of_def tree_inv_def tree_rep_def)
  then show ?thesis using store_get [OF forestD(1) [OF assms], of name] Some x by (simp add: find_storage_def)
qed

lemma storage_get_eq:
  assumes F: "forest h S D"
  shows "storage_get name key h = Some (case D name of None \<Rightarrow> (WARN_STORAGE_NOT_EXIST, None) | Some (ti, t) \<Rightarrow>
    (case db_word D name key of None \<Rightarrow> (WARN_NOT_EXIST, None) | Some v \<Rightarrow> (OK, Some (value_view (pages h) v))))"
proof (cases "D name")
  case (Some x)
  obtain ti t where x: "x = (ti, t)" by (cases x)
  have "tree_inv h ti t" using forestD(3) [OF F, of name ti t] Some x by blast
  then show ?thesis using store_get [of h ti "Some t" key] Some x by (simp add: storage_get_def find_storage_eq [OF F] db_word_def)
qed (simp add: storage_get_def find_storage_eq [OF F])

section \<open>Calls on a storage\<close>

lemma held_storage:
  assumes F: "forest h S D" and H: "held kind h D m" and m: "m name = Some mm"
  obtains ti t where "D name = Some (ti, t)" "find_storage name h = Some (OK, Some ti)" "store_inv h ti (Some t)"
    "dom mm = dom (map_of (tree_entries t))" "\<And>k. db_word D name k = map_of (tree_entries t) k"
proof -
  obtain ti t where D: "D name = Some (ti, t)" using heldD(1) [OF H] m by (metis domD domI surj_pair)
  then have w: "db_word D name k = map_of (tree_entries t) k" for k by (simp add: db_word_def)
  have "k \<in> dom mm \<longleftrightarrow> k \<in> dom (map_of (tree_entries t))" for k using heldD(2) [OF H m, of k] w by (simp add: domIff)
  then show thesis using that [OF D] find_storage_eq [OF F, of name] forestD(3) [OF F D] D w by auto
qed

lemma find_no_storage:
  "forest h S D \<Longrightarrow> held kind h D m \<Longrightarrow> name \<notin> dom m \<Longrightarrow> find_storage name h = Some (WARN_NOT_EXIST, None)"
  using find_storage_eq [of h S D name] heldD(1) [of kind h D m] by (cases "D name") auto

lemma forest_room:
  assumes "forest h S D" and "D name = Some (ti, t)" and "put_allowed inline token key a h"
  shows "length (tree_addrs t) + layers_of key + 2 \<le> length (fresh h)"
  using store_room [of h ti "Some t"] forestD(3) [OF assms(1,2)] assms(3) by (simp add: put_allowed_def)

text \<open>\<^verbatim>\<open>put\<close>, by its status.\<close>

lemma storage_put_cases:
  assumes F: "forest h S D" and H: "held kind h D m" and a: "put_allowed (kind name) token key a h"
  shows "name \<notin> dom m \<Longrightarrow> storage_put token name key a h = Some (WARN_STORAGE_NOT_EXIST, None, None, h)"
    and "m name = Some mm \<Longrightarrow> unique_restriction a \<and> key \<in> dom mm \<Longrightarrow> storage_put token name key a h = Some (WARN_UNIQUE_RESTRICTION, None, None, h)"
    and "m name = Some mm \<Longrightarrow> \<not> (unique_restriction a \<and> key \<in> dom mm) \<Longrightarrow> \<exists>created inserted h' D'.
      storage_put token name key a h = Some (OK, created, inserted, h') \<and> forest h' S D' \<and> held kind h' D' (m(name \<mapsto> mm(key \<mapsto> put_bytes a)))"
proof -
  show "storage_put token name key a h = Some (WARN_STORAGE_NOT_EXIST, None, None, h)" if "name \<notin> dom m"
    using find_no_storage [OF F H that] by (simp add: storage_put_def)
  assume m: "m name = Some mm"
  obtain ti t where D: "D name = Some (ti, t)" and find: "find_storage name h = Some (OK, Some ti)" and t: "store_inv h ti (Some t)"
    and dm: "dom mm = dom (map_of (tree_entries t))" and w: "\<And>k. db_word D name k = map_of (tree_entries t) k" using held_storage [OF F H m] by metis
  have st: "storage_put token name key a h = put token ti key a h" using find by (simp add: storage_put_def)
  show "storage_put token name key a h = Some (WARN_UNIQUE_RESTRICTION, None, None, h)" if "unique_restriction a \<and> key \<in> dom mm"
    using store_put_unique [OF t] that dm st by simp
  show "\<exists>created inserted h' D'. storage_put token name key a h = Some (OK, created, inserted, h') \<and> forest h' S D' \<and>
      held kind h' D' (m(name \<mapsto> mm(key \<mapsto> put_bytes a)))" if u: "\<not> (unique_restriction a \<and> key \<in> dom mm)"
  proof -
    have ok: "args_ok a" "token < length (thread_info_table h)" "kIsInline a = kind name" using a by (simp_all add: put_allowed_def)
    have k: "same_kind a x" if "store_map (Some t) key = Some x" for x
      using heldD(3) [OF H, of name key x] that w ok(3) by (simp add: same_kind_def)
    obtain created inserted h' ot' v where p: "put token ti key a h = Some (OK, created, inserted, h')" "put_done token ti key a h (Some t) h' ot' v"
      using store_put [OF t ok(1) _ ok(2) k] forest_room [OF F D a] u dm unfolding store_some by blast
    have d: "store_inv h' ti ot'" "store_map ot' = (map_of (tree_entries t))(key \<mapsto> v)" "value_bytes (pages h') v = Some (put_bytes a)"
      "new_word a h v" "pages_apart h ti h'" "touches_only h ti (tree_addrs t) h' (store_addrs ot')"
      using p(2) kept_apart by (auto simp: put_done_def)
    obtain t' where t': "ot' = Some t'" using d(2) by (cases ot') (auto simp: store_map_def fun_eq_iff split: if_splits)
    have "tree_call h ti (Some t) h' (Some t')" using d t' by (simp add: tree_call_def)
    then have "forest h' S (D(name \<mapsto> (ti, t')))" by (rule forest_call [OF F D])
    moreover have "held kind h' (D(name \<mapsto> (ti, t'))) (m(name \<mapsto> mm(key \<mapsto> put_bytes a)))"
      by (rule held_call [OF F H D m, of t' key "Some v"]) (use d t' ok(3) in \<open>auto simp: new_word_def split: if_splits\<close>)
    ultimately show ?thesis using p(1) st by auto
  qed
qed

text \<open>\<^verbatim>\<open>remove\<close>.\<close>

lemma storage_remove_cases:
  assumes F: "forest h S D" and H: "held kind h D m" and tk: "token < length (thread_info_table h)"
  shows "name \<notin> dom m \<Longrightarrow> storage_remove token name key h = Some (WARN_STORAGE_NOT_EXIST, h)"
    and "m name = Some mm \<Longrightarrow> \<exists>h' D'. storage_remove token name key h = Some (if key \<in> dom mm then OK else OK_NOT_FOUND, h') \<and>
      forest h' S D' \<and> held kind h' D' (m(name \<mapsto> mm(key := None)))"
proof -
  show "storage_remove token name key h = Some (WARN_STORAGE_NOT_EXIST, h)" if "name \<notin> dom m"
    using find_no_storage [OF F H that] by (simp add: storage_remove_def)
  assume m: "m name = Some mm"
  obtain ti t where D: "D name = Some (ti, t)" and find: "find_storage name h = Some (OK, Some ti)" and t: "store_inv h ti (Some t)"
    and dm: "dom mm = dom (map_of (tree_entries t))" and w: "\<And>k. db_word D name k = map_of (tree_entries t) k" using held_storage [OF F H m] by metis
  have st: "storage_remove token name key h = remove token ti key h" using find by (simp add: storage_remove_def)
  obtain h' t' where r: "remove token ti key h = Some (remove_status (Some t) key, h')" "tree_inv h' ti t'" "pages_apart h ti h'"
    "map_of (tree_entries t') = (map_of (tree_entries t))(key := None)" "touches_only h ti (tree_addrs t) h' (tree_addrs t')"
    using store_remove [OF t tk, of key] flagged_apart unfolding store_some by (metis not_None_eq store_some)
  then have "tree_call h ti (Some t) h' (Some t')" by (simp add: tree_call_def)
  then have "forest h' S (D(name \<mapsto> (ti, t')))" "held kind h' (D(name \<mapsto> (ti, t'))) (m(name \<mapsto> mm(key := None)))"
    using forest_call [OF F D] held_call [OF F H D m, of t' key None None] r(3,4) by auto
  moreover have "remove_status (Some t) key = (if key \<in> dom mm then OK else OK_NOT_FOUND)" using dm by (simp add: remove_status_def)
  ultimately show "\<exists>h' D'. storage_remove token name key h = Some (if key \<in> dom mm then OK else OK_NOT_FOUND, h') \<and>
      forest h' S D' \<and> held kind h' D' (m(name \<mapsto> mm(key := None)))" using r(1) st by auto
qed

section \<open>Creating a storage\<close>

lemma enter_session:
  assumes "\<exists>ti \<in> set (thread_info_table h). \<not> running ti"
  obtains token ti where "enter_wait h = Some (token, set_session token ti h)" "token < length (thread_info_table h)"
proof -
  let ?P = "\<lambda>i. running (thread_info_table h ! i)" and ?is = "[0..<length (thread_info_table h)]"
  have "dropWhile ?P ?is \<noteq> []" using assms by (auto simp: dropWhile_eq_Nil_conv in_set_conv_nth Bex_def)
  then obtain i rest where d: "dropWhile ?P ?is = i # rest" by (cases "dropWhile ?P ?is") auto
  then have "i \<in> set (dropWhile ?P ?is)" by simp
  then have "i < length (thread_info_table h)" by (auto dest: set_dropWhileD)
  then show thesis using that d by (simp add: enter_wait_def enter_def assign_thread_info_def assign_from_spec)
qed

lemma leave_session:
  assumes "token < length (thread_info_table h)"
  obtains ti where "leave token h = Some (OK, set_session token ti h)"
  using assms by (simp add: leave_def leave_thread_info_def get_session_def)

lemma set_session_fields [simp]:
  "nodes (set_session token ti h) = nodes h" "pages (set_session token ti h) = pages h" "fresh (set_session token ti h) = fresh h"
  "storages_root (set_session token ti h) = storages_root h" "length (thread_info_table (set_session token ti h)) = length (thread_info_table h)"
  by (simp_all add: set_session_def)

text \<open>A session is free and there is memory for the new tree and for its name in the tree of storages.\<close>

definition create_allowed :: "byte list \<Rightarrow> heap \<Rightarrow> bool" where
  "create_allowed name h \<longleftrightarrow> (\<exists>ti \<in> set (thread_info_table h). \<not> running ti) \<and> finite (dom (nodes h)) \<and>
     card (dom (nodes h)) + layers_of name + 3 \<le> length (fresh h)"

definition create_args :: "addr \<Rightarrow> put_args" where
  "create_args p = \<lparr>kIsInline = False, v_ptr = slice_bytes p, v_len = 8, v_align = 8, unique_restriction = True, created_given = False\<rparr>"

lemma create_args_ok: "args_ok (create_args p)" "put_bytes (create_args p) = slice_bytes p" "unique_restriction (create_args p)" "\<not> kIsInline (create_args p)"
  by (simp_all add: args_ok_def create_args_def put_bytes_def)

text \<open>The heap in which \<^verbatim>\<open>create_storage\<close> calls \<^verbatim>\<open>put\<close>.\<close>

lemma create_start:
  assumes a: "create_allowed name h"
  obtains p fs token ti h1 where "fresh h = p # fs" "token < length (thread_info_table h)"
    "h1 = set_session token ti (set_node p (Border empty_border) (h\<lparr>fresh := fs\<rparr>))"
    "create_storage name h = do { (ret_st, _, _, h) \<leftarrow> put token storages name (create_args p) h1; (_, h) \<leftarrow> leave token h;
       h \<leftarrow> (if ret_st \<noteq> OK then delete_node p h else Some h); Some (ret_st, h) }"
proof -
  obtain p fs where f: "fresh h = p # fs" using a by (cases "fresh h") (auto simp: create_allowed_def)
  let ?g = "set_node p (Border new_border_node) (h\<lparr>fresh := fs\<rparr>)" and ?h = "set_node p (Border empty_border) (h\<lparr>fresh := fs\<rparr>)"
  have n: "new_node (Border new_border_node) h = Some (p, ?g)" using f by (simp add: new_node_def)
  have u: "upd_border p init_border ?g = Some ?h" by (simp add: upd_border_def get_border_def init_border_new set_node_def)
  have "thread_info_table ?h = thread_info_table h" by (simp add: set_node_def)
  then obtain token ti where e: "enter_wait ?h = Some (token, set_session token ti ?h)" "token < length (thread_info_table h)"
    using enter_session [of ?h] a by (metis create_allowed_def)
  show thesis by (rule that [OF f e(2) refl]) (simp add: create_storage_def n u e(1) create_args_def)
qed

lemma create_storage_cases:
  assumes F: "forest h S D" and H: "held kind h D m" and a: "create_allowed name h"
  shows "name \<in> dom m \<Longrightarrow> \<exists>h'. create_storage name h = Some (WARN_UNIQUE_RESTRICTION, h') \<and> forest h' S D \<and> held kind h' D m"
    and "name \<notin> dom m \<Longrightarrow> \<exists>h' S' D'. create_storage name h = Some (OK, h') \<and> forest h' S' D' \<and> held kind h' D' (m(name \<mapsto> Map.empty)) \<and>
      (\<forall>x. x \<notin> insert nullptr (set (store_addrs S @ fresh h)) \<longrightarrow> nodes h' x = nodes h x)"
proof -
  obtain p fs token ti h1 where f: "fresh h = p # fs" and tk: "token < length (thread_info_table h)"
    and h1: "h1 = set_session token ti (set_node p (Border empty_border) (h\<lparr>fresh := fs\<rparr>))"
    and run: "create_storage name h = do { (ret_st, _, _, h) \<leftarrow> put token storages name (create_args p) h1; (_, h) \<leftarrow> leave token h;
       h \<leftarrow> (if ret_st \<noteq> OK then delete_node p h else Some h); Some (ret_st, h) }"
    by (rule create_start [OF a])
  have q: "fresh h1 = fs" "pages h1 = pages h" "storages_root h1 = storages_root h" "nodes h1 = (nodes h)(p \<mapsto> Border empty_border)"
    "length (thread_info_table h1) = length (thread_info_table h)" using h1 by (simp_all add: set_node_def)
  note g = store_inv_fresh [OF forestD(1) [OF F]]
  have fs: "p \<notin> set fs" "distinct fs" "valid_ptr p" using g f by auto
  have F1: "forest h1 S D" by (rule forest_quiet [OF F]) (use q f fs in auto)
  have dm: "dom m = dom (store_map S)" using heldD(1) [OF H] forestD(2) [OF F] by simp
  show "\<exists>h'. create_storage name h = Some (WARN_UNIQUE_RESTRICTION, h') \<and> forest h' S D \<and> held kind h' D m" if "name \<in> dom m"
  proof -
    have "put token storages name (create_args p) h1 = Some (WARN_UNIQUE_RESTRICTION, None, None, h1)"
      using store_put_unique [OF forestD(1) [OF F1] create_args_ok(3)] that dm by blast
    moreover obtain ti' where "leave token h1 = Some (OK, set_session token ti' h1)" using leave_session tk q(5) by metis
    ultimately have "create_storage name h = Some (WARN_UNIQUE_RESTRICTION, set_session token ti' h1\<lparr>nodes := (nodes h1)(p := None)\<rparr>)"
      using q(4) unfolding run by (simp add: delete_node_def)
    moreover have "forest (set_session token ti' h1\<lparr>nodes := (nodes h1)(p := None)\<rparr>) S D" by (rule forest_quiet [OF F]) (use q f fs in auto)
    moreover have "held kind (set_session token ti' h1\<lparr>nodes := (nodes h1)(p := None)\<rparr>) D m" using held_quiet [OF H] q(2) by simp
    ultimately show ?thesis by blast
  qed
  show "\<exists>h' S' D'. create_storage name h = Some (OK, h') \<and> forest h' S' D' \<and> held kind h' D' (m(name \<mapsto> Map.empty)) \<and>
      (\<forall>x. x \<notin> insert nullptr (set (store_addrs S @ fresh h)) \<longrightarrow> nodes h' x = nodes h x)" if nm: "name \<notin> dom m"
  proof -
    have room: "length (store_addrs S) + layers_of name + 2 \<le> length (fresh h1)"
      using store_room [OF forestD(1) [OF F]] a f q(1) by (simp add: create_allowed_def)
    have k: "same_kind (create_args p) w" if "store_map S name = Some w" for w using that nm dm by blast
    obtain created inserted h2 S' v where r: "put token storages name (create_args p) h1 = Some (OK, created, inserted, h2)"
      "put_done token storages name (create_args p) h1 S h2 S' v"
      using store_put [OF forestD(1) [OF F1] create_args_ok(1) room _ k, of token] tk nm unfolding q(5) dm by blast
    have d: "store_inv h2 storages S'" "store_map S' = (store_map S)(name \<mapsto> v)" "value_bytes (pages h2) v = Some (slice_bytes p)"
      "remove_ptr_flag v \<in> set fs" "map_option align (pages h2 (remove_ptr_flag v)) = Some 8" "pages_apart h1 storages h2"
      "touches_only h1 storages (store_addrs S) h2 (store_addrs S')" "length (thread_info_table h2) = length (thread_info_table h)"
      using r(2) create_args_ok kept_apart q(1,5) by (auto simp: put_done_def new_word_def page_aligned_def create_args_def)
    have c: "tree_call h1 storages S h2 S'" using d by (simp add: tree_call_def)
    have v: "remove_ptr_flag v \<noteq> v"
    proof
      assume "remove_ptr_flag v = v"
      then have "slice_bytes v = slice_bytes p" using d(3) by (simp add: value_bytes_def)
      then show False using \<open>remove_ptr_flag v = v\<close> d(4) fs(1) slice_bytes_inj by metis
    qed
    let ?D = "D(name \<mapsto> (remove_ptr_flag v + 8, Leaf p []))"
    have "forest h2 S' ?D"
    proof (rule forest_create [OF F1 _ c d(2) _ v d(5)])
      show "name \<notin> dom D" using nm heldD(1) [OF H] by simp
      show "map_option body (pages h2 (remove_ptr_flag v)) = Some (slice_bytes p)" using d(3) v by (simp add: value_bytes_def Let_def)
      show "p \<notin> set (tree_addrs t)" if "D n = Some (i, t)" for n i t using forestD(3) [OF F that] f by (auto simp: tree_inv_def)
    qed (use d(4) q(1,4) fs g f in auto)
    moreover have "held kind h2 ?D (m(name \<mapsto> Map.empty))"
      by (rule held_create [OF F1 held_quiet [OF H q(2)] _ d(6)]) (use nm heldD(1) [OF H] d(4) q(1) in auto)
    moreover obtain ti' where l: "leave token h2 = Some (OK, set_session token ti' h2)" using leave_session tk d(8) by metis
    moreover have "create_storage name h = Some (OK, set_session token ti' h2)" unfolding run by (simp add: r(1) l)
    moreover have "forest (set_session token ti' h2) S' ?D"
      by (rule forest_quiet [OF \<open>forest h2 S' ?D\<close>]) (use store_inv_fresh [OF d(1)] in auto)
    moreover have "nodes (set_session token ti' h2) x = nodes h x" if x: "x \<notin> insert nullptr (set (store_addrs S @ fresh h))" for x
      using d(7) x q(1,4) f unfolding touches_only_def by simp
    moreover have "held kind (set_session token ti' h2) ?D (m(name \<mapsto> Map.empty))" using \<open>held kind h2 ?D _\<close> by (rule held_quiet) simp
    ultimately show ?thesis by blast
  qed
qed

section \<open>Deleting a storage\<close>

lemma enter_forest:
  assumes "forest h S D" and "held kind h D m" and "\<exists>ti \<in> set (thread_info_table h). \<not> running ti"
  obtains token h1 where "enter_wait h = Some (token, h1)" "token < length (thread_info_table h1)" "forest h1 S D" "held kind h1 D m"
proof -
  obtain token ti where e: "enter_wait h = Some (token, set_session token ti h)" "token < length (thread_info_table h)" by (rule enter_session [OF assms(3)])
  have "forest (set_session token ti h) S D"
    by (rule forest_quiet [OF assms(1)]) (use store_inv_fresh [OF forestD(1) [OF assms(1)]] in auto)
  then show thesis using that [OF e(1)] e(2) held_quiet [OF assms(2), of "set_session token ti h"] by simp
qed

lemma leave_forest:
  assumes "forest h S D" and "held kind h D m" and "token < length (thread_info_table h)"
  obtains h1 where "leave token h = Some (OK, h1)" "forest h1 S D" "held kind h1 D m"
proof -
  obtain ti where l: "leave token h = Some (OK, set_session token ti h)" by (rule leave_session [OF assms(3)])
  have "forest (set_session token ti h) S D"
    by (rule forest_quiet [OF assms(1)]) (use store_inv_fresh [OF forestD(1) [OF assms(1)]] in auto)
  then show thesis using that [OF l] held_quiet [OF assms(2), of "set_session token ti h"] by simp
qed

lemma store_root_sessions: "store_root_ptr ti r h = Some g \<Longrightarrow> thread_info_table g = thread_info_table h"
  by (rule store_root_spec(5))

lemma delete_storage_cases:
  assumes F: "forest h S D" and H: "held kind h D m" and a: "\<exists>ti \<in> set (thread_info_table h). \<not> running ti"
  shows "name \<notin> dom m \<Longrightarrow> \<exists>h'. delete_storage name h = Some (WARN_NOT_EXIST, h') \<and> forest h' S D \<and> held kind h' D m"
    and "name \<in> dom m \<Longrightarrow> \<exists>h' S'. delete_storage name h = Some (OK, h') \<and> forest h' S' (D(name := None)) \<and> held kind h' (D(name := None)) (m(name := None))"
proof -
  obtain token h1 where e: "enter_wait h = Some (token, h1)" "token < length (thread_info_table h1)" "forest h1 S D" "held kind h1 D m"
    by (rule enter_forest [OF F H a])
  note get = store_get [OF forestD(1) [OF e(3)], of name]
  have dm: "dom m = dom (store_map S)" using heldD(1) [OF H] forestD(2) [OF F] by simp
  show "\<exists>h'. delete_storage name h = Some (WARN_NOT_EXIST, h') \<and> forest h' S D \<and> held kind h' D m" if "name \<notin> dom m"
  proof -
    have "get storages name h1 = Some (WARN_NOT_EXIST, None)" using get that dm by (simp add: domIff)
    moreover obtain h2 where "leave token h1 = Some (OK, h2)" "forest h2 S D" "held kind h2 D m" by (rule leave_forest [OF e(3,4,2)])
    ultimately show ?thesis using e(1) by (auto simp: delete_storage_def)
  qed
  show "\<exists>h' S'. delete_storage name h = Some (OK, h') \<and> forest h' S' (D(name := None)) \<and> held kind h' (D(name := None)) (m(name := None))" if nm: "name \<in> dom m"
  proof -
    obtain ti t where D: "D name = Some (ti, t)" using nm heldD(1) [OF H] by (metis domD surj_pair)
    note T = forestD(3) [OF e(3) D]
    then obtain v where v: "store_map S name = Some v" "fst (value_view (pages h1) v) = ti"
      using instance_view [of _ ti h1 "addr_of t"] by (auto simp: instance_of_def tree_inv_def tree_rep_def)
    obtain h2 S' where r: "remove token storages name h1 = Some (remove_status S name, h2)" "tree_call h1 storages S h2 S'"
      "store_map S' = (store_map S)(name := None)" "pages_apart h1 storages h2" "length (thread_info_table h2) = length (thread_info_table h1)"
      using store_remove [OF forestD(1) [OF e(3)] e(2), of name] flagged_apart unfolding tree_call_def by blast
    have st: "remove_status S name = OK" using v(1) by (cases S) (auto simp: remove_status_def store_map_def)
    have t2: "tree_inv h2 ti t" using tree_call_other(1) [OF r(2), of ti "Some t"] T by simp
    have "ti - 8 \<notin> set (tree_pages t)" using held_tree_pages(2) [OF e(3,4) D] instance_page [of D name ti t, OF D] by blast
    then obtain h3 where h3: "destroy_root ti h2 = Some h3" "store_root_ptr ti nullptr (erase (set (tree_addrs t)) (set (tree_pages t)) h2) = Some h3"
      using destroy_root_tree [OF t2 held_tree_pages(1) [OF e(3,4) D]] by metis
    note del = forest_delete [OF e(3,4) D r(2,3) h3(2)] held_delete [OF e(3,4) D r(4) h3(2)]
    have "token < length (thread_info_table h3)" using store_root_sessions [OF h3(2)] e(2) r(5) by (simp add: erase_def)
    then obtain h4 where "leave token h3 = Some (OK, h4)" "forest h4 S' (D(name := None))" "held kind h4 (D(name := None)) (m(name := None))"
      by (rule leave_forest [OF del])
    moreover have "get storages name h1 = Some (OK, Some (value_view (pages h1) v))" using get v(1) by simp
    ultimately show ?thesis using e(1) r(1) st v(2) h3(1) by (auto simp: delete_storage_def case_prod_beta')
  qed
qed

section \<open>Reachable states\<close>

text \<open>
  The heaps that calls of the interface reach from the start, with the contents that a client
  expects of every storage.
\<close>

inductive db_reached :: "(byte list \<Rightarrow> bool) \<Rightarrow> heap \<Rightarrow> (byte list \<rightharpoonup> byte list \<rightharpoonup> byte list) \<Rightarrow> bool" for kind where
  db_start: "empty_inv h storages \<Longrightarrow> db_reached kind h Map.empty"
| db_create: "db_reached kind h m \<Longrightarrow> create_allowed name h \<Longrightarrow> create_storage name h = Some (st, h') \<Longrightarrow>
     db_reached kind h' (if st = OK then m(name \<mapsto> Map.empty) else m)"
| db_put: "db_reached kind h m \<Longrightarrow> put_allowed (kind name) token key a h \<Longrightarrow> storage_put token name key a h = Some (st, created, inserted, h') \<Longrightarrow>
     db_reached kind h' (if st = OK then m(name \<mapsto> (the (m name))(key \<mapsto> put_bytes a)) else m)"
| db_remove: "db_reached kind h m \<Longrightarrow> token < length (thread_info_table h) \<Longrightarrow> storage_remove token name key h = Some (st, h') \<Longrightarrow>
     db_reached kind h' (if st = WARN_STORAGE_NOT_EXIST then m else m(name \<mapsto> (the (m name))(key := None)))"
| db_delete: "db_reached kind h m \<Longrightarrow> \<exists>ti \<in> set (thread_info_table h). \<not> running ti \<Longrightarrow> delete_storage name h = Some (st, h') \<Longrightarrow>
     db_reached kind h' (m(name := None))"
| db_enter: "db_reached kind h m \<Longrightarrow> enter h = (st, token, h') \<Longrightarrow> db_reached kind h' m"
| db_leave: "db_reached kind h m \<Longrightarrow> leave token h = Some (st, h') \<Longrightarrow> db_reached kind h' m"

lemma forest_session:
  assumes "forest h S D"
  shows "enter h = (st, token, h') \<Longrightarrow> forest h' S D \<and> pages h' = pages h" and "leave token h = Some (st, h') \<Longrightarrow> forest h' S D \<and> pages h' = pages h"
proof -
  have s: "forest (set_session token ti h) S D \<and> pages (set_session token ti h) = pages h" for token ti
    using forest_quiet [OF assms, of "set_session token ti h"] store_inv_fresh [OF forestD(1) [OF assms]] by auto
  show "forest h' S D \<and> pages h' = pages h" if "enter h = (st, token, h')"
    using that s assms by (auto simp: enter_def assign_thread_info_def assign_from_spec split: list.splits)
  show "forest h' S D \<and> pages h' = pages h" if "leave token h = Some (st, h')"
    using that s by (auto simp: leave_def leave_thread_info_def bind_eq_Some_conv)
qed

lemma db_reached_holds: "db_reached kind h m \<Longrightarrow> \<exists>S D. forest h S D \<and> held kind h D m"
proof (induction rule: db_reached.induct)
  case (db_start h)
  then have "forest h None Map.empty" by (simp add: forest_def store_defs)
  moreover have "held kind h Map.empty Map.empty" by (simp add: held_def db_word_def page_of_def)
  ultimately show ?case by blast
next
  case (db_create h m name st h')
  then obtain S D where H: "forest h S D" "held kind h D m" by blast
  note c = create_storage_cases [OF H db_create.hyps(2)]
  show ?case
  proof (cases "name \<in> dom m")
    case True
    then show ?thesis using c(1) db_create.hyps(3) by auto
  next
    case False
    then obtain S' D' where "st = OK" "forest h' S' D'" "held kind h' D' (m(name \<mapsto> Map.empty))" using c(2) db_create.hyps(3) by auto
    then show ?thesis by (simp only: if_True simp_thms) blast
  qed
next
  case (db_put h m name token key a st created inserted h')
  then obtain S D where H: "forest h S D" "held kind h D m" by blast
  note c = storage_put_cases [OF H db_put.hyps(2)]
  show ?case
  proof (cases "m name")
    case None
    then show ?thesis using c(1) db_put.hyps(3) H by auto
  next
    case (Some mm)
    show ?thesis
    proof (cases "unique_restriction a \<and> key \<in> dom mm")
      case True
      then show ?thesis using c(2) [OF Some True] db_put.hyps(3) H by auto
    next
      case False
      then obtain D' where "st = OK" "forest h' S D'" "held kind h' D' (m(name \<mapsto> mm(key \<mapsto> put_bytes a)))"
        using c(3) [OF Some False] db_put.hyps(3) by auto
      then show ?thesis unfolding Some option.sel by (simp only: if_True simp_thms) blast
    qed
  qed
next
  case (db_remove h m token name key st h')
  then obtain S D where H: "forest h S D" "held kind h D m" by blast
  note c = storage_remove_cases [OF H db_remove.hyps(2), of name]
  show ?case
  proof (cases "m name")
    case None
    then show ?thesis using c(1) [of key] db_remove.hyps(3) H by auto
  next
    case (Some mm)
    then show ?thesis using c(2) [OF Some, of key] db_remove.hyps(3) by (auto split: if_splits)
  qed
next
  case (db_delete h m name st h')
  then obtain S D where H: "forest h S D" "held kind h D m" by blast
  note c = delete_storage_cases [OF H db_delete.hyps(2), of name]
  show ?case
  proof (cases "name \<in> dom m")
    case True
    then obtain S' where "forest h' S' (D(name := None))" "held kind h' (D(name := None)) (m(name := None))" using c(2) db_delete.hyps(3) by auto
    then show ?thesis by blast
  next
    case False
    moreover from this have "m(name := None) = m" by (simp add: fun_upd_idem domIff)
    ultimately show ?thesis using c(1) db_delete.hyps(3) by auto
  qed
next
  case (db_enter h m st token h')
  then show ?case using forest_session(1) held_quiet by metis
next
  case (db_leave h m token st h')
  then show ?case using forest_session(2) held_quiet by metis
qed

lemma db_get:
  assumes "db_reached kind h m"
  shows "m name = None \<Longrightarrow> storage_get name key h = Some (WARN_STORAGE_NOT_EXIST, None)"
    and "m name = Some mm \<Longrightarrow> mm key = None \<Longrightarrow> storage_get name key h = Some (WARN_NOT_EXIST, None)"
    and "m name = Some mm \<Longrightarrow> mm key = Some bs \<Longrightarrow>
      \<exists>v. storage_get name key h = Some (OK, Some (value_view (pages h) v)) \<and> value_bytes (pages h) v = Some bs"
proof -
  obtain S D where F: "forest h S D" and H: "held kind h D m" using db_reached_holds [OF assms] by blast
  note g = storage_get_eq [OF F, of name key]
  show "storage_get name key h = Some (WARN_STORAGE_NOT_EXIST, None)" if "m name = None"
    using find_no_storage [OF F H] that by (simp add: storage_get_def domIff)
  assume m: "m name = Some mm"
  obtain ti t where D: "D name = Some (ti, t)" by (rule held_storage [OF F H m])
  show "storage_get name key h = Some (WARN_NOT_EXIST, None)" if "mm key = None" using heldD(2) [OF H m, of key] that g D by simp
  show "\<exists>v. storage_get name key h = Some (OK, Some (value_view (pages h) v)) \<and> value_bytes (pages h) v = Some bs" if k: "mm key = Some bs"
  proof -
    obtain v where v: "db_word D name key = Some v" using heldD(2) [OF H m, of key] k by (cases "db_word D name key") auto
    then have "value_bytes (pages h) v = Some bs" using heldD(3) [OF H v] m k by simp
    then show ?thesis using g D v by auto
  qed
qed

lemma db_calls:
  assumes "db_reached kind h m"
  shows "create_allowed name h \<Longrightarrow> \<exists>h'. create_storage name h = Some (if name \<in> dom m then WARN_UNIQUE_RESTRICTION else OK, h')"
    and "\<exists>ti \<in> set (thread_info_table h). \<not> running ti \<Longrightarrow> \<exists>h'. delete_storage name h = Some (if name \<in> dom m then OK else WARN_NOT_EXIST, h')"
    and "put_allowed (kind name) token key a h \<Longrightarrow> \<exists>created inserted h'. storage_put token name key a h = Some (case m name of None \<Rightarrow> WARN_STORAGE_NOT_EXIST
      | Some mm \<Rightarrow> if unique_restriction a \<and> key \<in> dom mm then WARN_UNIQUE_RESTRICTION else OK, created, inserted, h')"
    and "token < length (thread_info_table h) \<Longrightarrow> \<exists>h'. storage_remove token name key h = Some (case m name of None \<Rightarrow> WARN_STORAGE_NOT_EXIST
      | Some mm \<Rightarrow> if key \<in> dom mm then OK else OK_NOT_FOUND, h')"
proof -
  obtain S D where H: "forest h S D" "held kind h D m" using db_reached_holds [OF assms] by blast
  show "\<exists>h'. create_storage name h = Some (if name \<in> dom m then WARN_UNIQUE_RESTRICTION else OK, h')" if "create_allowed name h"
    using create_storage_cases [OF H that] by (cases "name \<in> dom m") auto
  show "\<exists>h'. delete_storage name h = Some (if name \<in> dom m then OK else WARN_NOT_EXIST, h')" if "\<exists>ti \<in> set (thread_info_table h). \<not> running ti"
    using delete_storage_cases [OF H that, of name] by (cases "name \<in> dom m") auto
  show "\<exists>created inserted h'. storage_put token name key a h = Some (case m name of None \<Rightarrow> WARN_STORAGE_NOT_EXIST
      | Some mm \<Rightarrow> if unique_restriction a \<and> key \<in> dom mm then WARN_UNIQUE_RESTRICTION else OK, created, inserted, h')" if "put_allowed (kind name) token key a h"
  proof (cases "m name")
    case None
    then show ?thesis using storage_put_cases(1) [OF H that] by (simp add: domIff)
  next
    case (Some mm)
    then show ?thesis using storage_put_cases(2,3) [OF H that Some] by (cases "unique_restriction a \<and> key \<in> dom mm") auto
  qed
  show "\<exists>h'. storage_remove token name key h = Some (case m name of None \<Rightarrow> WARN_STORAGE_NOT_EXIST
      | Some mm \<Rightarrow> if key \<in> dom mm then OK else OK_NOT_FOUND, h')" if "token < length (thread_info_table h)"
  proof (cases "m name")
    case None
    then show ?thesis using storage_remove_cases(1) [OF H that] by (simp add: domIff)
  next
    case (Some mm)
    then show ?thesis using storage_remove_cases(2) [OF H that Some, of key] by auto
  qed
qed

section \<open>A sample run\<close>

lemma sample_create:
  "\<exists>h. create_storage [97] sample_start = Some (OK, h) \<and> put_allowed False 0 [98] sample_args h \<and>
     db_reached (\<lambda>_. False) h [[97] \<mapsto> Map.empty]"
proof -
  define ps :: "addr list" where "ps = [0, 64, 128, 192, 256, 320, 384, 448, 512]"
  have F: "forest sample_start None Map.empty" using sample_start_empty by (simp add: forest_def store_defs)
  have H: "held (\<lambda>_. False) sample_start Map.empty Map.empty" by (simp add: held_def db_word_def page_of_def)
  have "layers_of [97] + 3 \<le> length (fresh sample_start)" "\<exists>ti \<in> set (thread_info_table sample_start). \<not> running ti" by code_simp+
  moreover have n0: "nodes sample_start = Map.empty" by (simp add: sample_start_def initial_heap_def)
  ultimately have a: "create_allowed [97] sample_start" by (simp add: create_allowed_def)
  then obtain h where h: "create_storage [97] sample_start = Some (OK, h)" "\<forall>x. x \<notin> insert nullptr (set (fresh sample_start)) \<longrightarrow> nodes h x = None"
    using create_storage_cases(2) [OF F H a] n0 by (auto simp: store_defs)
  have "map_option (\<lambda>(st, h). (length (fresh h), length (thread_info_table h), filter (\<lambda>x. \<not> Option.is_none (nodes h x)) ps)) (create_storage [97] sample_start) =
      Some (5, 1, [64, 128])" unfolding ps_def by code_simp
  then have e: "length (fresh h) = 5" "length (thread_info_table h) = 1" "filter (\<lambda>x. \<not> Option.is_none (nodes h x)) ps = [64, 128]" using h(1) by simp_all
  have ps: "insert nullptr (set (fresh sample_start)) = set ps" by (simp add: ps_def sample_start_def initial_heap_def)
  have "x \<in> set ps \<and> \<not> Option.is_none (nodes h x)" if "x \<in> dom (nodes h)" for x
    using that h(2) unfolding ps by (cases "x \<in> set ps") auto
  then have "dom (nodes h) \<subseteq> set (filter (\<lambda>x. \<not> Option.is_none (nodes h x)) ps)" by auto
  then have s: "dom (nodes h) \<subseteq> {64, 128}" unfolding e(3) by simp
  then have c: "finite (dom (nodes h))" "card (dom (nodes h)) \<le> 2" using card_mono [OF _ s] finite_subset [OF s] by simp_all
  have "args_ok sample_args" "\<not> kIsInline sample_args" by (simp_all add: args_ok_def sample_args_def)
  then have "put_allowed False 0 [98] sample_args h" using c e by (simp add: put_allowed_def layers_of_def)
  moreover have "db_reached (\<lambda>_. False) h [[97] \<mapsto> Map.empty]" using db_create [OF db_start [OF sample_start_empty] a h(1)] by simp
  ultimately show ?thesis using h(1) by blast
qed

lemma sample_db: "\<exists>h. db_reached (\<lambda>_. False) h [[97] \<mapsto> [[98] \<mapsto> [104, 105]]]"
proof -
  obtain h where h: "put_allowed False 0 [98] sample_args h" "db_reached (\<lambda>_. False) h [[97] \<mapsto> Map.empty]" using sample_create by blast
  then obtain created inserted h' where "storage_put 0 [97] [98] sample_args h = Some (OK, created, inserted, h')"
    using db_calls(3) [OF h(2), where name = "[97]" and token = 0 and key = "[98]" and a = sample_args] by auto
  from db_put [OF h(2) _ this] have "db_reached (\<lambda>_. False) h' [[97] \<mapsto> [[98] \<mapsto> put_bytes sample_args]]" using h(1) by simp
  moreover have "put_bytes sample_args = [104, 105]" by code_simp
  ultimately show ?thesis by auto
qed

section \<open>Properties\<close>

text \<open>
  C4. The storages are separate maps: after any sequence of \<^verbatim>\<open>create_storage\<close>, \<^verbatim>\<open>delete_storage\<close>,
  \<^verbatim>\<open>put\<close>, \<^verbatim>\<open>remove\<close>, \<^verbatim>\<open>enter\<close> and \<^verbatim>\<open>leave\<close> from the start, \<^verbatim>\<open>get\<close> of a name reports
  \<^verbatim>\<open>WARN_STORAGE_NOT_EXIST\<close> exactly when the storage has not been created or has been deleted
  since; else it finds exactly the keys stored in that storage and not removed since, with
  the bytes of the last call that stored them. No call on one storage, and neither the
  creation nor the destruction of another one, disturbs it.
\<close>

theorem storages_then_get:
  assumes "db_reached kind h m"
  shows "(m name = None \<longrightarrow> storage_get name key h = Some (WARN_STORAGE_NOT_EXIST, None)) \<and>
    (\<forall>mm. m name = Some mm \<longrightarrow> (mm key = None \<longrightarrow> storage_get name key h = Some (WARN_NOT_EXIST, None)) \<and>
      (\<forall>bs. mm key = Some bs \<longrightarrow> (\<exists>v. storage_get name key h = Some (OK, Some (value_view (pages h) v)) \<and> value_bytes (pages h) v = Some bs)))"
  using db_get [OF assms] by blast

theorem storages_then_get_witness:
  "\<exists>h v. db_reached (\<lambda>_. False) h [[97] \<mapsto> [[98] \<mapsto> [104, 105]]] \<and> storage_get [98] [98] h = Some (WARN_STORAGE_NOT_EXIST, None) \<and>
     storage_get [97] [97] h = Some (WARN_NOT_EXIST, None) \<and>
     storage_get [97] [98] h = Some (OK, Some (value_view (pages h) v)) \<and> value_bytes (pages h) v = Some [104, 105]"
proof -
  obtain h where h: "db_reached (\<lambda>_. False) h [[97] \<mapsto> [[98] \<mapsto> [104, 105]]]" using sample_db by blast
  have "storage_get [98] [98] h = Some (WARN_STORAGE_NOT_EXIST, None)" using storages_then_get [OF h, of "[98]" "[98]"] by simp
  moreover have "storage_get [97] [97] h = Some (WARN_NOT_EXIST, None)" using storages_then_get [OF h, of "[97]" "[97]"] by simp
  ultimately show ?thesis using storages_then_get [OF h, of "[97]" "[98]"] h by auto
qed

text \<open>
  C10. In every state that calls of the interface reach, with a free session and memory left,
  the next call comes back, and its status tells the truth: \<^verbatim>\<open>create_storage\<close> fails exactly
  when the name is taken, \<^verbatim>\<open>delete_storage\<close>, which destroys the whole tree of the storage,
  exactly when there is none, and \<^verbatim>\<open>put\<close> and \<^verbatim>\<open>remove\<close> report a missing storage, a key that
  must be new and is not, and a key that is not there.
\<close>

theorem storage_calls_return:
  assumes "db_reached kind h m" and "create_allowed name h" and "put_allowed (kind name) token key a h"
  shows "(\<exists>h'. create_storage name h = Some (if name \<in> dom m then WARN_UNIQUE_RESTRICTION else OK, h')) \<and>
    (\<exists>h'. delete_storage name h = Some (if name \<in> dom m then OK else WARN_NOT_EXIST, h')) \<and>
    (\<exists>created inserted h'. storage_put token name key a h = Some (case m name of None \<Rightarrow> WARN_STORAGE_NOT_EXIST
      | Some mm \<Rightarrow> if unique_restriction a \<and> key \<in> dom mm then WARN_UNIQUE_RESTRICTION else OK, created, inserted, h')) \<and>
    (\<exists>h'. storage_remove token name key h = Some (case m name of None \<Rightarrow> WARN_STORAGE_NOT_EXIST
      | Some mm \<Rightarrow> if key \<in> dom mm then OK else OK_NOT_FOUND, h'))"
proof (intro conjI)
  show "\<exists>h'. create_storage name h = Some (if name \<in> dom m then WARN_UNIQUE_RESTRICTION else OK, h')" by (rule db_calls(1) [OF assms(1,2)])
  show "\<exists>h'. delete_storage name h = Some (if name \<in> dom m then OK else WARN_NOT_EXIST, h')"
    by (rule db_calls(2) [OF assms(1)]) (use assms(2) in \<open>simp add: create_allowed_def\<close>)
qed (rule db_calls(3) [OF assms(1,3)], rule db_calls(4) [OF assms(1)], use assms(3) in \<open>simp add: put_allowed_def\<close>)

theorem storage_calls_return_witness:
  "\<exists>h. db_reached (\<lambda>_. False) h Map.empty \<and> (\<exists>h'. create_storage [97] h = Some (OK, h')) \<and> (\<exists>h'. delete_storage [97] h = Some (WARN_NOT_EXIST, h')) \<and>
     (\<exists>h'. storage_remove 0 [97] (replicate 9 17) h = Some (WARN_STORAGE_NOT_EXIST, h'))"
proof -
  have r: "db_reached (\<lambda>_. False) sample_start Map.empty" by (rule db_start [OF sample_start_empty])
  have "layers_of [97] + 3 \<le> length (fresh sample_start)" "\<exists>ti \<in> set (thread_info_table sample_start). \<not> running ti" by code_simp+
  moreover have "nodes sample_start = Map.empty" by (simp add: sample_start_def initial_heap_def)
  ultimately have a: "create_allowed [97] sample_start" by (simp add: create_allowed_def)
  have "put_allowed ((\<lambda>_. False) [97]) 0 (replicate 9 17) sample_args sample_start" using sample_start_allowed by simp
  from storage_calls_return [OF r a this] show ?thesis using r by (intro exI [of _ sample_start]) simp
qed

end
