(* ===== verification/Storage_Scan.thy ===== *)
theory Storage_Scan
  imports Storage_Refinement Scan_Refinement
begin

text \<open>
  Scanning a storage by its name, and listing the storages, in every state that calls of the
  interface reach. The results come in the order of the byte strings.
\<close>

section \<open>The order of the entries\<close>

lemma content_sorted:
  assumes "\<And>t. c = Sub t \<Longrightarrow> sorted_wrt (<) (map fst (tree_entries t))"
  shows "sorted_wrt (<) (map fst (content_entries s c))"
proof (cases c)
  case (Sub t)
  have "map fst (content_entries s c) = map ((@) s) (map fst (tree_entries t))"
    by (simp add: Sub case_prod_beta comp_def)
  then show ?thesis using assms [OF Sub] by (simp add: sorted_wrt_map)
qed simp

lemma tree_entries_sorted: "tree_wf t \<Longrightarrow> sorted_wrt (<) (map fst (tree_entries t))"
proof (induction "layers t" arbitrary: t rule: less_induct)
  case less
  let ?f = "\<lambda>(k, c). content_entries (key_bytes k) c"
  note wf = layer_content_wf [OF less.prems]
  have a: "sorted_wrt (<) (map fst (?f e))" if e: "e \<in> set (layer_entries t)" for e
  proof -
    obtain k c where kc: "e = (k, c)" by (rule prod.exhaust)
    have "sorted_wrt (<) (map fst (content_entries (key_bytes k) c))"
    proof (rule content_sorted)
      fix t' assume "c = Sub t'"
      then show "sorted_wrt (<) (map fst (tree_entries t'))"
        using less.hyps [of t'] layers_Sub [of k t' t] wf [of k c] e kc by simp
    qed
    then show ?thesis by (simp add: kc)
  qed
  have b: "s < s'" if m: "e \<in> set (layer_entries t)" "e' \<in> set (layer_entries t)" "key_ord (fst e) < key_ord (fst e')"
    "s \<in> fst ` set (?f e)" "s' \<in> fst ` set (?f e')" for e e' s s'
  proof -
    have "prepare_key_slice s = fst e" "prepare_key_slice s' = fst e'"
      using m content_strings wf by (metis (no_types, lifting) case_prod_beta prod.collapse)+
    then show ?thesis using key_string_order [of s s'] m(3) by simp
  qed
  have "sorted_wrt (\<lambda>e e'. key_ord (fst e) < key_ord (fst e')) (layer_entries t)"
    using layer_sorted [OF less.prems] by (simp add: key_sorted_def sorted_wrt_map)
  then have "sorted_wrt (\<lambda>e e'. \<forall>s \<in> fst ` set (?f e). \<forall>s' \<in> fst ` set (?f e'). s < s') (layer_entries t)"
    by (rule sorted_wrt_mono_rel [rotated]) (use b in blast)
  then have "sorted_wrt (\<lambda>xs ys. \<forall>x \<in> set xs. \<forall>y \<in> set ys. x < y) (map (map fst \<circ> ?f) (layer_entries t))"
    by (simp add: sorted_wrt_map)
  moreover have "\<forall>xs \<in> set (map (map fst \<circ> ?f) (layer_entries t)). sorted_wrt (<) xs" using a by simp
  moreover have "map fst (tree_entries t) = concat (map (map fst \<circ> ?f) (layer_entries t))"
    unfolding tree_entries_layer map_concat by simp
  ultimately show ?case by (simp only: sorted_wrt_concat)
qed

lemma map_of_filter_key: "map_of (filter (\<lambda>(k, v). P k) es) k = (if P k then map_of es k else None)"
  by (induction es) auto

section \<open>Scanning\<close>

text \<open>A scan of one storage or of the tree of storages, whether it holds a tree or is empty.\<close>

lemma store_scan:
  assumes "store_inv h ti ot" and "(case ot of None \<Rightarrow> 0 | Some t \<Rightarrow> layers t) \<le> depth" and "max_size a = 0"
    and "l_end a = INFINITE \<longrightarrow> l_key a = []"
    and "\<not> (l_key a = r_key a \<and> (l_end a = EXCLUSIVE \<or> r_end a = EXCLUSIVE))"
  shows "\<exists>out' es. scan depth ti a out h = Some (if ot = None then OK_ROOT_IS_NULL else OK, out') \<and>
    tuple_list out' = map (\<lambda>(k, v). (k, value_view (pages h) v)) es \<and>
    sorted_wrt (<) (map fst es) \<and> (\<forall>k. map_of es k = (if in_range a k then store_map ot k else None))"
proof (cases ot)
  case None
  then have "load_root_ptr ti h = Some nullptr" using assms(1) by (simp add: store_inv_def empty_inv_def)
  then have "scan_step depth ti a h (Scan_Retry out) =
      Some (Return (OK_ROOT_IS_NULL, \<lparr>tuple_list = [], node_version_vec = map_option (\<lambda>_. []) (node_version_vec out)\<rparr>))"
    by simp
  then have "scan depth ti a out h = Some (OK_ROOT_IS_NULL, \<lparr>tuple_list = [], node_version_vec = map_option (\<lambda>_. []) (node_version_vec out)\<rparr>)"
    unfolding scan_def if_not_P [OF assms(5)] by (rule run_Return)
  then show ?thesis using None by (simp add: store_map_def)
next
  case (Some t)
  then have t: "tree_rep h ti t" "tree_wf t" "layers t \<le> depth"
    using assms(1,2) by (simp_all add: store_inv_def tree_inv_def tree_rep_def)
  let ?es = "filter (\<lambda>(k, v). in_range a k) (tree_entries t)"
  obtain out' where "scan depth ti a out h = Some (OK, out')"
    "tuple_list out' = map (\<lambda>(k, v). (k, value_view (pages h) v)) ?es"
    using scan_range [OF t(1,3) assms(3-5)] by blast
  moreover have "sorted_wrt (<) (map fst ?es)"
    using sorted_wrt_filter [of "\<lambda>x y. fst x < fst y" "tree_entries t" "\<lambda>(k, v). in_range a k"] tree_entries_sorted [OF t(2)]
    by (simp add: sorted_wrt_map)
  moreover have "map_of ?es k = (if in_range a k then store_map ot k else None)" for k
    by (simp add: Some store_map_def map_of_filter_key)
  ultimately show ?thesis using Some by (intro exI [of _ out'] exI [of _ ?es]) simp
qed

lemma db_scan:
  assumes "forest h S D" and "held kind h D m" and "m name = Some mm" and "max_size a = 0"
    and "l_end a = INFINITE \<longrightarrow> l_key a = []"
    and "\<not> (l_key a = r_key a \<and> (l_end a = EXCLUSIVE \<or> r_end a = EXCLUSIVE))"
  shows "\<exists>d. \<forall>depth \<ge> d. \<exists>out' es. storage_scan depth name a out h = Some (OK, out') \<and>
    tuple_list out' = map (\<lambda>(k, v). (k, value_view (pages h) v)) es \<and> sorted_wrt (<) (map fst es) \<and>
    (\<forall>k. map_option (value_bytes (pages h)) (map_of es k) = (if in_range a k then map_option Some (mm k) else None))"
proof -
  obtain ti t where D: "D name = Some (ti, t)" "find_storage name h = Some (OK, Some ti)" "store_inv h ti (Some t)"
    "\<And>k. db_word D name k = map_of (tree_entries t) k"
    using held_storage [OF assms(1-3)] by metis
  have w: "map_option (value_bytes (pages h)) (store_map (Some t) k) = map_option Some (mm k)" for k
  proof (cases "db_word D name k")
    case None
    then show ?thesis using heldD(2) [OF assms(2,3), of k] D(4) by (simp add: store_map_def)
  next
    case (Some v)
    then have "value_bytes (pages h) v = mm k" using heldD(3) [OF assms(2) Some] assms(3) by simp
    moreover have "mm k \<noteq> None" using heldD(2) [OF assms(2,3), of k] Some by simp
    ultimately show ?thesis using D(4) Some by (auto simp: store_map_def)
  qed
  have "\<exists>out' es. storage_scan depth name a out h = Some (OK, out') \<and>
    tuple_list out' = map (\<lambda>(k, v). (k, value_view (pages h) v)) es \<and> sorted_wrt (<) (map fst es) \<and>
    (\<forall>k. map_option (value_bytes (pages h)) (map_of es k) = (if in_range a k then map_option Some (mm k) else None))"
    if depth: "layers t \<le> depth" for depth
  proof -
    have dp: "(case Some t of None \<Rightarrow> 0 | Some t \<Rightarrow> layers t) \<le> depth" using depth by simp
    obtain out' :: scan_out and es where r: "scan depth ti a out h = Some (if Some t = None then OK_ROOT_IS_NULL else OK, out')"
      "tuple_list out' = map (\<lambda>(k, v). (k, value_view (pages h) v)) es" "sorted_wrt (<) (map fst es)"
      "\<forall>k. map_of es k = (if in_range a k then store_map (Some t) k else None)"
      using store_scan [OF D(3) dp assms(4-6), of out] by blast
    have "storage_scan depth name a out h = Some (OK, out')" using D(2) r(1) by (simp add: storage_scan_def)
    then show ?thesis using r(2-4) w by (intro exI [of _ out'] exI [of _ es]) simp
  qed
  then show ?thesis by blast
qed

section \<open>Destroying all storages\<close>






lemma all_keys_range: "max_size all_keys = 0" "l_end all_keys = INFINITE \<longrightarrow> l_key all_keys = []"
  "\<not> (l_key all_keys = r_key all_keys \<and> (l_end all_keys = EXCLUSIVE \<or> r_end all_keys = EXCLUSIVE))" "in_range all_keys k"
  by (simp_all add: all_keys_def in_range_def left_ok_def right_ok_def)

text \<open>The scan of the tree of storages yields their names, each with its instance.\<close>

lemma scan_storages:
  assumes F: "forest h S D" and d: "(case S of None \<Rightarrow> 0 | Some t \<Rightarrow> layers t) \<le> depth"
  obtains st out' where "scan depth storages all_keys no_results h = Some (st, out')" "sorted_wrt (<) (map fst (tuple_list out'))"
    "fst ` set (tuple_list out') = dom D" "\<forall>x \<in> set (tuple_list out'). \<exists>t. D (fst x) = Some (fst (snd x), t)"
proof -
  obtain out' :: scan_out and es where r: "scan depth storages all_keys no_results h = Some (if S = None then OK_ROOT_IS_NULL else OK, out')"
    "tuple_list out' = map (\<lambda>(k, v). (k, value_view (pages h) v)) es" "sorted_wrt (<) (map fst es)"
    "\<forall>k. map_of es k = (if in_range all_keys k then store_map S k else None)"
    using store_scan [OF forestD(1) [OF F] d all_keys_range(1-3), of no_results] by blast
  have me: "map_of es = store_map S" using r(4) all_keys_range(4) by (simp add: fun_eq_iff)
  have f: "map fst (tuple_list out') = map fst es" unfolding r(2) by (simp add: case_prod_beta comp_def)
  have i: "\<exists>t. D (fst x) = Some (fst (snd x), t)" if m: "x \<in> set (tuple_list out')" for x
  proof -
    obtain n v where v: "(n, v) \<in> set es" "x = (n, value_view (pages h) v)" using m unfolding r(2) by auto
    have "distinct (map fst es)" using r(3) by (metis sorted_wrt_iff_nth_less distinct_conv_nth less_irrefl nat_neq_iff)
    then have sv: "store_map S n = Some v" using map_of_is_SomeI [of es n v] v(1) me by simp
    then obtain ti' t where D: "D n = Some (ti', t)" using forestD(2) [OF F] by (metis domD domI surj_pair)
    then have "instance_of S n ti'" "tree_inv h ti' t" using forestD(3) [OF F D] by simp_all
    then have "ti' = fst (snd x)" using v(2) sv instance_view [of v ti' h "addr_of t"]
      by (auto simp: instance_of_def tree_inv_def tree_rep_def)
    then show ?thesis using D v(2) by simp
  qed
  have "fst ` set (tuple_list out') = fst ` set es" using f by (metis list.set_map)
  then have "fst ` set (tuple_list out') = dom D" unfolding forestD(2) [OF F] me [symmetric] dom_map_of_conv_image_fst .
  then show thesis using that r(1,3) f i by auto
qed


section \<open>Properties\<close>

text \<open>
  C11. After any sequence of calls from the start \<^verbatim>\<open>scan\<close> of a storage by its name reports a
  storage that is not there, and else returns, in the order of the byte strings, exactly the
  keys between the endpoints that are stored in that storage, each with the bytes of the last
  call that stored it. There is no limit on the number of results, the left key is empty when
  the left end is infinite, and any depth from some number on is enough.
\<close>

theorem storages_then_scan:
  assumes "db_reached kind h m" and "max_size a = 0" and "l_end a = INFINITE \<longrightarrow> l_key a = []"
    and "\<not> (l_key a = r_key a \<and> (l_end a = EXCLUSIVE \<or> r_end a = EXCLUSIVE))"
  shows "\<exists>d. \<forall>depth \<ge> d. case m name of
      None \<Rightarrow> storage_scan depth name a out h = Some (WARN_STORAGE_NOT_EXIST, out)
    | Some mm \<Rightarrow> (\<exists>out' es. storage_scan depth name a out h = Some (OK, out') \<and>
        tuple_list out' = map (\<lambda>(k, v). (k, value_view (pages h) v)) es \<and> sorted_wrt (<) (map fst es) \<and>
        (\<forall>k. map_option (value_bytes (pages h)) (map_of es k) = (if in_range a k then map_option Some (mm k) else None)))"
proof -
  obtain S D where H: "forest h S D" "held kind h D m" using db_reached_holds [OF assms(1)] by blast
  show ?thesis
  proof (cases "m name")
    case None
    then show ?thesis using find_no_storage [OF H] by (simp add: storage_scan_def domIff)
  next
    case (Some mm)
    then show ?thesis using db_scan [OF H Some assms(2-4)] by simp
  qed
qed

theorem storages_then_scan_witness:
  "\<exists>h d es out'. db_reached (\<lambda>_. False) h [[97] \<mapsto> [[98] \<mapsto> [104, 105]]] \<and>
     storage_scan d [97] \<lparr>l_key = [98], l_end = INCLUSIVE, r_key = [], r_end = INFINITE, max_size = 0\<rparr> no_results h = Some (OK, out') \<and>
     tuple_list out' = map (\<lambda>(k, v). (k, value_view (pages h) v)) es \<and> map_option (value_bytes (pages h)) (map_of es [98]) = Some (Some [104, 105]) \<and>
     map_of es [99] = None"
proof -
  let ?a = "\<lparr>l_key = [98], l_end = INCLUSIVE, r_key = [], r_end = INFINITE, max_size = 0\<rparr>"
  let ?m = "[[97 :: byte] \<mapsto> [[98 :: byte] \<mapsto> [104, 105 :: byte]]]"
  obtain h where h: "db_reached (\<lambda>_. False) h ?m" using sample_db by blast
  have "max_size ?a = 0" "l_end ?a = INFINITE \<longrightarrow> l_key ?a = []"
    "\<not> (l_key ?a = r_key ?a \<and> (l_end ?a = EXCLUSIVE \<or> r_end ?a = EXCLUSIVE))" by simp_all
  from storages_then_scan [OF h this, of "[97]" no_results]
  obtain d es and out' :: scan_out where d: "storage_scan d [97] ?a no_results h = Some (OK, out')"
    "tuple_list out' = map (\<lambda>(k, v). (k, value_view (pages h) v)) es"
    "\<And>k. map_option (value_bytes (pages h)) (map_of es k) = (if in_range ?a k then map_option Some ([[98] \<mapsto> [104, 105]] k) else None)"
    by auto
  have "in_range ?a [98]" by (simp add: in_range_def left_ok_def right_ok_def)
  then have "map_option (value_bytes (pages h)) (map_of es [98]) = Some (Some [104, 105])" "map_of es [99] = None"
    using d(3) [of "[98]"] d(3) [of "[99]"] by (simp_all split: if_splits)
  then show ?thesis using h d(1,2) by blast
qed

text \<open>
  C12. \<^verbatim>\<open>list_storages\<close> lists, in the order of their names, exactly the storages that were
  created and not deleted since, each with the tree instance under which \<^verbatim>\<open>find_storage\<close> finds
  it, and reports \<^verbatim>\<open>WARN_NOT_EXIST\<close> exactly when there is none.
\<close>

theorem storages_listed:
  assumes "db_reached kind h m"
  shows "\<exists>d. \<forall>depth \<ge> d. \<exists>l. list_storages depth h = Some (if m = Map.empty then WARN_NOT_EXIST else OK, l) \<and>
    sorted_wrt (<) (map fst l) \<and> set (map fst l) = dom m \<and>
    (\<forall>(name, ti) \<in> set l. find_storage name h = Some (OK, Some ti))"
proof -
  obtain S D where H: "forest h S D" "held kind h D m" using db_reached_holds [OF assms] by blast
  have "\<exists>l. list_storages depth h = Some (if m = Map.empty then WARN_NOT_EXIST else OK, l) \<and>
    sorted_wrt (<) (map fst l) \<and> set (map fst l) = dom m \<and>
    (\<forall>(name, ti) \<in> set l. find_storage name h = Some (OK, Some ti))"
    if d: "(case S of None \<Rightarrow> 0 | Some t \<Rightarrow> layers t) \<le> depth" for depth
  proof -
    obtain st out' where r: "scan depth storages all_keys no_results h = Some (st, out')" "sorted_wrt (<) (map fst (tuple_list out'))"
      "fst ` set (tuple_list out') = dom D" "\<forall>x \<in> set (tuple_list out'). \<exists>t. D (fst x) = Some (fst (snd x), t)"
      by (rule scan_storages [OF H(1) d])
    let ?l = "map (\<lambda>(name, ti, len). (name, ti)) (tuple_list out')"
    have f: "map fst ?l = map fst (tuple_list out')" by (simp add: case_prod_beta comp_def)
    have ks: "fst ` set (tuple_list out') = dom m" using r(3) heldD(1) [OF H(2)] by simp
    then have "tuple_list out' = [] \<longleftrightarrow> m = Map.empty" by (auto simp: dom_def)
    then have "list_storages depth h = Some (if m = Map.empty then WARN_NOT_EXIST else OK, ?l)"
      using r(1) by (simp add: list_storages_def)
    moreover have "find_storage name h = Some (OK, Some ti)" if m: "(name, ti) \<in> set ?l" for name ti
      using m r(4) find_storage_eq [OF H(1), of name] by fastforce
    moreover have "sorted_wrt (<) (map fst ?l)" "set (map fst ?l) = dom m" unfolding f using r(2) ks by simp_all
    ultimately show ?thesis by blast
  qed
  then show ?thesis by blast
qed

theorem storages_listed_witness:
  "\<exists>h d ti. db_reached (\<lambda>_. False) h [[97] \<mapsto> [[98] \<mapsto> [104, 105]]] \<and> list_storages d h = Some (OK, [([97], ti)]) \<and>
     find_storage [97] h = Some (OK, Some ti)"
proof -
  obtain h where h: "db_reached (\<lambda>_. False) h [[97] \<mapsto> [[98] \<mapsto> [104, 105]]]" using sample_db by blast
  obtain d l where l: "list_storages d h = Some (OK, l)" "sorted_wrt (<) (map fst l)" "set (map fst l) = {[97]}"
    "\<forall>(name, ti) \<in> set l. find_storage name h = Some (OK, Some ti)"
    using storages_listed [OF h] by auto
  have "length (map fst l) = card (set (map fst l))"
    using l(2) by (metis distinct_card sorted_wrt_iff_nth_less distinct_conv_nth less_irrefl nat_neq_iff)
  then have "length l = 1" unfolding l(3) by simp
  then obtain n ti where "l = [(n, ti)]" by (cases l) auto
  then show ?thesis using h l by auto
qed



end
