(* ===== verification/Epoch.thy ===== *)
theory Epoch
  imports Garbage_Collection
begin

text \<open>
  Epoch-based reclamation: \<^verbatim>\<open>epoch.h\<close>, the session side of \<^verbatim>\<open>thread_info_table.h\<close> and
  \<^verbatim>\<open>thread_info.h\<close>, and the two background threads of \<^verbatim>\<open>manager_thread.h\<close>, interleaved. A
  session enters in three steps (take the slot, load the epoch, store it as the begin
  epoch); the epoch thread reads one slot per step; the collector reads the collection
  epoch and releases elements one by one. Epochs are natural numbers here: the counter of
  the sources has 64 bits and is taken not to wrap around.

  Objects are nodes and value pages. \<open>linked\<close> are those reachable from the roots. A session
  may hold a pointer to everything that was linked at any time since it entered
  (\<open>reach\<close>), unlinks objects with its begin epoch as the tag, and drops its pointers when
  it leaves.
\<close>

section \<open>State and steps\<close>

datatype session = Idle | Gained | Loaded nat | Active nat

text \<open>The program counter of the epoch thread.\<close>

datatype epoch_pc = E_Sleep | E_Check nat nat | E_Min "nat option" nat

record estate =
  cur_epoch :: nat
  gc_epoch_val :: nat
  sessions :: "session list"
  epc :: epoch_pc
  gc_read :: "nat option"
  linked :: "nat set"
  garbage :: "(nat \<times> nat) set"
  freed :: "nat set"
  reach :: "nat \<Rightarrow> nat set"

datatype action =
    Gain nat | Load nat | Store nat | Leave nat
  | Link nat | Unlink nat nat
  | Epoch_Start | Epoch_Check | Epoch_Inc | Epoch_Min | Epoch_Set
  | Gc_Start | Gc_Free nat nat

fun begin_of :: "session \<Rightarrow> nat" where
  "begin_of (Active b) = b"
| "begin_of _ = 0"

fun min_opt :: "nat option \<Rightarrow> nat \<Rightarrow> nat option" where
  "min_opt m e = (if e = 0 then m else case m of None \<Rightarrow> Some e | Some x \<Rightarrow> Some (min x e))"

text \<open>
  One step, or \<open>None\<close> when it is not enabled. With \<open>prompt\<close>, a session stores the epoch
  it loaded only while that is still the current one; the sources do not ensure this.
\<close>

fun estep :: "bool \<Rightarrow> action \<Rightarrow> estate \<Rightarrow> estate option" where
  "estep prompt (Gain i) s =
     (if i < length (sessions s) \<and> sessions s ! i = Idle
      then Some (s\<lparr>sessions := (sessions s)[i := Gained]\<rparr>) else None)"
| "estep prompt (Load i) s =
     (if i < length (sessions s) \<and> sessions s ! i = Gained
      then Some (s\<lparr>sessions := (sessions s)[i := Loaded (cur_epoch s)]\<rparr>) else None)"
| "estep prompt (Store i) s =
     (if i < length (sessions s)
      then (case sessions s ! i of
              Loaded e \<Rightarrow>
                if prompt \<and> e \<noteq> cur_epoch s then None
                else Some (s\<lparr>sessions := (sessions s)[i := Active e], reach := (reach s)(i := linked s)\<rparr>)
            | _ \<Rightarrow> None)
      else None)"
| "estep prompt (Leave i) s =
     (if i < length (sessions s)
      then (case sessions s ! i of
              Active _ \<Rightarrow> Some (s\<lparr>sessions := (sessions s)[i := Idle], reach := (reach s)(i := {})\<rparr>)
            | _ \<Rightarrow> None)
      else None)"
| "estep prompt (Link x) s =
     (if x \<in> linked s \<or> x \<in> snd ` garbage s \<or> x \<in> freed s then None
      else Some (s\<lparr>linked := insert x (linked s),
        reach := (\<lambda>i. if i < length (sessions s) \<and> begin_of (sessions s ! i) \<noteq> 0
          then insert x (reach s i) else reach s i)\<rparr>))"
| "estep prompt (Unlink i x) s =
     (if i < length (sessions s) \<and> begin_of (sessions s ! i) \<noteq> 0 \<and> x \<in> linked s
      then Some (s\<lparr>linked := linked s - {x}, garbage := insert (begin_of (sessions s ! i), x) (garbage s)\<rparr>)
      else None)"
| "estep prompt Epoch_Start s =
     (if epc s = E_Sleep then Some (s\<lparr>epc := E_Check (cur_epoch s) 0\<rparr>) else None)"
| "estep prompt Epoch_Check s =
     (case epc s of
        E_Check cur k \<Rightarrow>
          if k < length (sessions s)
          then (let check_epoch = begin_of (sessions s ! k)
                in if check_epoch \<noteq> 0 \<and> check_epoch \<noteq> cur then Some (s\<lparr>epc := E_Sleep\<rparr>)
                   else Some (s\<lparr>epc := E_Check cur (k + 1)\<rparr>))
          else None
      | _ \<Rightarrow> None)"
| "estep prompt Epoch_Inc s =
     (case epc s of
        E_Check cur k \<Rightarrow>
          if k = length (sessions s)
          then Some (s\<lparr>cur_epoch := cur_epoch s + 1, epc := E_Min None 0\<rparr>) else None
      | _ \<Rightarrow> None)"
| "estep prompt Epoch_Min s =
     (case epc s of
        E_Min m k \<Rightarrow>
          if k < length (sessions s)
          then Some (s\<lparr>epc := E_Min (min_opt m (begin_of (sessions s ! k))) (k + 1)\<rparr>) else None
      | _ \<Rightarrow> None)"
| "estep prompt Epoch_Set s =
     (case epc s of
        E_Min m k \<Rightarrow>
          if k = length (sessions s)
          then Some (s\<lparr>gc_epoch_val := (case m of Some x \<Rightarrow> x - 1 | None \<Rightarrow> cur_epoch s - 1), epc := E_Sleep\<rparr>)
          else None
      | _ \<Rightarrow> None)"
| "estep prompt Gc_Start s = Some (s\<lparr>gc_read := Some (gc_epoch_val s)\<rparr>)"
| "estep prompt (Gc_Free t x) s =
     (case gc_read s of
        Some g \<Rightarrow>
          if (t, x) \<in> garbage s \<and> t < g
          then Some (s\<lparr>garbage := garbage s - {(t, x)}, freed := insert x (freed s)\<rparr>) else None
      | None \<Rightarrow> None)"

definition einit :: "nat \<Rightarrow> estate" where
  "einit n = \<lparr>cur_epoch = 1, gc_epoch_val = 0, sessions = replicate n Idle, epc = E_Sleep,
     gc_read = None, linked = {}, garbage = {}, freed = {}, reach = (\<lambda>_. {})\<rparr>"

definition erun :: "bool \<Rightarrow> nat \<Rightarrow> action list \<Rightarrow> estate option" where
  "erun prompt n acts = foldM (estep prompt) acts (einit n)"

text \<open>No session can reach memory that has been released.\<close>

definition no_use_after_free :: "estate \<Rightarrow> bool" where
  "no_use_after_free s = (\<forall>i < length (sessions s). reach s i \<inter> freed s = {})"

section \<open>The invariant\<close>

definition active :: "estate \<Rightarrow> nat \<Rightarrow> bool" where
  "active s i \<longleftrightarrow> i < length (sessions s) \<and> begin_of (sessions s ! i) \<noteq> 0"

abbreviation beg :: "estate \<Rightarrow> nat \<Rightarrow> nat" where
  "beg s i \<equiv> begin_of (sessions s ! i)"

fun epc_inv :: "estate \<Rightarrow> epoch_pc \<Rightarrow> bool" where
  "epc_inv s E_Sleep = True"
| "epc_inv s (E_Check cur k) = (cur = cur_epoch s \<and> (\<forall>i < k. active s i \<longrightarrow> beg s i = cur_epoch s))"
| "epc_inv s (E_Min m k) =
     ((\<forall>x. m = Some x \<longrightarrow> 1 \<le> x \<and> x \<le> cur_epoch s) \<and>
      (\<forall>i < k. active s i \<longrightarrow> (case m of None \<Rightarrow> cur_epoch s | Some x \<Rightarrow> x) \<le> beg s i))"

definition einv :: "estate \<Rightarrow> bool" where
  "einv s \<longleftrightarrow>
     1 \<le> cur_epoch s \<and> gc_epoch_val s < cur_epoch s \<and>
     (\<forall>i. active s i \<longrightarrow> beg s i \<le> cur_epoch s \<and> cur_epoch s \<le> beg s i + 1 \<and> gc_epoch_val s < beg s i) \<and>
     (\<forall>g. gc_read s = Some g \<longrightarrow> g < cur_epoch s \<and> (\<forall>i. active s i \<longrightarrow> g < beg s i)) \<and>
     epc_inv s (epc s) \<and>
     (\<forall>t x. (t, x) \<in> garbage s \<longrightarrow> x \<notin> linked s \<and> t \<le> cur_epoch s \<and> (\<forall>i. active s i \<longrightarrow> x \<in> reach s i \<longrightarrow> beg s i \<le> t + 1)) \<and>
     (\<forall>i. active s i \<longrightarrow> reach s i \<inter> freed s = {}) \<and>
     (\<forall>i. \<not> active s i \<longrightarrow> reach s i = {}) \<and>
     linked s \<inter> freed s = {}"

lemma einv_safe: "einv s \<Longrightarrow> no_use_after_free s"
  unfolding einv_def no_use_after_free_def by (metis Int_empty_left)

lemma einv_init: "einv (einit n)"
  by (auto simp: einv_def einit_def active_def)

text \<open>Steps that leave the active sessions and the memory as they are.\<close>

lemma active_upd [simp]:
  "active (s\<lparr>sessions := (sessions s)[i := x]\<rparr>) j \<longleftrightarrow>
     (if i = j \<and> i < length (sessions s) then begin_of x \<noteq> 0 else active s j)"
  by (auto simp: active_def nth_list_update)

lemma epc_inv_cong:
  assumes "cur_epoch s' = cur_epoch s" and "\<And>i. active s' i \<Longrightarrow> beg s' i = cur_epoch s \<or> active s i \<and> beg s' i = beg s i"
    and "epc_inv s (epc s)" and "epc s' = epc s"
  shows "epc_inv s' (epc s')"
proof (cases "epc s")
  case (E_Min m k)
  then have m: "\<forall>x. m = Some x \<longrightarrow> 1 \<le> x \<and> x \<le> cur_epoch s"
    and b: "\<And>i. i < k \<Longrightarrow> active s i \<Longrightarrow> (case m of None \<Rightarrow> cur_epoch s | Some x \<Rightarrow> x) \<le> beg s i"
    using assms(3) by simp_all
  have "(case m of None \<Rightarrow> cur_epoch s | Some x \<Rightarrow> x) \<le> beg s' i" if "i < k" "active s' i" for i
    using assms(2) [OF that(2)] b [OF that(1)] m by (auto split: option.splits)
  then show ?thesis using m by (simp only: epc_inv.simps assms(1,4) E_Min) blast
next
  case (E_Check cur k)
  then have c: "cur = cur_epoch s" "\<And>i. i < k \<Longrightarrow> active s i \<Longrightarrow> beg s i = cur_epoch s"
    using assms(3) by simp_all
  have "beg s' i = cur_epoch s" if "i < k" "active s' i" for i
    using assms(2) [OF that(2)] c(2) [OF that(1)] by auto
  then show ?thesis using c(1) by (simp only: epc_inv.simps assms(1,4) E_Check) blast
qed (use assms in simp)

lemma einv_session:
  assumes "einv s" and "i < length (sessions s)" and "begin_of x = 0" and "beg s i = 0"
  shows "einv (s\<lparr>sessions := (sessions s)[i := x]\<rparr>)"
proof -
  let ?s = "s\<lparr>sessions := (sessions s)[i := x]\<rparr>"
  have a: "active ?s j \<longleftrightarrow> active s j" for j using assms by (auto simp: active_def nth_list_update)
  have b: "beg ?s j = beg s j" for j using assms by (cases "j = i") simp_all
  have "epc_inv ?s (epc ?s)"
    by (rule epc_inv_cong) (use assms(1) a b in \<open>simp_all add: einv_def\<close>)
  then show ?thesis using assms(1) a b by (simp add: einv_def)
qed

lemma einv_store:
  assumes "einv s" and "i < length (sessions s)" and "beg s i = 0"
  shows "einv (s\<lparr>sessions := (sessions s)[i := Active (cur_epoch s)], reach := (reach s)(i := linked s)\<rparr>)"
    (is "einv ?s")
proof -
  have a: "active ?s j \<longleftrightarrow> j = i \<or> active s j" for j
    using assms by (auto simp: einv_def active_def nth_list_update)
  have b: "beg ?s j = (if j = i then cur_epoch s else beg s j)" for j using assms by simp
  have "epc_inv ?s (epc ?s)"
    by (rule epc_inv_cong) (use assms(1) a b in \<open>auto simp: einv_def\<close>)
  then show ?thesis using assms(1) a b by (auto simp: einv_def)
qed

lemma einv_leave:
  assumes "einv s" and "i < length (sessions s)"
  shows "einv (s\<lparr>sessions := (sessions s)[i := Idle], reach := (reach s)(i := {})\<rparr>)" (is "einv ?s")
proof -
  have a: "active ?s j \<longleftrightarrow> j \<noteq> i \<and> active s j" for j
    using assms by (auto simp: active_def nth_list_update)
  have b: "j \<noteq> i \<Longrightarrow> beg ?s j = beg s j" for j by simp
  have "epc_inv ?s (epc ?s)"
    by (rule epc_inv_cong) (use assms(1) a b in \<open>auto simp: einv_def\<close>)
  then show ?thesis using assms(1) a b by (auto simp: einv_def)
qed

lemma einv_link:
  assumes "einv s" and "x \<notin> freed s" and "x \<notin> snd ` garbage s"
  shows "einv (s\<lparr>linked := insert x (linked s),
    reach := (\<lambda>i. if i < length (sessions s) \<and> beg s i \<noteq> 0 then insert x (reach s i) else reach s i)\<rparr>)"
    (is "einv ?s")
proof -
  have a: "active ?s j \<longleftrightarrow> active s j" for j by (simp add: active_def)
  have r: "reach ?s j = (if active s j then insert x (reach s j) else reach s j)" for j
    by (simp add: active_def)
  have "epc_inv ?s (epc ?s)"
    by (rule epc_inv_cong) (use assms(1) a in \<open>auto simp: einv_def\<close>)
  moreover have "y \<noteq> x" if "(t, y) \<in> garbage s" for t y using that assms(3) by force
  ultimately show ?thesis using assms(1,2) a r unfolding einv_def by auto
qed

lemma einv_unlink:
  assumes "einv s" and "active s i" and "x \<in> linked s"
  shows "einv (s\<lparr>linked := linked s - {x}, garbage := insert (beg s i, x) (garbage s)\<rparr>)" (is "einv ?s")
proof -
  have a: "active ?s j \<longleftrightarrow> active s j" for j by (simp add: active_def)
  have "epc_inv ?s (epc ?s)"
    by (rule epc_inv_cong) (use assms(1) a in \<open>auto simp: einv_def\<close>)
  moreover have "beg s j \<le> beg s i + 1" if "active s j" for j
    using assms(1,2) that unfolding einv_def by (meson le_trans)
  moreover have "beg s i \<le> cur_epoch s" using assms(1,2) by (simp add: einv_def)
  ultimately show ?thesis using assms(1) a unfolding einv_def by auto
qed

lemma einv_free:
  assumes "einv s" and "gc_read s = Some g" and "(t, x) \<in> garbage s" and "t < g"
  shows "einv (s\<lparr>garbage := garbage s - {(t, x)}, freed := insert x (freed s)\<rparr>)" (is "einv ?s")
proof -
  have a: "active ?s j \<longleftrightarrow> active s j" for j by (simp add: active_def)
  have "epc_inv ?s (epc ?s)"
    by (rule epc_inv_cong) (use assms(1) a in \<open>auto simp: einv_def\<close>)
  moreover have "x \<notin> reach s i" if "active s i" for i
  proof
    assume "x \<in> reach s i"
    then have "beg s i \<le> t + 1" using assms(1,3) that by (auto simp: einv_def)
    moreover have "g < beg s i" using assms(1,2) that by (auto simp: einv_def)
    ultimately show False using assms(4) by simp
  qed
  moreover have "x \<notin> linked s" using assms(1,3) by (auto simp: einv_def)
  ultimately show ?thesis using assms(1) a unfolding einv_def by auto
qed

text \<open>Steps that change only the epoch thread and the counters.\<close>

lemma einv_counters:
  assumes "einv s" and "1 \<le> c" and "g < c" and "\<And>i. active s i \<Longrightarrow> beg s i \<le> c \<and> c \<le> beg s i + 1 \<and> g < beg s i"
    and "cur_epoch s \<le> c" and "epc_inv (s\<lparr>cur_epoch := c\<rparr>) pc"
    and "\<And>r. gr = Some r \<Longrightarrow> r < c \<and> (\<forall>i. active s i \<longrightarrow> r < beg s i)"
  shows "einv (s\<lparr>cur_epoch := c, gc_epoch_val := g, epc := pc, gc_read := gr\<rparr>)" (is "einv ?s")
proof -
  have a: "active ?s j \<longleftrightarrow> active s j" "active (s\<lparr>cur_epoch := c\<rparr>) j \<longleftrightarrow> active s j" for j
    by (simp_all add: active_def)
  have "epc_inv ?s pc"
    using assms(6) a by (cases pc) (simp_all cong: option.case_cong)
  moreover have "t \<le> c" if "(t, x) \<in> garbage s" for t x
    using assms(1,5) that unfolding einv_def by (meson le_trans)
  ultimately show ?thesis
    using assms(1-4,7) a unfolding einv_def by auto
qed

lemma einv_epoch_thread:
  assumes "einv s" and "estep True a s = Some s'" and "a \<in> {Epoch_Start, Epoch_Check, Epoch_Inc, Epoch_Min, Epoch_Set, Gc_Start}"
  shows "einv s'"
proof -
  have inv: "1 \<le> cur_epoch s" "gc_epoch_val s < cur_epoch s" "epc_inv s (epc s)"
    "\<And>i. active s i \<Longrightarrow> beg s i \<le> cur_epoch s \<and> cur_epoch s \<le> beg s i + 1 \<and> gc_epoch_val s < beg s i"
    "\<And>r. gc_read s = Some r \<Longrightarrow> r < cur_epoch s \<and> (\<forall>i. active s i \<longrightarrow> r < beg s i)"
    using assms(1) by (simp_all add: einv_def)
  note keep = einv_counters [OF assms(1), of "cur_epoch s" "gc_epoch_val s" _ "gc_read s"]
  consider "a = Epoch_Start" | "a = Epoch_Check" | "a = Epoch_Inc" | "a = Epoch_Min" | "a = Epoch_Set"
    | "a = Gc_Start" using assms(3) by blast
  then show ?thesis
  proof cases
    case 1
    then have "s' = s\<lparr>epc := E_Check (cur_epoch s) 0\<rparr>" using assms(2) by (simp split: if_splits)
    then show ?thesis using keep [of "E_Check (cur_epoch s) 0"] inv by simp
  next
    case 2
    then obtain cur k where e: "epc s = E_Check cur k" "k < length (sessions s)"
      and s': "s' = s\<lparr>epc := E_Sleep\<rparr> \<or>
        (beg s k = 0 \<or> beg s k = cur) \<and> s' = s\<lparr>epc := E_Check cur (k + 1)\<rparr>"
      using assms(2) by (auto simp: Let_def split: epoch_pc.splits if_splits)
    from s' show ?thesis
    proof
      assume "s' = s\<lparr>epc := E_Sleep\<rparr>"
      then show ?thesis using keep [of E_Sleep] inv by simp
    next
      assume k: "(beg s k = 0 \<or> beg s k = cur) \<and> s' = s\<lparr>epc := E_Check cur (k + 1)\<rparr>"
      have "epc_inv s (E_Check cur (k + 1))"
        using k inv(3) e by (auto simp: less_Suc_eq active_def)
      then show ?thesis using k keep [of "E_Check cur (k + 1)"] inv by simp
    qed
  next
    case 3
    then obtain cur where e: "epc s = E_Check cur (length (sessions s))"
      and s': "s' = s\<lparr>cur_epoch := cur_epoch s + 1, epc := E_Min None 0\<rparr>"
      using assms(2) by (auto split: epoch_pc.splits if_splits)
    have b: "beg s i = cur_epoch s" if "active s i" for i
      using inv(3) e that by (auto simp: active_def)
    have "einv (s\<lparr>cur_epoch := cur_epoch s + 1, gc_epoch_val := gc_epoch_val s, epc := E_Min None 0,
        gc_read := gc_read s\<rparr>)"
      using inv(1,2,4,5) b by (intro einv_counters [OF assms(1)]) (auto simp: less_SucI)
    then show ?thesis using s' by simp
  next
    case 4
    then obtain m k where e: "epc s = E_Min m k" "k < length (sessions s)"
      and s': "s' = s\<lparr>epc := E_Min (min_opt m (beg s k)) (k + 1)\<rparr>"
      using assms(2) by (auto split: epoch_pc.splits if_splits)
    have "epc_inv s (E_Min (min_opt m (beg s k)) (k + 1))"
    proof (cases "beg s k = 0")
      case True
      then show ?thesis using inv(3) e by (auto simp: less_Suc_eq active_def)
    next
      case False
      then have "active s k" using e by (simp add: active_def)
      then have "beg s k \<le> cur_epoch s" using inv(4) by blast
      then show ?thesis
        using False inv(3) e by (cases m) (auto simp: less_Suc_eq min_le_iff_disj dest: order_trans)
    qed
    then show ?thesis using s' keep [of "E_Min (min_opt m (beg s k)) (k + 1)"] inv by simp
  next
    case 5
    then obtain m where e: "epc s = E_Min m (length (sessions s))"
      and s': "s' = s\<lparr>gc_epoch_val := (case m of Some x \<Rightarrow> x - 1 | None \<Rightarrow> cur_epoch s - 1), epc := E_Sleep\<rparr>"
      using assms(2) by (auto split: epoch_pc.splits if_splits)
    let ?g = "case m of Some x \<Rightarrow> x - 1 | None \<Rightarrow> cur_epoch s - 1"
    have "?g < cur_epoch s" "\<And>i. active s i \<Longrightarrow> ?g < beg s i"
      using inv(1,3) e by (cases m; fastforce simp: active_def)+
    then have "einv (s\<lparr>cur_epoch := cur_epoch s, gc_epoch_val := ?g, epc := E_Sleep, gc_read := gc_read s\<rparr>)"
      using inv by (intro einv_counters [OF assms(1)]) auto
    then show ?thesis using s' by simp
  next
    case 6
    then have "s' = s\<lparr>gc_read := Some (gc_epoch_val s)\<rparr>" using assms(2) by simp
    moreover have "einv (s\<lparr>cur_epoch := cur_epoch s, gc_epoch_val := gc_epoch_val s, epc := epc s,
        gc_read := Some (gc_epoch_val s)\<rparr>)"
      using inv by (intro einv_counters [OF assms(1)]) auto
    ultimately show ?thesis by simp
  qed
qed

lemma einv_step:
  assumes "einv s" and "estep True a s = Some s'"
  shows "einv s'"
proof (cases a)
  case (Gain i)
  then show ?thesis using assms einv_session [of s i Gained] by (auto split: if_splits)
next
  case (Load i)
  then show ?thesis using assms einv_session [of s i "Loaded (cur_epoch s)"] by (auto split: if_splits)
next
  case (Store i)
  then show ?thesis using assms einv_store [of s i] by (auto split: if_splits session.splits)
next
  case (Leave i)
  then show ?thesis using assms einv_leave [of s i] by (auto split: if_splits session.splits)
next
  case (Link x)
  then show ?thesis using assms einv_link [of s x] by (auto split: if_splits)
next
  case (Unlink i x)
  then show ?thesis using assms einv_unlink [of s i x] by (auto simp: active_def split: if_splits)
next
  case (Gc_Free t x)
  then show ?thesis using assms einv_free [of s _ t x] by (auto split: if_splits option.splits)
qed (rule einv_epoch_thread [OF assms], simp)+

lemma einv_run: "foldM (estep True) acts s = Some s' \<Longrightarrow> einv s \<Longrightarrow> einv s'"
  by (induction acts arbitrary: s) (auto simp: bind_eq_Some intro: einv_step)

section \<open>Properties\<close>

text \<open>
  C25. Reclamation is safe as long as no epoch passes between the two halves of \<^verbatim>\<open>enter\<close>:
  in every interleaving of sessions entering, linking, unlinking and leaving with the epoch
  thread, which looks at the sessions one by one, and the collector, which may use an old
  collection epoch, no session can reach an object that has been released.
\<close>

theorem reclamation_safe:
  assumes "erun True n acts = Some s"
  shows "no_use_after_free s"
  using einv_run [of acts "einit n" s] einv_init einv_safe assms by (simp add: erun_def)

text \<open>A session reads an object, another unlinks it and it is collected two epochs later.\<close>

definition epoch_round :: "nat \<Rightarrow> action list" where
  "epoch_round n = Epoch_Start # replicate n Epoch_Check @ [Epoch_Inc] @ replicate n Epoch_Min @ [Epoch_Set]"

definition collected_run :: "action list" where
  "collected_run = [Link 7, Gain 0, Load 0, Store 0, Unlink 0 7, Leave 0] @
     epoch_round 1 @ epoch_round 1 @ [Gc_Start, Gc_Free 1 7]"

theorem reclamation_safe_witness:
  "\<exists>s. erun True 1 collected_run = Some s \<and> no_use_after_free s"
proof -
  have "\<not> Option.is_none (erun True 1 collected_run)" by code_simp
  then obtain s where "erun True 1 collected_run = Some s"
    by (cases "erun True 1 collected_run") auto
  then show ?thesis using reclamation_safe by blast
qed

definition late_store_run :: "action list" where
  "late_store_run = [Link 7, Gain 0, Load 0] @ epoch_round 2 @ epoch_round 2 @
     [Gain 1, Load 1, Store 1, Store 0, Unlink 0 7, Gc_Start, Gc_Free 1 7]"

text \<open>
  The sources do not keep the two halves together: \<^verbatim>\<open>assign_thread_info\<close> loads the epoch
  and stores it later. A session that is delayed in between enters with an epoch that is
  long over, its garbage carries that epoch as the tag, and the collector releases it
  although another session can still reach it: one such run.
\<close>

lemma late_store_use_after_free:
  "\<exists>s. erun False 2 late_store_run = Some s \<and> sessions s = [Active 1, Active 3] \<and>
     7 \<in> reach s 1 \<and> 7 \<in> freed s \<and> \<not> no_use_after_free s"
proof -
  have "case erun False 2 late_store_run of None \<Rightarrow> False | Some s \<Rightarrow>
      sessions s = [Active 1, Active 3] \<and> 7 \<in> reach s 1 \<and> 7 \<in> freed s"
    by code_simp
  then obtain s where s: "erun False 2 late_store_run = Some s" "sessions s = [Active 1, Active 3]"
    "7 \<in> reach s 1" "7 \<in> freed s"
    by (auto split: option.splits)
  then have "\<not> no_use_after_free s" by (auto simp: no_use_after_free_def)
  then show ?thesis using s by blast
qed

end
