(* ===== verification/Destroy_Manager.thy ===== *)
theory Destroy_Manager
  imports Atomic
begin

text \<open>
  \<^verbatim>\<open>include/destroy_manager.h\<close>: the count of helper threads that destroy subtrees, bounded by
  the hardware concurrency. \<^verbatim>\<open>check_room\<close> is a compare-and-exchange loop that runs against
  the other threads' updates of the counter.
\<close>

definition check_room_desired :: "64 word \<Rightarrow> 64 word \<Rightarrow> 64 word option" where
  "check_room_desired hardware_concurrency expected =
     (if expected \<ge> hardware_concurrency then None else Some (expected + 1))"

text \<open>The result is the returned flag and the counter afterwards.\<close>

definition check_room ::
  "64 word \<Rightarrow> (bool \<times> (64 word \<Rightarrow> 64 word)) list \<Rightarrow> 64 word \<Rightarrow> (bool \<times> 64 word) option" where
  "check_room hardware_concurrency sch num =
     map_option (\<lambda>(e, w). (e \<noteq> None, w))
       (cas_loop (=) (check_room_desired hardware_concurrency) sch num num)"

definition return_room :: "64 word \<Rightarrow> 64 word" where
  "return_room num = num - 1"

text \<open>
  C34. A room is granted only below the limit and is counted exactly once, whatever the
  other threads do in between: a success replaces the counter they left by its successor,
  which is at most the limit; a refusal leaves it and means that the limit was reached.
\<close>

theorem check_room_bounded:
  assumes "check_room hw sch num = Some (granted, w)"
  shows "\<exists>k \<le> length sch. let cur = env_after sch k num in
    if granted then cur < hw \<and> w = cur + 1 \<and> w \<le> hw else hw \<le> cur \<and> w = cur"
proof -
  obtain e where c: "cas_loop (=) (check_room_desired hw) sch num num = Some (e, w)" "granted = (e \<noteq> None)"
    using assms by (auto simp: check_room_def)
  show ?thesis
  proof (cases e)
    case None
    obtain k where k: "k < length sch" "w = env_after sch k num"
      "if k = 0 then check_room_desired hw num = None else check_room_desired hw (env_after sch k num) = None"
      using plain_cell.cas_loop_left [OF c(1) [unfolded None]] by blast
    then have "hw \<le> env_after sch k num"
      by (cases "k = 0") (auto simp: check_room_desired_def env_after_def split: if_splits)
    then show ?thesis using k c(2) None by (intro exI [of _ k]) (simp add: Let_def)
  next
    case (Some x)
    obtain k where k: "k < length sch" "x = env_after sch (Suc k) num" "check_room_desired hw x = Some w"
      using plain_cell.cas_loop_linear [OF c(1) [unfolded Some]] by blast
    then have "x < hw" "w = x + 1" by (auto simp: check_room_desired_def not_le split: if_splits)
    moreover from this have "w \<le> hw" by (simp add: inc_le)
    ultimately show ?thesis using k c(2) Some by (intro exI [of _ "Suc k"]) (simp add: Let_def)
  qed
qed

theorem check_room_bounded_witness:
  "\<exists>k \<le> length [(False, \<lambda>x :: 64 word. x + 1), (False, id)].
    let cur = env_after [(False, \<lambda>x. x + 1), (False, id)] k (1 :: 64 word) in
    if True then cur < 4 \<and> 3 = cur + 1 \<and> 3 \<le> (4 :: 64 word) else 4 \<le> cur \<and> 3 = cur"
proof -
  have "check_room 4 [(False, \<lambda>x. x + 1), (False, id)] 1 = Some (True, 3)" by code_simp
  from check_room_bounded [OF this] show ?thesis .
qed

section \<open>The rooms in use\<close>

text \<open>
  Any number of threads call \<^verbatim>\<open>check_room\<close>, one load or one compare-and-exchange per step,
  in any interleaving. A thread that is granted a room starts a helper thread, and
  \<^verbatim>\<open>return_room\<close> is called once for each helper: after joining it in \<^verbatim>\<open>border_node::destroy\<close>
  and \<^verbatim>\<open>interior_node::destroy\<close>, at its end in \<^verbatim>\<open>thread_info_table::fin\<close>. \<open>helpers\<close> counts
  the helpers for which that call is still to come, and only that call is guarded by it.
  \<^verbatim>\<open>compare_exchange_weak\<close> may fail on an equal value.
\<close>

datatype room_pc = Outside | Checking "64 word"

record room_state =
  destroy_threads_num :: "64 word"
  room_pcs :: "nat \<Rightarrow> room_pc"
  helpers :: nat

definition room_init :: room_state where
  "room_init = \<lparr>destroy_threads_num = 0, room_pcs = (\<lambda>_. Outside), helpers = 0\<rparr>"

inductive room_step :: "64 word \<Rightarrow> room_state \<Rightarrow> room_state \<Rightarrow> bool" for hw where
  room_load: "room_pcs s t = Outside \<Longrightarrow>
    room_step hw s (s\<lparr>room_pcs := (room_pcs s)(t := Checking (destroy_threads_num s))\<rparr>)"
| room_refused: "room_pcs s t = Checking e \<Longrightarrow> check_room_desired hw e = None \<Longrightarrow>
    room_step hw s (s\<lparr>room_pcs := (room_pcs s)(t := Outside)\<rparr>)"
| room_cas_ok: "room_pcs s t = Checking e \<Longrightarrow> check_room_desired hw e = Some d \<Longrightarrow>
    destroy_threads_num s = e \<Longrightarrow>
    room_step hw s (s\<lparr>destroy_threads_num := d, room_pcs := (room_pcs s)(t := Outside),
                      helpers := Suc (helpers s)\<rparr>)"
| room_cas_fail: "room_pcs s t = Checking e \<Longrightarrow> check_room_desired hw e = Some d \<Longrightarrow>
    room_step hw s (s\<lparr>room_pcs := (room_pcs s)(t := Checking (destroy_threads_num s))\<rparr>)"
| room_returned: "0 < helpers s \<Longrightarrow>
    room_step hw s (s\<lparr>destroy_threads_num := return_room (destroy_threads_num s),
                      helpers := helpers s - 1\<rparr>)"

inductive_cases room_stepE: "room_step hw s s'"

abbreviation room_steps :: "64 word \<Rightarrow> room_state \<Rightarrow> room_state \<Rightarrow> bool" where
  "room_steps hw \<equiv> (room_step hw)\<^sup>*\<^sup>*"

definition rooms_inv :: "64 word \<Rightarrow> room_state \<Rightarrow> bool" where
  "rooms_inv hw s \<longleftrightarrow> unat (destroy_threads_num s) = helpers s \<and> helpers s \<le> unat hw"

lemma check_room_desired_Some:
  "check_room_desired hw e = Some d \<Longrightarrow> unat d = Suc (unat e) \<and> Suc (unat e) \<le> unat hw"
proof -
  assume "check_room_desired hw e = Some d"
  then have d: "d = e + 1" and l: "unat e < unat hw"
    by (auto simp: check_room_desired_def word_le_nat_alt split: if_splits)
  have "unat hw < 2 ^ 64" using unsigned_less [of hw, where 'a = nat] by simp
  with d l show ?thesis by (simp add: unat_word_ariths)
qed

lemma return_room_unat: "0 < unat n \<Longrightarrow> unat (return_room n) = unat n - 1"
proof -
  assume "0 < unat n"
  then have "1 \<le> n" by (simp add: word_le_nat_alt)
  then show ?thesis by (simp add: return_room_def unat_sub)
qed

lemma room_step_inv: "room_step hw s s' \<Longrightarrow> rooms_inv hw s \<Longrightarrow> rooms_inv hw s'"
  by (erule room_stepE) (auto simp: rooms_inv_def return_room_unat dest: check_room_desired_Some)

text \<open>
  C35. However the calls of \<^verbatim>\<open>check_room\<close> and \<^verbatim>\<open>return_room\<close> interleave, the counter is at all
  times the number of helper threads that hold a room, and that number never exceeds the
  hardware concurrency: no grant is lost or counted twice, and the decrement never wraps.
\<close>

theorem rooms_bounded:
  assumes "room_steps hw room_init s"
  shows "unat (destroy_threads_num s) = helpers s \<and> helpers s \<le> unat hw"
proof -
  have "rooms_inv hw s"
    using assms
  proof (induction rule: rtranclp_induct)
    case base
    show ?case by (simp add: rooms_inv_def room_init_def)
  next
    case (step u v)
    show ?case by (rule room_step_inv [OF step.hyps(2) step.IH])
  qed
  then show ?thesis by (simp add: rooms_inv_def)
qed

text \<open>
  A run with room for one helper: two threads load the counter, the first takes the room,
  the exchange of the second fails and it is then refused.
\<close>

definition rooms_run :: room_state where
  "rooms_run = \<lparr>destroy_threads_num = 1, room_pcs = (\<lambda>_. Outside), helpers = 1\<rparr>"

lemma rooms_run_reachable: "room_steps 1 room_init rooms_run"
proof -
  let ?s1 = "room_init\<lparr>room_pcs := (\<lambda>_. Outside)(0 := Checking 0)\<rparr>"
  let ?s2 = "room_init\<lparr>room_pcs := (\<lambda>_. Outside)(0 := Checking 0, 1 := Checking 0)\<rparr>"
  let ?s3 = "rooms_run\<lparr>room_pcs := (\<lambda>_. Outside)(1 := Checking 0)\<rparr>"
  let ?s4 = "rooms_run\<lparr>room_pcs := (\<lambda>_. Outside)(1 := Checking 1)\<rparr>"
  note d = room_init_def rooms_run_def check_room_desired_def fun_upd_twist
  have "room_step 1 room_init ?s1" using room_step.room_load [of room_init 0] by (simp add: d)
  moreover have "room_step 1 ?s1 ?s2" using room_step.room_load [of ?s1 1] by (simp add: d)
  moreover have "room_step 1 ?s2 ?s3" using room_step.room_cas_ok [of ?s2 0 0 1 1] by (simp add: d)
  moreover have "room_step 1 ?s3 ?s4" using room_step.room_cas_fail [of ?s3 1 0 1 1] by (simp add: d)
  moreover have "room_step 1 ?s4 rooms_run" using room_step.room_refused [of ?s4 1 1 1] by (simp add: d)
  ultimately show ?thesis by (meson converse_rtranclp_into_rtranclp rtranclp.rtrancl_refl)
qed

theorem rooms_bounded_witness:
  "unat (destroy_threads_num rooms_run) = 1 \<and> helpers rooms_run \<le> unat (1 :: 64 word)"
  using rooms_bounded [OF rooms_run_reachable] by (simp add: rooms_run_def)

end
