(* ===== verification/Spec2Isabelle.thy ===== *)
theory Spec2Isabelle
  imports Version_Protocol Scan_Limits Stale_Links Storage_Scan Epoch Destroy_Manager
begin

text \<open>
  A verification of \<^verbatim>\<open>yakushima\<close>, an in-memory ordered key-value index (a Masstree): a trie of
  B+ trees in which every layer indexes eight bytes of the key. The headers are under
  \<^verbatim>\<open>src/include/\<close>.

  \<^bold>\<open>The program.\<close> A \<^emph>\<open>storage\<close> has a name and a tree instance; the storages themselves are the
  values of one more tree. A tree is made of \<^emph>\<open>border nodes\<close> (up to 15 entries of a key slice, a
  length and a link or value word, ordered by a packed permutation, linked to their
  neighbours) and \<^emph>\<open>interior nodes\<close> (up to 15 pivots and 16 children). An entry of a key longer
  than eight bytes links to the root of the next layer. Every node carries a version word: a
  spin lock, dirty bits, counters and the flags deleted, root and border. Readers take no lock
  and compare versions; writers lock. Removed nodes and values go to the garbage container of
  the session; an epoch thread and a collector release them when no session can reach them.

  \<^bold>\<open>Theories and sources.\<close>

  \<^item> \<open>Prelude\<close>: array access with explicit failure, list surgery, loops that jump between
    labels (\<open>run\<close> over \<open>Goto\<close> and \<open>Return\<close>), word lemmas.
  \<^item> \<open>Scheme\<close> (\<^verbatim>\<open>scheme.h\<close>), \<open>Key_Slice\<close> and \<open>Key_Search\<close> (\<^verbatim>\<open>base_node.h\<close> and the comparison idioms
    of the node classes), \<open>Permutation\<close> (\<^verbatim>\<open>permutation.h\<close>), \<open>Atomic\<close> (compare-exchange loops),
    \<open>Version\<close> and \<open>Version_Protocol\<close> (\<^verbatim>\<open>version.h\<close>), \<open>Value\<close> (\<^verbatim>\<open>value.h\<close>), \<open>Link_Or_Value\<close>
    (\<^verbatim>\<open>link_or_value.h\<close>), \<open>Garbage_Collection\<close> (\<^verbatim>\<open>garbage_collection.h\<close>, \<^verbatim>\<open>thread_info.h\<close>).
  \<^item> \<open>Base_Node\<close>, \<open>Border_Node\<close>, \<open>Interior_Node\<close>: the three node classes as records, one
    definition for each member function.
  \<^item> \<open>Heap\<close>: nodes and value pages behind addresses, an allocator, tree instances, sessions.
    \<open>Split\<close> (\<^verbatim>\<open>border_helper.h\<close>, \<^verbatim>\<open>interior_helper.h\<close>) and \<open>Deletion\<close> (\<^verbatim>\<open>delete_of\<close> of both node
    classes) change several nodes.
  \<^item> \<open>Interface\<close>: \<^verbatim>\<open>find_border\<close>, \<^verbatim>\<open>get\<close>, \<^verbatim>\<open>put\<close>, \<^verbatim>\<open>remove\<close>, each as a step function over the labels
    of the source's gotos. \<open>Scan\<close>: \<^verbatim>\<open>scan_helper.h\<close>, \<^verbatim>\<open>interface_scan.h\<close>.
  \<^item> \<open>Storage\<close>: sessions, \<^verbatim>\<open>destroy\<close>, memory statistics, and the storages by name.
  \<^item> \<open>Epoch\<close> (\<^verbatim>\<open>manager_thread.h\<close>, \<^verbatim>\<open>epoch.h\<close>), \<open>Destroy_Manager\<close> (\<^verbatim>\<open>destroy_manager.h\<close>).
  \<^item> \<open>Tree_Model\<close>, \<open>Tree_Heap\<close>, \<open>Scan_Refinement\<close>: the abstract tree, when a heap holds it, and
    the refinement of \<^verbatim>\<open>get\<close> and \<^verbatim>\<open>scan\<close> to lookup and range query on the map from byte strings
    to values that the tree stands for.

  \<^item> The refinement of \<^verbatim>\<open>put\<close>, bottom up. \<open>Tree_Path\<close>: the path from the root of a layer to a leaf
    and how the layer grows when a subtree at its end is split. \<open>Tree_Frame\<close>: which nodes and
    pages a tree depends on. \<open>Insert_Refinement\<close>: \<^verbatim>\<open>insert_lv_at\<close> and the layers it makes for a
    long key. \<open>Split_State\<close>, \<open>Interior_Halves\<close>, \<open>Interior_Split\<close>, \<open>Split_End\<close>: the heap in the middle
    of a split, \<^verbatim>\<open>interior_split\<close> up to a new root or a new root of a lower layer.
    \<open>Border_Halves\<close>, \<open>Border_Moved\<close>, \<open>Border_Placed\<close>, \<open>Border_End\<close>, \<open>Border_Split\<close>: \<^verbatim>\<open>border_split\<close>, the
    loop that moves entries, the choice of the side, the parent. \<open>Leaf_Links\<close>: the linked list of
    the leaves and the words in unused slots. \<open>Layer_Put\<close>, \<open>Insert_Step\<close>, \<open>Layer_Lift\<close>: one layer
    before and after an insertion, and a layer whose entry changes. \<open>Put_Layer\<close>: \<^verbatim>\<open>put\<close> through all
    layers. \<open>Put_Refinement\<close>: \<^verbatim>\<open>put\<close> on a tree instance.
  \<^item> The refinement of \<^verbatim>\<open>remove\<close>. \<open>Tree_Prune\<close>: a layer without the leaf at the end of a path.
    \<open>Prune_Interior\<close>, \<open>Prune_Step\<close>, \<open>Prune_Branch\<close>: \<^verbatim>\<open>delete_of\<close> of an interior node, which stays with
    a child less or makes place for its last child. \<open>Remove_Entry\<close>: the entry that \<^verbatim>\<open>delete_of\<close> of a
    border node finds and \<^verbatim>\<open>delete_at\<close>. \<open>Remove_Links\<close>: an empty leaf leaves the list of leaves.
    \<open>Remove_Border\<close>, \<open>Remove_Leaf\<close>, \<open>Remove_Cases\<close>, \<open>Remove_Pruned\<close>: the four ends of \<^verbatim>\<open>delete_of\<close> of a
    border node (the leaf stays, the root leaf stays empty, the layer is pruned, the layer is
    gone). \<open>Remove_Layer\<close>: \<^verbatim>\<open>remove\<close> through all layers. \<open>Remove_Refinement\<close>: \<^verbatim>\<open>remove\<close> on a tree
    instance.
  \<^item> \<open>Put_Trace\<close>: the states that sequences of calls of \<^verbatim>\<open>put\<close> and \<^verbatim>\<open>remove\<close> reach.
  \<^item> \<open>Destroy_Tree\<close>: \<^verbatim>\<open>destroy\<close> of a whole tree. \<open>Storage_Forest\<close>: the trees of all storages and the
    tree of storages side by side, and what a call on one of them, the creation of a storage and
    its destruction do to the others. \<open>Storage_Refinement\<close>: the operations of \<^verbatim>\<open>storage_impl.h\<close> and
    the calls that name a storage, and the states that sequences of them reach. \<open>Storage_Scan\<close>:
    scanning a storage by its name, listing the storages, and \<^verbatim>\<open>destroy\<close> of all of them, in these
    states.
  \<^item> \<open>Scan_Limits\<close>, \<open>Stale_Links\<close>: runs in which \<^verbatim>\<open>scan\<close> exceeds its limit and leaves out an entry, misses entries left of an
    ignored left key, and in which a link left behind in a freed slot is taken for one in use.

  \<^bold>\<open>What the lemmas show.\<close> The key order: comparing slices, lengths and rests is comparing byte
  strings. Permutation and nodes: every operation on the packed words and arrays refines the
  operation on the sorted list of entries, pivots or children. The version word: mutual
  exclusion of the lock under any interleaving; consistency of optimistic reads as long as the
  lock holders write only under a dirty bit (deletions from border nodes, overwritten values
  and children replaced in a parent do not, and are not covered), with the wrap-around of the
  counters stated exactly. Garbage: every node and page pushed is released once and in order,
  by the collector or by \<^verbatim>\<open>fin\<close>. Helper threads: never more than the hardware concurrency.
  Reclamation: no session reaches a released object provided the two halves of entering a session see the same epoch; a run shows that the
  proviso is needed. Trees: \<^verbatim>\<open>get\<close> and \<^verbatim>\<open>scan\<close> on trees of any number of layers are lookup and range
  query in a map, \<^verbatim>\<open>put\<close> is the update of that map and \<^verbatim>\<open>remove\<close> the deletion from it, with the
  invariant of the tree kept and everything taken out handed to the session once, and a storage
  that starts empty answers every \<^verbatim>\<open>get\<close> with the bytes of the last \<^verbatim>\<open>put\<close> unless the key was
  removed since. Storages: every storage is a map of its own. The instance of a storage is found
  under its name, no call on one storage and no creation or deletion of another one changes what
  it holds; a scan of it returns its keys in the order of the byte strings, the list of
  storages is exact, and \<^verbatim>\<open>destroy\<close> releases all nodes and value pages of a tree, each of
  them once, and nothing else. Addresses that were released are not used again in these runs; \<open>Stale_Links\<close>
  shows what goes wrong when they are.

  \<^bold>\<open>Bounds and fuel.\<close> Loops that can retry forever are \<open>partial_function (option)\<close>; running
  forever, a dereferenced null pointer and an index out of range are \<open>None\<close>, so a theorem with
  \<open>Some\<close> on the right says that the code returns. The recursion of \<^verbatim>\<open>scan\<close> through the layers
  is bounded by a depth; any depth from the number of nested layers on gives the same result.
  Integers have the width of the source: 64-bit slices and permutations, 29-bit version
  counters, 8-bit key lengths and key counts, 32-bit value lengths.

  \<^bold>\<open>Not modelled.\<close> Output functions (\<^verbatim>\<open>display\<close>, \<^verbatim>\<open>operator<<\<close>), logging, the clock and the
  configuration constants; starting and joining the background threads and their sleep times;
  memory orderings weaker than sequential consistency; two tree operations running at the same
  time (interleavings are modelled for the version word, the atomic counters, the sessions and
  the collector, and tree operations run one at a time); benchmarks, tests and tools.
\<close>

end
